(* ===== verification/Prelude.thy ===== *)
theory Prelude
  imports Main "HOL-Library.Word"
begin

text \<open>
  Shared vocabulary of the development: the machine integer types of the
  program (an ILP32, little-endian Linux target, see the header of the root
  theory), the result type of code that may stop instead of returning, and
  the generic facts on lists and words used by several components.
\<close>

unbundle bit_operations_syntax

section \<open>Types\<close>

type_synonym byte = "8 word"
type_synonym u8 = "8 word"
type_synonym u16 = "16 word"
type_synonym u32 = "32 word"
type_synonym bytes = "byte list"
type_synonym ptr = nat
type_synonym tid = nat
type_synonym fd = int

named_theorems codec_simps \<open>sizes and round trips of the struct layouts\<close>
named_theorems run_simps \<open>unfolding of the sequencing combinators\<close>

section \<open>Code that may not return\<close>

text \<open>
  A call either returns a value and a state, or stops for one of these reasons:
  undefined behaviour (a NULL, dangling or out-of-range access), waiting for an
  answer of the kernel or for a mutex that another thread holds, waiting for a
  mutex the thread itself holds, a loop over a corrupt list that never ends, ending the
  process, ending the thread.
\<close>

datatype halt = UB | Waiting | SelfDeadlock | Diverges | Exit int | Cancelled

datatype ('s, 'a) run = Ret 'a 's | Stop halt 's

fun bind_run :: "('s, 'a) run \<Rightarrow> ('a \<Rightarrow> 's \<Rightarrow> ('s, 'b) run) \<Rightarrow> ('s, 'b) run" where
  "bind_run (Ret x s) f = f x s"
| "bind_run (Stop h s) f = Stop h s"

lemma bind_run_cong [fundef_cong]:
  "m = m' \<Longrightarrow> (\<And>x s. m' = Ret x s \<Longrightarrow> f x s = f' x s) \<Longrightarrow> bind_run m f = bind_run m' f'"
  by (cases m') auto

text \<open>Run a call on a component of a larger state.\<close>

fun lift_run :: "('t \<Rightarrow> 's) \<Rightarrow> ('t, 'a) run \<Rightarrow> ('s, 'a) run" where
  "lift_run g (Ret x t) = Ret x (g t)"
| "lift_run g (Stop h t) = Stop h (g t)"

lemma bind_run_assoc [run_simps]:
  "bind_run (bind_run m f) g = bind_run m (\<lambda>x s. bind_run (f x s) g)"
  by (cases m) auto

lemma bind_run_Ret_iff:
  "bind_run m f = Ret y s' \<longleftrightarrow> (\<exists>x s. m = Ret x s \<and> f x s = Ret y s')"
  by (cases m) auto

lemma lift_run_Ret_iff: "lift_run g m = Ret x s \<longleftrightarrow> (\<exists>t. m = Ret x t \<and> s = g t)"
  by (cases m) auto

section \<open>Lists\<close>

lemma slice_length: "i + n \<le> length xs \<Longrightarrow> length (take n (drop i xs)) = n"
  by simp

end
