(* ===== verification/Wire.thy ===== *)
theory Wire
  imports Prelude
begin

text \<open>
  The packet formats of \<^verbatim>\<open>proxy.h\<close>: packet type numbers, the packed structs, and the
  bytes they occupy in memory and on the wire. The target is ILP32 and
  little-endian: \<^verbatim>\<open>struct timespec\<close> has two 32 bit fields, an integer is stored
  least significant byte first, and \<open>htons\<close>/\<open>htonl\<close> swap bytes. A struct that is
  cast to or from a byte buffer is modelled by an encoder and a decoder; the
  \<open>layout\<close> locale states what every such pair promises.
\<close>

section \<open>Byte order\<close>

definition u16_bytes :: "u16 \<Rightarrow> bytes" where
  "u16_bytes x = [ucast x, ucast (drop_bit 8 x)]"

definition u16_of :: "bytes \<Rightarrow> u16" where
  "u16_of bs = ucast (bs ! 0) OR push_bit 8 (ucast (bs ! 1))"

definition u32_bytes :: "u32 \<Rightarrow> bytes" where
  "u32_bytes x = [ucast x, ucast (drop_bit 8 x), ucast (drop_bit 16 x), ucast (drop_bit 24 x)]"

definition u32_of :: "bytes \<Rightarrow> u32" where
  "u32_of bs = ucast (bs ! 0) OR push_bit 8 (ucast (bs ! 1))
     OR push_bit 16 (ucast (bs ! 2)) OR push_bit 24 (ucast (bs ! 3))"

definition htons :: "u16 \<Rightarrow> u16" where
  "htons x = u16_of (rev (u16_bytes x))"

definition ntohs :: "u16 \<Rightarrow> u16" where
  "ntohs x = u16_of (rev (u16_bytes x))"

definition htonl :: "u32 \<Rightarrow> u32" where
  "htonl x = u32_of (rev (u32_bytes x))"

definition ntohl :: "u32 \<Rightarrow> u32" where
  "ntohl x = u32_of (rev (u32_bytes x))"

section \<open>Packet types\<close>

definition DATA :: u16 where "DATA = 0xABCD"
definition LEAVE :: u16 where "LEAVE = 0xAB01"
definition QUIT :: u16 where "QUIT = 0xAB12"
definition LINK_STATE :: u16 where "LINK_STATE = 0xABAC"
definition RTT_PROBE_REQUEST :: u16 where "RTT_PROBE_REQUEST = 0xAB34"
definition RTT_PROBE_RESPONSE :: u16 where "RTT_PROBE_RESPONSE = 0xAB35"
definition PROXY_PUBLIC_KEY :: u16 where "PROXY_PUBLIC_KEY = 0xAB21"
definition SIGNED_DATA :: u16 where "SIGNED_DATA = 0xABC1"
definition PROXY_SECRET_KEY :: u16 where "PROXY_SECRET_KEY = 0xAB2"
definition ENCRYPTED_DATA :: u16 where "ENCRYPTED_DATA = 0xABC2"
definition ENCRYPTED_LINK_STATE :: u16 where "ENCRYPTED_LINK_STATE = 0xABAB"
definition SIGNED_LINK_STATE :: u16 where "SIGNED_LINK_STATE = 0xABAD"
definition BANDWIDTH_PROBE_REQUEST :: u16 where "BANDWIDTH_PROBE_REQUEST = 0xAB45"
definition BANDWIDTH_PROBE_RESPONSE :: u16 where "BANDWIDTH_PROBE_RESPONSE = 0xAB46"

definition PROXY_HLEN :: nat where "PROXY_HLEN = 4"
definition QUIT_LEN :: nat where "QUIT_LEN = 20"
definition ETH_ALEN :: nat where "ETH_ALEN = 6"
definition ETH_FRAME_LEN :: nat where "ETH_FRAME_LEN = 1514"

lemmas packet_type_defs = DATA_def LEAVE_def QUIT_def LINK_STATE_def RTT_PROBE_REQUEST_def
  RTT_PROBE_RESPONSE_def PROXY_PUBLIC_KEY_def SIGNED_DATA_def PROXY_SECRET_KEY_def
  ENCRYPTED_DATA_def ENCRYPTED_LINK_STATE_def SIGNED_LINK_STATE_def
  BANDWIDTH_PROBE_REQUEST_def BANDWIDTH_PROBE_RESPONSE_def

lemmas size_defs = PROXY_HLEN_def QUIT_LEN_def ETH_ALEN_def ETH_FRAME_LEN_def

section \<open>Structs\<close>

record timespec =
  tv_sec :: u32
  tv_nsec :: u32

record proxy_header =
  ph_type :: u16
  ph_length :: u16

record link_state =
  IPaddr :: u32
  listenPort :: u16
  tapMAC :: bytes
  ethMAC :: bytes

record leave =
  localIP :: u32
  localListenPort :: u16
  localMAC :: bytes
  lv_ID :: timespec

record leave_packet =
  lp_prxyhdr :: proxy_header
  lp_lv :: leave

record probe_req =
  pr_prxyhdr :: proxy_header
  pr_ID :: timespec

record link_state_source =
  lss_ls :: link_state
  lss_numNbrs :: u16

record link_state_record =
  lsr_ID :: timespec
  lsr_proxy1 :: link_state
  lsr_proxy2 :: link_state
  lsr_linkWeight :: u32

record initial_join_packet =
  ij_prxyhdr :: proxy_header
  ij_numNbrs1 :: u16
  ij_ls :: link_state
  ij_numNbrs2 :: u16

section \<open>Layouts\<close>

definition enc_timespec :: "timespec \<Rightarrow> bytes" where
  "enc_timespec t = u32_bytes (tv_sec t) @ u32_bytes (tv_nsec t)"

definition dec_timespec :: "bytes \<Rightarrow> timespec" where
  "dec_timespec bs = \<lparr>tv_sec = u32_of bs, tv_nsec = u32_of (drop 4 bs)\<rparr>"

definition enc_proxy_header :: "proxy_header \<Rightarrow> bytes" where
  "enc_proxy_header h = u16_bytes (ph_type h) @ u16_bytes (ph_length h)"

definition dec_proxy_header :: "bytes \<Rightarrow> proxy_header" where
  "dec_proxy_header bs = \<lparr>ph_type = u16_of bs, ph_length = u16_of (drop 2 bs)\<rparr>"

definition enc_link_state :: "link_state \<Rightarrow> bytes" where
  "enc_link_state l = u32_bytes (IPaddr l) @ u16_bytes (listenPort l) @ tapMAC l @ ethMAC l"

definition dec_link_state :: "bytes \<Rightarrow> link_state" where
  "dec_link_state bs = \<lparr>IPaddr = u32_of bs, listenPort = u16_of (drop 4 bs),
     tapMAC = take 6 (drop 6 bs), ethMAC = take 6 (drop 12 bs)\<rparr>"

definition enc_leave :: "leave \<Rightarrow> bytes" where
  "enc_leave l = u32_bytes (localIP l) @ u16_bytes (localListenPort l) @ localMAC l
     @ enc_timespec (lv_ID l)"

definition dec_leave :: "bytes \<Rightarrow> leave" where
  "dec_leave bs = \<lparr>localIP = u32_of bs, localListenPort = u16_of (drop 4 bs),
     localMAC = take 6 (drop 6 bs), lv_ID = dec_timespec (drop 12 bs)\<rparr>"

definition enc_leave_packet :: "leave_packet \<Rightarrow> bytes" where
  "enc_leave_packet p = enc_proxy_header (lp_prxyhdr p) @ enc_leave (lp_lv p)"

definition dec_leave_packet :: "bytes \<Rightarrow> leave_packet" where
  "dec_leave_packet bs = \<lparr>lp_prxyhdr = dec_proxy_header bs, lp_lv = dec_leave (drop 4 bs)\<rparr>"

definition enc_probe_req :: "probe_req \<Rightarrow> bytes" where
  "enc_probe_req p = enc_proxy_header (pr_prxyhdr p) @ enc_timespec (pr_ID p)"

definition dec_probe_req :: "bytes \<Rightarrow> probe_req" where
  "dec_probe_req bs = \<lparr>pr_prxyhdr = dec_proxy_header bs, pr_ID = dec_timespec (drop 4 bs)\<rparr>"

definition enc_link_state_source :: "link_state_source \<Rightarrow> bytes" where
  "enc_link_state_source l = enc_link_state (lss_ls l) @ u16_bytes (lss_numNbrs l)"

definition dec_link_state_source :: "bytes \<Rightarrow> link_state_source" where
  "dec_link_state_source bs =
     \<lparr>lss_ls = dec_link_state bs, lss_numNbrs = u16_of (drop 18 bs)\<rparr>"

definition enc_link_state_record :: "link_state_record \<Rightarrow> bytes" where
  "enc_link_state_record l = enc_timespec (lsr_ID l) @ enc_link_state (lsr_proxy1 l)
     @ enc_link_state (lsr_proxy2 l) @ u32_bytes (lsr_linkWeight l)"

definition dec_link_state_record :: "bytes \<Rightarrow> link_state_record" where
  "dec_link_state_record bs = \<lparr>lsr_ID = dec_timespec bs,
     lsr_proxy1 = dec_link_state (drop 8 bs), lsr_proxy2 = dec_link_state (drop 26 bs),
     lsr_linkWeight = u32_of (drop 44 bs)\<rparr>"

definition enc_initial_join_packet :: "initial_join_packet \<Rightarrow> bytes" where
  "enc_initial_join_packet p = enc_proxy_header (ij_prxyhdr p) @ u16_bytes (ij_numNbrs1 p)
     @ enc_link_state (ij_ls p) @ u16_bytes (ij_numNbrs2 p)"

definition dec_initial_join_packet :: "bytes \<Rightarrow> initial_join_packet" where
  "dec_initial_join_packet bs = \<lparr>ij_prxyhdr = dec_proxy_header bs,
     ij_numNbrs1 = u16_of (drop 4 bs), ij_ls = dec_link_state (drop 6 bs),
     ij_numNbrs2 = u16_of (drop 24 bs)\<rparr>"

text \<open>Both MAC arrays of a \<open>link_state\<close> have \<open>ETH_ALEN\<close> elements.\<close>

definition wf_link_state :: "link_state \<Rightarrow> bool" where
  "wf_link_state l \<longleftrightarrow> length (tapMAC l) = ETH_ALEN \<and> length (ethMAC l) = ETH_ALEN"

definition wf_leave :: "leave \<Rightarrow> bool" where
  "wf_leave l \<longleftrightarrow> length (localMAC l) = ETH_ALEN"

text \<open>
  A read through a pointer cast, \<^verbatim>\<open>*(T *)(buf + off)\<close>: the bytes of the object, or
  nothing when it does not lie inside the buffer.
\<close>

definition peek :: "(bytes \<Rightarrow> 'a) \<Rightarrow> nat \<Rightarrow> nat \<Rightarrow> bytes \<Rightarrow> 'a option" where
  "peek dec sz off buf =
     (if off + sz \<le> length buf then Some (dec (take sz (drop off buf))) else None)"

section \<open>Facts on the scalar layouts\<close>

lemma u16_bytes_length [codec_simps]: "length (u16_bytes x) = 2"
  by (simp add: u16_bytes_def)

lemma u32_bytes_length [codec_simps]: "length (u32_bytes x) = 4"
  by (simp add: u32_bytes_def)

lemma u16_of_append [codec_simps]: "length bs = 2 \<Longrightarrow> u16_of (bs @ ys) = u16_of bs"
  by (simp add: u16_of_def nth_append)

lemma u32_of_append [codec_simps]: "length bs = 4 \<Longrightarrow> u32_of (bs @ ys) = u32_of bs"
  by (simp add: u32_of_def nth_append)

lemma u16_of_bytes [codec_simps]: "u16_of (u16_bytes x) = x"
  by (rule bit_word_eqI) (auto simp: u16_of_def u16_bytes_def bit_simps)

lemma u32_of_bytes [codec_simps]: "u32_of (u32_bytes x) = x"
proof (rule bit_word_eqI)
  fix n assume "n < LENGTH(32)"
  then consider "n < 8" | "8 \<le> n" "n < 16" | "16 \<le> n" "n < 24" | "24 \<le> n" "n < 32"
    by fastforce
  then show "bit (u32_of (u32_bytes x)) n = bit x n"
    by cases (auto simp: u32_of_def u32_bytes_def bit_simps less_diff_conv2)
qed

lemma byte_bit_out: "8 \<le> n \<Longrightarrow> \<not> bit (b :: byte) n"
  using bit_imp_le_length by fastforce

lemma u16_bytes_of:
  assumes "length bs = 2"
  shows "u16_bytes (u16_of bs) = bs"
proof -
  obtain a b where "bs = [a, b]"
    using assms by (auto simp: eval_nat_numeral length_Suc_conv)
  then show ?thesis
    by (simp add: u16_of_def u16_bytes_def; intro conjI; intro bit_word_eqI;
        simp add: bit_simps byte_bit_out)
qed

lemma u32_bytes_of:
  assumes "length bs = 4"
  shows "u32_bytes (u32_of bs) = bs"
proof -
  obtain a b c d where "bs = [a, b, c, d]"
    using assms by (auto simp: eval_nat_numeral length_Suc_conv)
  then show ?thesis
    by (simp add: u32_of_def u32_bytes_def; intro conjI; intro bit_word_eqI;
        simp add: bit_simps byte_bit_out)
qed

lemma ntohs_htons [simp]: "ntohs (htons x) = x"
  by (simp add: ntohs_def htons_def u16_bytes_of u16_of_bytes u16_bytes_length)

lemma ntohl_htonl [simp]: "ntohl (htonl x) = x"
  by (simp add: ntohl_def htonl_def u32_bytes_of u32_of_bytes u32_bytes_length)

lemma htons_eq_ntohs: "htons = ntohs"
  by (simp add: fun_eq_iff htons_def ntohs_def)

lemma htonl_eq_ntohl: "htonl = ntohl"
  by (simp add: fun_eq_iff htonl_def ntohl_def)

lemma u16_bytes_prefix [codec_simps]: "2 \<le> length bs \<Longrightarrow> u16_bytes (u16_of bs) = take 2 bs"
  using u16_bytes_of [of "take 2 bs"] u16_of_append [of "take 2 bs" "drop 2 bs"] by simp

lemma u32_bytes_prefix [codec_simps]: "4 \<le> length bs \<Longrightarrow> u32_bytes (u32_of bs) = take 4 bs"
  using u32_bytes_of [of "take 4 bs"] u32_of_append [of "take 4 bs" "drop 4 bs"] by simp

lemma htons_big_endian: "u16_bytes (htons x) = [ucast (drop_bit 8 x), ucast x]"
  by (simp add: htons_def u16_bytes_of u16_bytes_length) (simp add: u16_bytes_def)

section \<open>What every struct layout promises\<close>

locale layout =
  fixes enc :: "'a \<Rightarrow> bytes"
    and dec :: "bytes \<Rightarrow> 'a"
    and wf :: "'a \<Rightarrow> bool"
    and sz :: nat
  assumes enc_length: "wf x \<Longrightarrow> length (enc x) = sz"
    and dec_enc: "wf x \<Longrightarrow> dec (enc x @ ys) = x"
    and wf_dec: "sz \<le> length bs \<Longrightarrow> wf (dec bs)"
    and enc_dec: "sz \<le> length bs \<Longrightarrow> enc (dec bs) = take sz bs"
begin

lemma enc_inj: "wf x \<Longrightarrow> wf y \<Longrightarrow> enc x = enc y \<Longrightarrow> x = y"
  using dec_enc [of x "[]"] dec_enc [of y "[]"] by simp

lemma dec_take: "sz \<le> length bs \<Longrightarrow> dec (take sz bs) = dec bs"
  using dec_enc [OF wf_dec, of bs "[]"] enc_dec [of bs] by simp

lemma peek_enc:
  assumes "wf x" and "length pre = off"
  shows "peek dec sz off (pre @ enc x @ post) = Some x"
  using assms dec_enc [of x "[]"] by (simp add: peek_def enc_length)

lemma peek_SomeD:
  assumes "peek dec sz off buf = Some x"
  shows "wf x \<and> take sz (drop off buf) = enc x \<and> off + sz \<le> length buf"
  using assms wf_dec [of "take sz (drop off buf)"] enc_dec [of "take sz (drop off buf)"]
  by (auto simp: peek_def split: if_splits)

lemma encs_length: "list_all wf xs \<Longrightarrow> length (concat (map enc xs)) = length xs * sz"
  by (induction xs) (auto simp: enc_length)

lemma peek_encs:
  assumes "list_all wf xs" and "i < length xs" and "length pre + i * sz = off"
  shows "peek dec sz off (pre @ concat (map enc xs) @ post) = Some (xs ! i)"
proof -
  have xs: "xs = take i xs @ xs ! i # drop (Suc i) xs"
    using assms(2) by (rule id_take_nth_drop)
  have wf: "list_all wf (take i xs)" "wf (xs ! i)"
    using assms(1,2) by (auto simp: list_all_iff dest: in_set_takeD)
  have len: "length (pre @ concat (map enc (take i xs))) = off"
    using assms(2,3) encs_length [OF wf(1)] by simp
  have "pre @ concat (map enc xs) @ post =
      (pre @ concat (map enc (take i xs))) @ enc (xs ! i)
        @ concat (map enc (drop (Suc i) xs)) @ post"
    by (subst xs) simp
  then show ?thesis
    using peek_enc [OF wf(2) len] by simp
qed

end

lemma take_glue [codec_simps]: "take n xs @ take m (drop n xs) = take (n + m) xs"
  by (simp add: take_add)

lemma take_drop_glue [codec_simps]:
  assumes "j = i + n"
  shows "take n (drop i xs) @ take m (drop j xs) = take (n + m) (drop i xs)"
  using take_add [of n m "drop i xs"] assms by (simp add: add.commute)

lemmas enc_dec_defs = enc_timespec_def dec_timespec_def enc_proxy_header_def
  dec_proxy_header_def enc_link_state_def dec_link_state_def enc_leave_def dec_leave_def
  enc_leave_packet_def dec_leave_packet_def enc_probe_req_def dec_probe_req_def
  enc_link_state_source_def dec_link_state_source_def enc_link_state_record_def
  dec_link_state_record_def enc_initial_join_packet_def dec_initial_join_packet_def
  wf_link_state_def wf_leave_def

interpretation ts: layout enc_timespec dec_timespec "\<lambda>_. True" 8
  by unfold_locales (simp_all add: enc_dec_defs codec_simps)

interpretation ph: layout enc_proxy_header dec_proxy_header "\<lambda>_. True" 4
  by unfold_locales (simp_all add: enc_dec_defs codec_simps)

interpretation ls: layout enc_link_state dec_link_state wf_link_state 18
  by unfold_locales (simp_all add: enc_dec_defs codec_simps size_defs)

interpretation lv: layout enc_leave dec_leave wf_leave 20
  by unfold_locales (simp_all add: enc_dec_defs codec_simps size_defs)

interpretation lp: layout enc_leave_packet dec_leave_packet "\<lambda>p. wf_leave (lp_lv p)" 24
  by unfold_locales (simp_all add: enc_dec_defs codec_simps size_defs)

interpretation pr: layout enc_probe_req dec_probe_req "\<lambda>_. True" 12
  by unfold_locales (simp_all add: enc_dec_defs codec_simps size_defs)

interpretation lss: layout enc_link_state_source dec_link_state_source
    "\<lambda>l. wf_link_state (lss_ls l)" 20
  by unfold_locales (simp_all add: enc_dec_defs codec_simps size_defs)

interpretation lsr: layout enc_link_state_record dec_link_state_record
    "\<lambda>l. wf_link_state (lsr_proxy1 l) \<and> wf_link_state (lsr_proxy2 l)" 48
  by unfold_locales (simp_all add: enc_dec_defs codec_simps size_defs)

interpretation ij: layout enc_initial_join_packet dec_initial_join_packet
    "\<lambda>p. wf_link_state (ij_ls p)" 26
  by unfold_locales (simp_all add: enc_dec_defs codec_simps size_defs)

end
