(* ===== verification/Rio.thy ===== *)
theory Rio
  imports Wire
begin

text \<open>
  Buffered input and complete output of \<^verbatim>\<open>rio.c\<close>. The kernel is a parameter: a state
  holds the answers it will give to the calls of \<^verbatim>\<open>poll\<close>, \<^verbatim>\<open>read\<close>, \<^verbatim>\<open>write\<close>,
  \<^verbatim>\<open>fcntl\<close> and \<^verbatim>\<open>clock_gettime\<close>, in order. A call that meets an empty list of answers
  is still waiting (\<open>Stop Waiting\<close>). A \<^verbatim>\<open>read\<close> answers at most the size of the
  buffer, a \<^verbatim>\<open>write\<close> at most the bytes it was given; only a failing call sets \<^verbatim>\<open>errno\<close>.
\<close>

section \<open>The kernel's answers\<close>

datatype errno_t = E_NONE | EINTR | EAGAIN | E_OTHER nat

datatype lock_type = F_RDLCK | F_WRLCK | F_UNLCK

record os =
  errno :: errno_t
  polls :: "errno_t option list"      \<comment> \<open>\<open>None\<close>: ready\<close>
  reads :: "(errno_t + bytes) list"   \<comment> \<open>\<open>Inr []\<close>: end of file\<close>
  writes :: "(errno_t + nat) list"
  fcntls :: "errno_t option list"     \<comment> \<open>\<open>None\<close>: success\<close>
  clocks :: "timespec list"
  sent :: "fd \<Rightarrow> bytes"
  fd_lock :: "fd \<Rightarrow> lock_type"
  fd_flags :: "fd \<Rightarrow> u32"
  closed :: "fd list"

definition O_NONBLOCK :: u32 where "O_NONBLOCK = 0x800"

section \<open>The buffered descriptor\<close>

definition RIO_BUFSZ :: nat where "RIO_BUFSZ = ETH_FRAME_LEN + PROXY_HLEN"

record rio_t =
  rfd :: fd
  cnt :: int
  bufp :: nat
  buf :: bytes

text \<open>One \<^verbatim>\<open>fcntl\<close> call: \<open>True\<close> when it returned a negative value.\<close>

definition do_fcntl :: "os \<Rightarrow> (os, bool) run" where
  "do_fcntl s = (case fcntls s of
       [] \<Rightarrow> Stop Waiting s
     | None # as \<Rightarrow> Ret False (s\<lparr>fcntls := as\<rparr>)
     | Some e # as \<Rightarrow> Ret True (s\<lparr>fcntls := as, errno := e\<rparr>))"

text \<open>
  \<^verbatim>\<open>flags=fcntl(rp->fd, F_GETFL, 0)<0\<close> assigns the outcome of the comparison, so the
  flags written back are 0 with \<open>O_NONBLOCK\<close> added.
\<close>

definition rio_readinit :: "fd \<Rightarrow> os \<Rightarrow> (os, rio_t) run" where
  "rio_readinit f s =
     (let rp = \<lparr>rfd = f, cnt = 0, bufp = 0, buf = replicate RIO_BUFSZ 0\<rparr> in
      bind_run (do_fcntl s) (\<lambda>neg s.
        let flags = (if neg then 1 else 0 :: u32) in
        if flags \<noteq> 0 then Stop (Exit (-1)) s
        else let flags = flags OR O_NONBLOCK in
          bind_run (do_fcntl s) (\<lambda>neg s.
            if neg then Stop (Exit (-1)) s
            else Ret rp (s\<lparr>fd_flags := (fd_flags s)(f := flags)\<rparr>))))"

section \<open>Waiting and locking\<close>

fun Wait_loop :: "errno_t option list \<Rightarrow> os \<Rightarrow> (os, int) run" where
  "Wait_loop [] s = Stop Waiting s"
| "Wait_loop (Some e # as) s =
     (let s = s\<lparr>polls := as, errno := e\<rparr> in
      if e \<noteq> EINTR then Ret (-1) s
      else if errno s = EINTR then Wait_loop as s else Ret 0 s)"
| "Wait_loop (None # as) s =
     (let s = s\<lparr>polls := as\<rparr> in
      if errno s = EINTR then Wait_loop as s else Ret 0 s)"

definition Wait :: "fd \<Rightarrow> os \<Rightarrow> (os, int) run" where
  "Wait f s = Wait_loop (polls s) s"

fun Lock_loop :: "errno_t option list \<Rightarrow> fd \<Rightarrow> lock_type \<Rightarrow> os \<Rightarrow> (os, int) run" where
  "Lock_loop [] f t s = Stop Waiting s"
| "Lock_loop (Some e # as) f t s =
     (let s = s\<lparr>fcntls := as, errno := e\<rparr> in
      if e \<noteq> EINTR then Ret (-1) s
      else if errno s = EINTR then Lock_loop as f t s else Ret 0 s)"
| "Lock_loop (None # as) f t s =
     (let s = s\<lparr>fcntls := as, fd_lock := (fd_lock s)(f := t)\<rparr> in
      if errno s = EINTR then Lock_loop as f t s else Ret 0 s)"

definition Lock :: "fd \<Rightarrow> lock_type \<Rightarrow> os \<Rightarrow> (os, int) run" where
  "Lock f t s = Lock_loop (fcntls s) f t s"

section \<open>Reading\<close>

text \<open>
  The \<^verbatim>\<open>while(rp->cnt<=0)\<close> loop of \<^verbatim>\<open>rio_read\<close>: \<open>Some r\<close> is an early \<^verbatim>\<open>return r\<close>,
  \<open>None\<close> falls through to the copy.
\<close>

fun rio_fill :: "(errno_t + bytes) list \<Rightarrow> rio_t \<Rightarrow> os \<Rightarrow> (os, int option \<times> rio_t) run" where
  "rio_fill [] rp s =
     (if cnt rp > 0 then Ret (None, rp) s
      else bind_run (Wait (rfd rp) s) (\<lambda>r s.
        if r < 0 then Ret (Some (-1), rp) s else Stop Waiting s))"
| "rio_fill (a # rs) rp s =
     (if cnt rp > 0 then Ret (None, rp) s
      else bind_run (Wait (rfd rp) s) (\<lambda>r s.
        if r < 0 then Ret (Some (-1), rp) s
        else (case a of
            Inl e \<Rightarrow>
              let s = s\<lparr>reads := rs, errno := e\<rparr>; rp = rp\<lparr>cnt := -1\<rparr> in
              if e \<noteq> EINTR \<and> e \<noteq> EAGAIN then Ret (Some (-1), rp) s
              else rio_fill rs rp s
          | Inr d \<Rightarrow>
              let d = take RIO_BUFSZ d; s = s\<lparr>reads := rs\<rparr>;
                  rp = rp\<lparr>cnt := int (length d), buf := d @ drop (length d) (buf rp)\<rparr> in
              if cnt rp = 0 then Ret (Some 0, rp) s
              else rio_fill rs (rp\<lparr>bufp := 0\<rparr>) s)))"

definition rio_read :: "rio_t \<Rightarrow> nat \<Rightarrow> os \<Rightarrow> (os, int \<times> bytes \<times> rio_t) run" where
  "rio_read rp n s =
     bind_run (rio_fill (reads s) rp s) (\<lambda>(early, rp) s. case early of
         Some r \<Rightarrow> Ret (r, [], rp) s
       | None \<Rightarrow>
           let c = (if cnt rp < int n then cnt rp else int n) in
           if bufp rp + nat c > length (buf rp) then Stop UB s
           else let data = take (nat c) (drop (bufp rp) (buf rp));
                    rp = rp\<lparr>cnt := cnt rp - c\<rparr>;
                    rp = (if cnt rp \<le> 0 then rp\<lparr>bufp := 0\<rparr>
                          else rp\<lparr>bufp := bufp rp + nat c\<rparr>)
                in Ret (c, data, rp) s)"

text \<open>
  A failing \<^verbatim>\<open>rio_read\<close> with \<^verbatim>\<open>errno\<close> equal to \<open>EINTR\<close> is retried; \<open>rio_read_Ret\<close> shows
  that this never happens, so every round of the loop makes progress.
\<close>

lemma Wait_loop_Ret:
  "Wait_loop as s = Ret r s' \<Longrightarrow>
     (r = 0 \<or> r = -1) \<and> errno s' \<noteq> EINTR \<and> (\<exists>bs. s' = s\<lparr>polls := bs, errno := errno s'\<rparr>)"
  by (induction as s rule: Wait_loop.induct) (auto simp: Let_def split: if_splits)

lemma rio_fill_Ret:
  "rio_fill rs rp s = Ret (early, rp') s' \<Longrightarrow>
     (case early of None \<Rightarrow> cnt rp' > 0 | Some r \<Rightarrow> r = 0 \<or> r = -1 \<and> errno s' \<noteq> EINTR)"
proof (induction rs rp s rule: rio_fill.induct)
  case (1 rp s)
  then show ?case
    by (auto simp: bind_run_Ret_iff Wait_def split: if_splits dest: Wait_loop_Ret)
next
  case (2 a rs rp s)
  then show ?case
    by (auto simp: bind_run_Ret_iff Wait_def Let_def split: if_splits sum.splits
        dest: Wait_loop_Ret)
qed

lemma rio_read_Ret:
  assumes "rio_read rp n s = Ret (r, d, rp') s'"
  shows "r \<le> int n \<and> (r < 0 \<longrightarrow> r = -1 \<and> errno s' \<noteq> EINTR)"
proof -
  obtain early rp1 s1 where fill: "rio_fill (reads s) rp s = Ret (early, rp1) s1"
    using assms by (auto simp: rio_read_def bind_run_Ret_iff)
  show ?thesis
    using assms rio_fill_Ret [OF fill]
    by (cases early) (auto simp: rio_read_def fill Let_def split: if_splits)
qed

function rio_readnb_loop ::
    "nat \<Rightarrow> nat \<Rightarrow> bytes \<Rightarrow> rio_t \<Rightarrow> os \<Rightarrow> (os, int \<times> bytes \<times> rio_t) run" where
  "rio_readnb_loop n nleft acc rp s =
     (if nleft = 0 then Ret (int (n - nleft), acc, rp) s
      else bind_run (rio_read rp nleft s) (\<lambda>x s. case x of (nread, d, rp) \<Rightarrow>
        if nread < 0 then
          (if errno s = EINTR then rio_readnb_loop n nleft acc rp s
           else Ret (-1, acc, rp) s)
        else if nread = 0 then Ret (int (n - nleft), acc, rp) s
        else rio_readnb_loop n (nleft - nat nread) (acc @ d) rp s))"
  by pat_completeness auto
termination
  by (relation "measure (\<lambda>(n, nleft, acc, rp, s). nleft)") (auto dest: rio_read_Ret)

declare rio_readnb_loop.simps [simp del]

definition rio_readnb :: "rio_t \<Rightarrow> nat \<Rightarrow> os \<Rightarrow> (os, int \<times> bytes \<times> rio_t) run" where
  "rio_readnb rp n s = rio_readnb_loop n n [] rp s"

section \<open>Writing\<close>

fun rio_write_loop :: "(errno_t + nat) list \<Rightarrow> fd \<Rightarrow> nat \<Rightarrow> bytes \<Rightarrow> os \<Rightarrow> (os, int) run" where
  "rio_write_loop ws f n [] s =
     bind_run (Lock f F_UNLCK s) (\<lambda>r s. if r < 0 then Ret (-1) s else Ret (int n) s)"
| "rio_write_loop [] f n (b # bs) s =
     bind_run (Wait f s) (\<lambda>r s. if r < 0 then Ret (-1) s else Stop Waiting s)"
| "rio_write_loop (a # ws) f n (b # bs) s =
     bind_run (Wait f s) (\<lambda>r s.
       if r < 0 then Ret (-1) s
       else (case a of
           Inl e \<Rightarrow>
             let s = s\<lparr>writes := ws, errno := e\<rparr> in
             if e = EINTR then rio_write_loop ws f n (b # bs) s
             else bind_run (Lock f F_UNLCK s) (\<lambda>r s. if r < 0 then Ret (-1) s else Ret (-1) s)
         | Inr k \<Rightarrow>
             let k = min k (length (b # bs));
                 s = s\<lparr>writes := ws, sent := (sent s)(f := sent s f @ take k (b # bs))\<rparr> in
             rio_write_loop ws f n (drop k (b # bs)) s))"

definition rio_write :: "rio_t \<Rightarrow> bytes \<Rightarrow> os \<Rightarrow> (os, int) run" where
  "rio_write rp data s =
     bind_run (Lock (rfd rp) F_WRLCK s) (\<lambda>r s.
       if r < 0 then Ret (-1) s
       else rio_write_loop (writes s) (rfd rp) (length data) data s)"

section \<open>The byte stream behind a descriptor\<close>

text \<open>
  What a reader will be given: the unread bytes of the buffer, then the chunks the
  kernel will deliver up to the first end of file or hard error.
\<close>

definition wf_rio :: "rio_t \<Rightarrow> bool" where
  "wf_rio rp \<longleftrightarrow> length (buf rp) = RIO_BUFSZ \<and>
     (cnt rp > 0 \<longrightarrow> bufp rp + nat (cnt rp) \<le> RIO_BUFSZ)"

definition pending :: "rio_t \<Rightarrow> bytes" where
  "pending rp = take (nat (cnt rp)) (drop (bufp rp) (buf rp))"

fun incoming :: "(errno_t + bytes) list \<Rightarrow> bytes" where
  "incoming [] = []"
| "incoming (Inl e # rs) = (if e = EINTR \<or> e = EAGAIN then incoming rs else [])"
| "incoming (Inr d # rs) = (if d = [] then [] else take RIO_BUFSZ d @ incoming rs)"

definition stream :: "rio_t \<Rightarrow> os \<Rightarrow> bytes" where
  "stream rp s = pending rp @ incoming (reads s)"

text \<open>What a read may change of the kernel state.\<close>

definition read_frame :: "os \<Rightarrow> os \<Rightarrow> bool" where
  "read_frame s s' \<longleftrightarrow> writes s' = writes s \<and> fcntls s' = fcntls s \<and> clocks s' = clocks s \<and>
     sent s' = sent s \<and> fd_lock s' = fd_lock s \<and> fd_flags s' = fd_flags s \<and> closed s' = closed s"

lemma read_frame_refl [simp]: "read_frame s s"
  by (simp add: read_frame_def)

lemma read_frame_trans [trans]: "read_frame s t \<Longrightarrow> read_frame t u \<Longrightarrow> read_frame s u"
  by (simp add: read_frame_def)

lemma Wait_Ret:
  assumes "Wait f s = Ret r s'"
  shows "(r = 0 \<or> r = -1) \<and> errno s' \<noteq> EINTR \<and> (\<exists>bs e. s' = s\<lparr>polls := bs, errno := e\<rparr>)"
  using Wait_loop_Ret [of "polls s" s r s'] assms unfolding Wait_def by blast

lemma Wait_frame: "Wait f s = Ret r s' \<Longrightarrow> read_frame s s' \<and> reads s' = reads s"
  using Wait_Ret [of f s r s'] by (auto simp: read_frame_def)

lemma pending_empty [simp]: "cnt rp \<le> 0 \<Longrightarrow> pending rp = []"
  by (simp add: pending_def)

lemma pending_filled:
  "length d \<le> length (buf rp) \<Longrightarrow>
     pending (rp\<lparr>cnt := int (length d), buf := d @ drop (length d) (buf rp), bufp := 0\<rparr>) = d"
  by (simp add: pending_def)

lemma rio_fill_ready [simp]: "cnt rp > 0 \<Longrightarrow> rio_fill rs rp s = Ret (None, rp) s"
  by (cases rs) auto

text \<open>A chunk that arrives in an empty buffer is exactly what the buffer then holds.\<close>

lemma chunk_arrives:
  assumes "wf_rio rp" and "d \<noteq> []" and "\<not> cnt rp > 0" and "reads s = Inr d # rs"
  defines "rp' \<equiv> rp\<lparr>cnt := int (length (take RIO_BUFSZ d)),
      buf := take RIO_BUFSZ d @ drop (length (take RIO_BUFSZ d)) (buf rp), bufp := 0\<rparr>"
  shows "cnt rp' > 0" and "wf_rio rp'" and "reads s' = rs \<Longrightarrow> stream rp' s' = stream rp s"
proof -
  show "cnt rp' > 0"
    using assms by (simp add: RIO_BUFSZ_def size_defs)
  show "wf_rio rp'"
    using assms by (auto simp: wf_rio_def)
  have "pending rp' = take RIO_BUFSZ d"
    unfolding rp'_def using assms(1) by (intro pending_filled) (simp add: wf_rio_def)
  then show "reads s' = rs \<Longrightarrow> stream rp' s' = stream rp s"
    using assms by (simp add: stream_def)
qed

lemma rio_fill_stream:
  assumes "rio_fill rs rp s = Ret (early, rp') s'" and "wf_rio rp" and "reads s = rs"
  shows "wf_rio rp' \<and> rfd rp' = rfd rp \<and> read_frame s s' \<and>
     (early = None \<longrightarrow> stream rp' s' = stream rp s) \<and> (early = Some 0 \<longrightarrow> stream rp s = [])"
  using assms
proof (induction rs arbitrary: rp s)
  case Nil
  show ?case
  proof (cases "cnt rp > 0")
    case False
    then obtain r s1 where w: "Wait (rfd rp) s = Ret r s1"
      using Nil.prems(1) by (auto simp: bind_run_Ret_iff)
    then show ?thesis using Wait_frame [OF w] Nil False by (cases "r < 0") auto
  qed (use Nil in auto)
next
  case (Cons a rs)
  show ?case
  proof (cases "cnt rp > 0")
    case pos: False
    then obtain r s1 where w: "Wait (rfd rp) s = Ret r s1"
      using Cons.prems(1) by (auto simp: bind_run_Ret_iff)
    have fr: "read_frame s s1" "reads s1 = reads s"
      using Wait_frame [OF w] by auto
    consider "r < 0" | e where "r \<ge> 0" "a = Inl e" | d where "r \<ge> 0" "a = Inr d"
      by (cases a) force+
    then show ?thesis
    proof cases
      case 1
      with Cons.prems pos w fr show ?thesis by auto
    next
      case 2
      have "wf_rio (rp\<lparr>cnt := -1\<rparr>)"
        using Cons.prems(2) by (simp add: wf_rio_def)
      with Cons.IH [of "rp\<lparr>cnt := -1\<rparr>" "s1\<lparr>reads := rs, errno := e\<rparr>"] 2 pos w fr Cons.prems
      show ?thesis by (auto simp: Let_def stream_def read_frame_def split: if_splits)
    next
      case 3
      show ?thesis
      proof (cases "d = []")
        case True
        with Cons.prems 3 pos w fr show ?thesis
          by (auto simp: Let_def stream_def read_frame_def wf_rio_def)
      next
        case False
        have "reads s = Inr d # rs"
          using Cons.prems(3) 3 by simp
        note arr = chunk_arrives [OF Cons.prems(2) False pos this]
        from arr(1,2) arr(3) [of "s1\<lparr>reads := rs\<rparr>"] Cons.prems 3 pos w fr False
        show ?thesis by (auto simp: Let_def read_frame_def RIO_BUFSZ_def size_defs)
      qed
    qed
  qed (use Cons.prems in auto)
qed

text \<open>Taking \<open>c\<close> of the buffered bytes, as \<^verbatim>\<open>rio_read\<close> does after the fill loop.\<close>

lemma length_pending: "wf_rio rp \<Longrightarrow> cnt rp > 0 \<Longrightarrow> length (pending rp) = nat (cnt rp)"
  by (auto simp: pending_def wf_rio_def)

lemma pending_take:
  assumes "wf_rio rp" and "0 \<le> c" and "c \<le> cnt rp"
  shows "take (nat c) (drop (bufp rp) (buf rp)) = take (nat c) (pending rp)"
    and "pending (if cnt rp - c \<le> 0 then rp\<lparr>cnt := cnt rp - c, bufp := 0\<rparr>
           else rp\<lparr>cnt := cnt rp - c, bufp := bufp rp + nat c\<rparr>) = drop (nat c) (pending rp)"
    and "wf_rio (if cnt rp - c \<le> 0 then rp\<lparr>cnt := cnt rp - c, bufp := 0\<rparr>
           else rp\<lparr>cnt := cnt rp - c, bufp := bufp rp + nat c\<rparr>)"
  using assms
  by (auto simp: pending_def wf_rio_def min_def drop_take nat_diff_distrib add.commute)

lemma rio_read_stream:
  assumes "rio_read rp n s = Ret (r, d, rp') s'" and wf: "wf_rio rp"
  shows "wf_rio rp' \<and> rfd rp' = rfd rp \<and> read_frame s s' \<and> (r \<le> 0 \<longrightarrow> d = []) \<and>
     (n > 0 \<and> r = 0 \<longrightarrow> stream rp s = []) \<and>
     (r > 0 \<longrightarrow> nat r \<le> n \<and> nat r \<le> length (stream rp s) \<and>
        d = take (nat r) (stream rp s) \<and> stream rp' s' = drop (nat r) (stream rp s))"
proof -
  obtain early rp1 s1 where fill: "rio_fill (reads s) rp s = Ret (early, rp1) s1"
    using assms by (auto simp: rio_read_def bind_run_Ret_iff)
  note fs = rio_fill_stream [OF fill wf refl] rio_fill_Ret [OF fill]
  show ?thesis
  proof (cases early)
    case (Some e)
    with assms fs show ?thesis by (auto simp: rio_read_def fill)
  next
    case None
    define c where "c = (if cnt rp1 < int n then cnt rp1 else int n)"
    have c: "0 \<le> c" "c \<le> cnt rp1" "c \<le> int n" "cnt rp1 > 0" "n > 0 \<Longrightarrow> c \<noteq> 0"
      using fs None by (auto simp: c_def)
    have wf1: "wf_rio rp1" using fs by simp
    note pt = pending_take [OF wf1 c(1,2)]
    have eq: "r = c \<and> d = take (nat c) (drop (bufp rp1) (buf rp1)) \<and> s' = s1 \<and>
        rp' = (if cnt rp1 - c \<le> 0 then rp1\<lparr>cnt := cnt rp1 - c, bufp := 0\<rparr>
           else rp1\<lparr>cnt := cnt rp1 - c, bufp := bufp rp1 + nat c\<rparr>)"
      using assms(1) None by (auto simp: rio_read_def fill Let_def c_def split: if_splits)
    have "stream rp s = pending rp1 @ incoming (reads s1)"
      and "stream rp' s' = drop (nat c) (pending rp1) @ incoming (reads s1)"
      using fs None pt(2) eq by (simp_all add: stream_def)
    then show ?thesis
      using eq fs pt c None length_pending [OF wf1 c(4)] by auto
  qed
qed

text \<open>
  \<^verbatim>\<open>rio_readnb\<close> hands out the stream in order, whatever the chunks it arrives in: all \<open>n\<close>
  bytes, or everything there was before an end of file, or a prefix before an error.
\<close>

definition readnb_result :: "nat \<Rightarrow> nat \<Rightarrow> bytes \<Rightarrow> bytes \<Rightarrow> bytes \<Rightarrow> int \<Rightarrow> bytes \<Rightarrow> bool" where
  "readnb_result n nleft acc S S' r data \<longleftrightarrow>
    (\<exists>k \<le> nleft. k \<le> length S \<and> data = acc @ take k S \<and>
      (r = int (n - nleft + k) \<and> (k = nleft \<and> S' = drop k S \<or> k < nleft \<and> k = length S)
       \<or> r = -1 \<and> k < nleft))"

lemma readnb_result_step:
  assumes "readnb_result n (nleft - k) (acc @ take k S) (drop k S) S' r data"
    and "k \<le> nleft" and "k \<le> length S" and "nleft \<le> n"
  shows "readnb_result n nleft acc S S' r data"
proof -
  obtain j where j: "j \<le> nleft - k" "j \<le> length (drop k S)" "data = (acc @ take k S) @ take j (drop k S)"
      "r = int (n - (nleft - k) + j) \<and>
         (j = nleft - k \<and> S' = drop j (drop k S) \<or> j < nleft - k \<and> j = length (drop k S))
       \<or> r = -1 \<and> j < nleft - k"
    using assms(1) unfolding readnb_result_def by blast
  have "data = acc @ take (k + j) S"
    using j(3) by (simp add: take_add)
  then show ?thesis
    unfolding readnb_result_def using j(1,2,4) assms(2-)
    by (intro exI [of _ "k + j"]) (auto simp: add.commute)
qed

lemma rio_readnb_loop_stream:
  assumes "rio_readnb_loop n nleft acc rp s = Ret (r, data, rp') s'" and "wf_rio rp" and "nleft \<le> n"
  shows "wf_rio rp' \<and> rfd rp' = rfd rp \<and> read_frame s s' \<and>
    readnb_result n nleft acc (stream rp s) (stream rp' s') r data"
  using assms
proof (induction n nleft acc rp s rule: rio_readnb_loop.induct)
  case (1 n nleft acc rp s)
  show ?case
  proof (cases "nleft = 0")
    case True
    with 1 show ?thesis
      by (auto simp: rio_readnb_loop.simps [of n 0 acc rp s] readnb_result_def)
  next
    case False
    with "1.prems"(1) obtain nread d rp1 s1 where rd: "rio_read rp nleft s = Ret (nread, d, rp1) s1"
      by (auto simp: rio_readnb_loop.simps [of n nleft acc rp s] bind_run_Ret_iff)
    note rs = rio_read_stream [OF rd "1.prems"(2)] rio_read_Ret [OF rd]
    show ?thesis
    proof (cases "nread > 0")
      case True
      have rec: "rio_readnb_loop n (nleft - nat nread) (acc @ d) rp1 s1 = Ret (r, data, rp') s'"
        using "1.prems"(1) False True rd by (simp add: rio_readnb_loop.simps [of n nleft acc rp s])
      have ih: "wf_rio rp' \<and> rfd rp' = rfd rp1 \<and> read_frame s1 s' \<and>
          readnb_result n (nleft - nat nread) (acc @ d) (stream rp1 s1) (stream rp' s') r data"
        using "1.IH"(2) [OF False rd refl refl _ _ rec] True rs "1.prems"(3) by auto
      have "readnb_result n nleft acc (stream rp s) (stream rp' s') r data"
        by (rule readnb_result_step [of n nleft "nat nread"])
          (use ih True rs "1.prems"(3) in auto)
      then show ?thesis
        using ih rs by (auto intro: read_frame_trans)
    next
      case neg: False
      have "r = int (n - nleft) \<and> nread = 0 \<or> r = -1 \<and> nread = -1"
        and "data = acc" "rp' = rp1" "s' = s1"
        using neg "1.prems"(1) False rd rs
        by (auto simp: rio_readnb_loop.simps [of n nleft acc rp s] split: if_splits)
      then show ?thesis
        using False rs unfolding readnb_result_def by auto
    qed
  qed
qed

section \<open>A kernel that answers\<close>

text \<open>
  The documented behaviour the readers need to return: no signal is pending in
  \<^verbatim>\<open>errno\<close>, every \<^verbatim>\<open>poll\<close> reports readiness, every \<^verbatim>\<open>read\<close> delivers data.
\<close>

definition answering :: "os \<Rightarrow> bool" where
  "answering s \<longleftrightarrow> errno s \<noteq> EINTR \<and> list_all (\<lambda>a. a = None) (polls s) \<and>
     list_all (\<lambda>a. case a of Inl e \<Rightarrow> False | Inr d \<Rightarrow> d \<noteq> []) (reads s) \<and>
     length (reads s) \<le> length (polls s)"

text \<open>The calls of \<^verbatim>\<open>poll\<close> that will be answered beyond those the reads need.\<close>

definition spare :: "os \<Rightarrow> nat" where
  "spare s = length (polls s) - length (reads s)"

lemma Wait_answering:
  assumes "errno s \<noteq> EINTR" and "list_all (\<lambda>a. a = None) (polls s)" and "polls s \<noteq> []"
  shows "Wait f s = Ret 0 (s\<lparr>polls := tl (polls s)\<rparr>)"
  using assms by (cases "polls s") (auto simp: Wait_def Let_def)

lemma rio_read_answering:
  assumes "answering s" and "wf_rio rp" and "stream rp s \<noteq> []" and "n > 0"
  shows "\<exists>r d rp' s'. rio_read rp n s = Ret (r, d, rp') s' \<and> r > 0 \<and> answering s' \<and> spare s' = spare s"
proof -
  have "\<exists>rp1 s1. rio_fill (reads s) rp s = Ret (None, rp1) s1 \<and> answering s1 \<and> spare s1 = spare s"
  proof (cases "cnt rp > 0")
    case False
    then obtain d rs where rs: "reads s = Inr d # rs" "d \<noteq> []"
      using assms(1,3) by (cases "reads s") (auto simp: stream_def answering_def split: sum.splits)
    have p: "polls s \<noteq> []"
      using assms(1) rs by (auto simp: answering_def)
    have "Wait (rfd rp) s = Ret 0 (s\<lparr>polls := tl (polls s)\<rparr>)"
      using assms(1) p by (intro Wait_answering) (auto simp: answering_def)
    moreover have "answering (s\<lparr>polls := tl (polls s), reads := rs\<rparr>)" "spare (s\<lparr>polls := tl (polls s), reads := rs\<rparr>) = spare s"
      using assms(1) rs p by (cases "polls s"; auto simp: answering_def spare_def)+
    ultimately show ?thesis
      using rs False by (auto simp: Let_def RIO_BUFSZ_def size_defs)
  qed (use assms in auto)
  then obtain rp1 s1 where fill: "rio_fill (reads s) rp s = Ret (None, rp1) s1" "answering s1" "spare s1 = spare s"
    by blast
  have "wf_rio rp1" "cnt rp1 > 0"
    using rio_fill_stream [OF fill(1) assms(2) refl] rio_fill_Ret [OF fill(1)] by auto
  then show ?thesis
    using assms(4) fill by (auto simp: rio_read_def Let_def wf_rio_def)
qed

lemma rio_readnb_loop_answering:
  assumes "answering s" and "wf_rio rp" and "nleft \<le> length (stream rp s)" and "nleft \<le> n"
  shows "\<exists>data rp' s'. rio_readnb_loop n nleft acc rp s = Ret (int n, data, rp') s' \<and> answering s' \<and> spare s' = spare s"
  using assms
proof (induction n nleft acc rp s rule: rio_readnb_loop.induct)
  case (1 n nleft acc rp s)
  show ?case
  proof (cases "nleft = 0")
    case True
    then show ?thesis using "1.prems"(1) by (simp add: rio_readnb_loop.simps [of n 0 acc rp s])
  next
    case False
    then have "stream rp s \<noteq> []"
      using "1.prems"(3) by auto
    then obtain r d rp1 s1 where rd: "rio_read rp nleft s = Ret (r, d, rp1) s1" "r > 0" "answering s1" "spare s1 = spare s"
      using rio_read_answering [of s rp nleft] "1.prems" False by auto
    have "\<exists>data rp' s'. rio_readnb_loop n (nleft - nat r) (acc @ d) rp1 s1 = Ret (int n, data, rp') s' \<and> answering s' \<and> spare s' = spare s1"
      using "1.IH"(2) [OF False rd(1) refl refl] rd rio_read_stream [OF rd(1) "1.prems"(2)] "1.prems"
      by auto
    then show ?thesis
      using rd False by (simp add: rio_readnb_loop.simps [of n nleft acc rp s])
  qed
qed

section \<open>What a write leaves behind\<close>

text \<open>
  Whatever the kernel answers, the descriptor has received a prefix of the data, and
  the whole of it when the call does not report an error.
\<close>

definition write_result :: "fd \<Rightarrow> bytes \<Rightarrow> nat \<Rightarrow> os \<Rightarrow> int \<Rightarrow> os \<Rightarrow> bool" where
  "write_result f data n s r s' \<longleftrightarrow>
     (\<exists>k \<le> length data. sent s' = (sent s)(f := sent s f @ take k data) \<and>
        (r = -1 \<or> r = int n \<and> k = length data \<and> fd_lock s' f = F_UNLCK)) \<and>
     reads s' = reads s \<and> clocks s' = clocks s \<and> fd_flags s' = fd_flags s \<and> closed s' = closed s \<and>
     (\<forall>g. g \<noteq> f \<longrightarrow> fd_lock s' g = fd_lock s g)"

lemma Lock_Ret:
  assumes "Lock f t s = Ret r s'"
  shows "(r = 0 \<or> r = -1) \<and> errno s' \<noteq> EINTR \<and> sent s' = sent s \<and> reads s' = reads s \<and>
    writes s' = writes s \<and> polls s' = polls s \<and> clocks s' = clocks s \<and> fd_flags s' = fd_flags s \<and>
    closed s' = closed s \<and> (\<forall>g. g \<noteq> f \<longrightarrow> fd_lock s' g = fd_lock s g) \<and> (r = 0 \<longrightarrow> fd_lock s' f = t)"
proof -
  have "Lock_loop as f t s = Ret r s' \<Longrightarrow> ?thesis" for as
    by (induction as f t s rule: Lock_loop.induct) (auto simp: Let_def split: if_splits)
  then show ?thesis using assms unfolding Lock_def by blast
qed

lemma write_result_step:
  assumes "write_result f (drop k data) n (s1\<lparr>writes := ws, sent := (sent s1)(f := sent s1 f @ take k data)\<rparr>) r s'"
    and "k \<le> length data" and "read_frame s s1" and "reads s1 = reads s"
  shows "write_result f data n s r s'"
proof -
  obtain j where j: "j \<le> length (drop k data)"
      "sent s' = (sent s1)(f := sent s1 f @ take k data @ take j (drop k data))"
      "r = -1 \<or> r = int n \<and> j = length (drop k data) \<and> fd_lock s' f = F_UNLCK"
    using assms(1) unfolding write_result_def by auto
  have "take k data @ take j (drop k data) = take (k + j) data"
    by (simp add: take_add)
  then show ?thesis
    using j assms unfolding write_result_def read_frame_def
    by (intro conjI exI [of _ "k + j"]) auto
qed

lemma rio_write_loop_result:
  "rio_write_loop ws f n data s = Ret r s' \<Longrightarrow> write_result f data n s r s'"
proof (induction ws f n data s rule: rio_write_loop.induct)
  case (1 ws f n s)
  then show ?case
    by (auto simp: bind_run_Ret_iff write_result_def split: if_splits dest!: Lock_Ret)
next
  case (2 f n b bs s)
  then obtain r1 s1 where w: "Wait f s = Ret r1 s1" "s' = s1" "r = -1"
    by (auto simp: bind_run_Ret_iff split: if_splits)
  then show ?case
    using Wait_frame [OF w(1)] by (auto simp: write_result_def read_frame_def intro!: exI [of _ 0])
next
  case (3 a ws f n b bs s)
  then obtain r1 s1 where w: "Wait f s = Ret r1 s1"
    by (auto simp: bind_run_Ret_iff)
  have fr: "read_frame s s1" "reads s1 = reads s"
    using Wait_frame [OF w] by auto
  consider "r1 < 0" | e where "r1 \<ge> 0" "a = Inl e" "e = EINTR" | e where "r1 \<ge> 0" "a = Inl e" "e \<noteq> EINTR"
    | k where "r1 \<ge> 0" "a = Inr k"
    by (cases a) force+
  then show ?case
  proof cases
    case 1
    with "3.prems" w fr show ?thesis
      by (auto simp: write_result_def read_frame_def intro!: exI [of _ 0])
  next
    case 2
    with "3.prems" "3.IH"(1) [OF w] w have "write_result f (b # bs) n (s1\<lparr>writes := ws, errno := e\<rparr>) r s'"
      by (simp add: Let_def)
    with fr show ?thesis by (auto simp: write_result_def read_frame_def)
  next
    case 3
    with "3.prems" w fr show ?thesis
      by (auto simp: Let_def bind_run_Ret_iff write_result_def read_frame_def
          split: if_splits dest!: Lock_Ret intro!: exI [of _ 0])
  next
    case 4
    let ?k = "min k (length (b # bs))"
    have "write_result f (drop ?k (b # bs)) n
        (s1\<lparr>writes := ws, sent := (sent s1)(f := sent s1 f @ take ?k (b # bs))\<rparr>) r s'"
      using "3.prems" "3.IH"(2) [OF w _ _ refl refl] w 4 by (simp add: Let_def)
    then show ?thesis
      by (rule write_result_step) (use fr in auto)
  qed
qed

lemma rio_write_result:
  assumes "rio_write rp data s = Ret r s'"
  shows "write_result (rfd rp) data (length data) s r s'"
proof -
  obtain r1 s1 where l: "Lock (rfd rp) F_WRLCK s = Ret r1 s1"
    using assms by (auto simp: rio_write_def bind_run_Ret_iff)
  show ?thesis
  proof (cases "r1 < 0")
    case True
    with assms l Lock_Ret [OF l] show ?thesis
      by (auto simp: rio_write_def write_result_def intro!: exI [of _ 0])
  next
    case False
    with assms l have "write_result (rfd rp) data (length data) s1 r s'"
      by (auto simp: rio_write_def intro: rio_write_loop_result)
    with Lock_Ret [OF l] show ?thesis by (auto simp: write_result_def)
  qed
qed

section \<open>Reads stop only to wait\<close>

lemma bind_run_Stop_iff:
  "bind_run m f = Stop h s' \<longleftrightarrow> m = Stop h s' \<or> (\<exists>x s. m = Ret x s \<and> f x s = Stop h s')"
  by (cases m) auto

lemma Wait_Stop: "Wait f s = Stop h s' \<Longrightarrow> h = Waiting"
proof -
  have "Wait_loop as s = Stop h s' \<Longrightarrow> h = Waiting" for as
    by (induction as s rule: Wait_loop.induct) (auto simp: Let_def split: if_splits)
  then show "Wait f s = Stop h s' \<Longrightarrow> h = Waiting" by (simp add: Wait_def)
qed

lemma Lock_Stop: "Lock f t s = Stop h s' \<Longrightarrow> h = Waiting"
proof -
  have "Lock_loop as f t s = Stop h s' \<Longrightarrow> h = Waiting" for as
    by (induction as f t s rule: Lock_loop.induct) (auto simp: Let_def split: if_splits)
  then show "Lock f t s = Stop h s' \<Longrightarrow> h = Waiting" by (simp add: Lock_def)
qed

lemma rio_fill_Stop: "rio_fill rs rp s = Stop h s' \<Longrightarrow> h = Waiting"
proof (induction rs arbitrary: rp s)
  case Nil
  then show ?case by (auto simp: bind_run_Stop_iff split: if_splits dest: Wait_Stop)
next
  case (Cons a rs)
  from Cons.prems show ?case
    by (cases a) (auto simp: bind_run_Stop_iff Let_def split: if_splits dest: Wait_Stop Cons.IH)
qed

lemma rio_read_Stop:
  assumes "rio_read rp n s = Stop h s'" and "wf_rio rp"
  shows "h = Waiting"
proof (cases "rio_fill (reads s) rp s")
  case (Ret x s1)
  obtain early rp1 where x: "x = (early, rp1)" by (cases x)
  have "wf_rio rp1" "early = None \<longrightarrow> cnt rp1 > 0"
    using rio_fill_stream [OF Ret [unfolded x] assms(2) refl] rio_fill_Ret [OF Ret [unfolded x]] by auto
  then show ?thesis
    using assms(1) by (auto simp: rio_read_def Ret x Let_def wf_rio_def split: option.splits if_splits)
next
  case (Stop h1 s1)
  then show ?thesis using assms(1) rio_fill_Stop [OF Stop] by (simp add: rio_read_def)
qed

lemma rio_readnb_loop_Stop:
  assumes "rio_readnb_loop n nleft acc rp s = Stop h s'" and "wf_rio rp"
  shows "h = Waiting"
  using assms
proof (induction n nleft acc rp s rule: rio_readnb_loop.induct)
  case (1 n nleft acc rp s)
  have nz: "nleft \<noteq> 0"
  proof
    assume "nleft = 0"
    with "1.prems"(1) show False by (simp add: rio_readnb_loop.simps [of n 0 acc rp s])
  qed
  show ?case
  proof (cases "rio_read rp nleft s")
    case (Ret x s1)
    obtain r d rp1 where x: "x = (r, d, rp1)" by (cases x)
    have wf: "wf_rio rp1"
      using rio_read_stream [OF Ret [unfolded x] "1.prems"(2)] by simp
    have "rio_readnb_loop n (nleft - nat r) (acc @ d) rp1 s1 = Stop h s'" "r > 0"
      using "1.prems"(1) nz rio_read_Ret [OF Ret [unfolded x]]
      by (auto simp: rio_readnb_loop.simps [of n nleft acc rp s] Ret x split: if_splits)
    then show ?thesis
      using "1.IH"(2) [OF nz Ret x [symmetric] refl] wf by auto
  next
    case (Stop h1 s1)
    then show ?thesis
      using "1.prems" nz rio_read_Stop [OF Stop]
      by (simp add: rio_readnb_loop.simps [of n nleft acc rp s])
  qed
qed

section \<open>The interface the packet readers rely on\<close>

locale byte_reader =
  fixes read :: "'r \<Rightarrow> nat \<Rightarrow> 's \<Rightarrow> ('s, int \<times> bytes \<times> 'r) run"
    and avail :: "'r \<Rightarrow> 's \<Rightarrow> bytes"
    and ok :: "'r \<Rightarrow> bool"
  assumes read_ok: "ok rp \<Longrightarrow> read rp n s = Ret (r, d, rp') s' \<Longrightarrow> ok rp'"
    and read_full: "ok rp \<Longrightarrow> read rp n s = Ret (int n, d, rp') s' \<Longrightarrow>
      d = take n (avail rp s) \<and> n \<le> length (avail rp s) \<and> avail rp' s' = drop n (avail rp s)"
    and read_short: "ok rp \<Longrightarrow> read rp n s = Ret (r, d, rp') s' \<Longrightarrow> r \<noteq> int n \<Longrightarrow>
      r = -1 \<or> 0 \<le> r \<and> r < int n \<and> d = avail rp s \<and> length d = nat r"
begin

text \<open>Reading a header and then a body takes one contiguous frame off the stream.\<close>

lemma read_frame_pair:
  assumes "ok rp" and "read rp n s = Ret (int n, hdr, rp1) s1"
    and "read rp1 m s1 = Ret (int m, bd, rp2) s2"
  shows "hdr @ bd = take (n + m) (avail rp s) \<and> avail rp2 s2 = drop (n + m) (avail rp s)"
proof -
  note r1 = read_full [OF assms(1,2)]
  note r2 = read_full [OF read_ok [OF assms(1,2)] assms(3)]
  show ?thesis
    using r1 r2 by (simp add: take_add) (simp add: add.commute)
qed

text \<open>A frame \<open>h @ b @ rest\<close> on the stream is delivered as \<open>h\<close> and \<open>b\<close>.\<close>

lemma read_packet:
  assumes "ok rp" and "avail rp s = h @ b @ rest"
    and "read rp (length h) s = Ret (int (length h), hdr, rp1) s1"
    and "read rp1 (length b) s1 = Ret (int (length b), bd, rp2) s2"
  shows "hdr = h \<and> bd = b \<and> avail rp2 s2 = rest"
  using read_full [OF assms(1,3)] read_full [OF read_ok [OF assms(1,3)] assms(4)] assms(2) by simp

end

interpretation rio: byte_reader rio_readnb stream wf_rio
proof
  fix rp n s r d rp' s'
  assume "wf_rio rp" and rd: "rio_readnb rp n s = Ret (r, d, rp') s'"
  then have res: "wf_rio rp'" "readnb_result n n [] (stream rp s) (stream rp' s') r d"
    using rio_readnb_loop_stream [of n n "[]" rp s r d rp' s'] by (auto simp: rio_readnb_def)
  show "wf_rio rp'" by (rule res(1))
  show "r \<noteq> int n \<Longrightarrow> r = -1 \<or> 0 \<le> r \<and> r < int n \<and> d = stream rp s \<and> length d = nat r"
    using res(2) by (auto simp: readnb_result_def)
next
  fix rp n s d rp' s'
  assume "wf_rio rp" and "rio_readnb rp n s = Ret (int n, d, rp') s'"
  then show "d = take n (stream rp s) \<and> n \<le> length (stream rp s) \<and> stream rp' s' = drop n (stream rp s)"
    using rio_readnb_loop_stream [of n n "[]" rp s "int n" d rp' s']
    by (auto simp: rio_readnb_def readnb_result_def)
qed

section \<open>Writes that return\<close>

definition accepting :: "nat \<Rightarrow> os \<Rightarrow> bool" where
  "accepting n s \<longleftrightarrow> errno s \<noteq> EINTR \<and> list_all (\<lambda>a. a = None) (polls s) \<and>
     list_all (\<lambda>a. case a of Inl e \<Rightarrow> False | Inr k \<Rightarrow> k > 0) (writes s) \<and>
     n \<le> length (writes s) \<and> n \<le> length (polls s)"

lemma Lock_accepting:
  "errno s \<noteq> EINTR \<Longrightarrow> fcntls s = None # fs \<Longrightarrow>
     Lock f t s = Ret 0 (s\<lparr>fcntls := fs, fd_lock := (fd_lock s)(f := t)\<rparr>)"
  by (simp add: Lock_def Let_def)

lemma rio_write_loop_accepting:
  assumes "accepting (length data) s" and "fcntls s = None # fs" and "writes s = ws"
  shows "\<exists>s'. rio_write_loop ws f n data s = Ret (int n) s'"
  using assms
proof (induction ws arbitrary: data s)
  case Nil
  then show ?case by (auto simp: accepting_def Lock_accepting)
next
  case (Cons a ws)
  show ?case
  proof (cases data)
    case Nil
    with Cons.prems show ?thesis by (auto simp: accepting_def Lock_accepting)
  next
    case (Cons b bs)
    obtain k where a: "a = Inr k" "k > 0"
      using Cons.prems(1,3) by (cases a) (auto simp: accepting_def)
    have p: "polls s \<noteq> []"
      using Cons.prems(1) Cons by (auto simp: accepting_def)
    have w: "Wait f s = Ret 0 (s\<lparr>polls := tl (polls s)\<rparr>)"
      using Cons.prems(1) p by (intro Wait_answering) (auto simp: accepting_def)
    define s1 where "s1 = s\<lparr>polls := tl (polls s), writes := ws,
        sent := (sent s)(f := sent s f @ take (min k (length data)) data)\<rparr>"
    have "accepting (length (drop (min k (length data)) data)) s1"
      using Cons.prems(1,3) a p Cons by (cases "polls s") (auto simp: accepting_def s1_def)
    then obtain s' where "rio_write_loop ws f n (drop (min k (length data)) data) s1 = Ret (int n) s'"
      using Cons.IH [of "drop (min k (length data)) data" s1] Cons.prems(2) by (auto simp: s1_def)
    then show ?thesis
      using w a Cons by (auto simp: s1_def Let_def)
  qed
qed

lemma rio_write_Stop: "rio_write rp data s = Stop h s' \<Longrightarrow> h = Waiting"
proof -
  have "rio_write_loop ws f n d t = Stop h s' \<Longrightarrow> h = Waiting" for ws f n d t
    by (induction ws f n d t rule: rio_write_loop.induct)
      (auto simp: bind_run_Stop_iff Let_def split: if_splits sum.splits dest: Wait_Stop Lock_Stop)
  then show "rio_write rp data s = Stop h s' \<Longrightarrow> h = Waiting"
    by (auto simp: rio_write_def bind_run_Stop_iff split: if_splits dest: Lock_Stop)
qed

section \<open>Properties\<close>

text \<open>C2. \<^verbatim>\<open>rio_readnb\<close> delivers the byte stream of its descriptor in order and without
  loss, whatever the sizes of the chunks the kernel hands out and whatever calls are
  interrupted: it returns \<open>n\<close> and exactly the next \<open>n\<close> bytes, or at the end of the stream
  the bytes that were left, or -1 after a prefix; it never leaves its buffer, and it
  stops only to wait for the kernel.\<close>

theorem rio_readnb_delivers_stream:
  assumes "wf_rio rp"
  shows "case rio_readnb rp n s of
      Ret (r, data, rp') s' \<Rightarrow> wf_rio rp' \<and> sent s' = sent s \<and>
        (r = int n \<and> data = take n (stream rp s) \<and> length data = n \<and>
           stream rp' s' = drop n (stream rp s)
         \<or> 0 \<le> r \<and> r < int n \<and> data = stream rp s \<and> length data = nat r
         \<or> r = -1 \<and> (\<exists>k < n. data = take k (stream rp s)))
    | Stop h s' \<Rightarrow> h = Waiting"
proof (cases "rio_readnb rp n s")
  case (Ret x s')
  obtain r data rp' where x: "x = (r, data, rp')" by (cases x)
  have "wf_rio rp' \<and> read_frame s s' \<and> readnb_result n n [] (stream rp s) (stream rp' s') r data"
    using rio_readnb_loop_stream [of n n "[]" rp s r data rp' s'] Ret assms
    by (simp add: rio_readnb_def x)
  then show ?thesis
    by (auto simp: Ret x readnb_result_def read_frame_def)
next
  case (Stop h s')
  then show ?thesis
    using rio_readnb_loop_Stop [of n n "[]" rp s h s'] assms by (simp add: rio_readnb_def)
qed

definition demo_os :: os where
  "demo_os = \<lparr>errno = E_NONE, polls = [None, None, None, None], reads = [Inr [1, 2, 3], Inr [4, 5]],
     writes = [Inr 2, Inr 9, Inr 9, Inr 9], fcntls = [None, None], clocks = [], sent = (\<lambda>_. []),
     fd_lock = (\<lambda>_. F_UNLCK), fd_flags = (\<lambda>_. 0x402), closed = []\<rparr>"

definition demo_rio :: rio_t where
  "demo_rio = \<lparr>rfd = 3, cnt = 0, bufp = 0, buf = replicate RIO_BUFSZ 0\<rparr>"

theorem rio_readnb_delivers_stream_witness:
  "case rio_readnb demo_rio 4 demo_os of
      Ret (r, data, rp') s' \<Rightarrow> wf_rio rp' \<and> sent s' = sent demo_os \<and>
        (r = int 4 \<and> data = take 4 (stream demo_rio demo_os) \<and> length data = 4 \<and>
           stream rp' s' = drop 4 (stream demo_rio demo_os)
         \<or> 0 \<le> r \<and> r < int 4 \<and> data = stream demo_rio demo_os \<and> length data = nat r
         \<or> r = -1 \<and> (\<exists>k < 4. data = take k (stream demo_rio demo_os)))
    | Stop h s' \<Rightarrow> h = Waiting"
proof -
  have "wf_rio demo_rio" by (simp add: wf_rio_def demo_rio_def)
  then show ?thesis by (rule rio_readnb_delivers_stream)
qed

text \<open>C26. when the kernel keeps answering and the stream holds at least \<open>n\<close> bytes,
  \<^verbatim>\<open>rio_readnb\<close> returns, with exactly the next \<open>n\<close> bytes, and leaves the rest.\<close>

theorem rio_readnb_returns:
  assumes "answering s" and "wf_rio rp" and "n \<le> length (stream rp s)"
  shows "\<exists>rp' s'. rio_readnb rp n s = Ret (int n, take n (stream rp s), rp') s' \<and>
     stream rp' s' = drop n (stream rp s)"
proof -
  obtain data rp' s' where r: "rio_readnb rp n s = Ret (int n, data, rp') s'"
    using rio_readnb_loop_answering [OF assms, of n "[]"] by (auto simp: rio_readnb_def)
  then show ?thesis
    using rio.read_full [OF assms(2) r] by auto
qed

theorem rio_readnb_returns_witness:
  "\<exists>rp' s'. rio_readnb demo_rio 4 demo_os = Ret (int 4, [1, 2, 3, 4], rp') s' \<and>
     stream rp' s' = [5]"
proof -
  have st: "stream demo_rio demo_os = [1, 2, 3, 4, 5]"
    by (simp add: stream_def demo_rio_def demo_os_def RIO_BUFSZ_def size_defs)
  have "answering demo_os" and "wf_rio demo_rio"
    by (simp_all add: answering_def wf_rio_def demo_os_def demo_rio_def)
  then show ?thesis
    using rio_readnb_returns [of demo_os demo_rio 4] by (simp add: st)
qed

text \<open>C14. \<^verbatim>\<open>rio_write\<close> returns -1 or the full length; when it returns the length, the
  descriptor has received all the data in order and its lock is released; in every case
  what was sent is a prefix of the data and no other descriptor is touched.\<close>

theorem rio_write_complete_or_error:
  "case rio_write rp data s of
      Ret r s' \<Rightarrow>
        (\<exists>k \<le> length data. sent s' = (sent s)(rfd rp := sent s (rfd rp) @ take k data) \<and>
           (r = -1 \<or> r = int (length data) \<and> k = length data \<and> fd_lock s' (rfd rp) = F_UNLCK)) \<and>
        reads s' = reads s
    | Stop h s' \<Rightarrow> h = Waiting"
proof (cases "rio_write rp data s")
  case (Ret r s')
  then show ?thesis
    using rio_write_result [OF Ret] by (auto simp: write_result_def)
next
  case (Stop h s')
  then show ?thesis by (simp add: rio_write_Stop)
qed

text \<open>when the kernel accepts at least one byte per call and grants the locks,
  \<^verbatim>\<open>rio_write\<close> returns, after all the data has been sent.\<close>

theorem rio_write_returns:
  assumes "accepting (length data) s" and "fcntls s = None # None # fs"
  shows "\<exists>s'. rio_write rp data s = Ret (int (length data)) s' \<and>
     sent s' = (sent s)(rfd rp := sent s (rfd rp) @ data)"
proof -
  let ?s = "s\<lparr>fcntls := None # fs, fd_lock := (fd_lock s)(rfd rp := F_WRLCK)\<rparr>"
  have "\<exists>s'. rio_write_loop (writes s) (rfd rp) (length data) data ?s = Ret (int (length data)) s'"
    by (rule rio_write_loop_accepting) (use assms in \<open>auto simp: accepting_def\<close>)
  then obtain s' where r: "rio_write rp data s = Ret (int (length data)) s'"
    using assms by (auto simp: rio_write_def Lock_accepting accepting_def)
  then show ?thesis
    using rio_write_result [OF r] by (auto simp: write_result_def)
qed

theorem rio_write_returns_witness:
  "\<exists>s'. rio_write demo_rio [7, 8, 9] demo_os = Ret 3 s' \<and> sent s' 3 = [7, 8, 9]"
  using rio_write_returns [of "[7, 8, 9]" demo_os "[]" demo_rio]
  by (auto simp: accepting_def demo_os_def demo_rio_def)

text \<open>one interrupted \<^verbatim>\<open>poll\<close> makes \<^verbatim>\<open>Wait\<close> spin: no number of later successful
  polls lets it return, since none of them clears \<^verbatim>\<open>errno\<close>.\<close>

theorem Wait_spins_after_EINTR:
  assumes "polls s = Some EINTR # replicate n None"
  shows "Wait f s = Stop Waiting (s\<lparr>polls := [], errno := EINTR\<rparr>)"
proof -
  have "errno t = EINTR \<Longrightarrow> Wait_loop (replicate m None) t = Stop Waiting (if m = 0 then t else t\<lparr>polls := []\<rparr>)"
    for m t
    by (induction m arbitrary: t) (auto simp: Let_def)
  then show ?thesis
    using assms by (cases n) (auto simp: Wait_def Let_def)
qed

theorem Wait_spins_after_EINTR_witness:
  "Wait 3 (demo_os\<lparr>polls := [Some EINTR, None, None, None]\<rparr>) =
     Stop Waiting (demo_os\<lparr>polls := [], errno := EINTR\<rparr>)"
  using Wait_spins_after_EINTR [of "demo_os\<lparr>polls := [Some EINTR, None, None, None]\<rparr>" 3 3]
  by (simp add: eval_nat_numeral)

text \<open>when \<^verbatim>\<open>poll\<close> fails while \<^verbatim>\<open>rio_write\<close> holds the write lock of the descriptor,
  the call returns -1 with the lock still held.\<close>

theorem rio_write_keeps_lock_on_poll_error:
  assumes "errno s \<noteq> EINTR" and "fcntls s = None # fs" and "polls s = Some e # ps"
    and "e \<noteq> EINTR" and "data \<noteq> []"
  shows "\<exists>s'. rio_write rp data s = Ret (-1) s' \<and> fd_lock s' (rfd rp) = F_WRLCK \<and> sent s' = sent s"
proof -
  obtain b bs where "data = b # bs" using assms(5) by (cases data) auto
  then show ?thesis
    using assms by (cases "writes s") (auto simp: rio_write_def Lock_accepting Wait_def Let_def)
qed

theorem rio_write_keeps_lock_on_poll_error_witness:
  "\<exists>s'. rio_write demo_rio [7] (demo_os\<lparr>polls := [Some (E_OTHER 9)]\<rparr>) = Ret (-1) s' \<and>
     fd_lock s' 3 = F_WRLCK"
  using rio_write_keeps_lock_on_poll_error
    [of "demo_os\<lparr>polls := [Some (E_OTHER 9)]\<rparr>" "[None]" "E_OTHER 9" "[]" "[7]" demo_rio]
  by (auto simp: demo_os_def demo_rio_def)

text \<open>\<^verbatim>\<open>rio_readinit\<close> yields an empty, well-formed buffer; the status flags of the
  descriptor become exactly \<open>O_NONBLOCK\<close>, so every flag that was set before is lost.\<close>

theorem rio_readinit_result:
  "case rio_readinit f s of
      Ret rp s' \<Rightarrow> wf_rio rp \<and> rfd rp = f \<and> stream rp s' = incoming (reads s) \<and>
        fd_flags s' = (fd_flags s)(f := O_NONBLOCK)
    | Stop h s' \<Rightarrow> h = Exit (-1) \<or> h = Waiting"
  by (auto simp: rio_readinit_def do_fcntl_def Let_def wf_rio_def stream_def
      split: list.splits option.splits)

end
