(* ===== verification/Segments.thy ===== *)
theory Segments
  imports Prelude
begin

text \<open>
  Doubly linked list segments in a memory of nodes, and the pointer surgery on them:
  relinking the ends of a segment, unlinking a node, pushing a node in front. The
  memory maps a pointer to its node (\<open>None\<close>: not allocated); the link fields are
  parameters, because a hash handle is a node of two lists at once.
\<close>

section \<open>Assignments through pointers\<close>

definition upd_at :: "ptr \<Rightarrow> ('h \<Rightarrow> 'h) \<Rightarrow> (ptr \<Rightarrow> 'h option) \<Rightarrow> (ptr \<Rightarrow> 'h option) option" where
  "upd_at p f H = (case H p of None \<Rightarrow> None | Some h \<Rightarrow> Some (H(p \<mapsto> f h)))"

definition upd_opt :: "ptr option \<Rightarrow> ('h \<Rightarrow> 'h) \<Rightarrow> (ptr \<Rightarrow> 'h option) \<Rightarrow> (ptr \<Rightarrow> 'h option) option" where
  "upd_opt q f H = (case q of None \<Rightarrow> Some H | Some p \<Rightarrow> upd_at p f H)"

lemma upd_at_Some [simp]: "H p = Some h \<Longrightarrow> upd_at p f H = Some (H(p \<mapsto> f h))"
  by (simp add: upd_at_def)

lemma upd_opt_None [simp]: "upd_opt None f H = Some H"
  by (simp add: upd_opt_def)

lemma upd_opt_Some [simp]: "upd_opt (Some p) f H = upd_at p f H"
  by (simp add: upd_opt_def)

text \<open>What an assignment does not change: any reading of the nodes that ignores it.\<close>

definition same_proj :: "('h \<Rightarrow> 'b) \<Rightarrow> (ptr \<Rightarrow> 'h option) \<Rightarrow> (ptr \<Rightarrow> 'h option) \<Rightarrow> bool" where
  "same_proj P H H' \<longleftrightarrow> (\<forall>y. map_option P (H' y) = map_option P (H y))"

lemma same_proj_refl [simp]: "same_proj P H H"
  by (simp add: same_proj_def)

lemma same_proj_trans [trans]: "same_proj P H H1 \<Longrightarrow> same_proj P H1 H2 \<Longrightarrow> same_proj P H H2"
  by (simp add: same_proj_def)

lemma same_proj_upd: "H p = Some h \<Longrightarrow> P h' = P h \<Longrightarrow> same_proj P H (H(p \<mapsto> h'))"
  by (simp add: same_proj_def)

lemma same_proj_upd_opt: "upd_opt q f H = Some H' \<Longrightarrow> (\<And>h. P (f h) = P h) \<Longrightarrow> same_proj P H H'"
  by (auto simp: upd_opt_def upd_at_def same_proj_def split: option.splits)

lemma same_proj_the: "same_proj P H H' \<Longrightarrow> P (the (H' y)) = P (the (H y))"
  unfolding same_proj_def by (metis map_option_is_None option.map_sel)

lemma same_proj_alloc: "same_proj P H H' \<Longrightarrow> H' y = None \<longleftrightarrow> H y = None"
  unfolding same_proj_def by (metis map_option_is_None)

section \<open>Segments\<close>

primrec dseg :: "(ptr \<Rightarrow> 'h option) \<Rightarrow> ('h \<Rightarrow> ptr option) \<Rightarrow> ('h \<Rightarrow> ptr option) \<Rightarrow> ptr option
    \<Rightarrow> ptr option \<Rightarrow> ptr list \<Rightarrow> ptr option \<Rightarrow> ptr option \<Rightarrow> bool" where
  "dseg H nx pv q p [] r e \<longleftrightarrow> r = q \<and> p = e"
| "dseg H nx pv q p (x # xs) r e \<longleftrightarrow>
     p = Some x \<and> (\<exists>h. H x = Some h \<and> pv h = q \<and> dseg H nx pv (Some x) (nx h) xs r e)"

definition dll :: "(ptr \<Rightarrow> 'h option) \<Rightarrow> ('h \<Rightarrow> ptr option) \<Rightarrow> ('h \<Rightarrow> ptr option) \<Rightarrow> ptr option
    \<Rightarrow> ptr list \<Rightarrow> bool" where
  "dll H nx pv p xs \<longleftrightarrow> (\<exists>r. dseg H nx pv None p xs r None)"

lemma dseg_append:
  "dseg H nx pv q p (xs @ ys) r e \<longleftrightarrow>
     (\<exists>r' e'. dseg H nx pv q p xs r' e' \<and> dseg H nx pv r' e' ys r e)"
  by (induction xs arbitrary: q p) auto

lemma dseg_alloc: "dseg H nx pv q p xs r e \<Longrightarrow> x \<in> set xs \<Longrightarrow> \<exists>h. H x = Some h"
  by (induction xs arbitrary: q p) auto

lemma dseg_last: "dseg H nx pv q p xs r e \<Longrightarrow> r = (if xs = [] then q else Some (last xs))"
  by (induction xs arbitrary: q p) auto

lemma dseg_first: "dseg H nx pv q p xs r e \<Longrightarrow> p = (case xs of [] \<Rightarrow> e | x # _ \<Rightarrow> Some x)"
  by (cases xs) auto

lemma dseg_same_proj:
  "same_proj (\<lambda>h. (nx h, pv h)) H H' \<Longrightarrow> dseg H nx pv q p xs r e \<Longrightarrow> dseg H' nx pv q p xs r e"
proof (induction xs arbitrary: q p)
  case (Cons x xs)
  then obtain h where h: "H x = Some h" "pv h = q" "p = Some x" "dseg H nx pv (Some x) (nx h) xs r e"
    by auto
  have "map_option (\<lambda>h. (nx h, pv h)) (H' x) = Some (nx h, pv h)"
    using Cons.prems(1) h(1) by (simp add: same_proj_def)
  then show ?case
    using Cons.IH [OF Cons.prems(1) h(4)] h(2,3) by auto
qed simp

lemma dll_same_proj:
  "same_proj (\<lambda>h. (nx h, pv h)) H H' \<Longrightarrow> dll H nx pv p xs \<Longrightarrow> dll H' nx pv p xs"
  by (auto simp: dll_def dest: dseg_same_proj)

lemma dseg_agree:
  "(\<And>x. x \<in> set xs \<Longrightarrow> H' x = H x) \<Longrightarrow> dseg H' nx pv q p xs r e = dseg H nx pv q p xs r e"
  by (induction xs arbitrary: q p) simp_all

lemma dll_agree: "(\<And>x. x \<in> set xs \<Longrightarrow> H' x = H x) \<Longrightarrow> dll H' nx pv p xs = dll H nx pv p xs"
  unfolding dll_def by (simp add: dseg_agree [of xs H' H])

lemma dseg_set_next:
  assumes "dseg H nx pv q p (xs @ [x]) r e" and "H x = Some h" and "x \<notin> set xs" and "pv h' = pv h"
  shows "dseg (H(x \<mapsto> h')) nx pv q p (xs @ [x]) (Some x) (nx h')"
proof -
  have "dseg (H(x \<mapsto> h')) nx pv q p xs r' e' = dseg H nx pv q p xs r' e'" for r' e'
    using assms(3) by (intro dseg_agree) auto
  then show ?thesis
    using assms(1,2,4) by (auto simp: dseg_append)
qed

lemma dseg_set_prev:
  assumes "dseg H nx pv q p (x # xs) r e" and "H x = Some h" and "x \<notin> set xs" and "nx h' = nx h"
  shows "dseg (H(x \<mapsto> h')) nx pv (pv h') (Some x) (x # xs) r e"
proof -
  have "dseg (H(x \<mapsto> h')) nx pv (Some x) (nx h) xs r e = dseg H nx pv (Some x) (nx h) xs r e"
    using assms(3) by (intro dseg_agree) auto
  then show ?thesis
    using assms(1,2,4) by auto
qed

section \<open>Unlinking a node\<close>

text \<open>Both neighbours, where they exist, are made to point past the node.\<close>

lemma dseg_set_last_opt:
  assumes "dseg H nx pv None p ys pr e" and "distinct ys" and "\<And>h. nx (f h) = e'" and "\<And>h. pv (f h) = pv h"
  shows "\<exists>H'. upd_opt pr f H = Some H' \<and> dseg H' nx pv None (if ys = [] then e' else p) ys pr e' \<and>
    (\<forall>y. y \<notin> set ys \<longrightarrow> H' y = H y)"
proof (cases ys rule: rev_cases)
  case Nil
  then show ?thesis using assms(1) by auto
next
  case (snoc zs z)
  then have pr: "pr = Some z" using dseg_last [OF assms(1)] by simp
  obtain h where h: "H z = Some h" using dseg_alloc [OF assms(1), of z] snoc by auto
  have "dseg (H(z \<mapsto> f h)) nx pv None p (zs @ [z]) (Some z) (nx (f h))"
    by (rule dseg_set_next) (use assms snoc h in auto)
  then show ?thesis
    using snoc pr h assms(3) by auto
qed

lemma dseg_set_first_opt:
  assumes "dseg H nx pv q e zs r None" and "distinct zs" and "\<And>h. pv (g h) = q'" and "\<And>h. nx (g h) = nx h"
  shows "\<exists>H'. upd_opt e g H = Some H' \<and> dseg H' nx pv q' e zs (if zs = [] then q' else r) None \<and>
    (\<forall>y. y \<notin> set zs \<longrightarrow> H' y = H y)"
proof (cases zs)
  case Nil
  then show ?thesis using assms(1) by auto
next
  case (Cons z ws)
  then obtain h where h: "H z = Some h" "e = Some z" using assms(1) by auto
  have "dseg (H(z \<mapsto> g h)) nx pv (pv (g h)) (Some z) (z # ws) r None"
    by (rule dseg_set_prev) (use assms Cons h in auto)
  then show ?thesis
    using Cons h assms(3) by auto
qed

lemma dseg_unlink:
  assumes seg: "dseg H nx pv None p (ys @ x # zs) r None" and dist: "distinct (ys @ x # zs)"
    and h: "H x = Some h"
    and f: "\<And>k. nx (f k) = nx h" "\<And>k. pv (f k) = pv k"
    and g: "\<And>k. pv (g k) = pv h" "\<And>k. nx (g k) = nx k"
  shows "\<exists>H1 H2. upd_opt (pv h) f H = Some H1 \<and> upd_opt (nx h) g H1 = Some H2 \<and>
    dseg H2 nx pv None (if ys = [] then nx h else p) (ys @ zs) (if zs = [] then pv h else r) None \<and>
    (\<forall>y. y \<notin> set (ys @ zs) \<longrightarrow> H2 y = H y)"
proof -
  have a: "dseg H nx pv None p ys (pv h) (Some x)" and b: "dseg H nx pv (Some x) (nx h) zs r None"
    using seg h by (auto simp: dseg_append)
  obtain H1 where H1: "upd_opt (pv h) f H = Some H1"
      "dseg H1 nx pv None (if ys = [] then nx h else p) ys (pv h) (nx h)"
      "\<forall>y. y \<notin> set ys \<longrightarrow> H1 y = H y"
    using dseg_set_last_opt [where f = f and nx = nx and pv = pv, OF a _ f] dist by auto
  have b1: "dseg H1 nx pv (Some x) (nx h) zs r None"
    using b dist H1(3) by (subst dseg_agree [where H = H]) auto
  obtain H2 where H2: "upd_opt (nx h) g H1 = Some H2"
      "dseg H2 nx pv (pv h) (nx h) zs (if zs = [] then pv h else r) None"
      "\<forall>y. y \<notin> set zs \<longrightarrow> H2 y = H1 y"
    using dseg_set_first_opt [where g = g and nx = nx and pv = pv, OF b1 _ g] dist by auto
  have "dseg H2 nx pv None (if ys = [] then nx h else p) ys (pv h) (nx h)"
    using H1(2) dist H2(3) by (subst dseg_agree [where H = H1]) auto
  then have "dseg H2 nx pv None (if ys = [] then nx h else p) (ys @ zs) (if zs = [] then pv h else r) None"
    unfolding dseg_append using H2(2) by blast
  then show ?thesis
    using H1(1,3) H2(1,3) by auto
qed

lemma dll_unlink:
  assumes "dll H nx pv p (ys @ x # zs)" and "distinct (ys @ x # zs)" and "H x = Some h"
    and "\<And>k. nx (f k) = nx h" "\<And>k. pv (f k) = pv k" and "\<And>k. pv (g k) = pv h" "\<And>k. nx (g k) = nx k"
  shows "\<exists>H1 H2. upd_opt (pv h) f H = Some H1 \<and> upd_opt (nx h) g H1 = Some H2 \<and>
    dll H2 nx pv (if p = Some x then nx h else p) (ys @ zs) \<and> (\<forall>y. y \<notin> set (ys @ zs) \<longrightarrow> H2 y = H y)"
proof -
  obtain r where seg: "dseg H nx pv None p (ys @ x # zs) r None"
    using assms(1) by (auto simp: dll_def)
  have "(ys = []) = (p = Some x)"
    using dseg_first [OF seg] assms(2) by (cases ys) auto
  then show ?thesis
    using dseg_unlink [where f = f and g = g and nx = nx and pv = pv, OF seg assms(2,3) assms(4-7)] by (auto simp: dll_def)
qed

section \<open>Pushing a node in front\<close>

lemma dll_push:
  assumes "dll H nx pv p xs" and "x \<notin> set xs" and "distinct xs" and "H x = Some h"
    and "nx h' = p" and "pv h' = None" and g: "\<And>k. pv (g k) = Some x" "\<And>k. nx (g k) = nx k"
  shows "\<exists>H'. upd_opt p g (H(x \<mapsto> h')) = Some H' \<and> dll H' nx pv (Some x) (x # xs) \<and>
    (\<forall>y. y \<notin> set (x # xs) \<longrightarrow> H' y = H y)"
proof -
  obtain r where seg: "dseg H nx pv None p xs r None"
    using assms(1) by (auto simp: dll_def)
  then have "dseg (H(x \<mapsto> h')) nx pv None p xs r None"
    using assms(2) by (subst dseg_agree [where H = H]) auto
  then obtain H' where H': "upd_opt p g (H(x \<mapsto> h')) = Some H'"
      "dseg H' nx pv (Some x) p xs (if xs = [] then Some x else r) None"
      "\<forall>y. y \<notin> set xs \<longrightarrow> H' y = (H(x \<mapsto> h')) y"
    using dseg_set_first_opt [where g = g and nx = nx and pv = pv, OF _ assms(3) g] by blast
  then have "H' x = Some h'" using assms(2) by simp
  then show ?thesis
    using H' assms(5,6) by (auto simp: dll_def)
qed

end
