(* ===== verification/Uthash.thy ===== *)
theory Uthash
  imports Segments "HOL-Library.Monad_Syntax"
begin

text \<open>
  The intrusive hash table of \<^verbatim>\<open>uthash.h\<close> at the level of its pointers. An element and
  its hash handle lie at a fixed distance, so both are named by the element's pointer;
  \<open>hh\<close> is the memory of handles (\<open>None\<close>: not allocated). A table and the variable
  \<^verbatim>\<open>head\<close> that reaches it form one \<open>uthash\<close> state. The result \<open>None\<close> of an operation
  is undefined behaviour: a NULL, dangling or out-of-range access, or a chain that never ends.
  Keys are held as bytes: no caller changes a key while its element is in a table.
  The build defines neither \<^verbatim>\<open>HASH_BLOOM\<close>, \<^verbatim>\<open>HASH_DEBUG\<close> nor \<^verbatim>\<open>HASH_EMIT_KEYS\<close>.
\<close>

section \<open>The hash function\<close>

definition HASH_JEN_MIX :: "u32 \<times> u32 \<times> u32 \<Rightarrow> u32 \<times> u32 \<times> u32" where
  "HASH_JEN_MIX = (\<lambda>(a, b, c).
     let a = a - b; a = a - c; a = a XOR drop_bit 13 c;
         b = b - c; b = b - a; b = b XOR push_bit 8 a;
         c = c - a; c = c - b; c = c XOR drop_bit 13 b;
         a = a - b; a = a - c; a = a XOR drop_bit 12 c;
         b = b - c; b = b - a; b = b XOR push_bit 16 a;
         c = c - a; c = c - b; c = c XOR drop_bit 5 b;
         a = a - b; a = a - c; a = a XOR drop_bit 3 c;
         b = b - c; b = b - a; b = b XOR push_bit 10 a;
         c = c - a; c = c - b; c = c XOR drop_bit 15 b
     in (a, b, c))"

text \<open>A key byte as an \<^verbatim>\<open>unsigned\<close>, shifted into place.\<close>

definition kb :: "bytes \<Rightarrow> nat \<Rightarrow> nat \<Rightarrow> u32" where
  "kb key i sh = push_bit sh (ucast (key ! i))"

function jen_blocks :: "bytes \<Rightarrow> u32 \<times> u32 \<times> u32 \<Rightarrow> bytes \<times> (u32 \<times> u32 \<times> u32)" where
  "jen_blocks key st =
     (if length key \<ge> 12 then
        (case st of (i, j, hashv) \<Rightarrow>
           let i = i + (kb key 0 0 + kb key 1 8 + kb key 2 16 + kb key 3 24);
               j = j + (kb key 4 0 + kb key 5 8 + kb key 6 16 + kb key 7 24);
               hashv = hashv + (kb key 8 0 + kb key 9 8 + kb key 10 16 + kb key 11 24)
           in jen_blocks (drop 12 key) (HASH_JEN_MIX (i, j, hashv)))
      else (key, st))"
  by pat_completeness auto
termination
  by (relation "measure (\<lambda>(key, st). length key)") auto

declare jen_blocks.simps [simp del]

text \<open>The \<^verbatim>\<open>switch\<close> without breaks: case \<open>n\<close> runs every case below it too.\<close>

definition HASH_JEN :: "bytes \<Rightarrow> u32" where
  "HASH_JEN key =
     (case jen_blocks key (0x9e3779b9, 0x9e3779b9, 0xfeedbeef) of (r, (i, j, hashv)) \<Rightarrow>
        let k = length r;
            hashv = hashv + of_nat (length key);
            hashv = (if k \<ge> 11 then hashv + kb r 10 24 else hashv);
            hashv = (if k \<ge> 10 then hashv + kb r 9 16 else hashv);
            hashv = (if k \<ge> 9 then hashv + kb r 8 8 else hashv);
            j = (if k \<ge> 8 then j + kb r 7 24 else j);
            j = (if k \<ge> 7 then j + kb r 6 16 else j);
            j = (if k \<ge> 6 then j + kb r 5 8 else j);
            j = (if k \<ge> 5 then j + kb r 4 0 else j);
            i = (if k \<ge> 4 then i + kb r 3 24 else i);
            i = (if k \<ge> 3 then i + kb r 2 16 else i);
            i = (if k \<ge> 2 then i + kb r 1 8 else i);
            i = (if k \<ge> 1 then i + kb r 0 0 else i)
        in snd (snd (HASH_JEN_MIX (i, j, hashv))))"

definition HASH_TO_BKT :: "u32 \<Rightarrow> nat \<Rightarrow> nat" where
  "HASH_TO_BKT hashv num_bkts = unat (hashv AND (of_nat num_bkts - 1))"

section \<open>Tables and handles\<close>

record UT_hash_handle =
  app_prev :: "ptr option"
  app_next :: "ptr option"
  hh_prev :: "ptr option"
  hh_next :: "ptr option"
  hh_key :: bytes
  hashv :: u32

record UT_hash_bucket =
  hh_head :: "ptr option"
  bkt_count :: nat
  expand_mult :: nat

record UT_hash_table =
  buckets :: "UT_hash_bucket list"
  num_buckets :: nat
  log2_num_buckets :: nat
  num_items :: nat
  tail :: ptr
  ideal_chain_maxlen :: nat
  nonideal_items :: nat
  ineff_expands :: nat
  noexpand :: nat

type_synonym hmem = "ptr \<Rightarrow> UT_hash_handle option"

record uthash =
  head :: "ptr option"
  tbl :: UT_hash_table
  hh :: hmem

definition HASH_INITIAL_NUM_BUCKETS :: nat where "HASH_INITIAL_NUM_BUCKETS = 32"
definition HASH_INITIAL_NUM_BUCKETS_LOG2 :: nat where "HASH_INITIAL_NUM_BUCKETS_LOG2 = 5"
definition HASH_BKT_CAPACITY_THRESH :: nat where "HASH_BKT_CAPACITY_THRESH = 10"

lemmas hash_const_defs = HASH_INITIAL_NUM_BUCKETS_def HASH_INITIAL_NUM_BUCKETS_LOG2_def
  HASH_BKT_CAPACITY_THRESH_def

text \<open>A handle and a bucket as \<^verbatim>\<open>memset(..., 0, ...)\<close> leaves them.\<close>

definition zero_handle :: UT_hash_handle where
  "zero_handle = \<lparr>app_prev = None, app_next = None, hh_prev = None, hh_next = None,
     hh_key = [], hashv = 0\<rparr>"

definition zero_bucket :: UT_hash_bucket where
  "zero_bucket = \<lparr>hh_head = None, bkt_count = 0, expand_mult = 0\<rparr>"

text \<open>Unsigned decrement.\<close>

definition dec32 :: "nat \<Rightarrow> nat" where
  "dec32 c = (if c = 0 then 2 ^ 32 - 1 else c - 1)"

section \<open>Finding\<close>

text \<open>Equal length and \<^verbatim>\<open>memcmp\<close> zero is equality of the byte lists.\<close>

partial_function (option) HASH_FIND_IN_BKT :: "hmem \<Rightarrow> bytes \<Rightarrow> ptr option \<Rightarrow> ptr option option" where
  "HASH_FIND_IN_BKT H key out =
     (case out of
        None \<Rightarrow> Some None
      | Some p \<Rightarrow> (case H p of
            None \<Rightarrow> None
          | Some h \<Rightarrow> if hh_key h = key then Some (Some p) else HASH_FIND_IN_BKT H key (hh_next h)))"

declare HASH_FIND_IN_BKT.simps [code]

definition HASH_FIND :: "uthash \<Rightarrow> bytes \<Rightarrow> ptr option option" where
  "HASH_FIND t key =
     (case head t of
        None \<Rightarrow> Some None
      | Some _ \<Rightarrow>
          let b = HASH_TO_BKT (HASH_JEN key) (num_buckets (tbl t)) in
          if b < length (buckets (tbl t))
          then HASH_FIND_IN_BKT (hh t) key (hh_head (buckets (tbl t) ! b)) else None)"

section \<open>Adding\<close>

definition HASH_MAKE_TABLE :: "ptr \<Rightarrow> UT_hash_table" where
  "HASH_MAKE_TABLE hp = \<lparr>buckets = replicate HASH_INITIAL_NUM_BUCKETS zero_bucket,
     num_buckets = HASH_INITIAL_NUM_BUCKETS, log2_num_buckets = HASH_INITIAL_NUM_BUCKETS_LOG2,
     num_items = 0, tail = hp, ideal_chain_maxlen = 0, nonideal_items = 0, ineff_expands = 0,
     noexpand = 0\<rparr>"

text \<open>
  Moving one handle to the new bucket array: the body of the inner loop of
  \<^verbatim>\<open>HASH_EXPAND_BUCKETS\<close>. It yields the new memory, buckets and number of non-ideal
  items, and the handle that followed in the old chain.
\<close>

definition expand_item :: "nat \<Rightarrow> nat \<Rightarrow> ptr \<Rightarrow> hmem \<times> UT_hash_bucket list \<times> nat
    \<Rightarrow> ((hmem \<times> UT_hash_bucket list \<times> nat) \<times> ptr option) option" where
  "expand_item nb ideal p = (\<lambda>(H, nbs, ni). do {
     h \<leftarrow> H p;
     let nxt = hh_next h;
     let b = HASH_TO_BKT (hashv h) nb;
     if b < length nbs then do {
       let bk = nbs ! b;
       let c = Suc (bkt_count bk);
       if c > ideal \<and> ideal = 0 then None
       else do {
         let ni = (if c > ideal then Suc ni else ni);
         let em = (if c > ideal then c div ideal else expand_mult bk);
         H \<leftarrow> upd_at p (\<lambda>h. h\<lparr>hh_prev := None, hh_next := hh_head bk\<rparr>) H;
         H \<leftarrow> upd_opt (hh_head bk) (\<lambda>h. h\<lparr>hh_prev := Some p\<rparr>) H;
         Some ((H, nbs[b := \<lparr>hh_head = Some p, bkt_count = c, expand_mult = em\<rparr>], ni), nxt)
       }
     } else None })"

partial_function (option) expand_chain :: "nat \<Rightarrow> nat \<Rightarrow> ptr option \<Rightarrow> hmem \<times> UT_hash_bucket list \<times> nat
    \<Rightarrow> (hmem \<times> UT_hash_bucket list \<times> nat) option" where
  "expand_chain nb ideal thh st =
     (case thh of
        None \<Rightarrow> Some st
      | Some p \<Rightarrow> Option.bind (expand_item nb ideal p st) (\<lambda>r. expand_chain nb ideal (snd r) (fst r)))"

declare expand_chain.simps [code]

fun expand_all :: "nat \<Rightarrow> nat \<Rightarrow> UT_hash_bucket list \<Rightarrow> hmem \<times> UT_hash_bucket list \<times> nat
    \<Rightarrow> (hmem \<times> UT_hash_bucket list \<times> nat) option" where
  "expand_all nb ideal [] st = Some st"
| "expand_all nb ideal (b # bs) st =
     Option.bind (expand_chain nb ideal (hh_head b) st) (expand_all nb ideal bs)"

definition ideal_maxlen :: "nat \<Rightarrow> nat \<Rightarrow> nat \<Rightarrow> nat" where
  "ideal_maxlen items log2 nb =
     drop_bit (log2 + 1) items + (if items AND (nb * 2 - 1) \<noteq> 0 then 1 else 0)"

definition HASH_EXPAND_BUCKETS :: "UT_hash_table \<times> hmem \<Rightarrow> (UT_hash_table \<times> hmem) option" where
  "HASH_EXPAND_BUCKETS = (\<lambda>(T, H). do {
     let nb = 2 * num_buckets T;
     let ideal = ideal_maxlen (num_items T) (log2_num_buckets T) (num_buckets T);
     (H, nbs, ni) \<leftarrow> expand_all nb ideal (buckets T) (H, replicate nb zero_bucket, 0);
     let ineff = (if ni > drop_bit 1 (num_items T) then ineff_expands T + 1 else 0);
     Some (T\<lparr>ideal_chain_maxlen := ideal, nonideal_items := ni, num_buckets := nb,
             log2_num_buckets := log2_num_buckets T + 1, buckets := nbs, ineff_expands := ineff,
             noexpand := (if ineff > 1 then 1 else noexpand T)\<rparr>, H) })"

definition HASH_ADD_TO_BKT :: "nat \<Rightarrow> ptr \<Rightarrow> UT_hash_table \<times> hmem \<Rightarrow> (UT_hash_table \<times> hmem) option" where
  "HASH_ADD_TO_BKT b p = (\<lambda>(T, H).
     if b < length (buckets T) then do {
       let bk = buckets T ! b;
       let c = Suc (bkt_count bk);
       H \<leftarrow> upd_at p (\<lambda>h. h\<lparr>hh_next := hh_head bk, hh_prev := None\<rparr>) H;
       H \<leftarrow> upd_opt (hh_head bk) (\<lambda>h. h\<lparr>hh_prev := Some p\<rparr>) H;
       let T = T\<lparr>buckets := (buckets T)[b := bk\<lparr>bkt_count := c, hh_head := Some p\<rparr>]\<rparr>;
       if c \<ge> (expand_mult bk + 1) * HASH_BKT_CAPACITY_THRESH \<and> noexpand T \<noteq> 1
       then HASH_EXPAND_BUCKETS (T, H) else Some (T, H)
     } else None)"

definition HASH_ADD :: "uthash \<Rightarrow> ptr \<Rightarrow> bytes \<Rightarrow> uthash option" where
  "HASH_ADD t p key = do {
     H \<leftarrow> upd_at p (\<lambda>h. h\<lparr>app_next := None, hh_key := key\<rparr>) (hh t);
     (hp, T, H) \<leftarrow> (case head t of
         None \<Rightarrow> do {
           H \<leftarrow> upd_at p (\<lambda>h. h\<lparr>app_prev := None\<rparr>) H;
           Some (Some p, HASH_MAKE_TABLE p, H) }
       | Some _ \<Rightarrow> do {
           H \<leftarrow> upd_at (tail (tbl t)) (\<lambda>h. h\<lparr>app_next := Some p\<rparr>) H;
           H \<leftarrow> upd_at p (\<lambda>h. h\<lparr>app_prev := Some (tail (tbl t))\<rparr>) H;
           Some (head t, (tbl t)\<lparr>tail := p\<rparr>, H) });
     let T = T\<lparr>num_items := Suc (num_items T)\<rparr>;
     H \<leftarrow> upd_at p (\<lambda>h. h\<lparr>hashv := HASH_JEN key\<rparr>) H;
     (T, H) \<leftarrow> HASH_ADD_TO_BKT (HASH_TO_BKT (HASH_JEN key) (num_buckets T)) p (T, H);
     Some \<lparr>head = hp, tbl = T, hh = H\<rparr> }"

section \<open>Deleting\<close>

definition HASH_DEL_IN_BKT :: "nat \<Rightarrow> ptr \<Rightarrow> UT_hash_table \<times> hmem \<Rightarrow> (UT_hash_table \<times> hmem) option" where
  "HASH_DEL_IN_BKT b p = (\<lambda>(T, H).
     if b < length (buckets T) then do {
       h \<leftarrow> H p;
       let bk = buckets T ! b;
       let bk = bk\<lparr>bkt_count := dec32 (bkt_count bk)\<rparr>;
       let bk = (if hh_head bk = Some p then bk\<lparr>hh_head := hh_next h\<rparr> else bk);
       H \<leftarrow> upd_opt (hh_prev h) (\<lambda>q. q\<lparr>hh_next := hh_next h\<rparr>) H;
       H \<leftarrow> upd_opt (hh_next h) (\<lambda>q. q\<lparr>hh_prev := hh_prev h\<rparr>) H;
       Some (T\<lparr>buckets := (buckets T)[b := bk]\<rparr>, H)
     } else None)"

text \<open>
  A deletee without neighbours is taken for the only element, and the table is freed;
  the test looks at the deletee alone.
\<close>

definition HASH_DELETE :: "uthash \<Rightarrow> ptr \<Rightarrow> uthash option" where
  "HASH_DELETE t p = do {
     h \<leftarrow> hh t p;
     _ \<leftarrow> head t;
     if app_prev h = None \<and> app_next h = None then Some (t\<lparr>head := None\<rparr>)
     else do {
       T \<leftarrow> (if p = tail (tbl t) then do { q \<leftarrow> app_prev h; Some ((tbl t)\<lparr>tail := q\<rparr>) }
             else Some (tbl t));
       let hp = (case app_prev h of None \<Rightarrow> app_next h | Some _ \<Rightarrow> head t);
       H \<leftarrow> upd_opt (app_prev h) (\<lambda>q. q\<lparr>app_next := app_next h\<rparr>) (hh t);
       H \<leftarrow> upd_opt (app_next h) (\<lambda>q. q\<lparr>app_prev := app_prev h\<rparr>) H;
       (T, H) \<leftarrow> HASH_DEL_IN_BKT (HASH_TO_BKT (hashv h) (num_buckets T)) p (T, H);
       Some \<lparr>head = hp, tbl = T\<lparr>num_items := dec32 (num_items T)\<rparr>, hh = H\<rparr> } }"

section \<open>Counting and iterating\<close>

definition HASH_COUNT :: "uthash \<Rightarrow> nat" where
  "HASH_COUNT t = (case head t of None \<Rightarrow> 0 | Some _ \<Rightarrow> num_items (tbl t))"

end
