(* ===== verification/Uthash_Rep.thy ===== *)
theory Uthash_Rep
  imports Uthash
begin

text \<open>
  Correctness of the hash table operations. \<open>uh_rep t xs\<close> says that the table \<open>t\<close>
  holds the elements \<open>xs\<close>, in the order in which they were added: the application-order
  list is linked correctly in both directions, every element is in the chain of its
  bucket and nowhere else, and the counters agree. Every operation is shown to be
  defined on such a table and to act on \<open>xs\<close> as its specification says.
\<close>

section \<open>Buckets and bit masks\<close>

lemma HASH_TO_BKT_less: "HASH_TO_BKT h (2 ^ k) < 2 ^ k"
proof -
  have "HASH_TO_BKT h (2 ^ k) = take_bit k (unat h)"
    by (simp add: HASH_TO_BKT_def unsigned_take_bit_eq flip: take_bit_eq_mask mask_eq_exp_minus_1)
  then show ?thesis by simp
qed

text \<open>The shift and mask compute the ceiling of items over buckets.\<close>

lemma ideal_maxlen_mod_div:
  "ideal_maxlen n k (2 ^ k) = n div 2 ^ (k + 1) + (if n mod 2 ^ (k + 1) \<noteq> 0 then 1 else 0)"
proof -
  have "n AND (2 ^ k * 2 - 1) = n mod 2 ^ (k + 1)"
    using take_bit_eq_mask [of "k + 1" n] by (simp add: take_bit_eq_mod mask_eq_exp_minus_1 mult.commute)
  then show ?thesis
    by (simp add: ideal_maxlen_def drop_bit_eq_div)
qed

lemma ideal_maxlen_pos: "n > 0 \<Longrightarrow> ideal_maxlen n k (2 ^ k) > 0"
  using div_mult_mod_eq [of n "2 ^ (k + 1)"] unfolding ideal_maxlen_mod_div by (intro gr0I) auto

section \<open>The chain of a bucket\<close>

definition chains_ok :: "nat \<Rightarrow> UT_hash_bucket list \<Rightarrow> hmem \<Rightarrow> ptr set \<Rightarrow> ptr list list \<Rightarrow> bool" where
  "chains_ok nb bs H X cs \<longleftrightarrow> length bs = nb \<and> length cs = nb \<and>
     (\<forall>b < nb. dll H hh_next hh_prev (hh_head (bs ! b)) (cs ! b) \<and> distinct (cs ! b) \<and>
        bkt_count (bs ! b) = length (cs ! b) \<and>
        set (cs ! b) = {x \<in> X. HASH_TO_BKT (hashv (the (H x))) nb = b})"

definition uh_rep :: "uthash \<Rightarrow> ptr list \<Rightarrow> bool" where
  "uh_rep t xs \<longleftrightarrow> distinct xs \<and> (head t = None \<longleftrightarrow> xs = []) \<and>
     (xs \<noteq> [] \<longrightarrow>
        dseg (hh t) app_next app_prev None (head t) xs (Some (tail (tbl t))) None \<and>
        num_items (tbl t) = length xs \<and> num_buckets (tbl t) = 2 ^ log2_num_buckets (tbl t) \<and>
        (\<forall>x \<in> set xs. hashv (the (hh t x)) = HASH_JEN (hh_key (the (hh t x)))) \<and>
        (\<exists>cs. chains_ok (num_buckets (tbl t)) (buckets (tbl t)) (hh t) (set xs) cs))"

definition key_at :: "uthash \<Rightarrow> ptr \<Rightarrow> bytes" where
  "key_at t p = hh_key (the (hh t p))"

abbreviation keep :: "hmem \<Rightarrow> hmem \<Rightarrow> bool" where
  "keep H H' \<equiv> same_proj (\<lambda>h. (app_next h, app_prev h)) H H' \<and> same_proj hh_key H H' \<and> same_proj hashv H H'"

lemma keep_trans: "keep H H1 \<Longrightarrow> keep H1 H2 \<Longrightarrow> keep H H2"
  by (meson same_proj_trans)

lemma find_in_chain:
  "dseg H hh_next hh_prev q p xs r None \<Longrightarrow>
     HASH_FIND_IN_BKT H key p = Some (find (\<lambda>x. hh_key (the (H x)) = key) xs)"
proof (induction xs arbitrary: q p)
  case Nil
  then show ?case by (simp add: HASH_FIND_IN_BKT.simps)
next
  case (Cons x xs)
  then show ?case by (subst HASH_FIND_IN_BKT.simps) auto
qed

text \<open>Putting an element into the chain of its bucket, as both insertion and expansion do.\<close>

lemma chains_push:
  assumes ok: "chains_ok nb bs H X cs" and x: "x \<notin> X" and h: "H x = Some h"
    and b: "b = HASH_TO_BKT (hashv h) nb" "b < nb"
    and h': "hh_next h' = hh_head (bs ! b)" "hh_prev h' = None" "hashv h' = hashv h"
      "hh_key h' = hh_key h" "app_next h' = app_next h" "app_prev h' = app_prev h"
    and bk: "hh_head bk = Some x" "bkt_count bk = Suc (bkt_count (bs ! b))"
  shows "\<exists>H'. upd_opt (hh_head (bs ! b)) (\<lambda>h. h\<lparr>hh_prev := Some x\<rparr>) (H(x \<mapsto> h')) = Some H' \<and>
    chains_ok nb (bs[b := bk]) H' (insert x X) (cs[b := x # cs ! b]) \<and> keep H H' \<and>
    (\<forall>y. y \<notin> insert x X \<longrightarrow> H' y = H y)"
proof -
  have len: "length bs = nb" "length cs = nb"
    using ok by (auto simp: chains_ok_def)
  have chain: "dll H hh_next hh_prev (hh_head (bs ! c)) (cs ! c)" "distinct (cs ! c)"
    "bkt_count (bs ! c) = length (cs ! c)"
    "set (cs ! c) = {y \<in> X. HASH_TO_BKT (hashv (the (H y))) nb = c}" if "c < nb" for c
    using ok that by (auto simp: chains_ok_def)
  have xb: "x \<notin> set (cs ! b)" using chain(4) [OF b(2)] x by auto
  obtain H' where H': "upd_opt (hh_head (bs ! b)) (\<lambda>h. h\<lparr>hh_prev := Some x\<rparr>) (H(x \<mapsto> h')) = Some H'"
      "dll H' hh_next hh_prev (Some x) (x # cs ! b)" "\<forall>y. y \<notin> set (x # cs ! b) \<longrightarrow> H' y = H y"
    using dll_push [where g = "\<lambda>h. h\<lparr>hh_prev := Some x\<rparr>", OF chain(1) [OF b(2)] xb chain(2) [OF b(2)] h h'(1,2)]
    by auto
  have keep: "keep H H'"
  proof -
    have "keep H (H(x \<mapsto> h'))"
      using h h' by (auto intro!: same_proj_upd)
    moreover have "keep (H(x \<mapsto> h')) H'"
      using H'(1) by (auto intro!: same_proj_upd_opt)
    ultimately show ?thesis by (rule keep_trans)
  qed
  have hv: "hashv (the (H' y)) = hashv (the (H y))" for y
    using keep by (auto intro: same_proj_the)
  have hx: "HASH_TO_BKT (hashv (the (H x))) nb = b"
    using b(1) h by simp
  have "dll H' hh_next hh_prev (hh_head (bs[b := bk] ! c)) (cs[b := x # cs ! b] ! c) \<and>
      distinct (cs[b := x # cs ! b] ! c) \<and> bkt_count (bs[b := bk] ! c) = length (cs[b := x # cs ! b] ! c) \<and>
      set (cs[b := x # cs ! b] ! c) = {y \<in> insert x X. HASH_TO_BKT (hashv (the (H' y))) nb = c}"
    if c: "c < nb" for c
  proof (cases "c = b")
    case True
    have "set (x # cs ! b) = {y \<in> insert x X. HASH_TO_BKT (hashv (the (H' y))) nb = b}"
      unfolding hv using chain(4) [OF b(2)] hx by auto
    then show ?thesis
      using True H'(2) bk chain(2,3) [OF b(2)] xb len b(2) by simp
  next
    case False
    have "y \<notin> set (x # cs ! b)" if "y \<in> set (cs ! c)" for y
      using that False x chain(4) [OF c] chain(4) [OF b(2)] by auto
    then have "dll H' hh_next hh_prev (hh_head (bs ! c)) (cs ! c)"
      using chain(1) [OF c] H'(3) by (subst dll_agree [where H = H]) auto
    moreover have "set (cs ! c) = {y \<in> insert x X. HASH_TO_BKT (hashv (the (H' y))) nb = c}"
      unfolding hv using chain(4) [OF c] hx False by auto
    ultimately show ?thesis
      using False chain(2,3) [OF c] by simp
  qed
  moreover have "y \<notin> set (x # cs ! b)" if "y \<notin> insert x X" for y
    using that chain(4) [OF b(2)] by auto
  ultimately show ?thesis
    using H'(1,3) keep len by (auto simp: chains_ok_def)
qed

section \<open>Expansion\<close>

lemma expand_item_ok:
  assumes ok: "chains_ok nb nbs H X cs" and "p \<notin> X" and h: "H p = Some h" and "ideal > 0"
    and nb: "nb = 2 ^ k"
  shows "\<exists>H' nbs' ni' cs'. expand_item nb ideal p (H, nbs, ni) = Some ((H', nbs', ni'), hh_next h) \<and>
    chains_ok nb nbs' H' (insert p X) cs' \<and> keep H H' \<and> (\<forall>y. y \<notin> insert p X \<longrightarrow> H' y = H y)"
proof -
  define b where "b = HASH_TO_BKT (hashv h) nb"
  have b: "b < nb" "b < length nbs"
    using HASH_TO_BKT_less nb ok by (auto simp: b_def chains_ok_def)
  define bk where "bk = \<lparr>hh_head = Some p, bkt_count = Suc (bkt_count (nbs ! b)),
    expand_mult = (if Suc (bkt_count (nbs ! b)) > ideal then Suc (bkt_count (nbs ! b)) div ideal
                   else expand_mult (nbs ! b))\<rparr>"
  let ?h = "h\<lparr>hh_prev := None, hh_next := hh_head (nbs ! b)\<rparr>"
  obtain H' where H': "upd_opt (hh_head (nbs ! b)) (\<lambda>h. h\<lparr>hh_prev := Some p\<rparr>) (H(p \<mapsto> ?h)) = Some H'"
      "chains_ok nb (nbs[b := bk]) H' (insert p X) (cs[b := p # cs ! b])" "keep H H'"
      "\<forall>y. y \<notin> insert p X \<longrightarrow> H' y = H y"
    using chains_push [OF ok assms(2) h b_def b(1), of ?h bk] by (auto simp: bk_def)
  have "expand_item nb ideal p (H, nbs, ni) =
      Some ((H', nbs[b := bk], if Suc (bkt_count (nbs ! b)) > ideal then Suc ni else ni), hh_next h)"
    using h b H'(1) assms(4) by (simp add: expand_item_def b_def [symmetric] bk_def Let_def)
  with H'(2-) show ?thesis by blast
qed

lemma expand_chain_ok:
  assumes "chains_ok nb nbs H X cs" and "dseg H hh_next hh_prev q thh zs r None" and "distinct zs"
    and "set zs \<inter> X = {}" and "ideal > 0" and "nb = 2 ^ k"
  shows "\<exists>H' nbs' ni' cs'. expand_chain nb ideal thh (H, nbs, ni) = Some (H', nbs', ni') \<and>
    chains_ok nb nbs' H' (X \<union> set zs) cs' \<and> keep H H' \<and> (\<forall>y. y \<notin> X \<union> set zs \<longrightarrow> H' y = H y)"
  using assms
proof (induction zs arbitrary: nbs H X cs q thh ni)
  case Nil
  then show ?case by (auto simp: expand_chain.simps)
next
  case (Cons z zs)
  then obtain h where h: "H z = Some h" "thh = Some z" "dseg H hh_next hh_prev (Some z) (hh_next h) zs r None"
    by auto
  have zX: "z \<notin> X" using Cons.prems(4) by simp
  obtain H1 nbs1 ni1 cs1 where s1: "expand_item nb ideal z (H, nbs, ni) = Some ((H1, nbs1, ni1), hh_next h)"
      "chains_ok nb nbs1 H1 (insert z X) cs1" "keep H H1" "\<forall>y. y \<notin> insert z X \<longrightarrow> H1 y = H y"
    using expand_item_ok [OF Cons.prems(1) zX h(1) Cons.prems(5,6), of ni] by blast
  have seg: "dseg H1 hh_next hh_prev (Some z) (hh_next h) zs r None"
    using h(3) s1(4) Cons.prems(3,4) by (subst dseg_agree [where H = H]) auto
  obtain H' nbs' ni' cs' where s2: "expand_chain nb ideal (hh_next h) (H1, nbs1, ni1) = Some (H', nbs', ni')"
      "chains_ok nb nbs' H' (insert z X \<union> set zs) cs'" "keep H1 H'"
      "\<forall>y. y \<notin> insert z X \<union> set zs \<longrightarrow> H' y = H1 y"
    using Cons.IH [OF s1(2) seg _ _ Cons.prems(5,6), of ni1] Cons.prems(3,4) by force
  have "expand_chain nb ideal thh (H, nbs, ni) = Some (H', nbs', ni')"
    using h(2) s1(1) s2(1) by (subst expand_chain.simps) simp
  moreover have "X \<union> set (z # zs) = insert z X \<union> set zs" by simp
  moreover have "keep H H'" using keep_trans [OF s1(3) s2(3)] .
  moreover have "\<forall>y. y \<notin> X \<union> set (z # zs) \<longrightarrow> H' y = H y" using s2(4) s1(4) by simp
  ultimately show ?case using s2(2) by (metis (no_types))
qed

lemma expand_all_ok:
  assumes "chains_ok nb nbs H X cs"
    and "list_all2 (\<lambda>b zs. dll H hh_next hh_prev (hh_head b) zs) bs css"
    and "distinct (concat css)" and "set (concat css) \<inter> X = {}" and "ideal > 0" and "nb = 2 ^ k"
  shows "\<exists>H' nbs' ni' cs'. expand_all nb ideal bs (H, nbs, ni) = Some (H', nbs', ni') \<and>
    chains_ok nb nbs' H' (X \<union> set (concat css)) cs' \<and> keep H H' \<and>
    (\<forall>y. y \<notin> X \<union> set (concat css) \<longrightarrow> H' y = H y)"
  using assms
proof (induction bs arbitrary: nbs H X cs css ni)
  case Nil
  then show ?case by auto
next
  case (Cons b bs)
  then obtain zs css' r where css: "css = zs # css'" "dseg H hh_next hh_prev None (hh_head b) zs r None"
      "list_all2 (\<lambda>b zs. dll H hh_next hh_prev (hh_head b) zs) bs css'"
    by (auto simp: list_all2_Cons1 dll_def)
  have dz: "distinct zs" "set zs \<inter> X = {}"
    and dr: "distinct (concat css')" "set (concat css') \<inter> (X \<union> set zs) = {}"
    using Cons.prems(3,4) css(1) by auto
  obtain H1 nbs1 ni1 cs1 where s1: "expand_chain nb ideal (hh_head b) (H, nbs, ni) = Some (H1, nbs1, ni1)"
      "chains_ok nb nbs1 H1 (X \<union> set zs) cs1" "keep H H1" "\<forall>y. y \<notin> X \<union> set zs \<longrightarrow> H1 y = H y"
    using expand_chain_ok [OF Cons.prems(1) css(2) dz Cons.prems(5,6), of ni] by blast
  have rest: "list_all2 (\<lambda>b zs. dll H1 hh_next hh_prev (hh_head b) zs) bs css'"
  proof (rule list.rel_mono_strong [OF css(3)])
    fix b' zs' assume "b' \<in> set bs" "zs' \<in> set css'" "dll H hh_next hh_prev (hh_head b') zs'"
    then show "dll H1 hh_next hh_prev (hh_head b') zs'"
      using s1(4) Cons.prems(3,4) css(1) by (subst dll_agree [where H = H]) auto
  qed
  obtain H' nbs' ni' cs' where s2: "expand_all nb ideal bs (H1, nbs1, ni1) = Some (H', nbs', ni')"
      "chains_ok nb nbs' H' (X \<union> set zs \<union> set (concat css')) cs'" "keep H1 H'"
      "\<forall>y. y \<notin> X \<union> set zs \<union> set (concat css') \<longrightarrow> H' y = H1 y"
    using Cons.IH [OF s1(2) rest dr Cons.prems(5,6), of ni1] by blast
  have "expand_all nb ideal (b # bs) (H, nbs, ni) = Some (H', nbs', ni')"
    using s1(1) s2(1) by simp
  moreover have X: "X \<union> set (concat css) = X \<union> set zs \<union> set (concat css')"
    using css(1) by auto
  then have "chains_ok nb nbs' H' (X \<union> set (concat css)) cs'" using s2(2) by simp
  moreover have "\<forall>y. y \<notin> X \<union> set (concat css) \<longrightarrow> H' y = H y"
    unfolding X using s1(4) s2(4) by simp
  moreover have "keep H H'" using keep_trans [OF s1(3) s2(3)] .
  ultimately show ?case by blast
qed

text \<open>The chains of a table list every element once.\<close>

lemma distinct_concatI:
  "(\<And>i. i < length css \<Longrightarrow> distinct (css ! i)) \<Longrightarrow>
   (\<And>i j. i < length css \<Longrightarrow> j < length css \<Longrightarrow> i \<noteq> j \<Longrightarrow> set (css ! i) \<inter> set (css ! j) = {}) \<Longrightarrow>
   distinct (concat css)"
proof (induction css)
  case (Cons zs css)
  have "distinct zs" using Cons.prems(1) [of 0] by simp
  moreover have "distinct (concat css)"
  proof (rule Cons.IH)
    fix i assume "i < length css"
    then show "distinct (css ! i)" using Cons.prems(1) [of "Suc i"] by simp
  next
    fix i j assume "i < length css" "j < length css" "i \<noteq> j"
    then show "set (css ! i) \<inter> set (css ! j) = {}" using Cons.prems(2) [of "Suc i" "Suc j"] by simp
  qed
  moreover have "set zs \<inter> set (concat css) = {}"
  proof -
    have "set zs \<inter> set ys = {}" if "ys \<in> set css" for ys
      using that Cons.prems(2) [of 0 "Suc i" for i] by (auto simp: in_set_conv_nth)
    then show ?thesis by auto
  qed
  ultimately show ?case by auto
qed simp

lemma chains_concat:
  assumes "chains_ok nb bs H X cs" and "nb = 2 ^ k"
  shows "distinct (concat cs)" and "set (concat cs) = X"
    and "list_all2 (\<lambda>b zs. dll H hh_next hh_prev (hh_head b) zs) bs cs"
proof -
  show "distinct (concat cs)"
    by (rule distinct_concatI) (use assms in \<open>auto simp: chains_ok_def\<close>)
  show "set (concat cs) = X"
  proof
    show "set (concat cs) \<subseteq> X"
      using assms(1) by (fastforce simp: chains_ok_def in_set_conv_nth)
    have "x \<in> set (concat cs)" if "x \<in> X" for x
    proof -
      define b where "b = HASH_TO_BKT (hashv (the (H x))) nb"
      have "b < nb" using HASH_TO_BKT_less assms(2) by (simp add: b_def)
      then have "x \<in> set (cs ! b)" "cs ! b \<in> set cs"
        using assms(1) that by (auto simp: chains_ok_def b_def)
      then show ?thesis by auto
    qed
    then show "X \<subseteq> set (concat cs)" by blast
  qed
  show "list_all2 (\<lambda>b zs. dll H hh_next hh_prev (hh_head b) zs) bs cs"
    using assms(1) by (auto simp: chains_ok_def list_all2_conv_all_nth)
qed

lemma chains_ok_empty: "chains_ok nb (replicate nb zero_bucket) H {} (replicate nb [])"
  by (auto simp: chains_ok_def zero_bucket_def dll_def)

text \<open>Expansion keeps every element and doubles the number of buckets.\<close>

lemma HASH_EXPAND_BUCKETS_ok:
  assumes "chains_ok (num_buckets T) (buckets T) H X cs" and "num_buckets T = 2 ^ log2_num_buckets T"
    and "num_items T > 0"
  shows "\<exists>T' H' cs'. HASH_EXPAND_BUCKETS (T, H) = Some (T', H') \<and>
    chains_ok (num_buckets T') (buckets T') H' X cs' \<and> num_buckets T' = 2 * num_buckets T \<and>
    num_buckets T' = 2 ^ log2_num_buckets T' \<and> num_items T' = num_items T \<and> tail T' = tail T \<and> keep H H' \<and>
    (\<forall>y. y \<notin> X \<longrightarrow> H' y = H y)"
proof -
  let ?ideal = "ideal_maxlen (num_items T) (log2_num_buckets T) (num_buckets T)"
  let ?nb = "2 * num_buckets T"
  have nb: "?nb = 2 ^ (log2_num_buckets T + 1)" using assms(2) by simp
  have ideal: "?ideal > 0" using ideal_maxlen_pos [OF assms(3)] assms(2) by simp
  note cc = chains_concat [OF assms(1,2)]
  obtain H' nbs' ni' cs' where e: "expand_all ?nb ?ideal (buckets T) (H, replicate ?nb zero_bucket, 0) = Some (H', nbs', ni')"
      "chains_ok ?nb nbs' H' ({} \<union> set (concat cs)) cs'" "keep H H'"
      "\<forall>y. y \<notin> {} \<union> set (concat cs) \<longrightarrow> H' y = H y"
    using expand_all_ok [OF chains_ok_empty cc(3,1) _ ideal nb, of 0] by blast
  then show ?thesis
    using cc(2) nb by (simp add: HASH_EXPAND_BUCKETS_def Let_def) blast
qed

end
