(* ===== verification/Uthash_Ops.thy ===== *)
theory Uthash_Ops
  imports Uthash_Rep
begin

text \<open>
  The operations of the hash table on a represented table, and the interface the rest
  of the program uses: a dictionary from keys to elements (\<open>ptr_dict\<close>), with the
  lemmas every client needs proved once from the laws of the operations.
\<close>

section \<open>Adding\<close>

lemma HASH_ADD_TO_BKT_ok:
  assumes ok: "chains_ok (num_buckets T) (buckets T) H X cs" and nb: "num_buckets T = 2 ^ log2_num_buckets T"
    and items: "num_items T > 0 \<or> X = {}" and p: "p \<notin> X" and h: "H p = Some h"
  shows "\<exists>T' H' cs'. HASH_ADD_TO_BKT (HASH_TO_BKT (hashv h) (num_buckets T)) p (T, H) = Some (T', H') \<and>
    chains_ok (num_buckets T') (buckets T') H' (insert p X) cs' \<and>
    num_buckets T' = 2 ^ log2_num_buckets T' \<and> num_items T' = num_items T \<and> tail T' = tail T \<and> keep H H' \<and>
    (\<forall>y. y \<notin> insert p X \<longrightarrow> H' y = H y)"
proof -
  define b where "b = HASH_TO_BKT (hashv h) (num_buckets T)"
  have b: "b < num_buckets T" "b < length (buckets T)"
    using HASH_TO_BKT_less nb ok by (auto simp: b_def chains_ok_def)
  let ?bk = "buckets T ! b"
  let ?c = "Suc (bkt_count ?bk)"
  let ?h = "h\<lparr>hh_next := hh_head ?bk, hh_prev := None\<rparr>"
  let ?bk' = "?bk\<lparr>bkt_count := ?c, hh_head := Some p\<rparr>"
  let ?T = "T\<lparr>buckets := (buckets T)[b := ?bk']\<rparr>"
  obtain H1 where H1: "upd_opt (hh_head ?bk) (\<lambda>h. h\<lparr>hh_prev := Some p\<rparr>) (H(p \<mapsto> ?h)) = Some H1"
      "chains_ok (num_buckets T) ((buckets T)[b := ?bk']) H1 (insert p X) (cs[b := p # cs ! b])" "keep H H1"
      "\<forall>y. y \<notin> insert p X \<longrightarrow> H1 y = H y"
    using chains_push [OF ok p h b_def b(1), of ?h ?bk'] by auto
  have eq: "HASH_ADD_TO_BKT b p (T, H) =
      (if ?c \<ge> (expand_mult ?bk + 1) * HASH_BKT_CAPACITY_THRESH \<and> noexpand T \<noteq> 1
       then HASH_EXPAND_BUCKETS (?T, H1) else Some (?T, H1))"
    using h b(2) H1(1) by (simp add: HASH_ADD_TO_BKT_def Let_def)
  have T: "chains_ok (num_buckets ?T) (buckets ?T) H1 (insert p X) (cs[b := p # cs ! b])"
      "num_buckets ?T = 2 ^ log2_num_buckets ?T"
    using H1(2) nb by simp_all
  show ?thesis
  proof (cases "?c \<ge> (expand_mult ?bk + 1) * HASH_BKT_CAPACITY_THRESH \<and> noexpand T \<noteq> 1")
    case True
    have "bkt_count ?bk = 0" if "X = {}" using that ok b(1) by (auto simp: chains_ok_def)
    then have "num_items ?T > 0" using items True by (cases "X = {}") (auto simp: hash_const_defs)
    then obtain T' H' cs' where e: "HASH_EXPAND_BUCKETS (?T, H1) = Some (T', H')"
      "chains_ok (num_buckets T') (buckets T') H' (insert p X) cs'"
      "num_buckets T' = 2 ^ log2_num_buckets T'" "num_items T' = num_items ?T" "tail T' = tail ?T" "keep H1 H'"
      "\<forall>y. y \<notin> insert p X \<longrightarrow> H' y = H1 y"
      using HASH_EXPAND_BUCKETS_ok [OF T] by blast
    have "keep H H'" using keep_trans [OF H1(3) e(6)] .
    moreover have "HASH_ADD_TO_BKT b p (T, H) = Some (T', H')"
      using eq True e(1) by simp
    ultimately show ?thesis
      using e(2-5,7) H1(4) unfolding b_def [symmetric] by (intro exI [of _ T'] exI [of _ H'] exI [of _ cs']) simp
  next
    case False
    have "HASH_ADD_TO_BKT b p (T, H) = Some (?T, H1)"
      unfolding eq using False by (rule if_not_P)
    then show ?thesis
      using T H1(3,4) unfolding b_def [symmetric] by (intro exI [of _ ?T] exI [of _ H1]) auto
  qed
qed

lemma chains_ok_keep:
  assumes "chains_ok nb bs H X cs"
    and "same_proj (\<lambda>h. (hh_next h, hh_prev h)) H H'" and "\<And>x. x \<in> X \<Longrightarrow> hashv (the (H' x)) = hashv (the (H x))"
  shows "chains_ok nb bs H' X cs"
proof -
  have "{x \<in> X. HASH_TO_BKT (hashv (the (H' x))) nb = b} = {x \<in> X. HASH_TO_BKT (hashv (the (H x))) nb = b}" for b
    using assms(3) by auto
  then show ?thesis
    using assms(1) dll_same_proj [OF assms(2)] by (simp add: chains_ok_def)
qed

text \<open>The chains of a table hold each of its elements once.\<close>

lemma chains_length:
  assumes ok: "chains_ok nb bs H X cs" and "finite X" and nb: "nb = 2 ^ k"
  shows "length (concat cs) = card X"
proof -
  have c: "length cs = nb" and ch: "\<And>b. b < nb \<Longrightarrow> distinct (cs ! b) \<and> set (cs ! b) = {x \<in> X. HASH_TO_BKT (hashv (the (H x))) nb = b}"
    using ok by (auto simp: chains_ok_def)
  let ?B = "\<lambda>b. {x \<in> X. HASH_TO_BKT (hashv (the (H x))) nb = b}"
  have "length (concat cs) = (\<Sum>b < nb. length (cs ! b))" by (simp add: length_concat sum_list_sum_nth c atLeast0LessThan)
  also have "\<dots> = (\<Sum>b < nb. card (?B b))" by (rule sum.cong) (use ch distinct_card in \<open>fastforce+\<close>)
  also have "\<dots> = card (\<Union>b < nb. ?B b)" by (rule card_UN_disjoint [symmetric]) (use assms(2) in auto)
  also have "(\<Union>b < nb. ?B b) = X" using HASH_TO_BKT_less [of _ k] nb by auto
  finally show ?thesis .
qed

lemma chains_elements:
  assumes ok: "chains_ok nb bs H X cs" and fin: "finite X" and nb: "nb = 2 ^ k"
  shows "set (concat cs) = X" and "distinct (concat cs)"
proof -
  have c: "length cs = nb" and ch: "\<And>b. b < nb \<Longrightarrow> set (cs ! b) = {x \<in> X. HASH_TO_BKT (hashv (the (H x))) nb = b}"
    using ok by (auto simp: chains_ok_def)
  have "set cs = (!) cs ` {..<nb}" using c by (auto simp: set_conv_nth)
  then have "set (concat cs) = (\<Union>b < nb. set (cs ! b))" by simp
  also have "\<dots> = X" using ch HASH_TO_BKT_less [of _ k] nb by auto
  finally show st: "set (concat cs) = X" .
  show "distinct (concat cs)" using chains_length [OF assms] st by (simp add: card_distinct)
qed

text \<open>Linking an element behind the last one of the application order.\<close>

lemma dseg_snoc:
  assumes seg: "dseg H nx pv None p xs (Some z) None" and "xs \<noteq> []" and dist: "distinct xs"
    and hz: "H z = Some hz" and x: "x \<notin> set xs"
    and hz': "nx hz' = Some x" "pv hz' = pv hz" and h': "nx h' = None" "pv h' = Some z"
  shows "dseg (H(z \<mapsto> hz', x \<mapsto> h')) nx pv None p (xs @ [x]) (Some x) None"
proof -
  obtain ys where xs: "xs = ys @ [z]"
    using dseg_last [OF seg] assms(2) by (cases xs rule: rev_cases) auto
  have "dseg (H(z \<mapsto> hz')) nx pv None p (ys @ [z]) (Some z) (nx hz')"
    by (rule dseg_set_next) (use seg xs dist hz hz' in auto)
  then have "dseg (H(z \<mapsto> hz', x \<mapsto> h')) nx pv None p xs (Some z) (Some x)"
    using xs x hz' by (subst dseg_agree [where H = "H(z \<mapsto> hz')"]) auto
  then show ?thesis
    using h' by (auto simp: dseg_append)
qed


lemma uh_rep_memD:
  assumes "uh_rep t xs" and "p \<in> set xs"
  shows "\<exists>h. hh t p = Some h" and "head t = Some (hd xs)" and "tail (tbl t) = last xs"
    and "dseg (hh t) app_next app_prev None (head t) xs (Some (tail (tbl t))) None"
    and "num_items (tbl t) = length xs" and "num_buckets (tbl t) = 2 ^ log2_num_buckets (tbl t)"
    and "\<forall>x \<in> set xs. hashv (the (hh t x)) = HASH_JEN (hh_key (the (hh t x)))"
    and "\<exists>cs. chains_ok (num_buckets (tbl t)) (buckets (tbl t)) (hh t) (set xs) cs"
proof -
  show seg: "dseg (hh t) app_next app_prev None (head t) xs (Some (tail (tbl t))) None"
    using assms by (auto simp: uh_rep_def)
  show "\<exists>h. hh t p = Some h" using dseg_alloc [OF seg assms(2)] .
  show "head t = Some (hd xs)" using dseg_first [OF seg] assms(2) by (cases xs) auto
  show "tail (tbl t) = last xs" using dseg_last [OF seg] assms(2) by (auto split: if_splits)
qed (use assms in \<open>auto simp: uh_rep_def\<close>)

text \<open>The part of an insertion before the bucket is touched.\<close>

lemma HASH_ADD_link:
  assumes rep: "uh_rep t xs" and p: "p \<notin> set xs" and hp: "hh t p = Some hp"
  obtains fst_p T H h cs where "HASH_ADD t p key =
      (case HASH_ADD_TO_BKT (HASH_TO_BKT (hashv h) (num_buckets T)) p (T, H) of
         None \<Rightarrow> None | Some (T, H) \<Rightarrow> Some \<lparr>head = Some fst_p, tbl = T, hh = H\<rparr>)"
    and "H p = Some h" "hashv h = HASH_JEN key" "hh_key h = key"
    and "\<And>x. x \<noteq> p \<Longrightarrow> hh_key (the (H x)) = hh_key (the (hh t x)) \<and> hashv (the (H x)) = hashv (the (hh t x))"
    and "dom H = dom (hh t)" "\<And>x. x \<notin> insert p (set xs) \<Longrightarrow> H x = hh t x"
    and "dseg H app_next app_prev None (Some fst_p) (xs @ [p]) (Some (tail T)) None"
    and "chains_ok (num_buckets T) (buckets T) H (set xs) cs"
    and "num_buckets T = 2 ^ log2_num_buckets T" and "num_items T = length (xs @ [p])"
proof (cases "head t")
  case None
  then have "xs = []" using rep by (simp add: uh_rep_def)
  then show thesis
    using hp None chains_ok_empty [of HASH_INITIAL_NUM_BUCKETS]
    by (intro that [where fst_p = p and T = "(HASH_MAKE_TABLE p)\<lparr>num_items := 1\<rparr>"
          and H = "(hh t)(p \<mapsto> hp\<lparr>app_next := None, hh_key := key, app_prev := None, hashv := HASH_JEN key\<rparr>)"
          and cs = "replicate HASH_INITIAL_NUM_BUCKETS []"])
      (auto simp: HASH_ADD_def HASH_MAKE_TABLE_def hash_const_defs split: option.splits)
next
  case (Some a)
  then have "xs \<noteq> []" using rep by (auto simp: uh_rep_def)
  then obtain x where x: "x \<in> set xs" by (metis last_in_set)
  note m = uh_rep_memD [OF rep x]
  have dist: "distinct xs" using rep by (simp add: uh_rep_def)
  let ?e = "tail (tbl t)"
  have e: "?e \<in> set xs" "?e \<noteq> p" using m(3) p \<open>xs \<noteq> []\<close> by auto
  obtain k where k: "hh t ?e = Some k" using uh_rep_memD(1) [OF rep e(1)] by blast
  define H where "H = (hh t)(?e \<mapsto> k\<lparr>app_next := Some p\<rparr>,
    p \<mapsto> hp\<lparr>app_next := None, hh_key := key, app_prev := Some ?e, hashv := HASH_JEN key\<rparr>)"
  have seg: "dseg H app_next app_prev None (head t) (xs @ [p]) (Some p) None"
    unfolding H_def by (rule dseg_snoc [OF m(4) \<open>xs \<noteq> []\<close> dist k p]) simp_all
  obtain cs where "chains_ok (num_buckets (tbl t)) (buckets (tbl t)) (hh t) (set xs) cs" using m(8) by blast
  then have cs: "chains_ok (num_buckets (tbl t)) (buckets (tbl t)) H (set xs) cs"
    by (rule chains_ok_keep) (use k e hp p in \<open>auto simp: H_def same_proj_def\<close>)
  show thesis
    using hp Some k e seg cs m(5,6)
    by (intro that [where fst_p = a and T = "(tbl t)\<lparr>tail := p, num_items := Suc (num_items (tbl t))\<rparr>"
          and H = H and cs = cs])
      (auto simp: HASH_ADD_def H_def fun_upd_twist split: option.splits)
qed

lemma HASH_ADD_ok:
  assumes rep: "uh_rep t xs" and p: "p \<notin> set xs" and hp: "hh t p = Some hp"
  shows "\<exists>t'. HASH_ADD t p key = Some t' \<and> uh_rep t' (xs @ [p]) \<and>
    key_at t' = (key_at t)(p := key) \<and> dom (hh t') = dom (hh t) \<and>
    (\<forall>y. y \<notin> insert p (set xs) \<longrightarrow> hh t' y = hh t y)"
proof -
  obtain fst_p T H h cs where step: "HASH_ADD t p key =
      (case HASH_ADD_TO_BKT (HASH_TO_BKT (hashv h) (num_buckets T)) p (T, H) of
         None \<Rightarrow> None | Some (T, H) \<Rightarrow> Some \<lparr>head = Some fst_p, tbl = T, hh = H\<rparr>)"
    and h: "H p = Some h" "hashv h = HASH_JEN key" "hh_key h = key"
    and old: "\<And>x. x \<noteq> p \<Longrightarrow> hh_key (the (H x)) = hh_key (the (hh t x)) \<and> hashv (the (H x)) = hashv (the (hh t x))"
    and dom: "dom H = dom (hh t)" and frame: "\<And>x. x \<notin> insert p (set xs) \<Longrightarrow> H x = hh t x"
    and seg: "dseg H app_next app_prev None (Some fst_p) (xs @ [p]) (Some (tail T)) None"
    and cs: "chains_ok (num_buckets T) (buckets T) H (set xs) cs"
    and nb: "num_buckets T = 2 ^ log2_num_buckets T" and items: "num_items T = length (xs @ [p])"
    by (rule HASH_ADD_link [OF assms, of key]) (rule that)
  obtain T' H' cs' where add: "HASH_ADD_TO_BKT (HASH_TO_BKT (hashv h) (num_buckets T)) p (T, H) = Some (T', H')"
      "chains_ok (num_buckets T') (buckets T') H' (insert p (set xs)) cs'"
      "num_buckets T' = 2 ^ log2_num_buckets T'" "num_items T' = num_items T" "tail T' = tail T" "keep H H'"
      "\<forall>y. y \<notin> insert p (set xs) \<longrightarrow> H' y = H y"
    using HASH_ADD_TO_BKT_ok [OF cs nb _ p h(1)] items by auto
  define t' where "t' = \<lparr>head = Some fst_p, tbl = T', hh = H'\<rparr>"
  have hv: "hashv (the (H' x)) = hashv (the (H x))" and hk: "hh_key (the (H' x)) = hh_key (the (H x))" for x
    using add(6) by (auto intro: same_proj_the)
  have hash: "hashv (the (H x)) = HASH_JEN (hh_key (the (H x)))" if "x \<in> set (xs @ [p])" for x
    using that h old [of x] rep by (cases "x = p") (auto simp: uh_rep_def)
  have "uh_rep t' (xs @ [p])"
    using rep p add(2-5) items dseg_same_proj [OF _ seg, of H'] add(6) hash
    by (auto simp: uh_rep_def t'_def hv hk)
  moreover have "key_at t' = (key_at t)(p := key)"
    using old h by (auto simp: key_at_def t'_def hk)
  moreover have "dom (hh t') = dom (hh t)"
    using same_proj_alloc [of hashv H H'] add(6) dom by (auto simp: dom_def t'_def)
  moreover have "\<forall>y. y \<notin> insert p (set xs) \<longrightarrow> hh t' y = hh t y"
    using add(7) frame by (simp add: t'_def)
  moreover have "HASH_ADD t p key = Some t'" using step add(1) by (simp add: t'_def)
  ultimately show ?thesis by blast
qed

section \<open>Finding\<close>

lemma HASH_FIND_ok:
  assumes rep: "uh_rep t xs"
  shows "\<exists>r. HASH_FIND t key = Some r \<and>
    (case r of None \<Rightarrow> \<forall>x \<in> set xs. key_at t x \<noteq> key | Some p \<Rightarrow> p \<in> set xs \<and> key_at t p = key)"
proof (cases "head t")
  case None
  then show ?thesis using rep by (auto simp: HASH_FIND_def uh_rep_def)
next
  case (Some x)
  then have ne: "xs \<noteq> []" using rep by (auto simp: uh_rep_def)
  obtain cs where cs: "chains_ok (num_buckets (tbl t)) (buckets (tbl t)) (hh t) (set xs) cs"
    using rep ne by (auto simp: uh_rep_def)
  let ?b = "HASH_TO_BKT (HASH_JEN key) (num_buckets (tbl t))"
  have b: "?b < num_buckets (tbl t)" using rep ne HASH_TO_BKT_less by (simp add: uh_rep_def)
  then obtain r where chain: "dseg (hh t) hh_next hh_prev None (hh_head (buckets (tbl t) ! ?b)) (cs ! ?b) r None"
      "?b < length (buckets (tbl t))"
      "set (cs ! ?b) = {x \<in> set xs. HASH_TO_BKT (hashv (the (hh t x))) (num_buckets (tbl t)) = ?b}"
    using cs by (auto simp: chains_ok_def dll_def)
  have find: "HASH_FIND t key = Some (find (\<lambda>x. key_at t x = key) (cs ! ?b))"
    using Some chain(2) find_in_chain [OF chain(1)] by (simp add: HASH_FIND_def key_at_def)
  have in_chain: "x \<in> set (cs ! ?b)" if "x \<in> set xs" "key_at t x = key" for x
    using that rep ne unfolding chain(3) by (auto simp: uh_rep_def key_at_def)
  show ?thesis
  proof (cases "find (\<lambda>x. key_at t x = key) (cs ! ?b)")
    case None
    then have "\<forall>x \<in> set (cs ! ?b). key_at t x \<noteq> key" by (auto simp: find_None_iff)
    then have "\<forall>x \<in> set xs. key_at t x \<noteq> key" using in_chain by blast
    then show ?thesis using find None by simp
  next
    case (Some p)
    then have "p \<in> set (cs ! ?b)" "key_at t p = key" by (auto simp: find_Some_iff)
    then show ?thesis using find Some chain(3) by auto
  qed
qed

section \<open>Deleting\<close>

lemma chains_delete:
  assumes ok: "chains_ok nb bs H X cs" and nb: "nb = 2 ^ k" and p: "p \<in> X" and h: "H p = Some h"
    and b: "b = HASH_TO_BKT (hashv h) nb"
  shows "\<exists>H1 H2 cs'. upd_opt (hh_prev h) (\<lambda>q. q\<lparr>hh_next := hh_next h\<rparr>) H = Some H1 \<and>
    upd_opt (hh_next h) (\<lambda>q. q\<lparr>hh_prev := hh_prev h\<rparr>) H1 = Some H2 \<and> keep H H2 \<and>
    chains_ok nb (bs[b := (bs ! b)\<lparr>bkt_count := dec32 (bkt_count (bs ! b)),
       hh_head := (if hh_head (bs ! b) = Some p then hh_next h else hh_head (bs ! b))\<rparr>]) H2 (X - {p}) cs'"
proof -
  have len: "length bs = nb" "length cs = nb"
    using ok by (auto simp: chains_ok_def)
  have chain: "dll H hh_next hh_prev (hh_head (bs ! c)) (cs ! c)" "distinct (cs ! c)"
    "bkt_count (bs ! c) = length (cs ! c)"
    "set (cs ! c) = {y \<in> X. HASH_TO_BKT (hashv (the (H y))) nb = c}" if "c < nb" for c
    using ok that by (auto simp: chains_ok_def)
  have bn: "b < nb" using HASH_TO_BKT_less nb b by simp
  then obtain ys zs where yz: "cs ! b = ys @ p # zs"
    using chain(4) [OF bn] p h b by (metis (mono_tags, lifting) mem_Collect_eq option.sel split_list)
  obtain H1 H2 where H: "upd_opt (hh_prev h) (\<lambda>q. q\<lparr>hh_next := hh_next h\<rparr>) H = Some H1"
      "upd_opt (hh_next h) (\<lambda>q. q\<lparr>hh_prev := hh_prev h\<rparr>) H1 = Some H2"
      "dll H2 hh_next hh_prev (if hh_head (bs ! b) = Some p then hh_next h else hh_head (bs ! b)) (ys @ zs)"
      "\<forall>y. y \<notin> set (ys @ zs) \<longrightarrow> H2 y = H y"
    using dll_unlink [where f = "\<lambda>q. q\<lparr>hh_next := hh_next h\<rparr>" and g = "\<lambda>q. q\<lparr>hh_prev := hh_prev h\<rparr>",
        OF chain(1) [OF bn, unfolded yz] chain(2) [OF bn, unfolded yz] h] by auto
  have keep: "keep H H2"
  proof -
    have "keep H H1" using H(1) by (auto intro!: same_proj_upd_opt)
    moreover have "keep H1 H2" using H(2) by (auto intro!: same_proj_upd_opt)
    ultimately show ?thesis by (rule keep_trans)
  qed
  have hv: "hashv (the (H2 y)) = hashv (the (H y))" for y
    using keep by (auto intro: same_proj_the)
  let ?bk = "(bs ! b)\<lparr>bkt_count := dec32 (bkt_count (bs ! b)),
       hh_head := (if hh_head (bs ! b) = Some p then hh_next h else hh_head (bs ! b))\<rparr>"
  have "dll H2 hh_next hh_prev (hh_head (bs[b := ?bk] ! c)) (cs[b := ys @ zs] ! c) \<and>
      distinct (cs[b := ys @ zs] ! c) \<and> bkt_count (bs[b := ?bk] ! c) = length (cs[b := ys @ zs] ! c) \<and>
      set (cs[b := ys @ zs] ! c) = {y \<in> X - {p}. HASH_TO_BKT (hashv (the (H2 y))) nb = c}"
    if c: "c < nb" for c
  proof (cases "c = b")
    case True
    have "set (ys @ zs) = {y \<in> X - {p}. HASH_TO_BKT (hashv (the (H2 y))) nb = b}"
      unfolding hv using chain(2,4) [OF bn] yz by auto
    then show ?thesis
      using True H(3) chain(2,3) [OF bn] yz len bn by (simp add: dec32_def)
  next
    case False
    have "y \<notin> set (ys @ zs)" if "y \<in> set (cs ! c)" for y
      using that False chain(4) [OF c] chain(4) [OF bn] yz by auto
    then have "dll H2 hh_next hh_prev (hh_head (bs ! c)) (cs ! c)"
      using chain(1) [OF c] H(4) by (subst dll_agree [where H = H]) auto
    moreover have "set (cs ! c) = {y \<in> X - {p}. HASH_TO_BKT (hashv (the (H2 y))) nb = c}"
      unfolding hv using chain(4) [OF c] False h b by auto
    ultimately show ?thesis
      using False chain(2,3) [OF c] by simp
  qed
  then have "chains_ok nb (bs[b := ?bk]) H2 (X - {p}) (cs[b := ys @ zs])"
    using len by (simp add: chains_ok_def)
  with H(1,2) keep show ?thesis by blast
qed


lemma HASH_DEL_IN_BKT_ok:
  assumes ok: "chains_ok (num_buckets T) (buckets T) H X cs" and nb: "num_buckets T = 2 ^ log2_num_buckets T"
    and p: "p \<in> X" and h: "H p = Some h"
  shows "\<exists>bs' H' cs'. HASH_DEL_IN_BKT (HASH_TO_BKT (hashv h) (num_buckets T)) p (T, H) = Some (T\<lparr>buckets := bs'\<rparr>, H') \<and>
    chains_ok (num_buckets T) bs' H' (X - {p}) cs' \<and> keep H H'"
proof -
  define b where "b = HASH_TO_BKT (hashv h) (num_buckets T)"
  have b: "b < length (buckets T)"
    using nb ok HASH_TO_BKT_less by (auto simp: b_def chains_ok_def)
  obtain H1 H2 cs' where ch: "upd_opt (hh_prev h) (\<lambda>q. q\<lparr>hh_next := hh_next h\<rparr>) H = Some H1"
      "upd_opt (hh_next h) (\<lambda>q. q\<lparr>hh_prev := hh_prev h\<rparr>) H1 = Some H2" "keep H H2"
      "chains_ok (num_buckets T) ((buckets T)[b := (buckets T ! b)\<lparr>bkt_count := dec32 (bkt_count (buckets T ! b)),
         hh_head := (if hh_head (buckets T ! b) = Some p then hh_next h else hh_head (buckets T ! b))\<rparr>]) H2 (X - {p}) cs'"
    using chains_delete [OF ok nb p h b_def] by blast
  have "HASH_DEL_IN_BKT b p (T, H) = Some (T\<lparr>buckets := (buckets T)[b := (buckets T ! b)\<lparr>bkt_count := dec32 (bkt_count (buckets T ! b)),
         hh_head := (if hh_head (buckets T ! b) = Some p then hh_next h else hh_head (buckets T ! b))\<rparr>]\<rparr>, H2)"
    using b h ch(1,2) by (auto simp: HASH_DEL_IN_BKT_def Let_def)
  with ch(3,4) show ?thesis unfolding b_def [symmetric] by blast
qed

text \<open>Unlinking an element from the application order.\<close>

lemma app_unlink:
  fixes H :: hmem
  assumes seg: "dseg H app_next app_prev None a (ys @ p # zs) (Some e) None" and dist: "distinct (ys @ p # zs)"
    and h: "H p = Some h"
  shows "app_prev h = (if ys = [] then None else Some (last ys))"
    and "app_next h = (case zs of [] \<Rightarrow> None | z # _ \<Rightarrow> Some z)"
    and "\<exists>H1 H2. upd_opt (app_prev h) (\<lambda>q. q\<lparr>app_next := app_next h\<rparr>) H = Some H1 \<and>
      upd_opt (app_next h) (\<lambda>q. q\<lparr>app_prev := app_prev h\<rparr>) H1 = Some H2 \<and>
      dseg H2 app_next app_prev None (if ys = [] then app_next h else a) (ys @ zs)
           (if zs = [] then app_prev h else Some e) None \<and> H2 p = Some h \<and>
      same_proj (\<lambda>h. (hh_next h, hh_prev h)) H H2 \<and> same_proj hh_key H H2 \<and> same_proj hashv H H2"
proof -
  show "app_prev h = (if ys = [] then None else Some (last ys))"
      "app_next h = (case zs of [] \<Rightarrow> None | z # _ \<Rightarrow> Some z)"
    using seg h unfolding dseg_append by (auto dest: dseg_last dseg_first)
  obtain H1 H2 where H: "upd_opt (app_prev h) (\<lambda>q. q\<lparr>app_next := app_next h\<rparr>) H = Some H1"
      "upd_opt (app_next h) (\<lambda>q. q\<lparr>app_prev := app_prev h\<rparr>) H1 = Some H2"
      "dseg H2 app_next app_prev None (if ys = [] then app_next h else a) (ys @ zs)
         (if zs = [] then app_prev h else Some e) None"
      "\<forall>y. y \<notin> set (ys @ zs) \<longrightarrow> H2 y = H y"
    using dseg_unlink [where f = "\<lambda>q. q\<lparr>app_next := app_next h\<rparr>" and g = "\<lambda>q. q\<lparr>app_prev := app_prev h\<rparr>",
        OF seg dist h] by auto
  have same: "same_proj P H H2"
    if "\<And>q x. P (q\<lparr>app_next := x\<rparr>) = P q" "\<And>q x. P (q\<lparr>app_prev := x\<rparr>) = P q" for P :: "UT_hash_handle \<Rightarrow> 'b"
    using same_proj_trans [OF same_proj_upd_opt [OF H(1)] same_proj_upd_opt [OF H(2)]] that by blast
  have "H2 p = Some h" using H(4) dist h by simp
  moreover have "same_proj (\<lambda>h. (hh_next h, hh_prev h)) H H2" by (rule same) simp_all
  moreover have "same_proj hh_key H H2" by (rule same) simp_all
  moreover have "same_proj hashv H H2" by (rule same) simp_all
  ultimately show "\<exists>H1 H2. upd_opt (app_prev h) (\<lambda>q. q\<lparr>app_next := app_next h\<rparr>) H = Some H1 \<and>
      upd_opt (app_next h) (\<lambda>q. q\<lparr>app_prev := app_prev h\<rparr>) H1 = Some H2 \<and>
      dseg H2 app_next app_prev None (if ys = [] then app_next h else a) (ys @ zs)
           (if zs = [] then app_prev h else Some e) None \<and> H2 p = Some h \<and>
      same_proj (\<lambda>h. (hh_next h, hh_prev h)) H H2 \<and> same_proj hh_key H H2 \<and> same_proj hashv H H2"
    using H(1-3) by blast
qed

lemma HASH_DELETE_ok:
  assumes rep: "uh_rep t xs" and p: "p \<in> set xs"
  shows "\<exists>t'. HASH_DELETE t p = Some t' \<and> uh_rep t' (remove1 p xs) \<and>
    key_at t' = key_at t \<and> dom (hh t') = dom (hh t)"
proof -
  note m = uh_rep_memD [OF rep p]
  obtain h where h: "hh t p = Some h" using m(1) by blast
  have dist: "distinct xs" using rep by (simp add: uh_rep_def)
  obtain ys zs where xs: "xs = ys @ p # zs" using p split_list by metis
  have r1: "remove1 p xs = ys @ zs" using xs dist by (simp add: remove1_append)
  note links = app_unlink [OF m(4) [unfolded xs] dist [unfolded xs] h]
  show ?thesis
  proof (cases "app_prev h = None \<and> app_next h = None")
    case True
    then have "ys = []" "zs = []" using links(1,2) by (auto split: if_splits list.splits)
    then show ?thesis using True h m(2) r1
      by (auto simp: HASH_DELETE_def uh_rep_def key_at_def)
  next
    case False
    obtain H1 H2 where H: "upd_opt (app_prev h) (\<lambda>q. q\<lparr>app_next := app_next h\<rparr>) (hh t) = Some H1"
        "upd_opt (app_next h) (\<lambda>q. q\<lparr>app_prev := app_prev h\<rparr>) H1 = Some H2"
        "dseg H2 app_next app_prev None (if ys = [] then app_next h else head t) (ys @ zs)
           (if zs = [] then app_prev h else Some (tail (tbl t))) None" "H2 p = Some h"
        "same_proj (\<lambda>h. (hh_next h, hh_prev h)) (hh t) H2" "same_proj hh_key (hh t) H2" "same_proj hashv (hh t) H2"
      using links(3) by blast
    define T where "T = (if p = tail (tbl t) then (tbl t)\<lparr>tail := last ys\<rparr> else tbl t)"
    have T: "num_buckets T = num_buckets (tbl t)" "buckets T = buckets (tbl t)" "num_items T = num_items (tbl t)"
        "log2_num_buckets T = log2_num_buckets (tbl t)"
      by (simp_all add: T_def)
    have last: "p = tail (tbl t) \<longleftrightarrow> zs = []"
      using m(3) xs dist by auto
    obtain cs where "chains_ok (num_buckets T) (buckets T) (hh t) (set xs) cs" using m(8) T by auto
    then have cs: "chains_ok (num_buckets T) (buckets T) H2 (set xs) cs"
      by (rule chains_ok_keep) (use H(5) same_proj_the [OF H(7)] in auto)
    obtain bs' H4 cs' where del: "HASH_DEL_IN_BKT (HASH_TO_BKT (hashv h) (num_buckets T)) p (T, H2) = Some (T\<lparr>buckets := bs'\<rparr>, H4)"
        "chains_ok (num_buckets T) bs' H4 (set xs - {p}) cs'" "keep H2 H4"
      using HASH_DEL_IN_BKT_ok [OF cs _ p H(4)] m(6) T by auto
    define t' where "t' = \<lparr>head = (if ys = [] then app_next h else head t),
      tbl = T\<lparr>buckets := bs', num_items := dec32 (num_items (tbl t))\<rparr>, hh = H4\<rparr>"
    have same: "same_proj hh_key (hh t) H4" "same_proj hashv (hh t) H4"
      using same_proj_trans [OF H(6)] same_proj_trans [OF H(7)] del(3) by auto
    have "dseg H4 app_next app_prev None (head t') (ys @ zs) (Some (tail (tbl t'))) None"
      using dseg_same_proj [OF _ H(3), of H4] del(3) last False links(1,2) by (auto simp: t'_def T_def split: list.splits)
    moreover have "set (ys @ zs) = set xs - {p}" using xs dist by auto
    moreover have "head t' \<noteq> None" "ys @ zs \<noteq> []" using False links(1,2) m(2) by (auto simp: t'_def split: if_splits)
    ultimately have "uh_rep t' (ys @ zs)"
      using m(5-7) del(2) T xs dist same_proj_the [OF same(1)] same_proj_the [OF same(2)]
      by (auto simp: uh_rep_def t'_def dec32_def)
    moreover have "HASH_DELETE t p = Some t'"
      using False h m(2) H(1,2) del(1) T links(1,2) last
      by (auto simp: HASH_DELETE_def t'_def T_def split: option.splits)
    moreover have "key_at t' = key_at t" using same_proj_the [OF same(1)] by (auto simp: key_at_def t'_def)
    moreover have "dom (hh t') = dom (hh t)" using same_proj_alloc [OF same(1)] by (auto simp: dom_def t'_def)
    ultimately show ?thesis using r1 by auto
  qed
qed

lemma HASH_COUNT_ok: "uh_rep t xs \<Longrightarrow> HASH_COUNT t = length xs"
  by (auto simp: uh_rep_def HASH_COUNT_def split: option.splits)


lemma uh_rep_unique: "uh_rep t xs \<Longrightarrow> uh_rep t ys \<Longrightarrow> xs = ys"
proof -
  have "dseg H nx pv q p xs r None \<Longrightarrow> dseg H nx pv q p ys r' None \<Longrightarrow> xs = ys"
    for H :: hmem and nx pv q p r r'
    by (induction xs arbitrary: ys q p; case_tac ys) auto
  then show "uh_rep t xs \<Longrightarrow> uh_rep t ys \<Longrightarrow> xs = ys"
    by (cases "xs = []"; cases "ys = []") (auto simp: uh_rep_def)
qed

lemma uh_rep_empty: "head t = None \<Longrightarrow> uh_rep t []"
  by (simp add: uh_rep_def)

section \<open>The dictionary interface\<close>

text \<open>The map from keys to elements that a list of elements with their keys stands for.\<close>

definition key_map :: "(ptr \<Rightarrow> bytes) \<Rightarrow> ptr list \<Rightarrow> bytes \<Rightarrow> ptr option" where
  "key_map key xs = map_of (map (\<lambda>p. (key p, p)) xs)"

lemma key_map_Some: "key_map key xs k = Some p \<Longrightarrow> p \<in> set xs \<and> key p = k"
  by (auto simp: key_map_def dest: map_of_SomeD)

lemma key_map_None: "key_map key xs k = None \<longleftrightarrow> k \<notin> key ` set xs"
  by (simp add: key_map_def map_of_eq_None_iff image_image)

lemma key_map_mem: "inj_on key (set xs) \<Longrightarrow> p \<in> set xs \<Longrightarrow> key_map key xs (key p) = Some p"
  using key_map_None [of key xs "key p"] key_map_Some [of key xs "key p"]
  by (cases "key_map key xs (key p)") (auto dest: inj_onD)

lemma key_map_eqI:
  assumes "inj_on key (set xs)" and "\<And>p. p \<in> set xs \<Longrightarrow> M (key p) = Some p"
    and "\<And>k. k \<notin> key ` set xs \<Longrightarrow> M k = None"
  shows "key_map key xs = M"
proof
  fix k
  show "key_map key xs k = M k"
    using assms key_map_None [of key xs k] key_map_mem [OF assms(1)]
    by (cases "k \<in> key ` set xs") auto
qed

locale ptr_dict =
  fixes rep :: "'t \<Rightarrow> ptr list \<Rightarrow> bool" and key :: "'t \<Rightarrow> ptr \<Rightarrow> bytes" and alloc :: "'t \<Rightarrow> ptr set"
    and lookup :: "'t \<Rightarrow> bytes \<Rightarrow> ptr option option" and add :: "'t \<Rightarrow> ptr \<Rightarrow> bytes \<Rightarrow> 't option"
    and del :: "'t \<Rightarrow> ptr \<Rightarrow> 't option" and count :: "'t \<Rightarrow> nat"
  assumes rep_distinct: "rep t xs \<Longrightarrow> distinct xs"
    and rep_unique: "rep t xs \<Longrightarrow> rep t ys \<Longrightarrow> xs = ys"
    and rep_alloc: "rep t xs \<Longrightarrow> set xs \<subseteq> alloc t"
    and lookup_ok: "rep t xs \<Longrightarrow> \<exists>r. lookup t k = Some r \<and>
      (case r of None \<Rightarrow> \<forall>x \<in> set xs. key t x \<noteq> k | Some p \<Rightarrow> p \<in> set xs \<and> key t p = k)"
    and add_ok: "rep t xs \<Longrightarrow> p \<notin> set xs \<Longrightarrow> p \<in> alloc t \<Longrightarrow>
      \<exists>t'. add t p k = Some t' \<and> rep t' (xs @ [p]) \<and> key t' = (key t)(p := k) \<and> alloc t' = alloc t"
    and del_ok: "rep t xs \<Longrightarrow> p \<in> set xs \<Longrightarrow>
      \<exists>t'. del t p = Some t' \<and> rep t' (remove1 p xs) \<and> key t' = key t \<and> alloc t' = alloc t"
    and count_ok: "rep t xs \<Longrightarrow> count t = length xs"
begin

lemma lookup_map:
  assumes "rep t xs" and "inj_on (key t) (set xs)"
  shows "lookup t k = Some (key_map (key t) xs k)"
proof -
  obtain r where r: "lookup t k = Some r"
      "case r of None \<Rightarrow> \<forall>x \<in> set xs. key t x \<noteq> k | Some p \<Rightarrow> p \<in> set xs \<and> key t p = k"
    using lookup_ok [OF assms(1)] by blast
  show ?thesis
  proof (cases r)
    case None
    then have "key_map (key t) xs k = None" using r(2) by (auto simp: key_map_None)
    with None r(1) show ?thesis by simp
  next
    case (Some p)
    then show ?thesis using r key_map_mem [OF assms(2)] by auto
  qed
qed

lemma add_map:
  assumes "rep t xs" and "inj_on (key t) (set xs)" and "k \<notin> key t ` set xs" and "p \<notin> set xs" and "p \<in> alloc t"
  shows "\<exists>t'. add t p k = Some t' \<and> rep t' (xs @ [p]) \<and> inj_on (key t') (set (xs @ [p])) \<and>
    key_map (key t') (xs @ [p]) = (key_map (key t) xs)(k \<mapsto> p) \<and> key t' = (key t)(p := k) \<and> alloc t' = alloc t"
proof -
  obtain t' where t': "add t p k = Some t'" "rep t' (xs @ [p])" "key t' = (key t)(p := k)" "alloc t' = alloc t"
    using add_ok [OF assms(1,4,5)] by blast
  have img: "key t' x = key t x" if "x \<in> set xs" for x
    using that assms(4) t'(3) by auto
  have "inj_on (key t') (set (xs @ [p]))"
    using assms(2,3,4) img t'(3) by (auto simp: inj_on_def)
  moreover from this have "key_map (key t') (xs @ [p]) = (key_map (key t) xs)(k \<mapsto> p)"
  proof (rule key_map_eqI)
    show "((key_map (key t) xs)(k \<mapsto> p)) (key t' x) = Some x" if "x \<in> set (xs @ [p])" for x
      using that assms(3,4) img t'(3) key_map_mem [OF assms(2)] by (cases "x = p") auto
    show "((key_map (key t) xs)(k \<mapsto> p)) j = None" if "j \<notin> key t' ` set (xs @ [p])" for j
    proof -
      have "j \<noteq> k" "j \<notin> key t ` set xs" using that assms(4) t'(3) by fastforce+
      then show ?thesis by (simp add: key_map_None)
    qed
  qed
  ultimately show ?thesis using t' by blast
qed

lemma del_map:
  assumes "rep t xs" and "inj_on (key t) (set xs)" and "p \<in> set xs"
  shows "\<exists>t'. del t p = Some t' \<and> rep t' (remove1 p xs) \<and> inj_on (key t') (set (remove1 p xs)) \<and>
    key_map (key t') (remove1 p xs) = (key_map (key t) xs)(key t p := None) \<and> key t' = key t \<and> alloc t' = alloc t"
proof -
  obtain t' where t': "del t p = Some t'" "rep t' (remove1 p xs)" "key t' = key t" "alloc t' = alloc t"
    using del_ok [OF assms(1,3)] by blast
  have set: "set (remove1 p xs) = set xs - {p}" using rep_distinct [OF assms(1)] by (rule set_remove1_eq)
  have inj: "inj_on (key t') (set (remove1 p xs))"
    using assms(2) t'(3) set by (auto intro: inj_on_subset)
  moreover from this have "key_map (key t') (remove1 p xs) = (key_map (key t) xs)(key t p := None)"
  proof (rule key_map_eqI)
    show "((key_map (key t) xs)(key t p := None)) (key t' x) = Some x" if "x \<in> set (remove1 p xs)" for x
    proof -
      have "x \<in> set xs" "x \<noteq> p" using that set by auto
      then have "key t x \<noteq> key t p" using assms(2,3) by (auto dest: inj_onD)
      then show ?thesis using t'(3) key_map_mem [OF assms(2) \<open>x \<in> set xs\<close>] by simp
    qed
    show "((key_map (key t) xs)(key t p := None)) j = None" if "j \<notin> key t' ` set (remove1 p xs)" for j
    proof (cases "j = key t p")
      case False
      then have "j \<notin> key t ` set xs" using that set t'(3) by auto
      then show ?thesis using False by (simp add: key_map_None)
    qed simp
  qed
  ultimately show ?thesis using t' by blast
qed

end

interpretation uh: ptr_dict uh_rep key_at "\<lambda>t. dom (hh t)" HASH_FIND HASH_ADD HASH_DELETE HASH_COUNT
proof unfold_locales
  show "distinct xs" if "uh_rep t xs" for t xs
    using that by (simp add: uh_rep_def)
  show "xs = ys" if "uh_rep t xs" "uh_rep t ys" for t xs ys
    using that by (rule uh_rep_unique)
  show "set xs \<subseteq> dom (hh t)" if "uh_rep t xs" for t xs
    using uh_rep_memD(1) [OF that] by blast
  show "\<exists>r. HASH_FIND t k = Some r \<and> (case r of None \<Rightarrow> \<forall>x \<in> set xs. key_at t x \<noteq> k
      | Some p \<Rightarrow> p \<in> set xs \<and> key_at t p = k)" if "uh_rep t xs" for t xs k
    using that by (rule HASH_FIND_ok)
  show "\<exists>t'. HASH_ADD t p k = Some t' \<and> uh_rep t' (xs @ [p]) \<and> key_at t' = (key_at t)(p := k) \<and> dom (hh t') = dom (hh t)"
    if "uh_rep t xs" "p \<notin> set xs" "p \<in> dom (hh t)" for t xs p k
    using HASH_ADD_ok that by blast
  show "\<exists>t'. HASH_DELETE t p = Some t' \<and> uh_rep t' (remove1 p xs) \<and> key_at t' = key_at t \<and> dom (hh t') = dom (hh t)"
    if "uh_rep t xs" "p \<in> set xs" for t xs p
    using that by (rule HASH_DELETE_ok)
  show "HASH_COUNT t = length xs" if "uh_rep t xs" for t xs
    using that by (rule HASH_COUNT_ok)
qed

section \<open>Properties of the table\<close>

text \<open>Two elements in a table, for the concrete instances below.\<close>

definition demo_mem :: hmem where
  "demo_mem p = (if p < 8 then Some zero_handle else None)"

definition demo_empty :: uthash where
  "demo_empty = \<lparr>head = None, tbl = HASH_MAKE_TABLE 0, hh = demo_mem\<rparr>"

definition demo_mac :: "nat \<Rightarrow> bytes" where
  "demo_mac i = [2, 0, 0, 0, 0, of_nat i]"

definition demo_two :: uthash where
  "demo_two = the (Option.bind (HASH_ADD demo_empty 1 (demo_mac 1)) (\<lambda>t. HASH_ADD t 2 (demo_mac 2)))"

lemma demo_empty_rep: "uh_rep demo_empty []" "dom (hh demo_empty) = {..<8}"
  by (auto simp: demo_empty_def demo_mem_def uh_rep_empty dom_def)

lemma demo_two_rep:
  "uh_rep demo_two [1, 2]" "key_at demo_two 1 = demo_mac 1" "key_at demo_two 2 = demo_mac 2"
  "dom (hh demo_two) = {..<8}" "3 \<le> p \<Longrightarrow> p < 8 \<Longrightarrow> hh demo_two p = Some zero_handle"
proof -
  obtain t1 where t1: "HASH_ADD demo_empty 1 (demo_mac 1) = Some t1" "uh_rep t1 [1]"
      "key_at t1 = (key_at demo_empty)(1 := demo_mac 1)" "dom (hh t1) = {..<8}"
      "\<forall>y. y \<noteq> 1 \<longrightarrow> hh t1 y = demo_mem y"
    using HASH_ADD_ok [OF demo_empty_rep(1), of 1 zero_handle "demo_mac 1"] demo_empty_rep(2)
    by (auto simp: demo_empty_def demo_mem_def)
  have "2 \<in> dom (hh t1)" using t1(4) by simp
  then obtain h2 where "hh t1 2 = Some h2" by blast
  then obtain t2 where t2: "HASH_ADD t1 2 (demo_mac 2) = Some t2" "uh_rep t2 [1, 2]"
      "key_at t2 = (key_at t1)(2 := demo_mac 2)" "dom (hh t2) = {..<8}"
      "\<forall>y. y \<noteq> 1 \<and> y \<noteq> 2 \<longrightarrow> hh t2 y = demo_mem y"
    using HASH_ADD_ok [OF t1(2), of 2 h2 "demo_mac 2"] t1(4,5) by auto
  have "demo_two = t2" using t1(1) t2(1) by (simp add: demo_two_def)
  then show "uh_rep demo_two [1, 2]" "key_at demo_two 1 = demo_mac 1" "key_at demo_two 2 = demo_mac 2"
      "dom (hh demo_two) = {..<8}" "3 \<le> p \<Longrightarrow> p < 8 \<Longrightarrow> hh demo_two p = Some zero_handle"
    using t1 t2 by (simp_all add: demo_mem_def)
qed

lemma demo_two_inj: "inj_on (key_at demo_two) (set [1, 2])"
  using demo_two_rep by (simp add: inj_on_def demo_mac_def)

text \<open>
  \<^verbatim>\<open>HASH_FIND\<close> on a well-formed table with distinct keys is the lookup of the key in
  the map from keys to elements: it always terminates, never follows a dangling
  pointer, and returns the element with that key exactly if there is one.
\<close>

theorem HASH_FIND_is_lookup:
  assumes "uh_rep t xs" and "inj_on (key_at t) (set xs)"
  shows "HASH_FIND t k = Some (key_map (key_at t) xs k)"
  using assms by (rule uh.lookup_map)

theorem HASH_FIND_is_lookup_witness:
  "HASH_FIND demo_two (demo_mac 2) = Some (key_map (key_at demo_two) [1, 2] (demo_mac 2))"
  by (rule HASH_FIND_is_lookup [OF demo_two_rep(1) demo_two_inj])

text \<open>
  C6. \<^verbatim>\<open>HASH_ADD\<close> of an element with a new key implements the map update: the result is
  again a well-formed table with distinct keys, the element comes last in the
  application order, every lookup afterwards sees the new entry and nothing else
  changed, and the count grows by one. Bucket expansion is included.
\<close>

theorem HASH_ADD_refines_update:
  assumes "uh_rep t xs" and "inj_on (key_at t) (set xs)" and "k \<notin> key_at t ` set xs"
    and "p \<notin> set xs" and "p \<in> dom (hh t)"
  shows "\<exists>t'. HASH_ADD t p k = Some t' \<and> uh_rep t' (xs @ [p]) \<and> inj_on (key_at t') (set (xs @ [p])) \<and>
    (\<forall>k'. HASH_FIND t' k' = Some (((key_map (key_at t) xs)(k \<mapsto> p)) k')) \<and> HASH_COUNT t' = HASH_COUNT t + 1"
proof -
  obtain t' where t': "HASH_ADD t p k = Some t'" "uh_rep t' (xs @ [p])" "inj_on (key_at t') (set (xs @ [p]))"
      "key_map (key_at t') (xs @ [p]) = (key_map (key_at t) xs)(k \<mapsto> p)"
    using uh.add_map [OF assms] by blast
  moreover have "HASH_FIND t' k' = Some (((key_map (key_at t) xs)(k \<mapsto> p)) k')" for k'
    using uh.lookup_map [OF t'(2,3)] t'(4) by simp
  ultimately show ?thesis
    using uh.count_ok [OF t'(2)] uh.count_ok [OF assms(1)] by auto
qed

theorem HASH_ADD_refines_update_witness:
  "\<exists>t'. HASH_ADD demo_two 5 (demo_mac 5) = Some t' \<and> uh_rep t' [1, 2, 5] \<and>
    HASH_FIND t' (demo_mac 5) = Some (Some 5) \<and> HASH_COUNT t' = HASH_COUNT demo_two + 1"
  using HASH_ADD_refines_update [OF demo_two_rep(1) demo_two_inj, of "demo_mac 5" 5] demo_two_rep(2-4)
  by (auto simp: demo_mac_def)

text \<open>
  C7. \<^verbatim>\<open>HASH_DELETE\<close> of an element of the table implements the map deletion: both
  lists stay well linked, the other elements keep their order and keys, and no lookup
  finds the element any more.
\<close>

theorem HASH_DELETE_refines_delete:
  assumes "uh_rep t xs" and "inj_on (key_at t) (set xs)" and "p \<in> set xs"
  shows "\<exists>t'. HASH_DELETE t p = Some t' \<and> uh_rep t' (remove1 p xs) \<and> inj_on (key_at t') (set (remove1 p xs)) \<and>
    (\<forall>k. HASH_FIND t' k = Some (((key_map (key_at t) xs)(key_at t p := None)) k)) \<and>
    HASH_COUNT t' + 1 = HASH_COUNT t"
proof -
  obtain t' where t': "HASH_DELETE t p = Some t'" "uh_rep t' (remove1 p xs)" "inj_on (key_at t') (set (remove1 p xs))"
      "key_map (key_at t') (remove1 p xs) = (key_map (key_at t) xs)(key_at t p := None)"
    using uh.del_map [OF assms] by blast
  moreover have "HASH_FIND t' k = Some (((key_map (key_at t) xs)(key_at t p := None)) k)" for k
    using uh.lookup_map [OF t'(2,3)] t'(4) by simp
  moreover have "length (remove1 p xs) + 1 = length xs"
    using assms(3) by (simp add: length_remove1) (metis Suc_pred length_pos_if_in_set)
  ultimately show ?thesis
    using uh.count_ok [OF t'(2)] uh.count_ok [OF assms(1)] by auto
qed

theorem HASH_DELETE_refines_delete_witness:
  "\<exists>t'. HASH_DELETE demo_two 1 = Some t' \<and> uh_rep t' [2] \<and> HASH_FIND t' (demo_mac 1) = Some None \<and>
    HASH_COUNT t' + 1 = HASH_COUNT demo_two"
  using HASH_DELETE_refines_delete [OF demo_two_rep(1) demo_two_inj, of 1] demo_two_rep(2) by auto

text \<open>
  Deleting an element that was never added. The table takes an element without
  application-order neighbours for its only one: if the handle is still zeroed, the
  head becomes NULL and every member is lost.
\<close>

theorem HASH_DELETE_of_unlinked_drops_table:
  assumes "uh_rep t xs" and "xs \<noteq> []" and "p \<notin> set xs" and "hh t p = Some zero_handle"
  shows "\<exists>t'. HASH_DELETE t p = Some t' \<and> uh_rep t' [] \<and> HASH_FIND t' k = Some None"
proof -
  have "HASH_DELETE t p = Some (t\<lparr>head := None\<rparr>)"
    using assms by (auto simp: HASH_DELETE_def uh_rep_def zero_handle_def split: option.splits)
  then show ?thesis
    by (simp add: uh_rep_def HASH_FIND_def)
qed

theorem HASH_DELETE_of_unlinked_drops_table_witness:
  "\<exists>t'. HASH_DELETE demo_two 3 = Some t' \<and> uh_rep t' [] \<and> HASH_FIND t' (demo_mac 1) = Some None"
proof (rule HASH_DELETE_of_unlinked_drops_table [OF demo_two_rep(1)])
  show "hh demo_two 3 = Some zero_handle" by (simp add: demo_two_rep(5))
qed simp_all

text \<open>
  The shift and mask of \<^verbatim>\<open>HASH_EXPAND_BUCKETS\<close> compute what its comment promises:
  the ideal chain length is the number of items over the doubled number of buckets,
  rounded up, and it is never zero for a table with items, so the division by it is safe.
\<close>

theorem ideal_maxlen_is_ceiling:
  "ideal_maxlen n k (2 ^ k) = (n + (2 ^ (k + 1) - 1)) div 2 ^ (k + 1) \<and>
   (ideal_maxlen n k (2 ^ k) = 0 \<longleftrightarrow> n = 0)"
proof -
  define m :: nat where "m = 2 ^ (k + 1)"
  have "n + (m - 1) = n mod m + (m - 1) + m * (n div m)"
    using mult_div_mod_eq [of m n] by simp
  then have "(n + (m - 1)) div m = n div m + (n mod m + (m - 1)) div m"
    by (simp add: m_def)
  also have "(n mod m + (m - 1)) div m = (if n mod m \<noteq> 0 then 1 else 0)"
  proof (cases "n mod m = 0")
    case False
    have "n mod m < m" by (simp add: m_def)
    then have "n mod m + (m - 1) = (n mod m - 1) + m * 1" "n mod m - 1 < m" using False by auto
    then have "(n mod m + (m - 1)) div m = 1" by (simp only: div_mult_self2 div_less m_def)
    then show ?thesis using False by simp
  qed (simp add: m_def)
  finally have "ideal_maxlen n k (2 ^ k) = (n + (m - 1)) div m"
    unfolding ideal_maxlen_mod_div m_def by simp
  moreover have "ideal_maxlen n k (2 ^ k) = 0 \<longleftrightarrow> n = 0"
    using ideal_maxlen_pos [of n k] ideal_maxlen_mod_div [of 0 k] by (cases "n = 0") simp_all
  ultimately show ?thesis by (simp add: m_def)
qed

end
