(* ===== verification/RWLock.thy ===== *)
theory RWLock
  imports Prelude
begin

text \<open>
  The readers-writers lock of \<^verbatim>\<open>proxy.c\<close>: five mutexes and two counters. A thread is
  at a program point of one of the four functions; a step executes one statement and
  is possible unless it locks a mutex that is locked. The threads interleave freely.
  A mutex is of the default kind of the target, which blocks a second lock by the
  same thread and lets any thread unlock it; the last reader unlocks \<^verbatim>\<open>w\<close> for the first.
  The counters are unbounded: they never exceed the number of threads.
\<close>

section \<open>State\<close>

datatype mtx = mutex1 | mutex2 | mutex3 | r_mutex | w_mutex

record rwlock =
  owner :: "mtx \<Rightarrow> tid option"
  readcount :: int
  writecount :: int

definition rw_init :: rwlock where
  "rw_init = \<lparr>owner = \<lambda>_. None, readcount = 0, writecount = 0\<rparr>"

text \<open>The statement a thread is about to execute.\<close>

datatype pc =
    Idle
  | RB_lock3 | RB_lockr | RB_lock1 | RB_inc | RB_lockw | RB_unlock1 | RB_unlockr | RB_unlock3
  | Reading
  | RE_lock1 | RE_dec | RE_unlockw | RE_unlock1
  | WB_lock2 | WB_inc | WB_lockr | WB_unlock2 | WB_lockw
  | Writing
  | WE_unlockw | WE_lock2 | WE_dec | WE_unlockr | WE_unlock2

section \<open>One statement\<close>

definition lock_step :: "mtx \<Rightarrow> tid \<Rightarrow> pc \<Rightarrow> rwlock \<Rightarrow> (pc \<times> rwlock) option" where
  "lock_step m t nxt s =
     (if owner s m = None then Some (nxt, s\<lparr>owner := (owner s)(m := Some t)\<rparr>) else None)"

definition unlock_step :: "mtx \<Rightarrow> pc \<Rightarrow> rwlock \<Rightarrow> (pc \<times> rwlock) option" where
  "unlock_step m nxt s = Some (nxt, s\<lparr>owner := (owner s)(m := None)\<rparr>)"

definition readBegin_step :: "tid \<Rightarrow> pc \<Rightarrow> rwlock \<Rightarrow> (pc \<times> rwlock) option" where
  "readBegin_step t c s = (case c of
        RB_lock3 \<Rightarrow> lock_step mutex3 t RB_lockr s
     | RB_lockr \<Rightarrow> lock_step r_mutex t RB_lock1 s
     | RB_lock1 \<Rightarrow> lock_step mutex1 t RB_inc s
     | RB_inc \<Rightarrow> (let s = s\<lparr>readcount := readcount s + 1\<rparr> in
         Some (if readcount s = 1 then RB_lockw else RB_unlock1, s))
     | RB_lockw \<Rightarrow> lock_step w_mutex t RB_unlock1 s
     | RB_unlock1 \<Rightarrow> unlock_step mutex1 RB_unlockr s
     | RB_unlockr \<Rightarrow> unlock_step r_mutex RB_unlock3 s
     | RB_unlock3 \<Rightarrow> unlock_step mutex3 Reading s
     | _ \<Rightarrow> None)"

definition readEnd_step :: "tid \<Rightarrow> pc \<Rightarrow> rwlock \<Rightarrow> (pc \<times> rwlock) option" where
  "readEnd_step t c s = (case c of
        RE_lock1 \<Rightarrow> lock_step mutex1 t RE_dec s
     | RE_dec \<Rightarrow> (let s = s\<lparr>readcount := readcount s - 1\<rparr> in
         Some (if readcount s = 0 then RE_unlockw else RE_unlock1, s))
     | RE_unlockw \<Rightarrow> unlock_step w_mutex RE_unlock1 s
     | RE_unlock1 \<Rightarrow> unlock_step mutex1 Idle s
     | _ \<Rightarrow> None)"

definition writeBegin_step :: "tid \<Rightarrow> pc \<Rightarrow> rwlock \<Rightarrow> (pc \<times> rwlock) option" where
  "writeBegin_step t c s = (case c of
        WB_lock2 \<Rightarrow> lock_step mutex2 t WB_inc s
     | WB_inc \<Rightarrow> (let s = s\<lparr>writecount := writecount s + 1\<rparr> in
         Some (if writecount s = 1 then WB_lockr else WB_unlock2, s))
     | WB_lockr \<Rightarrow> lock_step r_mutex t WB_unlock2 s
     | WB_unlock2 \<Rightarrow> unlock_step mutex2 WB_lockw s
     | WB_lockw \<Rightarrow> lock_step w_mutex t Writing s
     | _ \<Rightarrow> None)"

definition writeEnd_step :: "tid \<Rightarrow> pc \<Rightarrow> rwlock \<Rightarrow> (pc \<times> rwlock) option" where
  "writeEnd_step t c s = (case c of
        WE_unlockw \<Rightarrow> unlock_step w_mutex WE_lock2 s
     | WE_lock2 \<Rightarrow> lock_step mutex2 t WE_dec s
     | WE_dec \<Rightarrow> (let s = s\<lparr>writecount := writecount s - 1\<rparr> in
         Some (if writecount s = 0 then WE_unlockr else WE_unlock2, s))
     | WE_unlockr \<Rightarrow> unlock_step r_mutex WE_unlock2 s
     | WE_unlock2 \<Rightarrow> unlock_step mutex2 Idle s
     | _ \<Rightarrow> None)"

section \<open>Interleaving\<close>

type_synonym rwstate = "rwlock \<times> (tid \<Rightarrow> pc)"

inductive rw_step :: "rwstate \<Rightarrow> tid \<Rightarrow> rwstate \<Rightarrow> bool" where
  call_readBegin: "pcs t = Idle \<Longrightarrow> rw_step (s, pcs) t (s, pcs(t := RB_lock3))"
| call_readEnd: "pcs t = Reading \<Longrightarrow> rw_step (s, pcs) t (s, pcs(t := RE_lock1))"
| call_writeBegin: "pcs t = Idle \<Longrightarrow> rw_step (s, pcs) t (s, pcs(t := WB_lock2))"
| call_writeEnd: "pcs t = Writing \<Longrightarrow> rw_step (s, pcs) t (s, pcs(t := WE_unlockw))"
| in_readBegin: "readBegin_step t (pcs t) s = Some (c, s') \<Longrightarrow> rw_step (s, pcs) t (s', pcs(t := c))"
| in_readEnd: "readEnd_step t (pcs t) s = Some (c, s') \<Longrightarrow> rw_step (s, pcs) t (s', pcs(t := c))"
| in_writeBegin: "writeBegin_step t (pcs t) s = Some (c, s') \<Longrightarrow> rw_step (s, pcs) t (s', pcs(t := c))"
| in_writeEnd: "writeEnd_step t (pcs t) s = Some (c, s') \<Longrightarrow> rw_step (s, pcs) t (s', pcs(t := c))"

inductive rw_reach :: "rwstate \<Rightarrow> bool" where
  start: "rw_reach (rw_init, \<lambda>_. Idle)"
| step: "rw_reach x \<Longrightarrow> rw_step x t y \<Longrightarrow> rw_reach y"


inductive_cases rw_stepE: "rw_step (s, pcs) t y"

lemmas rw_step_defs = readBegin_step_def readEnd_step_def writeBegin_step_def writeEnd_step_def
  lock_step_def unlock_step_def

section \<open>Counting the threads at a set of points\<close>

definition threads_at :: "(tid \<Rightarrow> pc) \<Rightarrow> pc set \<Rightarrow> int" where
  "threads_at pcs P = int (card {t. pcs t \<in> P})"

definition active :: "(tid \<Rightarrow> pc) \<Rightarrow> bool" where
  "active pcs \<longleftrightarrow> finite {t. pcs t \<noteq> Idle}"

lemma active_finite: "active pcs \<Longrightarrow> Idle \<notin> P \<Longrightarrow> finite {t. pcs t \<in> P}"
  unfolding active_def by (rule finite_subset [rotated]) auto

lemma active_upd: "active pcs \<Longrightarrow> active (pcs(t := c))"
  unfolding active_def by (rule finite_subset [where B = "insert t {t. pcs t \<noteq> Idle}"]) auto

lemma threads_at_nonneg: "threads_at pcs P \<ge> 0"
  by (simp add: threads_at_def)

lemma threads_at_pos: "active pcs \<Longrightarrow> Idle \<notin> P \<Longrightarrow> pcs t \<in> P \<Longrightarrow> threads_at pcs P \<ge> 1"
  using active_finite [of pcs P] by (auto simp: threads_at_def Suc_le_eq card_gt_0_iff)

lemma threads_at_upd:
  assumes "active pcs" and "Idle \<notin> P"
  shows "threads_at (pcs(t := c)) P =
    threads_at pcs P + (if c \<in> P then 1 else 0) - (if pcs t \<in> P then 1 else 0)"
proof -
  have fin: "finite {u. pcs u \<in> P}" using active_finite assms by blast
  consider "c \<in> P" "pcs t \<notin> P" | "c \<notin> P" "pcs t \<in> P" | "(c \<in> P) = (pcs t \<in> P)" by blast
  then show ?thesis
  proof cases
    case 1
    then have "{u. (pcs(t := c)) u \<in> P} = insert t {u. pcs u \<in> P}" by auto
    then show ?thesis using 1 fin by (simp add: threads_at_def)
  next
    case 2
    then have "{u. (pcs(t := c)) u \<in> P} = {u. pcs u \<in> P} - {t}" by auto
    moreover have "card {u. pcs u \<in> P} \<ge> 1" using threads_at_pos [OF assms 2(2)] by (simp add: threads_at_def)
    ultimately show ?thesis using 2 fin by (simp add: threads_at_def)
  next
    case 3
    then have "{u. (pcs(t := c)) u \<in> P} = {u. pcs u \<in> P}" by auto
    then show ?thesis using 3 by (simp add: threads_at_def)
  qed
qed

section \<open>The invariant\<close>

text \<open>
  Every mutex is locked as often as there are threads past its lock and before its
  unlock. The mutexes \<^verbatim>\<open>r\<close> and \<^verbatim>\<open>w\<close> are also held by the writers, respectively the
  readers, as a group: from the first one's lock to the last one's unlock.
\<close>

definition locked :: "rwlock \<Rightarrow> mtx \<Rightarrow> int" where
  "locked s m = (if owner s m = None then 0 else 1)"

definition pos :: "int \<Rightarrow> int" where
  "pos x = (if x > 0 then 1 else 0)"

definition rw_inv :: "rwlock \<Rightarrow> (pc set \<Rightarrow> int) \<Rightarrow> bool" where
  "rw_inv s n \<longleftrightarrow>
     n {RB_lockw} + n {RE_unlockw} + n {RB_inc, RB_unlock1, RE_dec, RE_unlock1} = locked s mutex1 \<and>
     n {WB_lockr} + n {WE_unlockr} + n {WB_inc, WB_unlock2, WE_dec, WE_unlock2} = locked s mutex2 \<and>
     n {RB_lockr} + n {RB_lock1, RB_inc, RB_lockw, RB_unlock1, RB_unlockr} + n {RB_unlock3} = locked s mutex3 \<and>
     n {RB_lockw} + n {RB_unlock1, RB_unlockr, RB_unlock3, Reading, RE_lock1, RE_dec} = readcount s \<and>
     n {WB_lockr} + n {WB_unlock2, WB_lockw, Writing, WE_unlockw, WE_lock2, WE_dec} = writecount s \<and>
     (n {RB_lockw} > 0 \<longrightarrow> readcount s = 1) \<and> (n {RE_unlockw} > 0 \<longrightarrow> readcount s = 0) \<and>
     (n {WB_lockr} > 0 \<longrightarrow> writecount s = 1) \<and> (n {WE_unlockr} > 0 \<longrightarrow> writecount s = 0) \<and>
     n {RB_lock1, RB_inc, RB_lockw, RB_unlock1, RB_unlockr} + pos (writecount s) + n {WE_unlockr}
       = locked s r_mutex + n {WB_lockr} \<and>
     n {Writing, WE_unlockw} + pos (readcount s) + n {RE_unlockw} = locked s w_mutex + n {RB_lockw}"

lemma locked_simps [simp]:
  "locked (s\<lparr>owner := (owner s)(m := Some t)\<rparr>) m' = (if m' = m then 1 else locked s m')"
  "locked (s\<lparr>owner := (owner s)(m := None)\<rparr>) m' = (if m' = m then 0 else locked s m')"
  "locked (s\<lparr>readcount := i\<rparr>) m' = locked s m'"
  "locked (s\<lparr>writecount := i\<rparr>) m' = locked s m'"
  by (simp_all add: locked_def)

lemma locked_bounds: "0 \<le> locked s m" "locked s m \<le> 1"
  by (simp_all add: locked_def)

lemma lock_step_Some:
  "lock_step m t nxt s = Some (c', s') \<longleftrightarrow>
     locked s m = 0 \<and> c' = nxt \<and> s' = s\<lparr>owner := (owner s)(m := Some t)\<rparr>"
  by (auto simp: lock_step_def locked_def)

lemma unlock_step_Some:
  "unlock_step m nxt s = Some (c', s') \<longleftrightarrow> c' = nxt \<and> s' = s\<lparr>owner := (owner s)(m := None)\<rparr>"
  by (auto simp: unlock_step_def)

text \<open>What the position of one thread says about the counts.\<close>

lemma rw_inv_mutex1:
  assumes "rw_inv s (threads_at pcs)" and "active pcs"
  shows "pcs t \<in> {RB_inc, RB_unlock1, RE_dec, RE_unlock1} \<Longrightarrow>
      locked s mutex1 = 1 \<and> threads_at pcs {RB_lockw} = 0 \<and> threads_at pcs {RE_unlockw} = 0"
    and "pcs t = RB_lockw \<Longrightarrow>
      locked s mutex1 = 1 \<and> threads_at pcs {RB_lockw} = 1 \<and> threads_at pcs {RE_unlockw} = 0"
    and "pcs t = RE_unlockw \<Longrightarrow>
      locked s mutex1 = 1 \<and> threads_at pcs {RB_lockw} = 0 \<and> threads_at pcs {RE_unlockw} = 1"
proof -
  have "threads_at pcs {RB_lockw} + threads_at pcs {RE_unlockw} +
      threads_at pcs {RB_inc, RB_unlock1, RE_dec, RE_unlock1} = locked s mutex1"
    using assms(1) by (simp add: rw_inv_def)
  note facts = this threads_at_nonneg [of pcs "{RB_lockw}"] threads_at_nonneg [of pcs "{RE_unlockw}"]
    threads_at_nonneg [of pcs "{RB_inc, RB_unlock1, RE_dec, RE_unlock1}"] locked_bounds [of s mutex1]
    threads_at_pos [OF assms(2), of "{RB_lockw}" t] threads_at_pos [OF assms(2), of "{RE_unlockw}" t]
    threads_at_pos [OF assms(2), of "{RB_inc, RB_unlock1, RE_dec, RE_unlock1}" t]
  show "pcs t \<in> {RB_inc, RB_unlock1, RE_dec, RE_unlock1} \<Longrightarrow>
      locked s mutex1 = 1 \<and> threads_at pcs {RB_lockw} = 0 \<and> threads_at pcs {RE_unlockw} = 0"
    using facts by auto
  show "pcs t = RB_lockw \<Longrightarrow>
      locked s mutex1 = 1 \<and> threads_at pcs {RB_lockw} = 1 \<and> threads_at pcs {RE_unlockw} = 0"
    using facts by auto
  show "pcs t = RE_unlockw \<Longrightarrow>
      locked s mutex1 = 1 \<and> threads_at pcs {RB_lockw} = 0 \<and> threads_at pcs {RE_unlockw} = 1"
    using facts by auto
qed

lemma rw_inv_mutex2:
  assumes "rw_inv s (threads_at pcs)" and "active pcs"
  shows "pcs t \<in> {WB_inc, WB_unlock2, WE_dec, WE_unlock2} \<Longrightarrow>
      locked s mutex2 = 1 \<and> threads_at pcs {WB_lockr} = 0 \<and> threads_at pcs {WE_unlockr} = 0"
    and "pcs t = WB_lockr \<Longrightarrow>
      locked s mutex2 = 1 \<and> threads_at pcs {WB_lockr} = 1 \<and> threads_at pcs {WE_unlockr} = 0"
    and "pcs t = WE_unlockr \<Longrightarrow>
      locked s mutex2 = 1 \<and> threads_at pcs {WB_lockr} = 0 \<and> threads_at pcs {WE_unlockr} = 1"
proof -
  have "threads_at pcs {WB_lockr} + threads_at pcs {WE_unlockr} +
      threads_at pcs {WB_inc, WB_unlock2, WE_dec, WE_unlock2} = locked s mutex2"
    using assms(1) by (simp add: rw_inv_def)
  note facts = this threads_at_nonneg [of pcs "{WB_lockr}"] threads_at_nonneg [of pcs "{WE_unlockr}"]
    threads_at_nonneg [of pcs "{WB_inc, WB_unlock2, WE_dec, WE_unlock2}"] locked_bounds [of s mutex2]
    threads_at_pos [OF assms(2), of "{WB_lockr}" t] threads_at_pos [OF assms(2), of "{WE_unlockr}" t]
    threads_at_pos [OF assms(2), of "{WB_inc, WB_unlock2, WE_dec, WE_unlock2}" t]
  show "pcs t \<in> {WB_inc, WB_unlock2, WE_dec, WE_unlock2} \<Longrightarrow>
      locked s mutex2 = 1 \<and> threads_at pcs {WB_lockr} = 0 \<and> threads_at pcs {WE_unlockr} = 0"
    using facts by auto
  show "pcs t = WB_lockr \<Longrightarrow>
      locked s mutex2 = 1 \<and> threads_at pcs {WB_lockr} = 1 \<and> threads_at pcs {WE_unlockr} = 0"
    using facts by auto
  show "pcs t = WE_unlockr \<Longrightarrow>
      locked s mutex2 = 1 \<and> threads_at pcs {WB_lockr} = 0 \<and> threads_at pcs {WE_unlockr} = 1"
    using facts by auto
qed

lemma rw_inv_counts:
  assumes "rw_inv s (threads_at pcs)" and "active pcs"
  shows "readcount s \<ge> 0" and "writecount s \<ge> 0"
    and "pcs t \<in> {RB_unlock1, RB_unlockr, RB_unlock3, Reading, RE_lock1, RE_dec} \<Longrightarrow>
      readcount s \<ge> 1 \<and> threads_at pcs {RB_lockw} = 0"
    and "pcs t \<in> {WB_unlock2, WB_lockw, Writing, WE_unlockw, WE_lock2, WE_dec} \<Longrightarrow>
      writecount s \<ge> 1 \<and> threads_at pcs {WB_lockr} = 0"
proof -
  have inv: "threads_at pcs {RB_lockw} + threads_at pcs {RB_unlock1, RB_unlockr, RB_unlock3, Reading, RE_lock1, RE_dec} = readcount s"
    "threads_at pcs {WB_lockr} + threads_at pcs {WB_unlock2, WB_lockw, Writing, WE_unlockw, WE_lock2, WE_dec} = writecount s"
    "threads_at pcs {RB_lockw} > 0 \<longrightarrow> readcount s = 1" "threads_at pcs {WB_lockr} > 0 \<longrightarrow> writecount s = 1"
    using assms(1) by (simp_all add: rw_inv_def)
  note nn = threads_at_nonneg [of pcs]
  show "readcount s \<ge> 0" "writecount s \<ge> 0"
    unfolding inv(1,2) [symmetric] by (simp_all add: nn)
  show "readcount s \<ge> 1 \<and> threads_at pcs {RB_lockw} = 0"
    if "pcs t \<in> {RB_unlock1, RB_unlockr, RB_unlock3, Reading, RE_lock1, RE_dec}"
    using inv(1,3) nn [of "{RB_lockw}"] threads_at_pos [OF assms(2) _ that] by auto
  show "writecount s \<ge> 1 \<and> threads_at pcs {WB_lockr} = 0"
    if "pcs t \<in> {WB_unlock2, WB_lockw, Writing, WE_unlockw, WE_lock2, WE_dec}"
    using inv(2,4) nn [of "{WB_lockr}"] threads_at_pos [OF assms(2) _ that] by auto
qed

text \<open>A reader on its way in keeps the writers out of \<^verbatim>\<open>r\<close>, and a writer keeps the readers out of \<^verbatim>\<open>w\<close>.\<close>

lemma rw_inv_entry:
  assumes "rw_inv s (threads_at pcs)" and "active pcs"
  shows "pcs t \<in> {RB_lockr, RB_unlock3} \<Longrightarrow> locked s mutex3 = 1"
    and "pcs t \<in> {RB_lock1, RB_inc, RB_lockw, RB_unlock1, RB_unlockr} \<Longrightarrow>
      locked s mutex3 = 1 \<and> locked s r_mutex = 1 \<and> pos (writecount s) = threads_at pcs {WB_lockr} \<and>
      threads_at pcs {WE_unlockr} = 0"
    and "pcs t \<in> {Writing, WE_unlockw} \<Longrightarrow>
      locked s w_mutex = 1 \<and> threads_at pcs {Writing, WE_unlockw} = 1 \<and>
      pos (readcount s) = threads_at pcs {RB_lockw} \<and> threads_at pcs {RE_unlockw} = 0"
proof -
  have m3: "threads_at pcs {RB_lockr} + threads_at pcs {RB_lock1, RB_inc, RB_lockw, RB_unlock1, RB_unlockr} +
      threads_at pcs {RB_unlock3} = locked s mutex3"
    and m2: "threads_at pcs {WB_lockr} + threads_at pcs {WE_unlockr} +
      threads_at pcs {WB_inc, WB_unlock2, WE_dec, WE_unlock2} = locked s mutex2"
    and m1: "threads_at pcs {RB_lockw} + threads_at pcs {RE_unlockw} +
      threads_at pcs {RB_inc, RB_unlock1, RE_dec, RE_unlock1} = locked s mutex1"
    and mr: "threads_at pcs {RB_lock1, RB_inc, RB_lockw, RB_unlock1, RB_unlockr} + pos (writecount s) +
      threads_at pcs {WE_unlockr} = locked s r_mutex + threads_at pcs {WB_lockr}"
    and mw: "threads_at pcs {Writing, WE_unlockw} + pos (readcount s) + threads_at pcs {RE_unlockw} =
      locked s w_mutex + threads_at pcs {RB_lockw}"
    and imp: "threads_at pcs {WB_lockr} > 0 \<longrightarrow> writecount s = 1" "threads_at pcs {RB_lockw} > 0 \<longrightarrow> readcount s = 1"
    using assms(1) by (simp_all add: rw_inv_def)
  note nn = threads_at_nonneg [of pcs]
  have pos01: "pos x \<ge> 0" "pos x \<le> 1" for x by (simp_all add: pos_def)
  show "locked s mutex3 = 1" if "pcs t \<in> {RB_lockr, RB_unlock3}"
    using that m3 nn [of "{RB_lockr}"] nn [of "{RB_lock1, RB_inc, RB_lockw, RB_unlock1, RB_unlockr}"]
      nn [of "{RB_unlock3}"] locked_bounds [of s mutex3]
      threads_at_pos [OF assms(2), of "{RB_lockr}" t] threads_at_pos [OF assms(2), of "{RB_unlock3}" t]
    by auto
  show "locked s mutex3 = 1 \<and> locked s r_mutex = 1 \<and> pos (writecount s) = threads_at pcs {WB_lockr} \<and>
      threads_at pcs {WE_unlockr} = 0" if t: "pcs t \<in> {RB_lock1, RB_inc, RB_lockw, RB_unlock1, RB_unlockr}"
  proof -
    have rr: "threads_at pcs {RB_lock1, RB_inc, RB_lockw, RB_unlock1, RB_unlockr} = 1" "locked s mutex3 = 1"
      using m3 nn [of "{RB_lockr}"] nn [of "{RB_unlock3}"] locked_bounds(2) [of s mutex3] threads_at_pos [OF assms(2) _ t] by auto
    show ?thesis
    proof (cases "threads_at pcs {WB_lockr} > 0")
      case True
      then show ?thesis
        using rr mr m2 imp(1) nn [of "{WE_unlockr}"] nn [of "{WB_inc, WB_unlock2, WE_dec, WE_unlock2}"]
          locked_bounds [of s mutex2] by (auto simp: pos_def)
    next
      case False
      then show ?thesis
        using rr mr nn [of "{WB_lockr}"] nn [of "{WE_unlockr}"] locked_bounds [of s r_mutex]
          pos01 [of "writecount s"] by auto
    qed
  qed
  show "locked s w_mutex = 1 \<and> threads_at pcs {Writing, WE_unlockw} = 1 \<and>
      pos (readcount s) = threads_at pcs {RB_lockw} \<and> threads_at pcs {RE_unlockw} = 0"
    if t: "pcs t \<in> {Writing, WE_unlockw}"
  proof (cases "threads_at pcs {RB_lockw} > 0")
    case True
    then show ?thesis
      using mw m1 imp(2) nn [of "{RE_unlockw}"] nn [of "{RB_inc, RB_unlock1, RE_dec, RE_unlock1}"]
        locked_bounds [of s mutex1] locked_bounds [of s w_mutex] threads_at_pos [OF assms(2) _ t] by (auto simp: pos_def)
  next
    case False
    then show ?thesis
      using mw nn [of "{RB_lockw}"] nn [of "{RE_unlockw}"] locked_bounds [of s w_mutex]
        pos01 [of "readcount s"] threads_at_pos [OF assms(2) _ t] by auto
  qed
qed

section \<open>Every statement keeps the invariant\<close>

lemma pos_simps [simp]: "x > 0 \<Longrightarrow> pos x = 1" "x \<le> 0 \<Longrightarrow> pos x = 0"
  by (simp_all add: pos_def)

lemma readBegin_inv:
  assumes "readBegin_step t (pcs t) s = Some (c', s')" and "rw_inv s (threads_at pcs)" and "active pcs"
  shows "rw_inv s' (threads_at (pcs(t := c')))"
proof -
  note upd = threads_at_upd [OF assms(3)] readBegin_step_def lock_step_Some unlock_step_Some rw_inv_def
  note m1 = rw_inv_mutex1 [OF assms(2,3), of t]
  note rc = rw_inv_counts [OF assms(2,3)]
  note en = rw_inv_entry [OF assms(2,3), of t]
  show ?thesis
  proof (cases "pcs t")
    case RB_lock3
    then show ?thesis using assms by (simp add: upd)
  next
    case RB_lockr
    then show ?thesis using assms by (simp add: upd)
  next
    case RB_lock1
    then show ?thesis using assms by (simp add: upd)
  next
    case RB_unlock3
    then show ?thesis using assms en(1) by (simp add: upd)
  next
    case RB_unlockr
    then show ?thesis using assms en(2) by (simp add: upd)
  next
    case RB_unlock1
    then show ?thesis using assms m1(1) by (simp add: upd)
  next
    case RB_lockw
    then have "readcount s = 1" using assms(2) m1(2) by (simp add: rw_inv_def)
    then show ?thesis using assms RB_lockw m1(2) by (simp add: upd)
  next
    case RB_inc
    then have "threads_at pcs {RB_lockw} = 0" "threads_at pcs {RE_unlockw} = 0" "locked s mutex1 = 1" using m1(1) by simp_all
    moreover have "c' = (if readcount s = 0 then RB_lockw else RB_unlock1)" "s' = s\<lparr>readcount := readcount s + 1\<rparr>"
      using assms(1) RB_inc by (auto simp: readBegin_step_def Let_def)
    ultimately show ?thesis using assms(2) RB_inc rc(1) by (cases "readcount s = 0") (simp_all add: upd)
  qed (use assms in \<open>simp_all add: readBegin_step_def\<close>)
qed

lemma readEnd_inv:
  assumes "readEnd_step t (pcs t) s = Some (c', s')" and "rw_inv s (threads_at pcs)" and "active pcs"
  shows "rw_inv s' (threads_at (pcs(t := c')))"
proof -
  note upd = threads_at_upd [OF assms(3)] readEnd_step_def lock_step_Some unlock_step_Some rw_inv_def
  note m1 = rw_inv_mutex1 [OF assms(2,3), of t]
  note rc = rw_inv_counts [OF assms(2,3)]
  show ?thesis
  proof (cases "pcs t")
    case RE_lock1
    then show ?thesis using assms by (simp add: upd)
  next
    case RE_dec
    then have "threads_at pcs {RB_lockw} = 0" "threads_at pcs {RE_unlockw} = 0" "locked s mutex1 = 1" "readcount s \<ge> 1"
      using m1(1) rc(3) [of t] by simp_all
    moreover have "c' = (if readcount s = 1 then RE_unlockw else RE_unlock1)" "s' = s\<lparr>readcount := readcount s - 1\<rparr>"
      using assms(1) RE_dec by (auto simp: readEnd_step_def Let_def)
    ultimately show ?thesis using assms(2) RE_dec by (cases "readcount s = 1") (simp_all add: upd)
  next
    case RE_unlockw
    then have "readcount s = 0" using assms(2) m1(3) by (simp add: rw_inv_def)
    then show ?thesis using assms RE_unlockw m1(3) threads_at_nonneg [of pcs "{Writing, WE_unlockw}"] locked_bounds(2) [of s w_mutex] by (simp add: upd)
  next
    case RE_unlock1
    then show ?thesis using assms m1(1) by (simp add: upd)
  qed (use assms in \<open>simp_all add: readEnd_step_def\<close>)
qed

lemma writeBegin_inv:
  assumes "writeBegin_step t (pcs t) s = Some (c', s')" and "rw_inv s (threads_at pcs)" and "active pcs"
  shows "rw_inv s' (threads_at (pcs(t := c')))"
proof -
  note upd = threads_at_upd [OF assms(3)] writeBegin_step_def lock_step_Some unlock_step_Some rw_inv_def
  note m2 = rw_inv_mutex2 [OF assms(2,3), of t]
  note wc = rw_inv_counts [OF assms(2,3)]
  show ?thesis
  proof (cases "pcs t")
    case WB_lock2
    then show ?thesis using assms by (simp add: upd)
  next
    case WB_inc
    then have "threads_at pcs {WB_lockr} = 0" "threads_at pcs {WE_unlockr} = 0" "locked s mutex2 = 1" using m2(1) by simp_all
    moreover have "c' = (if writecount s = 0 then WB_lockr else WB_unlock2)" "s' = s\<lparr>writecount := writecount s + 1\<rparr>"
      using assms(1) WB_inc by (auto simp: writeBegin_step_def Let_def)
    ultimately show ?thesis using assms(2) WB_inc wc(2) by (cases "writecount s = 0") (simp_all add: upd)
  next
    case WB_lockr
    then have "writecount s = 1" using assms(2) m2(2) by (simp add: rw_inv_def)
    then show ?thesis using assms WB_lockr m2(2) by (simp add: upd)
  next
    case WB_unlock2
    then show ?thesis using assms m2(1) by (simp add: upd)
  next
    case WB_lockw
    then show ?thesis using assms by (simp add: upd)
  qed (use assms in \<open>simp_all add: writeBegin_step_def\<close>)
qed

lemma writeEnd_inv:
  assumes "writeEnd_step t (pcs t) s = Some (c', s')" and "rw_inv s (threads_at pcs)" and "active pcs"
  shows "rw_inv s' (threads_at (pcs(t := c')))"
proof -
  note upd = threads_at_upd [OF assms(3)] writeEnd_step_def lock_step_Some unlock_step_Some rw_inv_def
  note m2 = rw_inv_mutex2 [OF assms(2,3), of t]
  note wc = rw_inv_counts [OF assms(2,3)]
  show ?thesis
  proof (cases "pcs t")
    case WE_unlockw
    then show ?thesis using assms rw_inv_entry(3) [OF assms(2,3), of t] by (simp add: upd)
  next
    case WE_lock2
    then show ?thesis using assms by (simp add: upd)
  next
    case WE_dec
    then have "threads_at pcs {WB_lockr} = 0" "threads_at pcs {WE_unlockr} = 0" "locked s mutex2 = 1" "writecount s \<ge> 1"
      using m2(1) wc(4) [of t] by simp_all
    moreover have "c' = (if writecount s = 1 then WE_unlockr else WE_unlock2)" "s' = s\<lparr>writecount := writecount s - 1\<rparr>"
      using assms(1) WE_dec by (auto simp: writeEnd_step_def Let_def)
    ultimately show ?thesis using assms(2) WE_dec by (cases "writecount s = 1") (simp_all add: upd)
  next
    case WE_unlockr
    then have "writecount s = 0" using assms(2) m2(3) by (simp add: rw_inv_def)
    then show ?thesis using assms WE_unlockr m2(3) threads_at_nonneg [of pcs "{RB_lock1, RB_inc, RB_lockw, RB_unlock1, RB_unlockr}"] locked_bounds(2) [of s r_mutex] by (simp add: upd)
  next
    case WE_unlock2
    then show ?thesis using assms m2(1) by (simp add: upd)
  qed (use assms in \<open>simp_all add: writeEnd_step_def\<close>)
qed

lemma call_inv:
  assumes "rw_inv s (threads_at pcs)" and "active pcs"
    and "(pcs t, c) \<in> {(Idle, RB_lock3), (Reading, RE_lock1), (Idle, WB_lock2), (Writing, WE_unlockw)}"
  shows "rw_inv s (threads_at (pcs(t := c)))"
proof -
  note upd = threads_at_upd [OF assms(2)]
  consider "pcs t = Idle" "c = RB_lock3" | "pcs t = Reading" "c = RE_lock1" | "pcs t = Idle" "c = WB_lock2"
    | "pcs t = Writing" "c = WE_unlockw"
    using assms(3) by auto
  then show ?thesis
    using assms(1) by cases (simp_all add: rw_inv_def upd)
qed

definition rw_good :: "rwstate \<Rightarrow> bool" where
  "rw_good = (\<lambda>(s, pcs). active pcs \<and> rw_inv s (threads_at pcs))"

lemma rw_step_good: "rw_step x t y \<Longrightarrow> rw_good x \<Longrightarrow> rw_good y"
proof (induction rule: rw_step.induct)
  case (call_readBegin pcs t s)
  then show ?case using call_inv [of s pcs t] by (simp add: rw_good_def active_upd)
next
  case (call_readEnd pcs t s)
  then show ?case using call_inv [of s pcs t] by (simp add: rw_good_def active_upd)
next
  case (call_writeBegin pcs t s)
  then show ?case using call_inv [of s pcs t] by (simp add: rw_good_def active_upd)
next
  case (call_writeEnd pcs t s)
  then show ?case using call_inv [of s pcs t] by (simp add: rw_good_def active_upd)
qed (simp_all add: rw_good_def active_upd readBegin_inv readEnd_inv writeBegin_inv writeEnd_inv)

lemma rw_reach_good: "rw_reach x \<Longrightarrow> rw_good x"
proof (induction rule: rw_reach.induct)
  case start
  then show ?case
    by (simp add: rw_good_def rw_inv_def rw_init_def threads_at_def active_def locked_def)
next
  case (step x t y)
  then show ?case by (blast intro: rw_step_good)
qed

section \<open>Progress\<close>

definition stuck :: "rwstate \<Rightarrow> tid \<Rightarrow> bool" where
  "stuck x t \<longleftrightarrow> (\<forall>y. \<not> rw_step x t y)"

lemma stuck_point:
  assumes "stuck (s, pcs) t" and "pcs t \<noteq> Idle"
  shows "pcs t = RB_lock3 \<and> locked s mutex3 = 1 \<or> pcs t \<in> {RB_lockr, WB_lockr} \<and> locked s r_mutex = 1 \<or>
    pcs t \<in> {RB_lock1, RE_lock1} \<and> locked s mutex1 = 1 \<or> pcs t \<in> {RB_lockw, WB_lockw} \<and> locked s w_mutex = 1 \<or>
    pcs t \<in> {WB_lock2, WE_lock2} \<and> locked s mutex2 = 1"
proof -
  have no: "readBegin_step t (pcs t) s = None" "readEnd_step t (pcs t) s = None"
      "writeBegin_step t (pcs t) s = None" "writeEnd_step t (pcs t) s = None"
      "pcs t \<noteq> Reading" "pcs t \<noteq> Writing"
    using assms(1) rw_step.intros unfolding stuck_def by (metis option.exhaust surj_pair)+
  then show ?thesis
    using assms(2) by (cases "pcs t")
      (simp_all add: rw_step_defs locked_def Let_def split: if_splits)
qed

lemma threads_at_none: "(\<And>t. pcs t \<notin> P) \<Longrightarrow> threads_at pcs P = 0"
  by (simp add: threads_at_def)

lemma not_all_stuck:
  assumes good: "rw_good (s, pcs)" and stuck: "\<And>t. pcs t \<noteq> Idle \<Longrightarrow> stuck (s, pcs) t"
  shows "pcs t = Idle"
proof -
  have inv: "rw_inv s (threads_at pcs)" and act: "active pcs"
    using good by (auto simp: rw_good_def)
  have sp: "pcs u \<noteq> Idle \<Longrightarrow> pcs u = RB_lock3 \<and> locked s mutex3 = 1 \<or> pcs u \<in> {RB_lockr, WB_lockr} \<and> locked s r_mutex = 1 \<or>
    pcs u \<in> {RB_lock1, RE_lock1} \<and> locked s mutex1 = 1 \<or> pcs u \<in> {RB_lockw, WB_lockw} \<and> locked s w_mutex = 1 \<or>
    pcs u \<in> {WB_lock2, WE_lock2} \<and> locked s mutex2 = 1" for u
    using stuck_point stuck by blast
  have none: "threads_at pcs P = 0" if "\<And>u. pcs u \<in> P \<Longrightarrow> pcs u \<noteq> Idle \<Longrightarrow> False" "Idle \<notin> P" for P
    using that by (intro threads_at_none) metis
  have free: "threads_at pcs P = 0"
    if "P \<subseteq> {RE_unlockw, RB_inc, RB_unlock1, RE_dec, RE_unlock1, Writing, WE_unlockw, WE_unlockr,
      WB_inc, WB_unlock2, WE_dec, WE_unlock2, RB_unlock3}" for P
  proof (rule none)
    show False if "pcs u \<in> P" "pcs u \<noteq> Idle" for u using sp [of u] that \<open>P \<subseteq> _\<close> by auto
  qed (use that in auto)
  have z: "threads_at pcs {RE_unlockw} = 0" "threads_at pcs {RB_inc, RB_unlock1, RE_dec, RE_unlock1} = 0"
      "threads_at pcs {Writing, WE_unlockw} = 0" "threads_at pcs {WE_unlockr} = 0"
      "threads_at pcs {WB_inc, WB_unlock2, WE_dec, WE_unlock2} = 0" "threads_at pcs {RB_unlock3} = 0"
    by (simp_all add: free)
  have w: "pcs u \<noteq> RB_lockw" for u
  proof
    assume u: "pcs u = RB_lockw"
    then have "threads_at pcs {RB_lockw} = 1" "readcount s = 1" "locked s w_mutex = 1"
      using rw_inv_mutex1(2) [OF inv act u] inv sp [of u] by (auto simp: rw_inv_def)
    then show False using inv z by (simp add: rw_inv_def)
  qed
  then have "threads_at pcs {RB_lockw} = 0" by (intro none) auto
  then have m1: "locked s mutex1 = 0" using inv z by (simp add: rw_inv_def)
  then have "threads_at pcs {RB_unlock1, RB_unlockr, RB_unlock3, Reading, RE_lock1, RE_dec} = 0"
    by - (rule none, drule sp, auto)
  then have "readcount s = 0"
    using inv \<open>threads_at pcs {RB_lockw} = 0\<close> by (simp add: rw_inv_def)
  then have w0: "locked s w_mutex = 0"
    using inv z \<open>threads_at pcs {RB_lockw} = 0\<close> by (simp add: rw_inv_def)
  have r: "pcs u \<noteq> WB_lockr" for u
  proof
    assume u: "pcs u = WB_lockr"
    then have "threads_at pcs {WB_lockr} = 1" "writecount s = 1" "locked s r_mutex = 1"
      using rw_inv_mutex2(2) [OF inv act u] inv sp [of u] by (auto simp: rw_inv_def)
    moreover have "threads_at pcs {RB_lock1, RB_inc, RB_lockw, RB_unlock1, RB_unlockr} = 0"
      by (rule none, drule sp) (auto simp: m1 w)
    ultimately show False using inv z by (simp add: rw_inv_def)
  qed
  then have "threads_at pcs {WB_lockr} = 0" by (intro none) auto
  then have m2: "locked s mutex2 = 0" using inv z by (simp add: rw_inv_def)
  have "threads_at pcs {WB_unlock2, WB_lockw, Writing, WE_unlockw, WE_lock2, WE_dec} = 0"
    by (rule none, drule sp) (auto simp: m2 w0)
  moreover have rr: "threads_at pcs {RB_lock1, RB_inc, RB_lockw, RB_unlock1, RB_unlockr} = 0"
    by (rule none, drule sp) (auto simp: m1 w)
  moreover from calculation have "writecount s = 0"
    using inv \<open>threads_at pcs {WB_lockr} = 0\<close> by (simp add: rw_inv_def)
  ultimately have r0: "locked s r_mutex = 0"
    using inv z \<open>threads_at pcs {WB_lockr} = 0\<close> by (simp add: rw_inv_def)
  then have "threads_at pcs {RB_lockr} = 0" by (intro none, drule_tac sp) auto
  then have "locked s mutex3 = 0" using inv z rr by (simp add: rw_inv_def)
  then show ?thesis using sp [of t] m1 m2 w0 r0 by auto
qed

section \<open>The functions as one thread executes them\<close>

definition mutex_lock :: "tid \<Rightarrow> mtx \<Rightarrow> rwlock \<Rightarrow> (rwlock, unit) run" where
  "mutex_lock t m s = (case owner s m of
       None \<Rightarrow> Ret () (s\<lparr>owner := (owner s)(m := Some t)\<rparr>)
     | Some u \<Rightarrow> Stop (if u = t then SelfDeadlock else Waiting) s)"

definition mutex_unlock :: "mtx \<Rightarrow> rwlock \<Rightarrow> (rwlock, unit) run" where
  "mutex_unlock m s = Ret () (s\<lparr>owner := (owner s)(m := None)\<rparr>)"

definition readBegin :: "tid \<Rightarrow> rwlock \<Rightarrow> (rwlock, unit) run" where
  "readBegin t s =
     bind_run (mutex_lock t mutex3 s) (\<lambda>_ s.
     bind_run (mutex_lock t r_mutex s) (\<lambda>_ s.
     bind_run (mutex_lock t mutex1 s) (\<lambda>_ s.
     let s = s\<lparr>readcount := readcount s + 1\<rparr> in
     bind_run (if readcount s = 1 then mutex_lock t w_mutex s else Ret () s) (\<lambda>_ s.
     bind_run (mutex_unlock mutex1 s) (\<lambda>_ s.
     bind_run (mutex_unlock r_mutex s) (\<lambda>_ s.
     mutex_unlock mutex3 s))))))"

definition readEnd :: "tid \<Rightarrow> rwlock \<Rightarrow> (rwlock, unit) run" where
  "readEnd t s =
     bind_run (mutex_lock t mutex1 s) (\<lambda>_ s.
     let s = s\<lparr>readcount := readcount s - 1\<rparr> in
     bind_run (if readcount s = 0 then mutex_unlock w_mutex s else Ret () s) (\<lambda>_ s.
     mutex_unlock mutex1 s))"

definition writeBegin :: "tid \<Rightarrow> rwlock \<Rightarrow> (rwlock, unit) run" where
  "writeBegin t s =
     bind_run (mutex_lock t mutex2 s) (\<lambda>_ s.
     let s = s\<lparr>writecount := writecount s + 1\<rparr> in
     bind_run (if writecount s = 1 then mutex_lock t r_mutex s else Ret () s) (\<lambda>_ s.
     bind_run (mutex_unlock mutex2 s) (\<lambda>_ s.
     mutex_lock t w_mutex s)))"

definition writeEnd :: "tid \<Rightarrow> rwlock \<Rightarrow> (rwlock, unit) run" where
  "writeEnd t s =
     bind_run (mutex_unlock w_mutex s) (\<lambda>_ s.
     bind_run (mutex_lock t mutex2 s) (\<lambda>_ s.
     let s = s\<lparr>writecount := writecount s - 1\<rparr> in
     bind_run (if writecount s = 0 then mutex_unlock r_mutex s else Ret () s) (\<lambda>_ s.
     mutex_unlock mutex2 s)))"

lemmas rw_fun_defs = readBegin_def readEnd_def writeBegin_def writeEnd_def

text \<open>The steps of one thread.\<close>

definition own_run :: "tid \<Rightarrow> rwstate \<Rightarrow> rwstate \<Rightarrow> bool" where
  "own_run t = (\<lambda>x y. rw_step x t y)\<^sup>*\<^sup>*"

lemma own_run_refl [simp]: "own_run t x x"
  by (simp add: own_run_def)

lemma own_run_step: "rw_step x t y \<Longrightarrow> own_run t y z \<Longrightarrow> own_run t x z"
  by (simp add: own_run_def converse_rtranclp_into_rtranclp)

lemma own_run_stmt:
  assumes "readBegin_step t c s = Some (c', s') \<or> readEnd_step t c s = Some (c', s') \<or>
    writeBegin_step t c s = Some (c', s') \<or> writeEnd_step t c s = Some (c', s')"
    and "own_run t (s', pcs(t := c')) z"
  shows "own_run t (s, pcs(t := c)) z"
proof (rule own_run_step [OF _ assms(2)])
  let ?pcs = "pcs(t := c)"
  have "rw_step (s, ?pcs) t (s', ?pcs(t := c'))"
    using assms(1) in_readBegin [of t ?pcs s c' s'] in_readEnd [of t ?pcs s c' s']
      in_writeBegin [of t ?pcs s c' s'] in_writeEnd [of t ?pcs s c' s'] by auto
  then show "rw_step (s, pcs(t := c)) t (s', pcs(t := c'))" by simp
qed

lemma own_run_next:
  "(case readBegin_step t c s of Some (c', s') \<Rightarrow> own_run t (s', pcs(t := c')) z | None \<Rightarrow> False) \<Longrightarrow>
     own_run t (s, pcs(t := c)) z"
  "(case readEnd_step t c s of Some (c', s') \<Rightarrow> own_run t (s', pcs(t := c')) z | None \<Rightarrow> False) \<Longrightarrow>
     own_run t (s, pcs(t := c)) z"
  "(case writeBegin_step t c s of Some (c', s') \<Rightarrow> own_run t (s', pcs(t := c')) z | None \<Rightarrow> False) \<Longrightarrow>
     own_run t (s, pcs(t := c)) z"
  "(case writeEnd_step t c s of Some (c', s') \<Rightarrow> own_run t (s', pcs(t := c')) z | None \<Rightarrow> False) \<Longrightarrow>
     own_run t (s, pcs(t := c)) z"
  by (auto intro: own_run_stmt split: option.splits)

lemma mutex_lock_Ret:
  "mutex_lock t m s = Ret x s' \<longleftrightarrow> owner s m = None \<and> s' = s\<lparr>owner := (owner s)(m := Some t)\<rparr>"
  by (auto simp: mutex_lock_def split: option.splits)

lemma readBegin_own_run:
  assumes "readBegin t s = Ret () s'"
  shows "own_run t (s, pcs(t := RB_lock3)) (s', pcs(t := Reading))"
  using assms
  by (auto simp: readBegin_def bind_run_Ret_iff mutex_lock_Ret mutex_unlock_def Let_def split: if_splits)
    (rule own_run_next(1), simp add: readBegin_step_def lock_step_def unlock_step_def)+

lemma readEnd_own_run:
  assumes "readEnd t s = Ret () s'"
  shows "own_run t (s, pcs(t := RE_lock1)) (s', pcs(t := Idle))"
  using assms
  by (auto simp: readEnd_def bind_run_Ret_iff mutex_lock_Ret mutex_unlock_def Let_def split: if_splits)
    (rule own_run_next(2), simp add: readEnd_step_def lock_step_def unlock_step_def)+

lemma writeBegin_own_run:
  assumes "writeBegin t s = Ret () s'"
  shows "own_run t (s, pcs(t := WB_lock2)) (s', pcs(t := Writing))"
  using assms
  by (auto simp: writeBegin_def bind_run_Ret_iff mutex_lock_Ret mutex_unlock_def Let_def split: if_splits)
    (rule own_run_next(3), simp add: writeBegin_step_def lock_step_def unlock_step_def)+

lemma writeEnd_own_run:
  assumes "writeEnd t s = Ret () s'"
  shows "own_run t (s, pcs(t := WE_unlockw)) (s', pcs(t := Idle))"
  using assms
  by (auto simp: writeEnd_def bind_run_Ret_iff mutex_lock_Ret mutex_unlock_def Let_def split: if_splits)
    (rule own_run_next(4), simp add: writeEnd_step_def lock_step_def unlock_step_def)+

lemma own_run_reach: "own_run t x y \<Longrightarrow> rw_reach x \<Longrightarrow> rw_reach y"
  unfolding own_run_def by (induction rule: rtranclp_induct) (auto intro: rw_reach.step)

section \<open>Properties of the lock\<close>

text \<open>Thread 1 writes, thread 2 has called \<^verbatim>\<open>readBegin\<close>.\<close>

definition demo_locked :: rwlock where
  "demo_locked = rw_init\<lparr>owner := (owner rw_init)(r_mutex := Some 1, w_mutex := Some 1), writecount := 1\<rparr>"

definition demo_pcs :: "tid \<Rightarrow> pc" where
  "demo_pcs = (\<lambda>_. Idle)(1 := Writing, 2 := RB_lock3)"

lemma demo_writeBegin: "writeBegin 1 rw_init = Ret () demo_locked"
  by (simp add: writeBegin_def mutex_lock_def mutex_unlock_def rw_init_def demo_locked_def fun_eq_iff)

lemma demo_reach: "rw_reach (demo_locked, demo_pcs)"
proof -
  have "rw_reach (rw_init, (\<lambda>_. Idle)(1 := WB_lock2))"
    by (rule rw_reach.step [OF rw_reach.start]) (rule call_writeBegin, simp)
  then have "rw_reach (demo_locked, (\<lambda>_. Idle)(1 := Writing))"
    using own_run_reach writeBegin_own_run [OF demo_writeBegin] by blast
  then show ?thesis
    unfolding demo_pcs_def by (rule rw_reach.step) (rule call_readBegin, simp)
qed

text \<open>
  C3. Mutual exclusion. In every state that any interleaving of threads can reach, while
  one thread is between \<^verbatim>\<open>writeBegin\<close> and \<^verbatim>\<open>writeEnd\<close> no other thread is there and none
  is between \<^verbatim>\<open>readBegin\<close> and \<^verbatim>\<open>readEnd\<close>.
\<close>

theorem rw_mutual_exclusion:
  assumes "rw_reach (s, pcs)" and "pcs t = Writing" and "u \<noteq> t"
  shows "pcs u \<noteq> Writing \<and> pcs u \<noteq> Reading"
proof
  have inv: "rw_inv s (threads_at pcs)" and act: "active pcs"
    using rw_reach_good [OF assms(1)] by (auto simp: rw_good_def)
  have en: "threads_at pcs {Writing, WE_unlockw} = 1" "pos (readcount s) = threads_at pcs {RB_lockw}"
    using rw_inv_entry(3) [OF inv act, of t] assms(2) by auto
  then have "card {v. pcs v \<in> {Writing, WE_unlockw}} = 1"
    by (simp add: threads_at_def)
  then obtain x where "{v. pcs v \<in> {Writing, WE_unlockw}} = {x}"
    by (auto simp: card_1_singleton_iff)
  then show "pcs u \<noteq> Writing"
    using assms(2,3) by (metis (mono_tags, lifting) insertCI mem_Collect_eq singletonD)
  show "pcs u \<noteq> Reading"
    using rw_inv_counts(3) [OF inv act, of u] en(2) by auto
qed

theorem rw_mutual_exclusion_witness: "demo_pcs 1 = Writing \<and> demo_pcs 2 \<noteq> Writing \<and> demo_pcs 2 \<noteq> Reading"
proof -
  have w: "demo_pcs 1 = Writing" by (simp add: demo_pcs_def)
  show ?thesis
    using rw_mutual_exclusion [OF demo_reach w, of 2] w by simp
qed

text \<open>
  Writers that have passed the entry mutex \<^verbatim>\<open>r\<close> and not yet left the count of writers, and readers that have passed it
  and not yet left the lock.
\<close>

definition past_entry :: "pc set" where
  "past_entry = {WB_unlock2, WB_lockw, Writing, WE_unlockw, WE_lock2, WE_dec}"

definition admitted :: "pc set" where
  "admitted = {RB_lock1, RB_inc, RB_lockw, RB_unlock1, RB_unlockr, RB_unlock3, Reading}"

text \<open>Any steps of any threads, as long as before each of them some writer, not always the same, is past the entry.\<close>

inductive writers_run :: "rwstate \<Rightarrow> rwstate \<Rightarrow> bool" for x where
  no_step: "writers_run x x"
| go_on: "writers_run x y \<Longrightarrow> snd y t \<in> past_entry \<Longrightarrow> rw_step y u z \<Longrightarrow> writers_run x z"

lemma writers_run_reach: "writers_run x y \<Longrightarrow> rw_reach x \<Longrightarrow> rw_reach y"
  by (induction rule: writers_run.induct) (auto intro: rw_reach.step)

lemma entry_shut:
  assumes "rw_reach (s, pcs)" and "pcs t \<in> past_entry" and "rw_step (s, pcs) u (s', pcs')"
  shows "pcs' u \<noteq> RB_lock1"
proof -
  have inv: "rw_inv s (threads_at pcs)" and act: "active pcs"
    using rw_reach_good [OF assms(1)] by (auto simp: rw_good_def)
  have wc: "writecount s \<ge> 1" "threads_at pcs {WB_lockr} = 0"
    using rw_inv_counts(4) [OF inv act, of t] assms(2) by (auto simp: past_entry_def)
  have "locked s r_mutex \<noteq> 0"
    using inv wc threads_at_nonneg [of pcs "{RB_lock1, RB_inc, RB_lockw, RB_unlock1, RB_unlockr}"]
      threads_at_nonneg [of pcs "{WE_unlockr}"] by (auto simp: rw_inv_def)
  then show ?thesis
    using assms(3) by (auto elim!: rw_stepE simp: readBegin_step_def readEnd_step_def writeBegin_step_def
        writeEnd_step_def lock_step_Some unlock_step_Some Let_def split: pc.splits if_splits)
qed

lemma step_admits:
  assumes "rw_step (s, pcs) u (s', pcs')" and "pcs' v \<in> admitted" and "pcs' u \<noteq> RB_lock1"
  shows "pcs v \<in> admitted"
  using assms by (auto elim!: rw_stepE simp: readBegin_step_def readEnd_step_def writeBegin_step_def writeEnd_step_def
      lock_step_Some unlock_step_Some admitted_def Let_def split: pc.splits if_splits)

lemma one_at_entry:
  assumes "rw_reach (s, pcs)" and "pcs u = RB_lockr" and "pcs v = RB_lockr"
  shows "u = v"
proof -
  have inv: "rw_inv s (threads_at pcs)" and act: "active pcs"
    using rw_reach_good [OF assms(1)] by (auto simp: rw_good_def)
  have "threads_at pcs {RB_lockr} \<le> 1"
    using inv threads_at_nonneg [of pcs "{RB_lock1, RB_inc, RB_lockw, RB_unlock1, RB_unlockr}"] threads_at_nonneg [of pcs "{RB_unlock3}"] locked_bounds(2) [of s mutex3]
    by (simp add: rw_inv_def)
  then have "card {t. pcs t \<in> {RB_lockr}} \<le> Suc 0" by (simp add: threads_at_def)
  moreover have "finite {t. pcs t \<in> {RB_lockr}}" by (rule active_finite [OF act]) simp
  ultimately show ?thesis using assms(2,3) by (simp add: card_le_Suc0_iff_eq)
qed

text \<open>
  C25. Writers are preferred. From the moment the first writer has passed the entry mutex \<^verbatim>\<open>r\<close> until the last writer has left the count
  of writers, whatever steps the threads take, no reader is admitted: the readers that are past the entry at the end already were at the
  beginning. A writer that still waits for \<^verbatim>\<open>r\<close> itself competes with at most one reader: never are two readers at the lock of \<^verbatim>\<open>r\<close>.
\<close>

theorem rw_writer_preference:
  assumes "rw_reach x" and "writers_run x y"
  shows "{u. snd y u \<in> admitted} \<subseteq> {u. snd x u \<in> admitted} \<and> (\<forall>u v. snd y u = RB_lockr \<and> snd y v = RB_lockr \<longrightarrow> u = v)"
proof
  show "{u. snd y u \<in> admitted} \<subseteq> {u. snd x u \<in> admitted}"
    using assms(2)
  proof (induction rule: writers_run.induct)
    case (go_on y t u z)
    obtain s pcs s' pcs' where y: "y = (s, pcs)" and z: "z = (s', pcs')" by (metis surj_pair)
    have "pcs' u \<noteq> RB_lock1"
      by (rule entry_shut [of s pcs t]) (use go_on.hyps writers_run_reach [OF go_on.hyps(1) assms(1)] in \<open>auto simp: y z\<close>)
    then have "{v. pcs' v \<in> admitted} \<subseteq> {v. pcs v \<in> admitted}" using step_admits [of s pcs u s' pcs'] go_on.hyps(3) by (auto simp: y z)
    then show ?case using go_on.IH by (auto simp: y z)
  qed simp
  show "\<forall>u v. snd y u = RB_lockr \<and> snd y v = RB_lockr \<longrightarrow> u = v"
    using one_at_entry [of "fst y" "snd y"] writers_run_reach [OF assms(2,1)] by auto
qed

theorem rw_writer_preference_witness:
  "\<exists>y. writers_run (demo_locked, demo_pcs) y \<and> snd y 1 = Writing \<and> snd y 2 = RB_lockr \<and> snd y 2 \<notin> admitted \<and> (\<forall>u. snd y u = RB_lockr \<longrightarrow> u = 2)"
proof -
  let ?y = "(demo_locked\<lparr>owner := (owner demo_locked)(mutex3 := Some 2)\<rparr>, demo_pcs(2 := RB_lockr))"
  have "readBegin_step 2 (demo_pcs 2) demo_locked =
      Some (RB_lockr, demo_locked\<lparr>owner := (owner demo_locked)(mutex3 := Some 2)\<rparr>)"
    by (simp add: demo_pcs_def readBegin_step_def lock_step_def demo_locked_def rw_init_def)
  then have st: "rw_step (demo_locked, demo_pcs) 2 ?y" by (rule in_readBegin)
  have run: "writers_run (demo_locked, demo_pcs) ?y"
    by (rule writers_run.go_on [OF writers_run.no_step _ st, of 1]) (simp add: demo_pcs_def past_entry_def)
  have "demo_pcs 2 \<notin> admitted" by (simp add: demo_pcs_def admitted_def)
  moreover note pref = rw_writer_preference [OF demo_reach run]
  have "{u. snd ?y u \<in> admitted} \<subseteq> {u. demo_pcs u \<in> admitted}" using conjunct1 [OF pref] by simp
  ultimately have no: "snd ?y 2 \<notin> admitted" by blast
  have two: "snd ?y 2 = RB_lockr" "snd ?y 1 = Writing" by (simp_all add: demo_pcs_def)
  have "\<forall>u. snd ?y u = RB_lockr \<longrightarrow> u = 2" using conjunct2 [OF pref] two(1) by blast
  then show ?thesis using run no two by blast
qed

text \<open>
  C15. The protocol never deadlocks. In every reachable state in which some thread is
  inside one of the four functions or between them, one such thread can execute its
  next statement.
\<close>

theorem rw_no_deadlock:
  assumes "rw_reach (s, pcs)" and "pcs t \<noteq> Idle"
  shows "\<exists>u y. pcs u \<noteq> Idle \<and> rw_step (s, pcs) u y"
  using not_all_stuck [OF rw_reach_good [OF assms(1)], of t] assms(2) unfolding stuck_def by blast

theorem rw_no_deadlock_witness: "\<exists>u y. demo_pcs u \<noteq> Idle \<and> rw_step (demo_locked, demo_pcs) u y"
  by (rule rw_no_deadlock [OF demo_reach, of 1]) (simp add: demo_pcs_def)

text \<open>
  The functions as one thread executes them without interruption are runs of the
  interleaved model, so what holds of every interleaving holds of them.
\<close>

theorem rw_functions_are_runs:
  "(readBegin t s = Ret () s' \<longrightarrow> own_run t (s, pcs(t := RB_lock3)) (s', pcs(t := Reading))) \<and>
   (readEnd t s = Ret () s' \<longrightarrow> own_run t (s, pcs(t := RE_lock1)) (s', pcs(t := Idle))) \<and>
   (writeBegin t s = Ret () s' \<longrightarrow> own_run t (s, pcs(t := WB_lock2)) (s', pcs(t := Writing))) \<and>
   (writeEnd t s = Ret () s' \<longrightarrow> own_run t (s, pcs(t := WE_unlockw)) (s', pcs(t := Idle)))"
  using readBegin_own_run readEnd_own_run writeBegin_own_run writeEnd_own_run by blast

theorem rw_functions_are_runs_witness:
  "own_run 1 (rw_init, (\<lambda>_. Idle)(1 := WB_lock2)) (demo_locked, (\<lambda>_. Idle)(1 := Writing))"
  using rw_functions_are_runs [of 1 rw_init demo_locked "\<lambda>_. Idle"] demo_writeBegin by simp

text \<open>
  The lock is not recursive. A thread that already writes and calls \<^verbatim>\<open>writeBegin\<close>
  again waits for itself, and \<^verbatim>\<open>readBegin\<close> in that position does not return either.
\<close>

theorem writeBegin_nested_deadlock:
  assumes "rw_reach (s, pcs(t := WB_lock2))" and "writeBegin t s = Ret () s1"
  shows "(\<exists>s2. writeBegin t s1 = Stop SelfDeadlock s2) \<and> (\<nexists>x s2. readBegin t s1 = Ret x s2)"
proof
  have "writecount s \<ge> 0"
    using rw_reach_good [OF assms(1)] rw_inv_counts(2) by (auto simp: rw_good_def)
  then have "owner s1 mutex2 = None" "owner s1 w_mutex = Some t" "writecount s1 \<ge> 1"
    using assms(2) by (auto simp: writeBegin_def bind_run_Ret_iff mutex_lock_Ret mutex_unlock_def Let_def split: if_splits)
  then show "\<exists>s2. writeBegin t s1 = Stop SelfDeadlock s2"
    by (simp add: writeBegin_def mutex_lock_def mutex_unlock_def Let_def)
  have "rw_reach (s1, pcs(t := Writing))"
    using own_run_reach [OF writeBegin_own_run [OF assms(2)] assms(1)] .
  then have inv: "rw_inv s1 (threads_at (pcs(t := Writing)))" and act: "active (pcs(t := Writing))"
    using rw_reach_good by (auto simp: rw_good_def)
  have "writecount s1 \<ge> 1" "threads_at (pcs(t := Writing)) {WB_lockr} = 0"
    using rw_inv_counts(4) [OF inv act, of t] by auto
  then have "locked s1 r_mutex \<noteq> 0"
    using inv threads_at_nonneg [of "pcs(t := Writing)" "{RB_lock1, RB_inc, RB_lockw, RB_unlock1, RB_unlockr}"]
      threads_at_nonneg [of "pcs(t := Writing)" "{WE_unlockr}"] by (auto simp: rw_inv_def)
  then show "\<nexists>x s2. readBegin t s1 = Ret x s2"
    by (auto simp: readBegin_def bind_run_Ret_iff mutex_lock_Ret locked_def)
qed

theorem writeBegin_nested_deadlock_witness: "\<exists>s2. writeBegin 1 demo_locked = Stop SelfDeadlock s2"
proof -
  have "rw_reach (rw_init, (\<lambda>_. Idle)(1 := WB_lock2))"
    by (rule rw_reach.step [OF rw_reach.start]) (rule call_writeBegin, simp)
  then show ?thesis
    using writeBegin_nested_deadlock [OF _ demo_writeBegin] by blast
qed

end
