(* ===== verification/Members.thy ===== *)
theory Members
  imports Rio Uthash_Ops RWLock
begin

text \<open>
  The state of the proxy and its membership list (\<^verbatim>\<open>proxy.c\<close>). The globals are the
  fields of \<open>world\<close>; \<open>peers\<close> is the memory of \<^verbatim>\<open>Peer\<close> objects, \<open>members\<close> the hash table
  through \<^verbatim>\<open>hash_table\<close> together with the hash handles inside the peers. Memory is never
  handed out twice, so that a use after \<^verbatim>\<open>free\<close> is visible as undefined behaviour.
  A function is executed by the thread \<open>me\<close>. Threads it creates and cancels are recorded;
  a cancellation takes effect at the next \<^verbatim>\<open>pthread_testcancel\<close> of its target.
\<close>

section \<open>State\<close>

record Peer =
  timestamp :: timespec
  p_ls :: link_state
  p_rio :: rio_t
  p_tid :: tid
  timeout_tid :: tid
  timeout_mutex :: "tid option"
  probe_ts :: timespec
  bandwidth :: u32
  p_linkWeight :: u32

record Config =
  listen_port :: u16
  link_period :: u32
  link_timeout :: u32
  quit_timer :: u32

datatype handler = Eth_handler | Timeout_handler | Tap_handler

text \<open>What the kernel answers to one attempt to connect.\<close>

record conn_answers =
  sockfd :: fd
  setsockopt_ok :: bool
  resolve_ok :: bool
  connect_ok :: bool
  local_addr :: "u32 option"

record world =
  kern :: os
  peers :: "ptr \<Rightarrow> Peer option"
  members :: uthash
  lock :: rwlock
  linkState :: link_state
  config :: Config
  now :: timespec
  rio_tap :: rio_t
  tap_tid :: tid
  brk :: ptr
  next_tid :: tid
  started :: "(tid \<times> handler \<times> ptr) list"
  cancelled :: "tid list"
  alarm :: u32
  conns :: "conn_answers list"
  timedwaits :: "(bool \<times> timespec option) list"
    \<comment> \<open>whether the condition was signalled, and the timestamp another thread stored meanwhile\<close>
  block :: bytes   \<comment> \<open>the packet buffer of \<^verbatim>\<open>Link_State_Broadcast\<close>, as far as it is written\<close>

section \<open>Access to the state\<close>

definition in_lock :: "(rwlock \<Rightarrow> (rwlock, 'a) run) \<Rightarrow> world \<Rightarrow> (world, 'a) run" where
  "in_lock f w = lift_run (\<lambda>l. w\<lparr>lock := l\<rparr>) (f (lock w))"

definition in_kern :: "(os \<Rightarrow> (os, 'a) run) \<Rightarrow> world \<Rightarrow> (world, 'a) run" where
  "in_kern f w = lift_run (\<lambda>s. w\<lparr>kern := s\<rparr>) (f (kern w))"

definition in_table :: "(uthash \<Rightarrow> uthash option) \<Rightarrow> world \<Rightarrow> (world, unit) run" where
  "in_table f w = (case f (members w) of None \<Rightarrow> Stop UB w | Some t \<Rightarrow> Ret () (w\<lparr>members := t\<rparr>))"

definition find_member :: "bytes \<Rightarrow> world \<Rightarrow> (world, ptr option) run" where
  "find_member k w = (case HASH_FIND (members w) k of None \<Rightarrow> Stop UB w | Some r \<Rightarrow> Ret r w)"

definition get_peer :: "ptr \<Rightarrow> world \<Rightarrow> (world, Peer) run" where
  "get_peer p w = (case peers w p of None \<Rightarrow> Stop UB w | Some q \<Rightarrow> Ret q w)"

definition set_peer :: "ptr \<Rightarrow> (Peer \<Rightarrow> Peer) \<Rightarrow> world \<Rightarrow> (world, unit) run" where
  "set_peer p f w = (case peers w p of None \<Rightarrow> Stop UB w
     | Some q \<Rightarrow> Ret () (w\<lparr>peers := (peers w)(p \<mapsto> f q)\<rparr>))"

definition clock_gettime :: "world \<Rightarrow> (world, timespec) run" where
  "clock_gettime w = (case clocks (kern w) of [] \<Rightarrow> Stop Waiting w
     | t # ts \<Rightarrow> Ret t (w\<lparr>kern := (kern w)\<lparr>clocks := ts\<rparr>\<rparr>))"

definition close_fd :: "fd \<Rightarrow> world \<Rightarrow> (world, unit) run" where
  "close_fd f w = Ret () (w\<lparr>kern := (kern w)\<lparr>closed := closed (kern w) @ [f]\<rparr>\<rparr>)"

definition pthread_cancel :: "tid \<Rightarrow> world \<Rightarrow> (world, unit) run" where
  "pthread_cancel t w = Ret () (w\<lparr>cancelled := cancelled w @ [t]\<rparr>)"

definition pthread_create :: "handler \<Rightarrow> ptr \<Rightarrow> world \<Rightarrow> (world, tid) run" where
  "pthread_create h p w = Ret (next_tid w)
     (w\<lparr>next_tid := next_tid w + 1, started := started w @ [(next_tid w, h, p)]\<rparr>)"

definition pthread_testcancel :: "tid \<Rightarrow> world \<Rightarrow> (world, unit) run" where
  "pthread_testcancel me w = (if me \<in> set (cancelled w) then Stop Cancelled w else Ret () w)"

text \<open>\<^verbatim>\<open>free(pp)\<close>: the peer and the hash handle inside it.\<close>

definition free_peer :: "ptr \<Rightarrow> world \<Rightarrow> (world, unit) run" where
  "free_peer p w = (case peers w p of None \<Rightarrow> Stop UB w
     | Some _ \<Rightarrow> Ret () (w\<lparr>peers := (peers w)(p := None),
         members := (members w)\<lparr>hh := (hh (members w))(p := None)\<rparr>\<rparr>))"

definition zero_ts :: timespec where
  "zero_ts = \<lparr>tv_sec = 0, tv_nsec = 0\<rparr>"

definition zero_peer :: Peer where
  "zero_peer = \<lparr>timestamp = zero_ts, p_ls = dec_link_state (replicate 18 0),
     p_rio = \<lparr>rfd = 0, cnt = 0, bufp = 0, buf = replicate RIO_BUFSZ 0\<rparr>, p_tid = 0, timeout_tid = 0,
     timeout_mutex = None, probe_ts = zero_ts, bandwidth = 0, p_linkWeight = 0\<rparr>"

text \<open>\<^verbatim>\<open>malloc(sizeof(Peer))\<close> and \<^verbatim>\<open>memset(pp, 0, sizeof(Peer))\<close>.\<close>

definition new_peer :: "world \<Rightarrow> (world, ptr) run" where
  "new_peer w = Ret (brk w) (w\<lparr>brk := brk w + 1, peers := (peers w)(brk w \<mapsto> zero_peer),
     members := (members w)\<lparr>hh := (hh (members w))(brk w \<mapsto> zero_handle)\<rparr>\<rparr>)"

section \<open>The membership list\<close>

definition add_member :: "tid \<Rightarrow> ptr \<Rightarrow> world \<Rightarrow> (world, unit) run" where
  "add_member me pp w =
     bind_run (in_lock (writeBegin me) w) (\<lambda>_ w.
     bind_run (get_peer pp w) (\<lambda>q w.
     bind_run (find_member (tapMAC (p_ls q)) w) (\<lambda>tmp w.
     bind_run (if tmp = None then in_table (\<lambda>t. HASH_ADD t pp (tapMAC (p_ls q))) w else Ret () w) (\<lambda>_ w.
     bind_run (clock_gettime w) (\<lambda>t w.
     bind_run (set_peer pp (\<lambda>q. q\<lparr>timestamp := t, timeout_mutex := None\<rparr>) w) (\<lambda>_ w.
     bind_run (pthread_create Timeout_handler pp w) (\<lambda>t w.
     bind_run (set_peer pp (\<lambda>q. q\<lparr>timeout_tid := t\<rparr>) w) (\<lambda>_ w.
     bind_run (pthread_create Eth_handler pp w) (\<lambda>t w.
     bind_run (set_peer pp (\<lambda>q. q\<lparr>p_tid := t\<rparr>) w) (\<lambda>_ w.
     in_lock (writeEnd me) w))))))))))"

text \<open>The two early returns leave the write lock held.\<close>

definition remove_member :: "tid \<Rightarrow> ptr option \<Rightarrow> world \<Rightarrow> (world, unit) run" where
  "remove_member me pp w =
     bind_run (in_lock (writeBegin me) w) (\<lambda>_ w. case pp of
       None \<Rightarrow> Ret () w
     | Some pp \<Rightarrow>
       bind_run (get_peer pp w) (\<lambda>q w.
       bind_run (find_member (tapMAC (p_ls q)) w) (\<lambda>tmp w.
       if tmp = None then Ret () w
       else
       bind_run (pthread_cancel (timeout_tid q) w) (\<lambda>_ w.
       bind_run (find_member (tapMAC (p_ls q)) w) (\<lambda>tmp w.
       bind_run (if tmp \<noteq> None then in_table (\<lambda>t. HASH_DELETE t pp) w else Ret () w) (\<lambda>_ w.
       bind_run (in_lock (writeEnd me) w) (\<lambda>_ w.
       bind_run (close_fd (rfd (p_rio q)) w) (\<lambda>_ w.
       bind_run (free_peer pp w) (\<lambda>_ w.
       pthread_cancel (p_tid q) w)))))))))"

text \<open>
  How the handlers give a peer up: \<^verbatim>\<open>HASH_DEL\<close>, \<^verbatim>\<open>close\<close>, \<^verbatim>\<open>pthread_cancel\<close> of the
  threads \<open>ts\<close>, \<^verbatim>\<open>free\<close>, without taking the lock.
\<close>

fun pthread_cancels :: "tid list \<Rightarrow> world \<Rightarrow> (world, unit) run" where
  "pthread_cancels [] w = Ret () w"
| "pthread_cancels (t # ts) w = bind_run (pthread_cancel t w) (\<lambda>_ w. pthread_cancels ts w)"

definition unlink_peer :: "(Peer \<Rightarrow> tid list) \<Rightarrow> ptr \<Rightarrow> world \<Rightarrow> (world, unit) run" where
  "unlink_peer ts pp w =
     bind_run (in_table (\<lambda>t. HASH_DELETE t pp) w) (\<lambda>_ w.
     bind_run (get_peer pp w) (\<lambda>q w.
     bind_run (close_fd (rfd (p_rio q)) w) (\<lambda>_ w.
     bind_run (pthread_cancels (ts q) w) (\<lambda>_ w.
     free_peer pp w))))"

section \<open>Iterating over the members\<close>

text \<open>
  \<^verbatim>\<open>HASH_ITER\<close> keeps the successor of the current element in \<open>tmp\<close> before the body runs
  and reads the successor of \<open>tmp\<close> after it.
\<close>

definition next_of :: "ptr option \<Rightarrow> world \<Rightarrow> ptr option option" where
  "next_of p w = (case p of None \<Rightarrow> Some None | Some p \<Rightarrow> map_option app_next (hh (members w) p))"

partial_function (option) hash_iter_loop :: "(ptr \<Rightarrow> world \<Rightarrow> (world, unit) run) \<Rightarrow> ptr option
    \<Rightarrow> ptr option \<Rightarrow> world \<Rightarrow> (world, unit) run option" where
  "hash_iter_loop body el tmp w =
     (case el of
        None \<Rightarrow> Some (Ret () w)
      | Some p \<Rightarrow> (case body p w of
            Stop h w \<Rightarrow> Some (Stop h w)
          | Ret _ w \<Rightarrow> (case next_of tmp w of
                None \<Rightarrow> Some (Stop UB w)
              | Some n \<Rightarrow> hash_iter_loop body tmp n w)))"

declare hash_iter_loop.simps [code]

definition HASH_ITER :: "(ptr \<Rightarrow> world \<Rightarrow> (world, unit) run) \<Rightarrow> world \<Rightarrow> (world, unit) run" where
  "HASH_ITER body w = (case next_of (head (members w)) w of
       None \<Rightarrow> Stop UB w
     | Some n \<Rightarrow> (case hash_iter_loop body (head (members w)) n w of
           None \<Rightarrow> Stop Diverges w
         | Some r \<Rightarrow> r))"

section \<open>The lock of an undisturbed thread\<close>

definition write_locked :: "tid \<Rightarrow> rwlock" where
  "write_locked t = rw_init\<lparr>owner := (owner rw_init)(r_mutex := Some t, w_mutex := Some t), writecount := 1\<rparr>"

definition read_locked :: "tid \<Rightarrow> rwlock" where
  "read_locked t = rw_init\<lparr>owner := (owner rw_init)(w_mutex := Some t), readcount := 1\<rparr>"

lemma lock_free_runs [simp]:
  "writeBegin t rw_init = Ret () (write_locked t)" "writeEnd t (write_locked t) = Ret () rw_init"
  "readBegin t rw_init = Ret () (read_locked t)" "readEnd t (read_locked t) = Ret () rw_init"
  by (simp_all add: rw_fun_defs mutex_lock_def mutex_unlock_def rw_init_def write_locked_def read_locked_def fun_eq_iff)

lemma write_locked_nested: "\<exists>s. writeBegin t (write_locked t) = Stop SelfDeadlock s"
  by (simp add: writeBegin_def mutex_lock_def mutex_unlock_def rw_init_def write_locked_def)

section \<open>The invariant of the membership list\<close>

definition wf_world :: "world \<Rightarrow> ptr list \<Rightarrow> bool" where
  "wf_world w xs \<longleftrightarrow> uh_rep (members w) xs \<and> inj_on (key_at (members w)) (set xs) \<and>
     dom (hh (members w)) = dom (peers w) \<and>
     (\<forall>p q. p \<in> set xs \<and> peers w p = Some q \<longrightarrow> key_at (members w) p = tapMAC (p_ls q)) \<and>
     (\<forall>p. brk w \<le> p \<longrightarrow> peers w p = None)"

text \<open>The map from MAC addresses to peers that the table stands for.\<close>

definition roster :: "world \<Rightarrow> ptr list \<Rightarrow> bytes \<Rightarrow> ptr option" where
  "roster w xs = key_map (key_at (members w)) xs"

lemma wf_worldD:
  assumes "wf_world w xs"
  shows "uh_rep (members w) xs" and "inj_on (key_at (members w)) (set xs)" and "distinct xs"
    and "dom (hh (members w)) = dom (peers w)"
    and "p \<in> set xs \<Longrightarrow> \<exists>q. peers w p = Some q \<and> key_at (members w) p = tapMAC (p_ls q)"
    and "HASH_FIND (members w) k = Some (roster w xs k)"
proof -
  show r: "uh_rep (members w) xs" and i: "inj_on (key_at (members w)) (set xs)"
    and d: "dom (hh (members w)) = dom (peers w)"
    using assms by (auto simp: wf_world_def)
  show "distinct xs" using r by (rule uh.rep_distinct)
  show "\<exists>q. peers w p = Some q \<and> key_at (members w) p = tapMAC (p_ls q)" if "p \<in> set xs"
    using that uh.rep_alloc [OF r] d assms by (auto simp: wf_world_def)
  show "HASH_FIND (members w) k = Some (roster w xs k)"
    unfolding roster_def by (rule uh.lookup_map [OF r i])
qed

lemma find_member_ok: "wf_world w xs \<Longrightarrow> find_member k w = Ret (roster w xs k) w"
  using wf_worldD(6) by (simp add: find_member_def)

lemma uh_rep_frame:
  assumes rep: "uh_rep t xs" and H: "\<And>y. y \<in> set xs \<Longrightarrow> H y = hh t y"
  shows "uh_rep (t\<lparr>hh := H\<rparr>) xs"
proof (cases "xs = []")
  case False
  obtain cs where cs: "chains_ok (num_buckets (tbl t)) (buckets (tbl t)) (hh t) (set xs) cs"
    using rep False by (auto simp: uh_rep_def)
  have "dll H hh_next hh_prev (hh_head (buckets (tbl t) ! b)) (cs ! b)" if "b < num_buckets (tbl t)" for b
    using cs that H by (subst dll_agree [where H = "hh t"]) (auto simp: chains_ok_def)
  moreover have "{x \<in> set xs. HASH_TO_BKT (hashv (the (H x))) nb = b} =
      {x \<in> set xs. HASH_TO_BKT (hashv (the (hh t x))) nb = b}" for nb b
    using H by auto
  ultimately have "chains_ok (num_buckets (tbl t)) (buckets (tbl t)) H (set xs) cs"
    using cs by (auto simp: chains_ok_def)
  moreover have "dseg H app_next app_prev None (head t) xs (Some (tail (tbl t))) None"
    using rep False H by (subst dseg_agree [where H = "hh t"]) (auto simp: uh_rep_def)
  ultimately show ?thesis
    using rep False H by (auto simp: uh_rep_def)
qed (use rep in \<open>simp add: uh_rep_def\<close>)

text \<open>Changes of a peer that leave its MAC address alone do not concern the table.\<close>

lemma wf_world_peer:
  assumes "wf_world w xs" and "peers w p = Some q" and "tapMAC (p_ls q') = tapMAC (p_ls q) \<or> p \<notin> set xs"
  shows "wf_world (w\<lparr>peers := (peers w)(p \<mapsto> q')\<rparr>) xs"
  using assms by (auto simp: wf_world_def)

lemma wf_world_other [simp]:
  "wf_world (w\<lparr>kern := s\<rparr>) xs = wf_world w xs" "wf_world (w\<lparr>lock := l\<rparr>) xs = wf_world w xs"
  "wf_world (w\<lparr>started := st\<rparr>) xs = wf_world w xs" "wf_world (w\<lparr>cancelled := cs\<rparr>) xs = wf_world w xs"
  "wf_world (w\<lparr>next_tid := n\<rparr>) xs = wf_world w xs" "wf_world (w\<lparr>block := b\<rparr>) xs = wf_world w xs"
  by (simp_all add: wf_world_def)

lemma wf_world_add:
  assumes wf: "wf_world w xs" and p: "peers w p = Some q" "p \<notin> set xs" and k: "roster w xs (tapMAC (p_ls q)) = None"
  shows "\<exists>t. HASH_ADD (members w) p (tapMAC (p_ls q)) = Some t \<and> wf_world (w\<lparr>members := t\<rparr>) (xs @ [p]) \<and>
    roster (w\<lparr>members := t\<rparr>) (xs @ [p]) = (roster w xs)(tapMAC (p_ls q) \<mapsto> p)"
proof -
  note wd = wf_worldD [OF wf]
  have "tapMAC (p_ls q) \<notin> key_at (members w) ` set xs"
    using k by (simp add: roster_def key_map_None)
  moreover have "p \<in> dom (hh (members w))" using wd(4) p by auto
  ultimately obtain t where t: "HASH_ADD (members w) p (tapMAC (p_ls q)) = Some t" "uh_rep t (xs @ [p])"
      "inj_on (key_at t) (set (xs @ [p]))"
      "key_map (key_at t) (xs @ [p]) = (key_map (key_at (members w)) xs)(tapMAC (p_ls q) \<mapsto> p)"
      "key_at t = (key_at (members w))(p := tapMAC (p_ls q))" "dom (hh t) = dom (hh (members w))"
    using uh.add_map [OF wd(1,2) _ p(2)] by blast
  have "wf_world (w\<lparr>members := t\<rparr>) (xs @ [p])"
    using t(2,3,5,6) wf p by (auto simp: wf_world_def)
  with t(1,4) show ?thesis by (auto simp: roster_def)
qed

lemma wf_world_delete:
  assumes wf: "wf_world w xs" and p: "p \<in> set xs"
  shows "\<exists>t. HASH_DELETE (members w) p = Some t \<and> wf_world (w\<lparr>members := t\<rparr>) (remove1 p xs) \<and>
    roster (w\<lparr>members := t\<rparr>) (remove1 p xs) = (roster w xs)(key_at (members w) p := None)"
proof -
  note wd = wf_worldD [OF wf]
  obtain t where t: "HASH_DELETE (members w) p = Some t" "uh_rep t (remove1 p xs)"
      "inj_on (key_at t) (set (remove1 p xs))"
      "key_map (key_at t) (remove1 p xs) = (key_map (key_at (members w)) xs)(key_at (members w) p := None)"
      "key_at t = key_at (members w)" "dom (hh t) = dom (hh (members w))"
    using uh.del_map [OF wd(1,2) p] by blast
  have "wf_world (w\<lparr>members := t\<rparr>) (remove1 p xs)"
    using t(2,3,5,6) wf set_remove1_subset [of p xs] by (auto simp: wf_world_def)
  with t(1,4) show ?thesis by (auto simp: roster_def)
qed

lemma wf_world_free:
  assumes wf: "wf_world w xs" and p: "p \<notin> set xs" "peers w p = Some q"
  shows "\<exists>w'. free_peer p w = Ret () w' \<and> wf_world w' xs \<and> roster w' xs = roster w xs \<and>
    w' = w\<lparr>peers := (peers w)(p := None), members := members w'\<rparr>"
proof -
  note wd = wf_worldD [OF wf]
  let ?t = "(members w)\<lparr>hh := (hh (members w))(p := None)\<rparr>"
  let ?w = "w\<lparr>peers := (peers w)(p := None), members := ?t\<rparr>"
  have rep: "uh_rep ?t xs" using wd(1) p by (intro uh_rep_frame) auto
  have key: "key_at ?t x = key_at (members w) x" if "x \<in> set xs" for x
    using that p by (auto simp: key_at_def)
  have "wf_world ?w xs"
    using rep key wf p by (auto simp: wf_world_def inj_on_def)
  moreover have "roster ?w xs = roster w xs"
    unfolding roster_def by (rule key_map_eqI) (use key wd(2) in \<open>auto simp: inj_on_def key_map_mem key_map_None\<close>)
  ultimately show ?thesis using p(2) by (auto simp: free_peer_def)
qed

lemmas world_ops = in_lock_def in_table_def get_peer_def set_peer_def close_fd_def pthread_cancel_def
  pthread_create_def clock_gettime_def

lemma roster_other [simp]:
  "roster (w\<lparr>kern := s\<rparr>) xs = roster w xs" "roster (w\<lparr>lock := l\<rparr>) xs = roster w xs"
  "roster (w\<lparr>started := st\<rparr>) xs = roster w xs" "roster (w\<lparr>cancelled := cs\<rparr>) xs = roster w xs"
  "roster (w\<lparr>next_tid := n\<rparr>) xs = roster w xs" "roster (w\<lparr>block := b\<rparr>) xs = roster w xs" "roster (w\<lparr>peers := ps\<rparr>) xs = roster w xs"
  by (simp_all add: roster_def)

section \<open>Adding a member\<close>

lemma add_member_result:
  assumes wf: "wf_world w xs" and l: "lock w = rw_init" and p: "peers w pp = Some q" "pp \<notin> set xs"
    and clk: "clocks (kern w) = t # ts"
  defines "q' \<equiv> q\<lparr>timestamp := t, timeout_mutex := None, timeout_tid := next_tid w, p_tid := next_tid w + 1\<rparr>"
    and "xs' \<equiv> (if roster w xs (tapMAC (p_ls q)) = None then xs @ [pp] else xs)"
  shows "\<exists>w'. add_member me pp w = Ret () w' \<and> wf_world w' xs' \<and> lock w' = rw_init \<and>
    peers w' = (peers w)(pp \<mapsto> q') \<and> cancelled w' = cancelled w \<and> closed (kern w') = closed (kern w) \<and>
    kern w' = (kern w)\<lparr>clocks := ts\<rparr> \<and> linkState w' = linkState w \<and> started w' = started w @ [(next_tid w, Timeout_handler, pp), (next_tid w + 1, Eth_handler, pp)] \<and>
    roster w' xs' = (if roster w xs (tapMAC (p_ls q)) = None then (roster w xs)(tapMAC (p_ls q) \<mapsto> pp)
      else roster w xs) \<and> (roster w xs (tapMAC (p_ls q)) \<noteq> None \<longrightarrow> members w' = members w)"
proof -
  let ?w = "w\<lparr>lock := write_locked me\<rparr>"
  let ?k = "tapMAC (p_ls q)"
  have wf1: "wf_world ?w xs" using wf by simp
  have find: "find_member ?k ?w = Ret (roster w xs ?k) ?w" using find_member_ok [OF wf1] by simp
  obtain t' where t': "(if roster w xs ?k = None then in_table (\<lambda>t. HASH_ADD t pp ?k) ?w else Ret () ?w) = Ret () (?w\<lparr>members := t'\<rparr>)"
      "wf_world (w\<lparr>members := t'\<rparr>) xs'"
      "roster (w\<lparr>members := t'\<rparr>) xs' = (if roster w xs ?k = None then (roster w xs)(?k \<mapsto> pp) else roster w xs)"
      "roster w xs ?k \<noteq> None \<longrightarrow> t' = members w"
  proof (cases "roster w xs ?k = None")
    case True
    from wf_world_add [OF wf p True] obtain t' where "HASH_ADD (members w) pp ?k = Some t'"
        "wf_world (w\<lparr>members := t'\<rparr>) (xs @ [pp])" "roster (w\<lparr>members := t'\<rparr>) (xs @ [pp]) = (roster w xs)(?k \<mapsto> pp)"
      by blast
    then show ?thesis using True that [of t'] by (simp add: in_table_def xs'_def)
  next
    case False
    then obtain y where "roster w xs ?k = Some y" by blast
    then show ?thesis using that [of "members w"] wf by (simp add: xs'_def)
  qed
  let ?w' = "w\<lparr>members := t', kern := (kern w)\<lparr>clocks := ts\<rparr>, peers := (peers w)(pp \<mapsto> q'), next_tid := next_tid w + 2,
    started := started w @ [(next_tid w, Timeout_handler, pp), (next_tid w + 1, Eth_handler, pp)]\<rparr>"
  have "add_member me pp w = Ret () ?w'"
    using l p(1) clk find t'(1) by (simp add: add_member_def world_ops q'_def)
  moreover have "wf_world ?w' xs'"
  proof -
    have "wf_world ((w\<lparr>members := t'\<rparr>)\<lparr>peers := (peers (w\<lparr>members := t'\<rparr>))(pp \<mapsto> q')\<rparr>) xs'"
      by (rule wf_world_peer [OF t'(2)]) (use p in \<open>auto simp: q'_def\<close>)
    then show ?thesis by (simp add: wf_world_def)
  qed
  moreover have "roster ?w' xs' = (if roster w xs ?k = None then (roster w xs)(?k \<mapsto> pp) else roster w xs)"
    using t'(3) by (simp add: roster_def)
  ultimately show ?thesis using l t'(4) by auto
qed

section \<open>Removing a member\<close>

lemma remove_member_result:
  assumes wf: "wf_world w xs" and l: "lock w = rw_init" and p: "peers w pp = Some q" "pp \<in> set xs"
  shows "\<exists>w'. remove_member me (Some pp) w = Ret () w' \<and> wf_world w' (remove1 pp xs) \<and> lock w' = rw_init \<and>
    peers w' = (peers w)(pp := None) \<and> cancelled w' = cancelled w @ [timeout_tid q, p_tid q] \<and>
    kern w' = (kern w)\<lparr>closed := closed (kern w) @ [rfd (p_rio q)]\<rparr> \<and> started w' = started w \<and> rio_tap w' = rio_tap w \<and>
    roster w' (remove1 pp xs) = (roster w xs)(tapMAC (p_ls q) := None)"
proof -
  note wd = wf_worldD [OF wf]
  let ?k = "tapMAC (p_ls q)" and ?xs = "remove1 pp xs"
  have key: "key_at (members w) pp = ?k" using wd(5) [OF p(2)] p(1) by auto
  then have found: "roster w xs ?k = Some pp"
    using key_map_mem [OF wd(2) p(2)] by (simp add: roster_def)
  let ?w1 = "w\<lparr>lock := write_locked me\<rparr>" and ?w2 = "w\<lparr>lock := write_locked me, cancelled := cancelled w @ [timeout_tid q]\<rparr>"
  have find: "find_member ?k ?w1 = Ret (Some pp) ?w1" "find_member ?k ?w2 = Ret (Some pp) ?w2"
    using find_member_ok [of ?w1 xs] find_member_ok [of ?w2 xs] wf found by simp_all
  obtain t where t: "HASH_DELETE (members w) pp = Some t" "wf_world (w\<lparr>members := t\<rparr>) ?xs"
      "roster (w\<lparr>members := t\<rparr>) ?xs = (roster w xs)(?k := None)"
    using wf_world_delete [OF wf p(2)] key by auto
  let ?w3 = "w\<lparr>cancelled := cancelled w @ [timeout_tid q], members := t, lock := rw_init,
    kern := (kern w)\<lparr>closed := closed (kern w) @ [rfd (p_rio q)]\<rparr>\<rparr>"
  have "wf_world ?w3 ?xs" using t(2) by (simp add: wf_world_def)
  moreover have "pp \<notin> set ?xs" using wd(3) by simp
  ultimately obtain w' where w': "free_peer pp ?w3 = Ret () w'" "wf_world w' ?xs" "roster w' ?xs = roster ?w3 ?xs"
      "w' = ?w3\<lparr>peers := (peers ?w3)(pp := None), members := members w'\<rparr>"
    using wf_world_free [of ?w3 ?xs pp q] p(1) by auto
  have "remove_member me (Some pp) w = Ret () (w'\<lparr>cancelled := cancelled w' @ [p_tid q]\<rparr>)"
    using l p(1) find t(1) w'(1) by (simp add: remove_member_def world_ops)
  moreover have "roster w' ?xs = (roster w xs)(?k := None)"
    using w'(3) t(3) by (simp add: roster_def)
  moreover have "lock w' = rw_init" "peers w' = (peers w)(pp := None)" "cancelled w' = cancelled w @ [timeout_tid q]"
      "kern w' = (kern w)\<lparr>closed := closed (kern w) @ [rfd (p_rio q)]\<rparr>" "started w' = started w" "rio_tap w' = rio_tap w"
    by (subst w'(4), simp)+
  ultimately show ?thesis using w'(2) by auto
qed

lemma remove_member_early:
  assumes "wf_world w xs" and "lock w = rw_init"
    and "case pp of None \<Rightarrow> True | Some p \<Rightarrow> (\<exists>q. peers w p = Some q \<and> roster w xs (tapMAC (p_ls q)) = None)"
  shows "remove_member me pp w = Ret () (w\<lparr>lock := write_locked me\<rparr>)"
proof (cases pp)
  case None
  then show ?thesis using assms(2) by (simp add: remove_member_def world_ops)
next
  case (Some p)
  then obtain q where q: "peers w p = Some q" "roster w xs (tapMAC (p_ls q)) = None" using assms(3) by auto
  have "find_member (tapMAC (p_ls q)) (w\<lparr>lock := write_locked me\<rparr>) = Ret None (w\<lparr>lock := write_locked me\<rparr>)"
    using find_member_ok [of "w\<lparr>lock := write_locked me\<rparr>" xs] assms(1) q(2) by simp
  then show ?thesis using Some assms(2) q(1) by (simp add: remove_member_def world_ops)
qed

lemma remove_member_unlinked:
  assumes wf: "wf_world w xs" and l: "lock w = rw_init" and p: "peers w pp = Some q" "pp \<notin> set xs"
    and k: "roster w xs (tapMAC (p_ls q)) \<noteq> None" and z: "hh (members w) pp = Some zero_handle"
  shows "\<exists>w'. remove_member me (Some pp) w = Ret () w' \<and> wf_world w' [] \<and> lock w' = rw_init \<and> peers w' = (peers w)(pp := None) \<and>
    cancelled w' = cancelled w @ [timeout_tid q, p_tid q]"
proof -
  let ?k = "tapMAC (p_ls q)"
  obtain y where y: "roster w xs ?k = Some y" using k by blast
  then have ne: "xs \<noteq> []" by (auto simp: roster_def key_map_def)
  let ?w1 = "w\<lparr>lock := write_locked me\<rparr>" and ?w2 = "w\<lparr>lock := write_locked me, cancelled := cancelled w @ [timeout_tid q]\<rparr>"
  have find: "find_member ?k ?w1 = Ret (Some y) ?w1" "find_member ?k ?w2 = Ret (Some y) ?w2"
    using find_member_ok [of ?w1 xs] find_member_ok [of ?w2 xs] wf y by simp_all
  have del: "HASH_DELETE (members w) pp = Some ((members w)\<lparr>head := None\<rparr>)"
    using wf_worldD(1) [OF wf] ne z by (auto simp: HASH_DELETE_def uh_rep_def zero_handle_def split: option.splits)
  let ?w3 = "w\<lparr>cancelled := cancelled w @ [timeout_tid q], members := (members w)\<lparr>head := None\<rparr>, lock := rw_init,
    kern := (kern w)\<lparr>closed := closed (kern w) @ [rfd (p_rio q)]\<rparr>\<rparr>"
  have "wf_world ?w3 []" using wf by (auto simp: wf_world_def uh_rep_empty)
  then obtain w' where w': "free_peer pp ?w3 = Ret () w'" "wf_world w' []"
      "w' = ?w3\<lparr>peers := (peers ?w3)(pp := None), members := members w'\<rparr>"
    using wf_world_free [of ?w3 "[]" pp q] p(1) by auto
  have "remove_member me (Some pp) w = Ret () (w'\<lparr>cancelled := cancelled w' @ [p_tid q]\<rparr>)"
    using l p(1) find del w'(1) by (simp add: remove_member_def world_ops)
  moreover have "lock w' = rw_init" "peers w' = (peers w)(pp := None)" "cancelled w' = cancelled w @ [timeout_tid q]" by (subst w'(3), simp)+
  ultimately show ?thesis using w'(2) by auto
qed

section \<open>Giving a peer up\<close>

lemma pthread_cancels_run: "pthread_cancels ts w = Ret () (w\<lparr>cancelled := cancelled w @ ts\<rparr>)"
  by (induction ts arbitrary: w) (simp_all add: pthread_cancel_def)

lemma unlink_peer_result:
  assumes wf: "wf_world w xs" and p: "peers w pp = Some q" "pp \<in> set xs"
  shows "\<exists>w'. unlink_peer ts pp w = Ret () w' \<and> wf_world w' (remove1 pp xs) \<and>
    roster w' (remove1 pp xs) = (roster w xs)(tapMAC (p_ls q) := None) \<and>
    w' = w\<lparr>members := members w', kern := (kern w)\<lparr>closed := closed (kern w) @ [rfd (p_rio q)]\<rparr>,
      cancelled := cancelled w @ ts q, peers := (peers w)(pp := None)\<rparr>"
proof -
  note wd = wf_worldD [OF wf]
  let ?k = "tapMAC (p_ls q)" and ?xs = "remove1 pp xs"
  have key: "key_at (members w) pp = ?k" using wd(5) [OF p(2)] p(1) by auto
  obtain t where t: "HASH_DELETE (members w) pp = Some t" "wf_world (w\<lparr>members := t\<rparr>) ?xs"
      "roster (w\<lparr>members := t\<rparr>) ?xs = (roster w xs)(?k := None)"
    using wf_world_delete [OF wf p(2)] key by auto
  let ?w3 = "w\<lparr>members := t, kern := (kern w)\<lparr>closed := closed (kern w) @ [rfd (p_rio q)]\<rparr>, cancelled := cancelled w @ ts q\<rparr>"
  have "wf_world ?w3 ?xs" using t(2) by (simp add: wf_world_def)
  moreover have "pp \<notin> set ?xs" using wd(3) by simp
  ultimately obtain w' where w': "free_peer pp ?w3 = Ret () w'" "wf_world w' ?xs" "roster w' ?xs = roster ?w3 ?xs"
      "w' = ?w3\<lparr>peers := (peers ?w3)(pp := None), members := members w'\<rparr>"
    using wf_world_free [of ?w3 ?xs pp q] p(1) by auto
  have "unlink_peer ts pp w = Ret () w'"
    using p(1) t(1) w'(1) by (simp add: unlink_peer_def in_table_def get_peer_def close_fd_def pthread_cancels_run)
  moreover have "roster w' ?xs = (roster w xs)(?k := None)"
    using w'(3) t(3) by (simp add: roster_def)
  moreover have "w' = w\<lparr>members := members w', kern := (kern w)\<lparr>closed := closed (kern w) @ [rfd (p_rio q)]\<rparr>,
      cancelled := cancelled w @ ts q, peers := (peers w)(pp := None)\<rparr>"
    by (subst w'(4)) simp
  ultimately show ?thesis using w'(2) by blast
qed

section \<open>Loops over the members\<close>

lemma next_of_rep:
  assumes "uh_rep (members w) (ys @ p # zs)"
  shows "next_of (Some p) w = Some (case zs of [] \<Rightarrow> None | z # _ \<Rightarrow> Some z)"
proof -
  have "dseg (hh (members w)) app_next app_prev None (head (members w)) (ys @ p # zs) (Some (tail (tbl (members w)))) None"
    using assms by (auto simp: uh_rep_def)
  then obtain h where "hh (members w) p = Some h" "app_next h = (case zs of [] \<Rightarrow> None | z # _ \<Rightarrow> Some z)"
    by (auto simp: dseg_append dest: dseg_first)
  then show ?thesis by (simp add: next_of_def)
qed

text \<open>
  The rule for a loop whose body may delete the current element: the elements not yet
  visited stay a suffix of the list. \<open>Q zs w\<close> is what holds when \<open>zs\<close> remain.
\<close>

lemma hash_iter_loop_rule:
  assumes "Q zs w" and suf: "\<And>zs w. Q zs w \<Longrightarrow> \<exists>ys. uh_rep (members w) (ys @ zs)"
    and body: "\<And>p zs w. Q (p # zs) w \<Longrightarrow> (\<exists>w'. body p w = Ret () w' \<and> Q zs w') \<or> (\<exists>h w'. body p w = Stop h w' \<and> E h w')"
  shows "\<exists>r. hash_iter_loop body (case zs of [] \<Rightarrow> None | z # _ \<Rightarrow> Some z)
      (case zs of [] \<Rightarrow> None | [z] \<Rightarrow> None | z # y # _ \<Rightarrow> Some y) w = Some r \<and>
    (case r of Ret _ w' \<Rightarrow> Q [] w' | Stop h w' \<Rightarrow> E h w')"
  using assms(1)
proof (induction zs arbitrary: w)
  case Nil
  then show ?case by (simp add: hash_iter_loop.simps)
next
  case (Cons p zs)
  let ?tmp = "case zs of [] \<Rightarrow> None | y # _ \<Rightarrow> Some y"
  have tmp: "(case p # zs of [] \<Rightarrow> None | [z] \<Rightarrow> None | z # y # _ \<Rightarrow> Some y) = ?tmp"
    by (simp split: list.splits)
  consider w' where "body p w = Ret () w'" "Q zs w'" | h w' where "body p w = Stop h w'" "E h w'"
    using body [OF Cons.prems] by blast
  then show ?case
  proof cases
    case 1
    have nxt: "next_of ?tmp w' = Some (case zs of [] \<Rightarrow> None | [z] \<Rightarrow> None | z # y # _ \<Rightarrow> Some y)"
    proof (cases zs)
      case (Cons z zs')
      obtain ys where "uh_rep (members w') (ys @ z # zs')" using suf [OF 1(2)] Cons by blast
      from next_of_rep [OF this] show ?thesis using Cons by (simp split: list.splits)
    qed (simp add: next_of_def)
    from Cons.IH [OF 1(2)] show ?thesis
      unfolding tmp using 1(1) nxt by (subst hash_iter_loop.simps) simp
  next
    case 2
    then show ?thesis by (subst hash_iter_loop.simps) simp
  qed
qed

lemma HASH_ITER_rule:
  assumes "uh_rep (members w) xs" and "Q xs w" and "\<And>zs w. Q zs w \<Longrightarrow> \<exists>ys. uh_rep (members w) (ys @ zs)"
    and "\<And>p zs w. Q (p # zs) w \<Longrightarrow> (\<exists>w'. body p w = Ret () w' \<and> Q zs w') \<or> (\<exists>h w'. body p w = Stop h w' \<and> E h w')"
  shows "case HASH_ITER body w of Ret _ w' \<Rightarrow> Q [] w' | Stop h w' \<Rightarrow> E h w'"
proof -
  have hd: "head (members w) = (case xs of [] \<Rightarrow> None | z # _ \<Rightarrow> Some z)"
    using assms(1) by (cases xs) (auto simp: uh_rep_def)
  have "next_of (head (members w)) w = Some (case xs of [] \<Rightarrow> None | [z] \<Rightarrow> None | z # y # _ \<Rightarrow> Some y)"
    unfolding hd using next_of_rep [of w "[]"] assms(1)
    by (cases xs) (auto simp: next_of_def split: list.splits)
  with hash_iter_loop_rule [of Q xs w body E] assms(2-4) show ?thesis
    by (auto simp: HASH_ITER_def hd)
qed

section \<open>The interface of the membership list\<close>

locale membership =
  fixes inv :: "'w \<Rightarrow> ptr list \<Rightarrow> bool" and view :: "'w \<Rightarrow> ptr list \<Rightarrow> bytes \<Rightarrow> ptr option"
    and mac :: "'w \<Rightarrow> ptr \<Rightarrow> bytes option" and ready :: "'w \<Rightarrow> bool"
    and add :: "ptr \<Rightarrow> 'w \<Rightarrow> ('w, unit) run" and remove :: "ptr \<Rightarrow> 'w \<Rightarrow> ('w, unit) run"
  assumes add_new: "inv w xs \<Longrightarrow> mac w p = Some k \<Longrightarrow> p \<notin> set xs \<Longrightarrow> view w xs k = None \<Longrightarrow> ready w \<Longrightarrow>
      \<exists>w'. add p w = Ret () w' \<and> inv w' (xs @ [p]) \<and> view w' (xs @ [p]) = (view w xs)(k \<mapsto> p) \<and> mac w' = mac w"
    and remove_member: "inv w xs \<Longrightarrow> mac w p = Some k \<Longrightarrow> p \<in> set xs \<Longrightarrow>
      \<exists>w'. remove p w = Ret () w' \<and> inv w' (remove1 p xs) \<and> view w' (remove1 p xs) = (view w xs)(k := None) \<and>
        mac w' = (mac w)(p := None)"
begin

text \<open>A peer that joins and leaves leaves no trace in the roster.\<close>

lemma add_remove:
  assumes "inv w xs" and "mac w p = Some k" and "p \<notin> set xs" and "view w xs k = None" and "ready w"
  shows "\<exists>w1 w2. add p w = Ret () w1 \<and> remove p w1 = Ret () w2 \<and> inv w2 xs \<and> view w2 xs = view w xs"
proof -
  obtain w1 where w1: "add p w = Ret () w1" "inv w1 (xs @ [p])" "view w1 (xs @ [p]) = (view w xs)(k \<mapsto> p)" "mac w1 = mac w"
    using add_new [OF assms] by blast
  obtain w2 where w2: "remove p w1 = Ret () w2" "inv w2 (remove1 p (xs @ [p]))"
      "view w2 (remove1 p (xs @ [p])) = (view w1 (xs @ [p]))(k := None)"
    using remove_member [OF w1(2), of p k] w1(4) assms(2) by auto
  have "remove1 p (xs @ [p]) = xs" using assms(3) by (simp add: remove1_append)
  moreover have "(view w1 (xs @ [p]))(k := None) = view w xs" using w1(3) assms(4) by auto
  ultimately show ?thesis using w1(1) w2 by auto
qed

text \<open>Two peers with different addresses can join in either order and leave independently.\<close>

lemma add_add_remove:
  assumes "inv w xs" and "mac w p = Some k" and "p \<notin> set xs" and "view w xs k = None" and "ready w"
    and "mac w p' = Some k'" and "p' \<notin> set xs" and "p' \<noteq> p" and "view w xs k' = None" and "k' \<noteq> k"
    and rdy: "\<And>w1. add p w = Ret () w1 \<Longrightarrow> ready w1"
  shows "\<exists>w1 w2 w3. add p w = Ret () w1 \<and> add p' w1 = Ret () w2 \<and> remove p w2 = Ret () w3 \<and> inv w3 (xs @ [p']) \<and>
    view w3 (xs @ [p']) = (view w xs)(k' \<mapsto> p')"
proof -
  obtain w1 where w1: "add p w = Ret () w1" "inv w1 (xs @ [p])" "view w1 (xs @ [p]) = (view w xs)(k \<mapsto> p)" "mac w1 = mac w"
    using add_new [OF assms(1-5)] by blast
  obtain w2 where w2: "add p' w1 = Ret () w2" "inv w2 ((xs @ [p]) @ [p'])"
      "view w2 ((xs @ [p]) @ [p']) = (view w1 (xs @ [p]))(k' \<mapsto> p')" "mac w2 = mac w1"
    using add_new [OF w1(2), of p' k'] w1(3,4) assms(6-10) rdy [OF w1(1)] by auto
  obtain w3 where w3: "remove p w2 = Ret () w3" "inv w3 (remove1 p ((xs @ [p]) @ [p']))"
      "view w3 (remove1 p ((xs @ [p]) @ [p'])) = (view w2 ((xs @ [p]) @ [p']))(k := None)"
    using remove_member [OF w2(2), of p k] w1(4) w2(4) assms(2) by auto
  have "remove1 p ((xs @ [p]) @ [p']) = xs @ [p']" using assms(3) by (simp add: remove1_append)
  moreover have "(view w2 ((xs @ [p]) @ [p']))(k := None) = (view w xs)(k' \<mapsto> p')"
    using w1(3) w2(3) assms(4,10) by auto
  ultimately show ?thesis using w1(1) w2(1) w3 by auto
qed

end

abbreviation mac_of :: "world \<Rightarrow> ptr \<Rightarrow> bytes option" where
  "mac_of w p \<equiv> map_option (\<lambda>q. tapMAC (p_ls q)) (peers w p)"

interpretation mem: membership "\<lambda>w xs. wf_world w xs \<and> lock w = rw_init" roster mac_of
    "\<lambda>w. clocks (kern w) \<noteq> []" "add_member me" "\<lambda>p. remove_member me (Some p)" for me
proof unfold_locales
  fix w xs p k
  assume "wf_world w xs \<and> lock w = rw_init" and k: "mac_of w p = Some k" and "p \<notin> set xs"
    and new: "roster w xs k = None" and "clocks (kern w) \<noteq> []"
  then obtain q t ts where *: "wf_world w xs" "lock w = rw_init" "peers w p = Some q" "p \<notin> set xs"
      "clocks (kern w) = t # ts" and q: "tapMAC (p_ls q) = k"
    by (auto simp: neq_Nil_conv)
  from add_member_result [OF *, of me] new q obtain w' where w': "add_member me p w = Ret () w'"
      "wf_world w' (xs @ [p])" "lock w' = rw_init" "roster w' (xs @ [p]) = (roster w xs)(k \<mapsto> p)"
      "peers w' = (peers w)(p \<mapsto> q\<lparr>timestamp := t, timeout_mutex := None, timeout_tid := next_tid w, p_tid := next_tid w + 1\<rparr>)"
    by auto
  then have "mac_of w' = mac_of w" using *(3) by auto
  with w' show "\<exists>w'. add_member me p w = Ret () w' \<and> (wf_world w' (xs @ [p]) \<and> lock w' = rw_init) \<and>
      roster w' (xs @ [p]) = (roster w xs)(k \<mapsto> p) \<and> mac_of w' = mac_of w"
    by blast
next
  fix w xs p k
  assume "wf_world w xs \<and> lock w = rw_init" and "mac_of w p = Some k" and "p \<in> set xs"
  then obtain q where *: "wf_world w xs" "lock w = rw_init" "peers w p = Some q" "p \<in> set xs" and q: "tapMAC (p_ls q) = k"
    by auto
  from remove_member_result [OF *, of me] q obtain w' where w': "remove_member me (Some p) w = Ret () w'"
      "wf_world w' (remove1 p xs)" "lock w' = rw_init" "roster w' (remove1 p xs) = (roster w xs)(k := None)"
      "peers w' = (peers w)(p := None)"
    by auto
  then have "mac_of w' = (mac_of w)(p := None)" by auto
  with w' show "\<exists>w'. remove_member me (Some p) w = Ret () w' \<and> (wf_world w' (remove1 p xs) \<and> lock w' = rw_init) \<and>
      roster w' (remove1 p xs) = (roster w xs)(k := None) \<and> mac_of w' = (mac_of w)(p := None)"
    by blast
qed

section \<open>Properties of the membership list\<close>

text \<open>Peers 1 and 2 are members; peer 3 is allocated, and so is peer 4, with the address of peer 1.\<close>

definition demo_ls :: "nat \<Rightarrow> link_state" where
  "demo_ls i = \<lparr>IPaddr = of_nat i, listenPort = 2000, tapMAC = demo_mac i, ethMAC = demo_mac i\<rparr>"

definition demo_peer :: "nat \<Rightarrow> Peer" where
  "demo_peer i = zero_peer\<lparr>p_ls := demo_ls (if i = 4 then 1 else i), p_rio := demo_rio\<lparr>rfd := int i\<rparr>\<rparr>"

definition demo_world :: world where
  "demo_world = \<lparr>kern = demo_os\<lparr>clocks := [zero_ts, zero_ts]\<rparr>,
     peers = (\<lambda>p. if p < 8 then Some (demo_peer p) else None), members = demo_two, lock = rw_init,
     linkState = demo_ls 9, config = \<lparr>listen_port = 2000, link_period = 5, link_timeout = 25, quit_timer = 60\<rparr>,
     now = zero_ts, rio_tap = demo_rio, tap_tid = 100, brk = 8, next_tid = 101, started = [], cancelled = [],
     alarm = 0, conns = [], timedwaits = [], block = []\<rparr>"

lemma demo_world_wf: "wf_world demo_world [1, 2]"
  using demo_two_rep demo_two_inj
  by (auto simp: wf_world_def demo_world_def demo_peer_def demo_ls_def dom_def set_eq_iff split: if_splits)

lemma demo_roster:
  "roster demo_world [1, 2] (demo_mac 1) = Some 1" "roster demo_world [1, 2] (demo_mac 3) = None"
  using demo_two_rep(2,3) by (simp_all add: roster_def key_map_def demo_world_def demo_mac_def)

lemma demo_world_simps:
  "lock demo_world = rw_init" "clocks (kern demo_world) = [zero_ts, zero_ts]"
  "p < 8 \<Longrightarrow> peers demo_world p = Some (demo_peer p)" "hh (members demo_world) 4 = hh demo_two 4"
  by (simp_all add: demo_world_def)

text \<open>
  C10. \<^verbatim>\<open>add_member\<close> of a peer with a new address, by a thread that finds the lock free:
  it returns with the lock released, the list stays well-formed, the peer is found under
  its MAC address and every other lookup is unchanged, its timeout and its reader thread
  are started and their identifiers stored in it.
\<close>

theorem add_member_adds:
  assumes "wf_world w xs" and "lock w = rw_init" and "peers w pp = Some q" and "pp \<notin> set xs"
    and "roster w xs (tapMAC (p_ls q)) = None" and "clocks (kern w) = t # ts"
  shows "\<exists>w' q'. add_member me pp w = Ret () w' \<and> wf_world w' (xs @ [pp]) \<and> lock w' = rw_init \<and>
    roster w' (xs @ [pp]) = (roster w xs)(tapMAC (p_ls q) \<mapsto> pp) \<and> peers w' = (peers w)(pp \<mapsto> q') \<and>
    started w' = started w @ [(timeout_tid q', Timeout_handler, pp), (p_tid q', Eth_handler, pp)] \<and>
    p_ls q' = p_ls q \<and> timestamp q' = t"
  using add_member_result [OF assms(1-4,6), of me] assms(5)
  by (fastforce intro!: exI [of _ "q\<lparr>timestamp := t, timeout_mutex := None, timeout_tid := next_tid w, p_tid := next_tid w + 1\<rparr>"])

theorem add_member_adds_witness:
  "\<exists>w'. add_member 7 3 demo_world = Ret () w' \<and> wf_world w' [1, 2, 3] \<and> lock w' = rw_init"
  using add_member_adds [OF demo_world_wf demo_world_simps(1) demo_world_simps(3) [of 3], of zero_ts "[zero_ts]" 7]
    demo_roster(2) by (auto simp: demo_world_simps demo_peer_def demo_ls_def)

text \<open>
  C11. \<^verbatim>\<open>remove_member\<close> of a member, by a thread that finds the lock free: it returns with
  the lock released, the list stays well-formed without the peer, its address is no
  longer found, its descriptor is closed, its memory is freed, and both its threads are
  cancelled, the reader last.
\<close>

theorem remove_member_removes:
  assumes "wf_world w xs" and "lock w = rw_init" and "peers w pp = Some q" and "pp \<in> set xs"
  shows "\<exists>w'. remove_member me (Some pp) w = Ret () w' \<and> wf_world w' (remove1 pp xs) \<and> lock w' = rw_init \<and>
    roster w' (remove1 pp xs) = (roster w xs)(tapMAC (p_ls q) := None) \<and> peers w' = (peers w)(pp := None) \<and>
    closed (kern w') = closed (kern w) @ [rfd (p_rio q)] \<and>
    cancelled w' = cancelled w @ [timeout_tid q, p_tid q]"
  using remove_member_result [OF assms, of me] by (elim exE conjE) (intro exI conjI, assumption+, simp_all)

theorem remove_member_removes_witness:
  "\<exists>w'. remove_member 7 (Some 1) demo_world = Ret () w' \<and> wf_world w' [2] \<and> closed (kern w') = [1]"
  using remove_member_removes [OF demo_world_wf demo_world_simps(1) demo_world_simps(3) [of 1], of 7]
  by (auto simp: demo_world_def demo_peer_def demo_os_def)

text \<open>
  A peer with a new address that joins and is removed again leaves the roster, the
  order of the other members and the lock as they were.
\<close>

theorem join_then_leave_restores:
  assumes "wf_world w xs \<and> lock w = rw_init" and "map_option (\<lambda>q. tapMAC (p_ls q)) (peers w p) = Some k"
    and "p \<notin> set xs" and "roster w xs k = None" and "clocks (kern w) \<noteq> []"
  shows "\<exists>w1 w2. add_member me p w = Ret () w1 \<and> remove_member me (Some p) w1 = Ret () w2 \<and>
    (wf_world w2 xs \<and> lock w2 = rw_init) \<and> roster w2 xs = roster w xs"
  by (rule mem.add_remove [OF assms])

theorem join_then_leave_restores_witness:
  "\<exists>w1 w2. add_member 7 3 demo_world = Ret () w1 \<and> remove_member 7 (Some 3) w1 = Ret () w2 \<and> wf_world w2 [1, 2]"
  using join_then_leave_restores [of demo_world "[1, 2]" 3 "demo_mac 3" 7] demo_world_wf demo_roster(2)
  by (auto simp: demo_world_simps demo_peer_def demo_ls_def)

text \<open>
  C39. \<^verbatim>\<open>remove_member\<close> of NULL or of a peer whose address is not in the list returns with
  the write lock still held; the next \<^verbatim>\<open>writeBegin\<close> of the same thread waits for itself.
\<close>

theorem remove_member_unknown_keeps_lock:
  assumes "wf_world w xs" and "lock w = rw_init"
    and "case pp of None \<Rightarrow> True | Some p \<Rightarrow> (\<exists>q. peers w p = Some q \<and> roster w xs (tapMAC (p_ls q)) = None)"
  shows "\<exists>w'. remove_member me pp w = Ret () w' \<and> owner (lock w') w_mutex = Some me \<and> members w' = members w \<and>
    (\<exists>w''. in_lock (writeBegin me) w' = Stop SelfDeadlock w'')"
  using remove_member_early [OF assms, of me] write_locked_nested [of me]
  by (auto simp: in_lock_def write_locked_def)

theorem remove_member_unknown_keeps_lock_witness:
  "\<exists>w'. remove_member 7 (Some 3) demo_world = Ret () w' \<and> owner (lock w') w_mutex = Some 7"
  using remove_member_unknown_keeps_lock [OF demo_world_wf demo_world_simps(1), of "Some 3" 7] demo_roster(2)
  by (auto simp: demo_world_simps demo_peer_def demo_ls_def)

text \<open>
  C40. A second connection with an address that is already in the list. \<^verbatim>\<open>add_member\<close> starts
  its threads without entering it; when it is later removed, \<^verbatim>\<open>remove_member\<close> finds the
  other peer under the address, deletes the unlinked one, and the table loses every member: no address is found any more,
  although the peers that were members are still allocated and no thread of theirs was cancelled.
\<close>

theorem duplicate_address_empties_list:
  assumes "wf_world w xs" and "lock w = rw_init" and "peers w pp = Some q" and "pp \<notin> set xs"
    and "roster w xs (tapMAC (p_ls q)) \<noteq> None" and "hh (members w) pp = Some zero_handle"
    and "clocks (kern w) = t # ts"
  shows "\<exists>w1 w2. add_member me pp w = Ret () w1 \<and> wf_world w1 xs \<and>
    remove_member me (Some pp) w1 = Ret () w2 \<and> wf_world w2 [] \<and> (\<forall>k. HASH_FIND (members w2) k = Some None) \<and>
    (\<forall>p. p \<noteq> pp \<longrightarrow> peers w2 p = peers w p) \<and> cancelled w2 = cancelled w @ [next_tid w, next_tid w + 1]"
proof -
  obtain w1 q' where w1: "add_member me pp w = Ret () w1" "wf_world w1 xs" "lock w1 = rw_init" "peers w1 = (peers w)(pp \<mapsto> q')"
      "p_ls q' = p_ls q" "roster w1 xs = roster w xs" "members w1 = members w" "cancelled w1 = cancelled w" "timeout_tid q' = next_tid w" "p_tid q' = next_tid w + 1"
    using add_member_result [OF assms(1-4,7), of me] assms(5) by auto
  then have "peers w1 pp = Some q'" by simp
  from remove_member_unlinked [OF w1(2,3) this assms(4), of me] obtain w2 where
    w2: "remove_member me (Some pp) w1 = Ret () w2" "wf_world w2 []" "peers w2 = (peers w1)(pp := None)" "cancelled w2 = cancelled w1 @ [timeout_tid q', p_tid q']"
    using assms(5,6) w1(5-7) by auto
  moreover have "HASH_FIND (members w2) k = Some None" for k using wf_worldD(6) [OF w2(2)] by (simp add: roster_def key_map_def)
  ultimately show ?thesis using w1 by (intro exI [of _ w1] exI [of _ w2]) simp
qed

theorem duplicate_address_empties_list_witness:
  "\<exists>w1 w2. add_member 7 4 demo_world = Ret () w1 \<and> wf_world w1 [1, 2] \<and>
    remove_member 7 (Some 4) w1 = Ret () w2 \<and> wf_world w2 [] \<and> peers w2 1 = Some (demo_peer 1)"
  using duplicate_address_empties_list [OF demo_world_wf demo_world_simps(1) demo_world_simps(3) [of 4], of zero_ts "[zero_ts]" 7]
    demo_roster(1) demo_two_rep(5) [of 4] by (auto simp: demo_world_simps demo_peer_def demo_ls_def)

end
