(* ===== verification/Join.thy ===== *)
theory Join
  imports Members
begin

text \<open>
  Connecting to a peer and the initial exchange of link-state packets (\<^verbatim>\<open>proxy.c\<close>).
  The answers of the socket calls are the head of \<open>conns\<close>. The byte counts are kept in a
  \<^verbatim>\<open>size_t\<close>, so a result of -1 is a large positive number there.
\<close>

section \<open>The exchange\<close>

definition member_count :: "world \<Rightarrow> u16" where
  "member_count w = of_nat (HASH_COUNT (members w))"

text \<open>The fields both sides fill in; \<^verbatim>\<open>length\<close> counts what follows the header.\<close>

definition join_packet :: "link_state \<Rightarrow> u16 \<Rightarrow> initial_join_packet" where
  "join_packet ls n = \<lparr>ij_prxyhdr = \<lparr>ph_type = htons LINK_STATE, ph_length = htons 22\<rparr>,
     ij_numNbrs1 = htons n, ij_ls = ls, ij_numNbrs2 = htons n\<rparr>"

definition join_size :: nat where "join_size = 26"

text \<open>\<^verbatim>\<open>(size=...)<=0\<close> on an unsigned \<^verbatim>\<open>size\<close>.\<close>

definition size_le_0 :: "int \<Rightarrow> bool" where
  "size_le_0 r \<longleftrightarrow> (word_of_int r :: u32) \<le> 0"

text \<open>\<^verbatim>\<open>rio_readnb(&pp->rio, ...)\<close>: the buffer of the peer advances.\<close>

definition peer_readnb :: "ptr \<Rightarrow> nat \<Rightarrow> world \<Rightarrow> (world, int \<times> bytes) run" where
  "peer_readnb pp n w =
     bind_run (get_peer pp w) (\<lambda>q w.
     bind_run (in_kern (rio_readnb (p_rio q) n) w) (\<lambda>x w. case x of (r, d, rp) \<Rightarrow>
     bind_run (set_peer pp (\<lambda>q. q\<lparr>p_rio := rp\<rparr>) w) (\<lambda>_ w. Ret (r, d) w)))"

definition peer_write :: "ptr \<Rightarrow> bytes \<Rightarrow> world \<Rightarrow> (world, int) run" where
  "peer_write pp data w =
     bind_run (get_peer pp w) (\<lambda>q w. in_kern (rio_write (p_rio q) data) w)"

text \<open>\<open>over d old\<close>: \<open>old\<close> after its first bytes were overwritten with \<open>d\<close>.\<close>

definition over :: "bytes \<Rightarrow> bytes \<Rightarrow> bytes" where
  "over d old = d @ drop (length d) old"

text \<open>The type check and the copy of the connection information, shared by both sides.\<close>

definition accept_packet :: "ptr \<Rightarrow> initial_join_packet \<Rightarrow> world \<Rightarrow> (world, bool) run" where
  "accept_packet pp pkt w =
     (if ntohs (ph_type (ij_prxyhdr pkt)) \<noteq> LINK_STATE then Ret False w
      else let ls = ij_ls pkt; ls = ls\<lparr>listenPort := ntohs (listenPort ls)\<rparr> in
        bind_run (set_peer pp (\<lambda>q. q\<lparr>p_ls := ls\<rparr>) w) (\<lambda>_ w. Ret True w))"

definition initial_join_client :: "tid \<Rightarrow> ptr \<Rightarrow> world \<Rightarrow> (world, ptr option) run" where
  "initial_join_client me pp w =
     bind_run (in_lock (readBegin me) w) (\<lambda>_ w.
     let pkt = enc_initial_join_packet (join_packet (linkState w) (member_count w)) in
     bind_run (in_lock (readEnd me) w) (\<lambda>_ w.
     bind_run (peer_write pp pkt w) (\<lambda>r w.
     if size_le_0 r then Ret None w
     else bind_run (peer_readnb pp join_size w) (\<lambda>x w. case x of (r, d) \<Rightarrow>
     if size_le_0 r then Ret None w
     else bind_run (accept_packet pp (dec_initial_join_packet (over d pkt)) w) (\<lambda>ok w.
     Ret (if ok then Some pp else None) w)))))"

text \<open>\<open>junk\<close> is what the uninitialised packet variable holds.\<close>

definition initial_join_server :: "bytes \<Rightarrow> tid \<Rightarrow> ptr \<Rightarrow> world \<Rightarrow> (world, ptr option) run" where
  "initial_join_server junk me pp w =
     bind_run (peer_readnb pp join_size w) (\<lambda>x w. case x of (r, d) \<Rightarrow>
     if size_le_0 r then Ret None w
     else bind_run (accept_packet pp (dec_initial_join_packet (over d junk)) w) (\<lambda>ok w.
     if \<not> ok then Ret None w
     else
     let ls = linkState w; ls = ls\<lparr>listenPort := htons (listenPort ls)\<rparr> in
     bind_run (in_lock (readBegin me) w) (\<lambda>_ w.
     let n = member_count w in
     bind_run (in_lock (readEnd me) w) (\<lambda>_ w.
     bind_run (peer_write pp (enc_initial_join_packet (join_packet ls n)) w) (\<lambda>r w.
     Ret (if size_le_0 r then None else Some pp) w)))))"

section \<open>Connecting\<close>

definition next_conn :: "world \<Rightarrow> (world, conn_answers) run" where
  "next_conn w = (case conns w of [] \<Rightarrow> Stop Waiting w | a # as \<Rightarrow> Ret a (w\<lparr>conns := as\<rparr>))"

text \<open>From \<^verbatim>\<open>malloc\<close> to \<^verbatim>\<open>add_member\<close>, the same in both functions; the result of the exchange is ignored.\<close>

definition adopt :: "tid \<Rightarrow> fd \<Rightarrow> world \<Rightarrow> (world, ptr option) run" where
  "adopt me f w =
     bind_run (new_peer w) (\<lambda>pp w.
     bind_run (in_kern (rio_readinit f) w) (\<lambda>rp w.
     bind_run (set_peer pp (\<lambda>q. q\<lparr>p_rio := rp\<rparr>) w) (\<lambda>_ w.
     bind_run (initial_join_client me pp w) (\<lambda>_ w.
     bind_run (add_member me pp w) (\<lambda>_ w.
     Ret (Some pp) w)))))"

definition connectbyname :: "tid \<Rightarrow> world \<Rightarrow> (world, ptr option) run" where
  "connectbyname me w =
     bind_run (next_conn w) (\<lambda>a w.
     if sockfd a < 0 then Ret None w
     else if \<not> setsockopt_ok a \<or> \<not> resolve_ok a \<or> \<not> connect_ok a
     then bind_run (close_fd (sockfd a) w) (\<lambda>_ w. Ret None w)
     else bind_run (if IPaddr (linkState w) = -1
         then (case local_addr a of
             None \<Rightarrow> Stop (Exit (-1)) w
           | Some ip \<Rightarrow> Ret () (w\<lparr>linkState := (linkState w)\<lparr>IPaddr := ip\<rparr>\<rparr>))
         else Ret () w) (\<lambda>_ w.
     adopt me (sockfd a) w))"

text \<open>
  \<^verbatim>\<open>if(peerfd=socket(...))\<close> treats every descriptor but 0 as an error. The local address
  is set to the address of the peer.
\<close>

definition connectbyaddr :: "tid \<Rightarrow> u32 \<Rightarrow> u16 \<Rightarrow> world \<Rightarrow> (world, ptr option) run" where
  "connectbyaddr me addr port w =
     bind_run (next_conn w) (\<lambda>a w.
     if sockfd a \<noteq> 0 then Ret None w
     else if \<not> setsockopt_ok a \<or> \<not> connect_ok a
     then bind_run (close_fd (sockfd a) w) (\<lambda>_ w. Ret None w)
     else bind_run (if IPaddr (linkState w) = -1
         then (case local_addr a of
             None \<Rightarrow> Stop (Exit (-1)) w
           | Some _ \<Rightarrow> Ret () (w\<lparr>linkState := (linkState w)\<lparr>IPaddr := addr\<rparr>\<rparr>))
         else Ret () w) (\<lambda>_ w.
     adopt me (sockfd a) w))"

section \<open>Facts on the steps\<close>

lemma member_count_lock [simp]: "member_count (w\<lparr>lock := l\<rparr>) = member_count w"
  by (simp add: member_count_def)

lemma size_le_0_write: "rio_write rp data s = Ret r s' \<Longrightarrow> data \<noteq> [] \<Longrightarrow> length data < 2 ^ 32 \<Longrightarrow> \<not> size_le_0 r"
proof -
  assume wr: "rio_write rp data s = Ret r s'" and d: "data \<noteq> []" "length data < 2 ^ 32"
  have "r = -1 \<or> r = int (length data)"
    using rio_write_result [OF wr] by (auto simp: write_result_def)
  then show ?thesis
  proof
    assume "r = int (length data)"
    moreover have "of_nat (length data) \<noteq> (0 :: u32)"
      using d nat_dvd_not_less [of "length data" "2 ^ 32"] by (simp add: word_of_nat_eq_0_iff)
    ultimately show ?thesis by (simp add: size_le_0_def)
  qed (simp add: size_le_0_def)
qed

lemma join_packet_length: "wf_link_state ls \<Longrightarrow> length (enc_initial_join_packet (join_packet ls n)) = join_size"
  using ij.enc_length [of "join_packet ls n"] by (simp add: join_packet_def join_size_def)

lemma join_packet_dec:
  "wf_link_state ls \<Longrightarrow> dec_initial_join_packet (enc_initial_join_packet (join_packet ls n) @ rest) = join_packet ls n"
  using ij.dec_enc [of "join_packet ls n"] by (simp add: join_packet_def)

lemma join_read:
  assumes "wf_rio rp" and "rio_readnb rp join_size s = Ret (int join_size, d, rp') s'"
    and "take join_size (stream rp s) = enc_initial_join_packet (join_packet ls n)" and "wf_link_state ls"
  shows "dec_initial_join_packet (over d old) = join_packet ls n"
  using rio.read_full [OF assms(1,2)] assms(3,4) by (simp add: over_def join_packet_dec)

lemma accept_join:
  assumes "peers w pp = Some q"
  shows "accept_packet pp (join_packet ls n) w =
    Ret True (w\<lparr>peers := (peers w)(pp \<mapsto> q\<lparr>p_ls := ls\<lparr>listenPort := ntohs (listenPort ls)\<rparr>\<rparr>)\<rparr>)"
  using assms by (simp add: accept_packet_def join_packet_def set_peer_def)

lemma size_le_0_26 [simp]: "\<not> size_le_0 (int join_size)"
  by (simp add: size_le_0_def join_size_def)

lemmas peer_ops = peer_write_def peer_readnb_def in_lock_def in_kern_def get_peer_def set_peer_def

section \<open>The exchange, given what the connection delivers\<close>

lemma client_exchange:
  assumes "lock w = rw_init" and "peers w pp = Some q" and "wf_rio (p_rio q)" and "wf_link_state (linkState w)"
    and pkt: "pkt = enc_initial_join_packet (join_packet (linkState w) (member_count w))"
    and wr: "rio_write (p_rio q) pkt (kern w) = Ret r s1"
    and rd: "rio_readnb (p_rio q) join_size s1 = Ret (r', d, rp) s2" and r': "\<not> size_le_0 r'"
    and dec: "dec_initial_join_packet (over d pkt) = join_packet ls n"
  shows "initial_join_client me pp w = Ret (Some pp) (w\<lparr>kern := s2,
    peers := (peers w)(pp \<mapsto> q\<lparr>p_rio := rp, p_ls := ls\<lparr>listenPort := ntohs (listenPort ls)\<rparr>\<rparr>)\<rparr>)"
proof -
  have "length pkt = join_size" unfolding pkt by (rule join_packet_length [OF assms(4)])
  then have "\<not> size_le_0 r"
    by (intro size_le_0_write [OF wr]) (auto simp: join_size_def)
  moreover have "w\<lparr>lock := rw_init\<rparr> = w" using assms(1) by simp
  ultimately show ?thesis
    using assms(1,2) wr rd r' dec
    by (simp add: initial_join_client_def peer_ops Let_def pkt [symmetric] accept_join [where q = "q\<lparr>p_rio := rp\<rparr>"])
qed

lemma server_exchange:
  assumes "lock w = rw_init" and "peers w pp = Some q" and "wf_link_state (linkState w)"
    and rd: "rio_readnb (p_rio q) join_size (kern w) = Ret (int join_size, d, rp) s1"
    and dec: "dec_initial_join_packet (over d junk) = join_packet ls n"
    and pkt: "pkt = enc_initial_join_packet (join_packet ((linkState w)\<lparr>listenPort := htons (listenPort (linkState w))\<rparr>) (member_count w))"
    and wr: "rio_write rp pkt s1 = Ret r s2"
  shows "initial_join_server junk me pp w = Ret (Some pp) (w\<lparr>peers := (peers w)(pp \<mapsto>
      q\<lparr>p_rio := rp, p_ls := ls\<lparr>listenPort := ntohs (listenPort ls)\<rparr>\<rparr>), kern := s2\<rparr>)"
proof -
  have "wf_link_state ((linkState w)\<lparr>listenPort := htons (listenPort (linkState w))\<rparr>)"
    using assms(3) by (simp add: wf_link_state_def)
  then have "length pkt = join_size" unfolding pkt by (rule join_packet_length)
  then have "\<not> size_le_0 r"
    by (intro size_le_0_write [OF wr]) (auto simp: join_size_def)
  moreover have "w\<lparr>lock := rw_init\<rparr> = w" using assms(1) by simp
  moreover have "member_count (w\<lparr>kern := s, peers := P\<rparr>) = member_count w" for s P
    by (simp add: member_count_def)
  ultimately show ?thesis
    using assms(1,2) rd dec wr
    by (simp add: initial_join_server_def peer_ops Let_def pkt [symmetric] accept_join [where q = "q\<lparr>p_rio := rp\<rparr>"])
qed

lemma server_exchange_stop:
  assumes "lock w = rw_init" and "peers w pp = Some q"
    and rd: "rio_readnb (p_rio q) join_size (kern w) = Ret (int join_size, d, rp) s1"
    and dec: "dec_initial_join_packet (over d junk) = join_packet ls n"
    and pkt: "pkt = enc_initial_join_packet (join_packet ((linkState w)\<lparr>listenPort := htons (listenPort (linkState w))\<rparr>) (member_count w))"
    and wr: "rio_write rp pkt s1 = Stop h s2"
  shows "\<exists>w'. initial_join_server junk me pp w = Stop h w'"
proof -
  have "w\<lparr>lock := rw_init\<rparr> = w" using assms(1) by simp
  moreover have "member_count (w\<lparr>kern := s, peers := P\<rparr>) = member_count w" for s P
    by (simp add: member_count_def)
  ultimately show ?thesis
    using assms(1,2) rd dec wr
    by (simp add: initial_join_server_def peer_ops Let_def pkt [symmetric] accept_join [where q = "q\<lparr>p_rio := rp\<rparr>"])
qed

section \<open>A kernel that takes what is written\<close>

text \<open>One call of \<^verbatim>\<open>write\<close> takes everything.\<close>

lemma rio_write_one:
  assumes "errno s \<noteq> EINTR" and "fcntls s = None # None # fs" and "polls s = None # ps"
    and "writes s = Inr k # ws" and "length data \<le> k" and "data \<noteq> []"
  shows "rio_write rp data s = Ret (int (length data)) (s\<lparr>fcntls := fs, polls := ps, writes := ws,
    sent := (sent s)(rfd rp := sent s (rfd rp) @ data), fd_lock := (fd_lock s)(rfd rp := F_UNLCK)\<rparr>)"
proof -
  obtain b bs where "data = b # bs" using assms(6) by (cases data) auto
  then show ?thesis
    using assms by (simp add: rio_write_def Lock_accepting Wait_def Let_def)
qed

text \<open>The kernel takes the next \<open>n\<close> frames of any size at once.\<close>

definition taking :: "nat \<Rightarrow> os \<Rightarrow> bool" where
  "taking n s \<longleftrightarrow> n \<le> spare s \<and> (\<exists>fs. fcntls s = replicate (2 * n) None @ fs) \<and>
     (\<exists>ks ws. length ks = n \<and> (\<forall>k \<in> set ks. ETH_FRAME_LEN \<le> k) \<and> writes s = map Inr ks @ ws)"

lemma taking_write:
  assumes "answering s" and "taking (Suc n) s" and "f \<noteq> []" and "length f \<le> ETH_FRAME_LEN"
  shows "\<exists>s'. rio_write rp f s = Ret (int (length f)) s' \<and> answering s' \<and> taking n s' \<and> reads s' = reads s \<and>
    sent s' = (sent s)(rfd rp := sent s (rfd rp) @ f)"
proof -
  obtain fs where fs: "fcntls s = None # None # replicate (2 * n) None @ fs" using assms(2) by (auto simp: taking_def)
  obtain k ks ws where ks: "length ks = n" "\<forall>k \<in> set ks. ETH_FRAME_LEN \<le> k" "ETH_FRAME_LEN \<le> k" "writes s = Inr k # map Inr ks @ ws"
    using assms(2) by (auto simp: taking_def length_Suc_conv)
  obtain ps where ps: "polls s = None # ps" using assms(1,2) by (cases "polls s") (auto simp: taking_def spare_def answering_def)
  have e: "errno s \<noteq> EINTR" using assms(1) by (simp add: answering_def)
  let ?s = "s\<lparr>fcntls := replicate (2 * n) None @ fs, polls := ps, writes := map Inr ks @ ws,
    sent := (sent s)(rfd rp := sent s (rfd rp) @ f), fd_lock := (fd_lock s)(rfd rp := F_UNLCK)\<rparr>"
  have "rio_write rp f s = Ret (int (length f)) ?s" using rio_write_one [OF e fs ps ks(4) _ assms(3)] assms(4) ks(3) by simp
  moreover have "answering ?s" "taking n ?s" using assms(1,2) ps ks by (auto simp: answering_def taking_def spare_def)
  ultimately show ?thesis by (intro exI [of _ ?s]) simp
qed

section \<open>The exchange on an answering kernel\<close>

lemma join_taking: "taking n s \<Longrightarrow> read_frame s s' \<Longrightarrow> spare s' = spare s \<Longrightarrow> taking n s'"
  by (simp add: taking_def read_frame_def)

lemma join_read_answering:
  assumes "answering s" and "wf_rio rp" and "stream rp s = enc_initial_join_packet (join_packet ls n) @ rest"
    and "wf_link_state ls"
  obtains d rp' s' where "rio_readnb rp join_size s = Ret (int join_size, d, rp') s'" and "wf_rio rp'"
    and "stream rp' s' = rest" and "rfd rp' = rfd rp" and "read_frame s s'" and "answering s'" and "spare s' = spare s"
    and "\<And>old. dec_initial_join_packet (over d old) = join_packet ls n"
proof -
  have len: "length (enc_initial_join_packet (join_packet ls n)) = join_size"
    by (rule join_packet_length [OF assms(4)])
  then have "join_size \<le> length (stream rp s)" using assms(3) by simp
  from rio_readnb_loop_answering [OF assms(1,2) this order_refl, of "[]"]
  obtain d rp' s' where rd: "rio_readnb rp join_size s = Ret (int join_size, d, rp') s'" and an: "answering s'" "spare s' = spare s"
    unfolding rio_readnb_def by blast
  have st: "wf_rio rp'" "read_frame s s'" "rfd rp' = rfd rp"
    using rio_readnb_loop_stream [OF rd [unfolded rio_readnb_def] assms(2) order_refl] by blast+
  show thesis
  proof (rule that [OF rd st(1) _ st(3) st(2) an])
    show "stream rp' s' = rest" using rio.read_full [OF assms(2) rd] assms(3) len by simp
    show "dec_initial_join_packet (over d old) = join_packet ls n" for old
      using join_read [OF assms(2) rd _ assms(4), of n] assms(3) len by simp
  qed
qed

section \<open>Properties of the exchange\<close>

lemma server_run:
  assumes "lock w = rw_init" and "peers w pp = Some q" and "wf_rio (p_rio q)" and "answering (kern w)"
    and "wf_link_state (linkState w)" and "wf_link_state ls"
    and "stream (p_rio q) (kern w) = enc_initial_join_packet (join_packet ls n) @ rest"
    and pkt: "pkt = enc_initial_join_packet (join_packet ((linkState w)\<lparr>listenPort := htons (listenPort (linkState w))\<rparr>) (member_count w))"
  shows "(\<exists>w'. initial_join_server junk me pp w = Stop Waiting w' \<and> \<not> taking 1 (kern w)) \<or>
    (\<exists>rp s k. initial_join_server junk me pp w =
         Ret (Some pp) (w\<lparr>peers := (peers w)(pp \<mapsto> q\<lparr>p_rio := rp, p_ls := ls\<lparr>listenPort := ntohs (listenPort ls)\<rparr>\<rparr>), kern := s\<rparr>) \<and>
       stream rp s = rest \<and> clocks s = clocks (kern w) \<and> (taking 1 (kern w) \<longrightarrow> k = join_size) \<and>
       sent s = (sent (kern w))(rfd (p_rio q) := sent (kern w) (rfd (p_rio q)) @ take k pkt))"
proof -
  obtain d rp s1 where rd: "rio_readnb (p_rio q) join_size (kern w) = Ret (int join_size, d, rp) s1"
      "stream rp s1 = rest" "rfd rp = rfd (p_rio q)" "read_frame (kern w) s1"
      "\<And>old. dec_initial_join_packet (over d old) = join_packet ls n" "answering s1" "spare s1 = spare (kern w)"
    by (rule join_read_answering [OF assms(4,3,7,6)]) (rule that)
  have len: "length pkt = join_size" unfolding pkt by (rule join_packet_length) (use assms(5) in \<open>simp add: wf_link_state_def\<close>)
  have tk: "\<exists>s2. rio_write rp pkt s1 = Ret (int (length pkt)) s2 \<and> sent s2 = (sent s1)(rfd rp := sent s1 (rfd rp) @ pkt)"
    if "taking 1 (kern w)"
  proof -
    have "pkt \<noteq> []" "length pkt \<le> ETH_FRAME_LEN" "taking (Suc 0) s1" using len join_taking [OF that rd(4,7)] by (auto simp: join_size_def size_defs)
    then show ?thesis using taking_write [OF rd(6), of 0 pkt rp] by blast
  qed
  show ?thesis
  proof (cases "rio_write rp pkt s1")
    case (Ret r s2)
    obtain k where k: "k \<le> length pkt" "sent s2 = (sent s1)(rfd rp := sent s1 (rfd rp) @ take k pkt)" "reads s2 = reads s1" "clocks s2 = clocks s1"
      using rio_write_result [OF Ret] by (auto simp: write_result_def)
    have "k = join_size" if "taking 1 (kern w)"
    proof -
      have "sent s2 (rfd rp) = sent s1 (rfd rp) @ pkt" using tk [OF that] Ret by auto
      then have "length (take k pkt) = length pkt" using k(2) by simp
      then show ?thesis using k(1) len by simp
    qed
    moreover have "sent s1 = sent (kern w)" "stream rp s2 = rest" "clocks s2 = clocks (kern w)"
      using rd(2,4) k(3,4) by (simp_all add: read_frame_def stream_def)
    ultimately show ?thesis
      using server_exchange [OF assms(1,2,5) rd(1,5) pkt Ret, of junk me] k(2) rd(3)
      by (intro disjI2 exI [of _ rp] exI [of _ s2] exI [of _ k]) simp
  next
    case (Stop h s2)
    then show ?thesis using server_exchange_stop [OF assms(1,2) rd(1,5) pkt Stop, of junk me] rio_write_Stop [OF Stop] tk by auto
  qed
qed

text \<open>
  C16. The accepting side. When the joining proxy's packet is at the front of the stream,
  \<^verbatim>\<open>initial_join_server\<close> takes exactly that packet off the stream, stores the joining
  proxy's link state with its port in host order, and answers with its own packet: with the whole of it when
  the kernel takes what is written, with a part of it when the write fails, and in both cases it
  reports success. It can only be stopped by a kernel that does not answer its write.
\<close>

theorem server_learns_client:
  assumes "lock w = rw_init" and "peers w pp = Some q" and "wf_rio (p_rio q)" and "answering (kern w)"
    and "wf_link_state (linkState w)" and "wf_link_state ls"
    and "stream (p_rio q) (kern w) = enc_initial_join_packet (join_packet ls n) @ rest"
  shows "case initial_join_server junk me pp w of
      Ret r w' \<Rightarrow> r = Some pp \<and> lock w' = rw_init \<and> (\<exists>q' k. peers w' = (peers w)(pp \<mapsto> q') \<and>
        p_ls q' = ls\<lparr>listenPort := ntohs (listenPort ls)\<rparr> \<and> stream (p_rio q') (kern w') = rest \<and>
        sent (kern w') (rfd (p_rio q)) = sent (kern w) (rfd (p_rio q)) @ take k (enc_initial_join_packet
          (join_packet ((linkState w)\<lparr>listenPort := htons (listenPort (linkState w))\<rparr>) (member_count w))) \<and>
        (taking 1 (kern w) \<longrightarrow> k = join_size))
    | Stop h w' \<Rightarrow> h = Waiting \<and> \<not> taking 1 (kern w)"
  using server_run [OF assms refl, of junk me]
proof (elim disjE exE conjE)
  fix rp s k
  assume run: "initial_join_server junk me pp w =
      Ret (Some pp) (w\<lparr>peers := (peers w)(pp \<mapsto> q\<lparr>p_rio := rp, p_ls := ls\<lparr>listenPort := ntohs (listenPort ls)\<rparr>\<rparr>), kern := s\<rparr>)"
    and "stream rp s = rest" "taking 1 (kern w) \<longrightarrow> k = join_size"
    "sent s = (sent (kern w))(rfd (p_rio q) := sent (kern w) (rfd (p_rio q)) @ take k (enc_initial_join_packet
      (join_packet ((linkState w)\<lparr>listenPort := htons (listenPort (linkState w))\<rparr>) (member_count w))))"
  then show ?thesis
    unfolding run run.case using assms(1)
    by (intro conjI exI [of _ "q\<lparr>p_rio := rp, p_ls := ls\<lparr>listenPort := ntohs (listenPort ls)\<rparr>\<rparr>"] exI [of _ k]) simp_all
qed simp

definition demo_join_os :: "link_state \<Rightarrow> os" where
  "demo_join_os ls = demo_os\<lparr>reads := [Inr (enc_initial_join_packet (join_packet ls 2))],
     writes := [Inr 2048, Inr 2048], fcntls := [None, None, None, None], clocks := [zero_ts]\<rparr>"

definition demo_join_world :: "link_state \<Rightarrow> world" where
  "demo_join_world ls = demo_world\<lparr>kern := demo_join_os ls\<rparr>"

lemma demo_ls_wf [simp]: "wf_link_state (demo_ls i)" "wf_link_state (demo_ls i\<lparr>listenPort := x\<rparr>)"
  by (simp_all add: wf_link_state_def demo_ls_def demo_mac_def size_defs)

lemma demo_join_world_simps [simp]:
  "lock (demo_join_world ls) = rw_init" "linkState (demo_join_world ls) = demo_ls 9" "kern (demo_join_world ls) = demo_join_os ls"
  "peers (demo_join_world ls) 3 = Some (demo_peer 3)" "member_count (demo_join_world ls) = member_count demo_world"
  "p_rio (demo_peer 3) = demo_rio\<lparr>rfd := 3\<rparr>" "wf_rio (demo_rio\<lparr>rfd := i\<rparr>)" "listenPort (demo_ls j) = 2000"
  by (simp_all add: demo_join_world_def demo_world_def demo_peer_def wf_rio_def demo_rio_def demo_ls_def member_count_def)

lemma demo_join_stream:
  assumes "wf_link_state ls"
  shows "stream (demo_rio\<lparr>rfd := i\<rparr>) (demo_join_os ls) = enc_initial_join_packet (join_packet ls 2) @ []"
  using join_packet_length [OF assms, of 2]
  by (auto simp: stream_def demo_join_os_def demo_rio_def RIO_BUFSZ_def size_defs join_size_def)

lemma demo_join_answering:
  assumes "wf_link_state ls"
  shows "answering (demo_join_os ls)" "answering (demo_join_os ls\<lparr>fcntls := fs, polls := [None, None, None],
    writes := ws, sent := snt, fd_lock := fl\<rparr>)"
  using join_packet_length [OF assms, of 2]
  by (auto simp: answering_def demo_join_os_def demo_os_def join_size_def)

lemma demo_join_taking: "taking 1 (demo_join_os ls)"
  by (auto simp: taking_def spare_def demo_join_os_def demo_os_def size_defs numeral_2_eq_2 intro!: exI [of _ "[2048]"])

theorem server_learns_client_witness:
  "\<exists>w' q'. initial_join_server [] 7 3 (demo_join_world (demo_ls 5)) = Ret (Some 3) w' \<and> peers w' 3 = Some q' \<and> listenPort (p_ls q') = ntohs 2000 \<and>
     sent (kern w') 3 = enc_initial_join_packet (join_packet (demo_ls 9\<lparr>listenPort := htons 2000\<rparr>) (member_count demo_world))"
proof -
  let ?pkt = "enc_initial_join_packet (join_packet (demo_ls 9\<lparr>listenPort := htons 2000\<rparr>) (member_count demo_world))"
  have "answering (demo_join_os (demo_ls 5))" by (simp add: demo_join_answering)
  moreover have "take join_size ?pkt = ?pkt" using join_packet_length [of "demo_ls 9\<lparr>listenPort := htons 2000\<rparr>" "member_count demo_world"] by simp
  moreover have "sent (demo_join_os (demo_ls 5)) = (\<lambda>_. [])" by (simp add: demo_join_os_def demo_os_def)
  ultimately show ?thesis
    using server_learns_client [of "demo_join_world (demo_ls 5)" 3 "demo_peer 3" "demo_ls 5" 2 "[]" "[]" 7]
      demo_join_stream [of "demo_ls 5" 3] demo_join_taking [of "demo_ls 5"]
    by (auto split: run.splits)
qed

text \<open>
  The joining side. When the answer of the accepting proxy is at the front of the
  stream, \<^verbatim>\<open>initial_join_client\<close> takes exactly that packet and stores in the peer the link
  state of the accepting proxy as that proxy has it in memory. Since \<^verbatim>\<open>main\<close> keeps the port
  of \<^verbatim>\<open>linkState\<close> in network order, this side holds the port in network order and the
  other side in host order.
\<close>

theorem client_learns_server:
  assumes "lock w = rw_init" and "peers w pp = Some q" and "wf_rio (p_rio q)"
    and "wf_link_state (linkState w)" and "wf_link_state ls"
    and "rio_write (p_rio q) (enc_initial_join_packet (join_packet (linkState w) (member_count w))) (kern w) = Ret r s1"
    and "answering s1"
    and "stream (p_rio q) s1 = enc_initial_join_packet (join_packet (ls\<lparr>listenPort := htons (listenPort ls)\<rparr>) n) @ rest"
  shows "\<exists>w' q'. initial_join_client me pp w = Ret (Some pp) w' \<and> lock w' = rw_init \<and>
    peers w' = (peers w)(pp \<mapsto> q') \<and> p_ls q' = ls \<and> stream (p_rio q') (kern w') = rest"
proof -
  have wf: "wf_link_state (ls\<lparr>listenPort := htons (listenPort ls)\<rparr>)"
    using assms(5) by (simp add: wf_link_state_def)
  obtain d rp s2 where rd: "rio_readnb (p_rio q) join_size s1 = Ret (int join_size, d, rp) s2" "stream rp s2 = rest"
      "\<And>old. dec_initial_join_packet (over d old) = join_packet (ls\<lparr>listenPort := htons (listenPort ls)\<rparr>) n"
    by (rule join_read_answering [OF assms(7,3,8) wf]) (rule that)
  with client_exchange [OF assms(1-4) refl assms(6) rd(1) _ rd(3)] assms(1) show ?thesis
    by (auto intro!: exI [of _ "q\<lparr>p_rio := rp, p_ls := ls\<rparr>"])
qed

lemma demo_join_write:
  "rio_write (demo_rio\<lparr>rfd := 3\<rparr>) (enc_initial_join_packet (join_packet (demo_ls 9) n)) (demo_join_os ls) =
     Ret 26 (demo_join_os ls\<lparr>fcntls := [None, None], polls := [None, None, None], writes := [Inr 2048],
       sent := (\<lambda>_. [])(3 := enc_initial_join_packet (join_packet (demo_ls 9) n)), fd_lock := \<lambda>_. F_UNLCK\<rparr>)"
  using join_packet_length [of "demo_ls 9" n]
  by (subst rio_write_one) (auto simp: demo_join_os_def demo_os_def join_size_def fun_eq_iff)

theorem client_learns_server_witness:
  "\<exists>w' q'. initial_join_client 7 3 (demo_join_world (demo_ls 5\<lparr>listenPort := htons 2000\<rparr>)) = Ret (Some 3) w' \<and>
     peers w' 3 = Some q' \<and> p_ls q' = demo_ls 5"
  using client_learns_server [of "demo_join_world (demo_ls 5\<lparr>listenPort := htons 2000\<rparr>)" 3 "demo_peer 3" "demo_ls 5",
      unfolded demo_join_world_simps, OF refl refl _ _ _ demo_join_write demo_join_answering(2), of 2 "[]" 7]
    demo_join_stream [of "demo_ls 5\<lparr>listenPort := htons 2000\<rparr>" 3]
  by (fastforce simp: stream_def)

text \<open>
  C36. The read of the answer fails. The result -1 is kept in a \<^verbatim>\<open>size_t\<close> and passes the test
  \<^verbatim>\<open><=0\<close>; the packet variable still holds the packet that was sent, so the exchange
  succeeds and the peer is given this proxy's own address.
\<close>

theorem failed_join_stores_own_address:
  assumes "lock w = rw_init" and "peers w pp = Some q" and "wf_rio (p_rio q)" and "wf_link_state (linkState w)"
    and "rio_write (p_rio q) (enc_initial_join_packet (join_packet (linkState w) (member_count w))) (kern w) = Ret r s1"
    and "rio_readnb (p_rio q) join_size s1 = Ret (-1, [], rp) s2"
  shows "\<exists>w' q'. initial_join_client me pp w = Ret (Some pp) w' \<and> peers w' = (peers w)(pp \<mapsto> q') \<and>
    tapMAC (p_ls q') = tapMAC (linkState w) \<and> IPaddr (p_ls q') = IPaddr (linkState w)"
proof -
  have "dec_initial_join_packet (over [] (enc_initial_join_packet (join_packet (linkState w) (member_count w)))) =
      join_packet (linkState w) (member_count w)"
    using join_packet_dec [OF assms(4), of _ "[]"] by (simp add: over_def)
  from client_exchange [OF assms(1-4) refl assms(5,6) _ this] show ?thesis
    by (auto simp: size_le_0_def intro!: exI [of _ "q\<lparr>p_rio := rp, p_ls := (linkState w)\<lparr>listenPort := ntohs (listenPort (linkState w))\<rparr>\<rparr>"])
qed

definition demo_broken_world :: world where
  "demo_broken_world = demo_world\<lparr>kern := (demo_join_os (demo_ls 5))\<lparr>reads := [Inl (E_OTHER 104)]\<rparr>\<rparr>"

theorem failed_join_stores_own_address_witness:
  "\<exists>w' q'. initial_join_client 7 3 demo_broken_world = Ret (Some 3) w' \<and> peers w' 3 = Some q' \<and> tapMAC (p_ls q') = demo_mac 9"
proof -
  let ?os = "demo_join_os (demo_ls 5)\<lparr>reads := [Inl (E_OTHER 104)]\<rparr>"
  let ?pkt = "enc_initial_join_packet (join_packet (demo_ls 9) (member_count demo_broken_world))"
  have sim: "lock demo_broken_world = rw_init" "linkState demo_broken_world = demo_ls 9" "kern demo_broken_world = ?os"
      "peers demo_broken_world 3 = Some (demo_peer 3)"
    by (simp_all add: demo_broken_world_def demo_world_def)
  obtain s1 where wr: "rio_write (demo_rio\<lparr>rfd := 3\<rparr>) ?pkt ?os = Ret 26 s1" and
      s1: "errno s1 = E_NONE" "polls s1 = [None, None, None]" "reads s1 = [Inl (E_OTHER 104)]"
    using join_packet_length [of "demo_ls 9" "member_count demo_broken_world"]
    by (subst (asm) rio_write_one) (auto simp: demo_join_os_def demo_os_def join_size_def)
  have tap: "tapMAC (demo_ls 9) = demo_mac 9" by (simp add: demo_ls_def)
  have "\<exists>rp s2. rio_readnb (demo_rio\<lparr>rfd := 3\<rparr>) join_size s1 = Ret (-1, [], rp) s2"
    using s1 by (simp add: rio_readnb_def rio_readnb_loop.simps rio_read_def demo_rio_def Wait_def join_size_def Let_def)
  then show ?thesis
    using failed_join_stores_own_address [of demo_broken_world 3 "demo_peer 3", unfolded sim demo_join_world_simps, OF refl refl _ _ wr, of _ _ 7]
      demo_ls_wf(1) [of 9] demo_join_world_simps(7) [of 3] tap by (elim exE) (metis fun_upd_same)
qed

lemma wf_world_new:
  assumes wf: "wf_world w xs"
  shows "brk w \<notin> set xs" and "peers w (brk w) = None"
    and "wf_world (w\<lparr>brk := brk w + 1, members := (members w)\<lparr>hh := (hh (members w))(brk w \<mapsto> h)\<rparr>, kern := s, peers := (peers w)(brk w \<mapsto> q)\<rparr>) xs"
    and "roster (w\<lparr>brk := brk w + 1, members := (members w)\<lparr>hh := (hh (members w))(brk w \<mapsto> h)\<rparr>, kern := s, peers := (peers w)(brk w \<mapsto> q)\<rparr>) xs =
      roster w xs"
proof -
  note wd = wf_worldD [OF wf]
  let ?t = "(members w)\<lparr>hh := (hh (members w))(brk w \<mapsto> h)\<rparr>"
  show none: "peers w (brk w) = None" using wf by (simp add: wf_world_def)
  then show new: "brk w \<notin> set xs" using wd(5) by fastforce
  have rep: "uh_rep ?t xs" using wd(1) new by (intro uh_rep_frame) auto
  have key: "key_at ?t x = key_at (members w) x" if "x \<in> set xs" for x
    using that new by (auto simp: key_at_def)
  let ?w = "w\<lparr>brk := brk w + 1, members := ?t, kern := s, peers := (peers w)(brk w \<mapsto> q)\<rparr>"
  show "wf_world ?w xs"
    using rep key wf new by (auto simp: wf_world_def inj_on_def)
  show "roster ?w xs = roster w xs"
    unfolding roster_def by (rule key_map_eqI) (use key wd(2) in \<open>auto simp: inj_on_def key_map_mem key_map_None\<close>)
qed

lemma adopt_joins:
  assumes wf: "wf_world w xs" and "lock w = rw_init" and fc: "fcntls (kern w) = None # None # fs"
    and rp0: "rp0 = \<lparr>rfd = f, cnt = 0, bufp = 0, buf = replicate RIO_BUFSZ 0\<rparr>"
    and "wf_link_state (linkState w)" and ls: "wf_link_state ls"
    and wr: "rio_write rp0 (enc_initial_join_packet (join_packet (linkState w) (member_count w)))
      ((kern w)\<lparr>fcntls := fs, fd_flags := (fd_flags (kern w))(f := O_NONBLOCK)\<rparr>) = Ret r s1"
    and "answering s1" and "clocks s1 = t # ts"
    and st: "stream rp0 s1 = enc_initial_join_packet (join_packet (ls\<lparr>listenPort := htons (listenPort ls)\<rparr>) n) @ rest"
    and new: "roster w xs (tapMAC ls) = None"
  shows "\<exists>w' q'. adopt me f w = Ret (Some (brk w)) w' \<and> wf_world w' (xs @ [brk w]) \<and> lock w' = rw_init \<and>
    roster w' (xs @ [brk w]) = (roster w xs)(tapMAC ls \<mapsto> brk w) \<and> peers w' = (peers w)(brk w \<mapsto> q') \<and> p_ls q' = ls \<and>
    started w' = started w @ [(timeout_tid q', Timeout_handler, brk w), (p_tid q', Eth_handler, brk w)] \<and> cancelled w' = cancelled w \<and>
    sent (kern w') = sent s1 \<and> clocks (kern w') = ts \<and> stream (p_rio q') (kern w') = rest \<and> linkState w' = linkState w"
proof -
  let ?pp = "brk w"
  define w1 where "w1 = w\<lparr>brk := brk w + 1,
    members := (members w)\<lparr>hh := (hh (members w))(?pp \<mapsto> zero_handle)\<rparr>,
    kern := (kern w)\<lparr>fcntls := fs, fd_flags := (fd_flags (kern w))(f := O_NONBLOCK)\<rparr>,
    peers := (peers w)(?pp \<mapsto> zero_peer\<lparr>p_rio := rp0\<rparr>)\<rparr>"
  have mc: "member_count w1 = member_count w" by (simp add: w1_def member_count_def HASH_COUNT_def split: option.split)
  have w1: "lock w1 = rw_init" "peers w1 ?pp = Some (zero_peer\<lparr>p_rio := rp0\<rparr>)" "linkState w1 = linkState w"
      "wf_world w1 xs" "roster w1 xs = roster w xs"
    using wf_world_new [OF wf] assms(2) by (simp_all add: w1_def)
  have wfls: "wf_link_state (ls\<lparr>listenPort := htons (listenPort ls)\<rparr>)" using ls by (simp add: wf_link_state_def)
  have wfr: "wf_rio rp0" by (simp add: rp0 wf_rio_def)
  obtain d rp s2 where rd: "rio_readnb rp0 join_size s1 = Ret (int join_size, d, rp) s2" "read_frame s1 s2" "stream rp s2 = rest"
      "\<And>old. dec_initial_join_packet (over d old) = join_packet (ls\<lparr>listenPort := htons (listenPort ls)\<rparr>) n"
    by (rule join_read_answering [OF assms(8) wfr st wfls]) (rule that)
  define q where "q = zero_peer\<lparr>p_rio := rp, p_ls := ls\<rparr>"
  define w2 where "w2 = w1\<lparr>kern := s2, peers := (peers w1)(?pp \<mapsto> q)\<rparr>"
  have "rio_write (p_rio (zero_peer\<lparr>p_rio := rp0\<rparr>)) (enc_initial_join_packet (join_packet (linkState w1) (member_count w1))) (kern w1) = Ret r s1"
    unfolding mc w1(3) using wr by (simp add: w1_def)
  from client_exchange [OF w1(1,2) _ _ refl this _ _ rd(4)] rd(1) assms(5) wfr
  have "initial_join_client me ?pp w1 = Ret (Some ?pp) w2" by (simp add: w2_def q_def w1(3))
  then have "adopt me f w = bind_run (add_member me ?pp w2) (\<lambda>_ w. Ret (Some ?pp) w)"
    using fc by (simp add: adopt_def new_peer_def in_kern_def rio_readinit_def do_fcntl_def set_peer_def Let_def w1_def rp0)
  moreover have "wf_world w2 xs"
    using wf_world_peer [OF w1(4,2), of q] wf_world_new(1) [OF wf] by (simp add: w2_def wf_world_def)
  moreover have "lock w2 = rw_init" "peers w2 ?pp = Some q" "clocks (kern w2) = t # ts" "sent (kern w2) = sent s1" "kern w2 = s2" "linkState w2 = linkState w" "started w2 = started w" "cancelled w2 = cancelled w" "peers w2 = (peers w)(?pp \<mapsto> q)"
    using w1(1) rd(2) assms(9) by (simp_all add: w2_def read_frame_def w1_def)
  moreover have "roster w2 xs = roster w xs" using w1(5) by (simp add: w2_def)
  moreover have "tapMAC (p_ls q) = tapMAC ls" by (simp add: q_def)
  ultimately obtain w' q' where "adopt me f w = Ret (Some ?pp) w'" "wf_world w' (xs @ [?pp])" "lock w' = rw_init"
      "roster w' (xs @ [?pp]) = (roster w xs)(tapMAC ls \<mapsto> ?pp)" "peers w' = (peers w)(?pp \<mapsto> q')"
      "q' = q\<lparr>timestamp := t, timeout_mutex := None, timeout_tid := next_tid w2, p_tid := next_tid w2 + 1\<rparr>"
      "started w' = started w @ [(next_tid w2, Timeout_handler, ?pp), (next_tid w2 + 1, Eth_handler, ?pp)]" "cancelled w' = cancelled w"
      "kern w' = s2\<lparr>clocks := ts\<rparr>" "sent s2 = sent s1" "linkState w' = linkState w"
    using add_member_result [of w2 xs ?pp q t ts me] wf_world_new(1) [OF wf] new by auto
  then show ?thesis by (intro exI [of _ w'] exI [of _ q']) (use rd(3) in \<open>simp add: q_def stream_def\<close>)
qed

text \<open>The link state of this proxy once its own address is known: \<open>ip\<close> is what \<^verbatim>\<open>getsockname\<close> reports.\<close>

definition with_address :: "link_state \<Rightarrow> u32 option \<Rightarrow> link_state" where
  "with_address ls ip = (if IPaddr ls = -1 then ls\<lparr>IPaddr := the ip\<rparr> else ls)"

lemma with_address_simps [simp]: "tapMAC (with_address ls ip) = tapMAC ls" "ethMAC (with_address ls ip) = ethMAC ls"
  "listenPort (with_address ls ip) = listenPort ls" "wf_link_state (with_address ls ip) = wf_link_state ls"
  by (simp_all add: with_address_def wf_link_state_def)

lemma connectbyname_run:
  assumes "wf_world w xs" and "lock w = rw_init" and "conns w = a # as"
    and "0 \<le> sockfd a" and "setsockopt_ok a" and "resolve_ok a" and "connect_ok a" and "IPaddr (linkState w) = -1 \<longrightarrow> local_addr a \<noteq> None"
    and "fcntls (kern w) = None # None # fs" and "rp0 = \<lparr>rfd = sockfd a, cnt = 0, bufp = 0, buf = replicate RIO_BUFSZ 0\<rparr>"
    and "wf_link_state (linkState w)" and "wf_link_state ls"
    and "pkt = enc_initial_join_packet (join_packet (with_address (linkState w) (local_addr a)) (member_count w))"
    and "rio_write rp0 pkt ((kern w)\<lparr>fcntls := fs, fd_flags := (fd_flags (kern w))(sockfd a := O_NONBLOCK)\<rparr>) = Ret r s1"
    and "answering s1" and "clocks s1 = t # ts"
    and "stream rp0 s1 = enc_initial_join_packet (join_packet (ls\<lparr>listenPort := htons (listenPort ls)\<rparr>) n) @ rest"
    and "roster w xs (tapMAC ls) = None"
  shows "\<exists>w' q'. connectbyname me w = Ret (Some (brk w)) w' \<and> wf_world w' (xs @ [brk w]) \<and> lock w' = rw_init \<and>
    roster w' (xs @ [brk w]) = (roster w xs)(tapMAC ls \<mapsto> brk w) \<and> peers w' = (peers w)(brk w \<mapsto> q') \<and> p_ls q' = ls \<and>
    started w' = started w @ [(timeout_tid q', Timeout_handler, brk w), (p_tid q', Eth_handler, brk w)] \<and>
    linkState w' = with_address (linkState w) (local_addr a) \<and> stream (p_rio q') (kern w') = rest \<and> clocks (kern w') = ts \<and>
    (r = int join_size \<longrightarrow> sent (kern w') = (sent (kern w))(sockfd a := sent (kern w) (sockfd a) @ pkt))"
proof -
  let ?w = "w\<lparr>conns := as, linkState := with_address (linkState w) (local_addr a)\<rparr>"
  have "connectbyname me w = adopt me (sockfd a) ?w"
    using assms(3-8) by (auto simp: connectbyname_def next_conn_def with_address_def split: option.splits)
  moreover have "wf_world ?w xs" "roster ?w xs = roster w xs" "member_count ?w = member_count w"
    using assms(1) by (simp_all add: wf_world_def roster_def member_count_def)
  moreover have "length pkt = join_size" unfolding assms(13) by (rule join_packet_length) (simp add: assms(11))
  then have "sent s1 = (sent (kern w))(sockfd a := sent (kern w) (sockfd a) @ pkt)" if "r = int join_size"
    using rio_write_result [OF assms(14)] that by (auto simp: write_result_def assms(10) join_size_def)
  moreover have "rio_write rp0 (enc_initial_join_packet (join_packet (linkState ?w) (member_count ?w)))
      ((kern ?w)\<lparr>fcntls := fs, fd_flags := (fd_flags (kern ?w))(sockfd a := O_NONBLOCK)\<rparr>) = Ret r s1"
    using assms(13,14) calculation(4) by simp
  ultimately obtain w' q' where "connectbyname me w = Ret (Some (brk w)) w'" "wf_world w' (xs @ [brk w])" "lock w' = rw_init"
      "roster w' (xs @ [brk w]) = (roster w xs)(tapMAC ls \<mapsto> brk w)" "peers w' = (peers w)(brk w \<mapsto> q')" "p_ls q' = ls"
      "started w' = started w @ [(timeout_tid q', Timeout_handler, brk w), (p_tid q', Eth_handler, brk w)]"
      "sent (kern w') = sent s1" "linkState w' = with_address (linkState w) (local_addr a)" "stream (p_rio q') (kern w') = rest" "clocks (kern w') = ts"
    using adopt_joins [of ?w xs fs rp0 "sockfd a" ls r s1 t ts n rest me] assms(2,9-12,15-18) by auto
  with \<open>r = int join_size \<Longrightarrow> sent s1 = _\<close> show ?thesis by metis
qed

text \<open>
  C17. \<^verbatim>\<open>connectbyname\<close> as a whole, from the descriptor to the membership list: when the
  connection succeeds and the accepting proxy answers with its packet, the new peer is
  allocated, holds the link state of that proxy, is found under its tap address and under
  no other, every other member keeps its entry, and the two threads of the peer start. If this proxy
  does not know its own address yet, it takes the one of the new socket, keeps it, and already
  announces it in the packet it sends; when the write succeeds exactly this packet was sent.
\<close>

theorem connectbyname_joins:
  assumes "wf_world w xs" and "lock w = rw_init" and "conns w = a # as"
    and "0 \<le> sockfd a" and "setsockopt_ok a" and "resolve_ok a" and "connect_ok a" and "IPaddr (linkState w) = -1 \<longrightarrow> local_addr a \<noteq> None"
    and "fcntls (kern w) = None # None # fs" and "rp0 = \<lparr>rfd = sockfd a, cnt = 0, bufp = 0, buf = replicate RIO_BUFSZ 0\<rparr>"
    and "wf_link_state (linkState w)" and "wf_link_state ls"
    and "pkt = enc_initial_join_packet (join_packet (with_address (linkState w) (local_addr a)) (member_count w))"
    and "rio_write rp0 pkt ((kern w)\<lparr>fcntls := fs, fd_flags := (fd_flags (kern w))(sockfd a := O_NONBLOCK)\<rparr>) = Ret r s1"
    and "answering s1" and "clocks s1 = t # ts"
    and "stream rp0 s1 = enc_initial_join_packet (join_packet (ls\<lparr>listenPort := htons (listenPort ls)\<rparr>) n) @ rest"
    and "roster w xs (tapMAC ls) = None"
  shows "\<exists>w' q'. connectbyname me w = Ret (Some (brk w)) w' \<and> wf_world w' (xs @ [brk w]) \<and> lock w' = rw_init \<and>
    roster w' (xs @ [brk w]) = (roster w xs)(tapMAC ls \<mapsto> brk w) \<and> peers w' = (peers w)(brk w \<mapsto> q') \<and> p_ls q' = ls \<and>
    started w' = started w @ [(timeout_tid q', Timeout_handler, brk w), (p_tid q', Eth_handler, brk w)] \<and>
    linkState w' = with_address (linkState w) (local_addr a) \<and> stream (p_rio q') (kern w') = rest \<and> clocks (kern w') = ts \<and>
    (r = int join_size \<longrightarrow> sent (kern w') = (sent (kern w))(sockfd a := sent (kern w) (sockfd a) @ pkt))"
  using connectbyname_run [OF assms] .

definition demo_conn_world :: world where
  "demo_conn_world = demo_world\<lparr>conns := [\<lparr>sockfd = 3, setsockopt_ok = True, resolve_ok = True, connect_ok = True, local_addr = None\<rparr>],
     kern := demo_join_os (demo_ls 5\<lparr>listenPort := htons 2000\<rparr>)\<lparr>fcntls := [None, None, None, None]\<rparr>\<rparr>"

text \<open>The first connection of a proxy that does not know its own address.\<close>

definition demo_first_world :: world where
  "demo_first_world = demo_conn_world\<lparr>linkState := demo_ls 9\<lparr>IPaddr := -1\<rparr>,
     conns := [\<lparr>sockfd = 3, setsockopt_ok = True, resolve_ok = True, connect_ok = True, local_addr = Some 77\<rparr>]\<rparr>"

theorem connectbyname_joins_witness:
  "\<exists>w' q'. connectbyname 7 demo_first_world = Ret (Some 8) w' \<and> wf_world w' [1, 2, 8] \<and> p_ls q' = demo_ls 5 \<and> peers w' 8 = Some q' \<and>
     linkState w' = demo_ls 9\<lparr>IPaddr := 77\<rparr> \<and>
     sent (kern w') 3 = enc_initial_join_packet (join_packet (demo_ls 9\<lparr>IPaddr := 77\<rparr>) (member_count demo_first_world))"
proof -
  let ?os = "demo_join_os (demo_ls 5\<lparr>listenPort := htons 2000\<rparr>)"
  let ?os' = "?os\<lparr>fcntls := [None, None], fd_flags := (fd_flags ?os)(3 := O_NONBLOCK)\<rparr>"
  let ?pkt = "enc_initial_join_packet (join_packet (demo_ls 9\<lparr>IPaddr := 77\<rparr>) (member_count demo_first_world))"
  have sim: "lock demo_first_world = rw_init" "linkState demo_first_world = demo_ls 9\<lparr>IPaddr := -1\<rparr>"
      "kern demo_first_world = ?os\<lparr>fcntls := [None, None, None, None]\<rparr>" "brk demo_first_world = 8"
      "conns demo_first_world = [\<lparr>sockfd = 3, setsockopt_ok = True, resolve_ok = True, connect_ok = True, local_addr = Some 77\<rparr>]"
    by (simp_all add: demo_first_world_def demo_conn_world_def demo_world_def)
  have wf: "wf_world demo_first_world [1, 2]" and ro: "roster demo_first_world [1, 2] = roster demo_world [1, 2]"
    using demo_world_wf by (simp_all add: wf_world_def demo_conn_world_def demo_first_world_def roster_def)
  have dr: "demo_rio\<lparr>rfd := 3\<rparr> = \<lparr>rfd = 3, cnt = 0, bufp = 0, buf = replicate RIO_BUFSZ 0\<rparr>" by (simp add: demo_rio_def)
  have wfl: "wf_link_state (demo_ls 9\<lparr>IPaddr := x\<rparr>)" for x using demo_ls_wf(1) [of 9] by (simp add: wf_link_state_def)
  obtain s1 where wr: "rio_write (demo_rio\<lparr>rfd := 3\<rparr>) ?pkt ?os' = Ret 26 s1" and
      s1: "errno s1 = E_NONE" "polls s1 = [None, None, None]" "reads s1 = reads ?os" "clocks s1 = [zero_ts]"
    using join_packet_length [OF wfl, of 77 "member_count demo_first_world"]
    by (subst (asm) rio_write_one) (auto simp: demo_join_os_def demo_os_def join_size_def)
  have st: "stream (demo_rio\<lparr>rfd := 3\<rparr>) s1 = enc_initial_join_packet (join_packet (demo_ls 5\<lparr>listenPort := htons 2000\<rparr>) 2) @ []"
    using demo_join_stream [of "demo_ls 5\<lparr>listenPort := htons 2000\<rparr>" 3] s1(3) by (simp add: stream_def)
  have "answering s1"
    using demo_join_answering(1) [of "demo_ls 5\<lparr>listenPort := htons 2000\<rparr>"] s1 by (simp add: answering_def demo_join_os_def demo_os_def)
  moreover have "roster demo_world [1, 2] (tapMAC (demo_ls 5)) = None"
    using demo_two_rep(2,3) by (simp add: roster_def key_map_def demo_world_def demo_mac_def demo_ls_def)
  moreover have "with_address (demo_ls 9\<lparr>IPaddr := -1\<rparr>) (Some 77) = demo_ls 9\<lparr>IPaddr := 77\<rparr>" by (simp add: with_address_def)
  moreover have "sent ?os = (\<lambda>_. [])" by (simp add: demo_join_os_def demo_os_def)
  ultimately obtain w' q' where "connectbyname 7 demo_first_world = Ret (Some 8) w'" "wf_world w' ([1, 2] @ [8])"
      "peers w' = (peers demo_first_world)(8 \<mapsto> q')" "p_ls q' = demo_ls 5" "linkState w' = demo_ls 9\<lparr>IPaddr := 77\<rparr>" "sent (kern w') 3 = ?pkt"
    using connectbyname_joins [of demo_first_world "[1, 2]" _ "[]" "[None, None]" "demo_rio\<lparr>rfd := 3\<rparr>" "demo_ls 5" ?pkt 26 s1 zero_ts "[]" 2 "[]" 7]
      wf wfl ro wr s1(4) st by (auto simp: sim dr join_size_def)
  then show ?thesis by auto
qed

end
