(* ===== verification/Packets.thy ===== *)
theory Packets
  imports Join
begin

text \<open>
  The handlers of the packet types (\<^verbatim>\<open>proxy.c\<close>). A handler is given the block of memory the
  payload was read into and the length field of the header. Every access to the block is
  checked: outside of it the behaviour is undefined. The results are those of the C
  functions, 0 or -1. \<^verbatim>\<open>int\<close> arithmetic is checked for overflow, unsigned arithmetic wraps.
\<close>

section \<open>Access to the payload\<close>

definition load :: "(bytes \<Rightarrow> 'a) \<Rightarrow> nat \<Rightarrow> nat \<Rightarrow> bytes \<Rightarrow> world \<Rightarrow> (world, 'a) run" where
  "load dec sz off data w = (case peek dec sz off data of None \<Rightarrow> Stop UB w | Some x \<Rightarrow> Ret x w)"

text \<open>\<^verbatim>\<open>HASH_FIND\<close> with a key inside the payload; an empty table does not look at the key.\<close>

definition find_at :: "nat \<Rightarrow> bytes \<Rightarrow> world \<Rightarrow> (world, ptr option) run" where
  "find_at off data w =
     (if head (members w) = None then Ret None w
      else bind_run (load id ETH_ALEN off data w) (\<lambda>k w. find_member k w))"

definition int_ok :: "int \<Rightarrow> bool" where
  "int_ok x \<longleftrightarrow> - (2 ^ 31) \<le> x \<and> x < 2 ^ 31"

section \<open>Data, Leave and Quit\<close>

definition Data :: "bytes \<Rightarrow> u16 \<Rightarrow> world \<Rightarrow> (world, int) run" where
  "Data data len w =
     bind_run (load id (unat len) 0 data w) (\<lambda>d w.
     bind_run (in_kern (rio_write (rio_tap w) d) w) (\<lambda>r w.
     if r \<le> 0 then Ret (-1) w else Ret 0 w))"

text \<open>\<^verbatim>\<open>tapMAC\<close> of a \<^verbatim>\<open>link_state\<close> and \<^verbatim>\<open>localMAC\<close> of a \<^verbatim>\<open>leave\<close> have the same offset, 6.\<close>

definition Leave :: "tid \<Rightarrow> bytes \<Rightarrow> u16 \<Rightarrow> world \<Rightarrow> (world, int) run" where
  "Leave me data len w =
     bind_run (in_lock (readBegin me) w) (\<lambda>_ w.
     bind_run (find_at 6 data w) (\<lambda>pp w.
     bind_run (in_lock (readEnd me) w) (\<lambda>_ w.
     bind_run (if pp \<noteq> None then remove_member me pp w else Ret () w) (\<lambda>_ w.
     Ret 0 w))))"

definition quit_header :: proxy_header where
  "quit_header = \<lparr>ph_type = ntohs QUIT, ph_length = ntohs (of_nat QUIT_LEN)\<rparr>"

definition Quit :: "tid \<Rightarrow> bytes \<Rightarrow> u16 \<Rightarrow> world \<Rightarrow> (world, int) run" where
  "Quit me data len w =
     (if len \<noteq> of_nat QUIT_LEN then Ret (-1) w
      else bind_run (load id QUIT_LEN 0 data w) (\<lambda>d w.
        let buffer = enc_proxy_header quit_header @ d in
        bind_run (in_lock (writeBegin me) w) (\<lambda>_ w.
        bind_run (HASH_ITER (\<lambda>pp w.
            bind_run (peer_write pp buffer w) (\<lambda>_ w. remove_member me (Some pp) w)) w) (\<lambda>_ w.
        bind_run (in_lock (writeEnd me) w) (\<lambda>_ w.
        bind_run (pthread_cancel (tap_tid w) w) (\<lambda>_ w.
        Stop (Exit 0) w))))))"

section \<open>Link state\<close>

text \<open>A mutex of a peer, between \<^verbatim>\<open>pthread_mutex_lock\<close> and \<^verbatim>\<open>pthread_mutex_unlock\<close>.\<close>

definition peer_mutex_lock :: "tid \<Rightarrow> ptr \<Rightarrow> world \<Rightarrow> (world, unit) run" where
  "peer_mutex_lock me p w =
     bind_run (get_peer p w) (\<lambda>q w. case timeout_mutex q of
       None \<Rightarrow> set_peer p (\<lambda>q. q\<lparr>timeout_mutex := Some me\<rparr>) w
     | Some t \<Rightarrow> Stop (if t = me then SelfDeadlock else Waiting) w)"

definition peer_mutex_unlock :: "ptr \<Rightarrow> world \<Rightarrow> (world, unit) run" where
  "peer_mutex_unlock p w = set_peer p (\<lambda>q. q\<lparr>timeout_mutex := None\<rparr>) w"

text \<open>
  One record at offset \<open>off\<close>. For an unknown address the first bytes of the record, its
  timestamp, are taken for the address of a \<^verbatim>\<open>link_state\<close>, and the time is written through
  the result of \<^verbatim>\<open>connectbyaddr\<close>, NULL or not.
\<close>

definition link_state_body :: "tid \<Rightarrow> bytes \<Rightarrow> nat \<Rightarrow> world \<Rightarrow> (world, unit) run" where
  "link_state_body me data off w =
     bind_run (load id ETH_ALEN (off + 14) data w) (\<lambda>mac w.
     if mac = tapMAC (linkState w) then Ret () w
     else
     bind_run (load u32_of 4 (off + 8) data w) (\<lambda>_ w.
     bind_run (load dec_timespec 8 off data w) (\<lambda>ID w.
     bind_run (find_at (off + 14) data w) (\<lambda>pp w. case pp of
       None \<Rightarrow>
         bind_run (load u32_of 4 off data w) (\<lambda>addr w.
         bind_run (load u16_of 2 (off + 4) data w) (\<lambda>port w.
         bind_run (connectbyaddr me addr (ntohs port) w) (\<lambda>pp w. case pp of
           None \<Rightarrow> Stop UB w
         | Some pp \<Rightarrow>
             bind_run (clock_gettime w) (\<lambda>t w. set_peer pp (\<lambda>q. q\<lparr>timestamp := t\<rparr>) w))))
     | Some pp \<Rightarrow>
         bind_run (peer_mutex_lock me pp w) (\<lambda>_ w.
         bind_run (set_peer pp (\<lambda>q. q\<lparr>timestamp :=
             \<lparr>tv_sec = ntohl (tv_sec ID), tv_nsec = ntohl (tv_nsec ID)\<rparr>\<rparr>) w) (\<lambda>_ w.
         peer_mutex_unlock pp w))))))"

fun link_state_loop :: "tid \<Rightarrow> bytes \<Rightarrow> nat \<Rightarrow> nat \<Rightarrow> world \<Rightarrow> (world, unit) run" where
  "link_state_loop me data 0 off w = Ret () w"
| "link_state_loop me data (Suc n) off w =
     bind_run (link_state_body me data off w) (\<lambda>_ w. link_state_loop me data n (off + 48) w)"

definition Link_State :: "tid \<Rightarrow> bytes \<Rightarrow> u16 \<Rightarrow> world \<Rightarrow> (world, int) run" where
  "Link_State me data len w =
     bind_run (load u16_of 2 0 data w) (\<lambda>x w.
     let N = uint (ntohs x) in
     if \<not> int_ok (N * N) \<or> \<not> int_ok (N * N + N) then Stop UB w
     else if (2 * 2 + 18 + (word_of_int (N * N + N) :: u32) * 48) \<noteq> ucast len then Ret (-1) w
     else
     bind_run (load id ETH_ALEN 8 data w) (\<lambda>mac w.
     if mac = tapMAC (linkState w) then Ret 0 w
     else
     bind_run (in_lock (writeBegin me) w) (\<lambda>_ w.
     bind_run (find_at 8 data w) (\<lambda>pp w.
     bind_run (if pp = None
         then bind_run (load u32_of 4 2 data w) (\<lambda>addr w.
           bind_run (load u16_of 2 6 data w) (\<lambda>port w. connectbyaddr me addr (ntohs port) w))
         else Ret pp w) (\<lambda>_ w.
     bind_run (link_state_loop me data (unat (word_of_int (N * N + N) :: u16)) 22 w) (\<lambda>_ w.
     bind_run (in_lock (writeEnd me) w) (\<lambda>_ w.
     Ret 0 w)))))))"

section \<open>The handlers without a body\<close>

definition RTT_Probe_Request :: "bytes \<Rightarrow> u16 \<Rightarrow> ptr \<Rightarrow> world \<Rightarrow> (world, int) run" where
  "RTT_Probe_Request data len pp w = Ret 0 w"

definition RTT_Probe_Response :: "bytes \<Rightarrow> u16 \<Rightarrow> ptr \<Rightarrow> world \<Rightarrow> (world, int) run" where
  "RTT_Probe_Response data len pp w = Ret 0 w"

definition Proxy_Public_Key :: "bytes \<Rightarrow> u16 \<Rightarrow> world \<Rightarrow> (world, int) run" where
  "Proxy_Public_Key data len w = Ret 0 w"

definition Signed_Data :: "bytes \<Rightarrow> u16 \<Rightarrow> world \<Rightarrow> (world, int) run" where
  "Signed_Data data len w = Ret 0 w"

definition Proxy_Secret_Key :: "bytes \<Rightarrow> u16 \<Rightarrow> world \<Rightarrow> (world, int) run" where
  "Proxy_Secret_Key data len w = Ret 0 w"

definition Encrypted_Data :: "bytes \<Rightarrow> u16 \<Rightarrow> world \<Rightarrow> (world, int) run" where
  "Encrypted_Data data len w = Ret 0 w"

definition Encrypted_Link_State :: "bytes \<Rightarrow> u16 \<Rightarrow> world \<Rightarrow> (world, int) run" where
  "Encrypted_Link_State data len w = Ret 0 w"

definition Signed_Link_State :: "bytes \<Rightarrow> u16 \<Rightarrow> world \<Rightarrow> (world, int) run" where
  "Signed_Link_State data len w = Ret 0 w"

section \<open>Bandwidth probes\<close>

definition Bandwidth_Probe_Request :: "bytes \<Rightarrow> u16 \<Rightarrow> ptr \<Rightarrow> world \<Rightarrow> (world, int) run" where
  "Bandwidth_Probe_Request data len pp w =
     bind_run (load dec_timespec 8 0 data w) (\<lambda>ID w.
     let bwreq = \<lparr>pr_prxyhdr = \<lparr>ph_type = htons BANDWIDTH_PROBE_RESPONSE, ph_length = htons 8\<rparr>, pr_ID = ID\<rparr> in
     bind_run (peer_write pp (enc_probe_req bwreq) w) (\<lambda>r w.
     if r < 0 then Ret (-1) w else Ret 0 w))"

text \<open>
  The elapsed time as the code computes it, in seconds and nanoseconds; \<^verbatim>\<open>time_t\<close> and
  \<^verbatim>\<open>long\<close> are signed 32-bit integers, so a difference may overflow (\<open>None\<close>).
\<close>

definition probe_elapsed :: "timespec \<Rightarrow> timespec \<Rightarrow> (int \<times> int) option" where
  "probe_elapsed ts tspkt =
     (let sec = sint (tv_sec ts) - sint (tv_sec tspkt); nsec = sint (tv_nsec ts) - sint (tv_nsec tspkt) in
      if \<not> int_ok sec \<or> \<not> int_ok nsec then None
      else if nsec < 0 then (if int_ok (sec + 1) then Some (sec + 1, nsec + 1000000000) else None)
      else Some (sec, nsec))"

text \<open>
  \<open>fl\<close> is the floating-point arithmetic of the target: from the seconds and nanoseconds
  to the bits of \<^verbatim>\<open>(float)(8*66)/(RTT/2)\<close> and of \<^verbatim>\<open>(RTT/2)/(float)(66)\<close>.
\<close>

definition Bandwidth_Probe_Response ::
    "(int \<Rightarrow> int \<Rightarrow> u32 \<times> u32) \<Rightarrow> bytes \<Rightarrow> u16 \<Rightarrow> ptr \<Rightarrow> world \<Rightarrow> (world, int) run" where
  "Bandwidth_Probe_Response fl data len pp w =
     bind_run (clock_gettime w) (\<lambda>ts w.
     bind_run (load dec_timespec 8 0 data w) (\<lambda>ID w.
     let tspkt = \<lparr>tv_sec = ntohl (tv_sec ID), tv_nsec = ntohl (tv_nsec ID)\<rparr> in
     bind_run (get_peer pp w) (\<lambda>q w.
     if tspkt = probe_ts q then (case probe_elapsed ts tspkt of
         None \<Rightarrow> Stop UB w
       | Some (sec, nsec) \<Rightarrow>
           bind_run (set_peer pp (\<lambda>q. q\<lparr>bandwidth := fst (fl sec nsec), p_linkWeight := snd (fl sec nsec)\<rparr>) w) (\<lambda>_ w.
           Ret 0 w))
     else Ret 0 w)))"

section \<open>Facts on the accesses\<close>

lemma load_id: "off + n \<le> length data \<Longrightarrow> load id n off data w = Ret (take n (drop off data)) w"
  by (simp add: load_def peek_def)

lemma roster_SomeD:
  assumes "wf_world w xs" and "roster w xs k = Some p"
  shows "p \<in> set xs" and "key_at (members w) p = k" and "\<exists>q. peers w p = Some q \<and> tapMAC (p_ls q) = k"
proof -
  have "p \<in> set xs \<and> key_at (members w) p = k" using assms(2) by (auto simp: roster_def key_map_def dest!: map_of_SomeD)
  then show p: "p \<in> set xs" and "key_at (members w) p = k" by auto
  then show "\<exists>q. peers w p = Some q \<and> tapMAC (p_ls q) = k" using wf_worldD(5) [OF assms(1) p] by auto
qed

lemma find_at_ok:
  assumes "wf_world w xs" and "off + ETH_ALEN \<le> length data"
  shows "find_at off data w = Ret (roster w xs (take ETH_ALEN (drop off data))) w"
proof (cases "head (members w)")
  case None
  then have "xs = []" using wf_worldD(1) [OF assms(1)] by (auto simp: uh_rep_def split: if_splits)
  then show ?thesis using None by (simp add: find_at_def roster_def key_map_def)
next
  case (Some p)
  then show ?thesis using load_id [OF assms(2)] find_member_ok [OF assms(1)] by (simp add: find_at_def)
qed

section \<open>Leave\<close>

lemma leave_mac: "wf_leave lv \<Longrightarrow> take ETH_ALEN (drop 6 (enc_leave lv)) = localMAC lv"
  by (simp add: enc_leave_def wf_leave_def codec_simps size_defs)

lemma Leave_enc:
  assumes "wf_world w xs" and "lock w = rw_init" and "wf_leave lv"
  shows "Leave me (enc_leave lv) len w = bind_run
      (if roster w xs (localMAC lv) \<noteq> None then remove_member me (roster w xs (localMAC lv)) w else Ret () w) (\<lambda>_ w. Ret 0 w)"
proof -
  have len: "length (enc_leave lv) = 20" using lv.enc_length [of lv] assms(3) by simp
  have same: "w\<lparr>lock := rw_init\<rparr> = w" using assms(2) by simp
  have "find_at 6 (enc_leave lv) (w\<lparr>lock := read_locked me\<rparr>) = Ret (roster w xs (localMAC lv)) (w\<lparr>lock := read_locked me\<rparr>)"
    using find_at_ok [of "w\<lparr>lock := read_locked me\<rparr>" xs 6 "enc_leave lv"] assms(1) len leave_mac [OF assms(3)]
    by (simp add: size_defs)
  then show ?thesis
    using assms(2) by (simp add: Leave_def in_lock_def same)
qed

text \<open>
  A leave packet removes exactly its sender. When the address in it belongs to a member,
  \<^verbatim>\<open>Leave\<close> returns 0, that member is gone from the list, freed, its connection closed and
  every other member keeps its entry; when it does not, nothing changes. In both cases the
  lock is released.
\<close>

theorem leave_removes_sender:
  assumes "wf_world w xs" and "lock w = rw_init" and "wf_leave lv"
  shows "\<exists>w'. Leave me (enc_leave lv) len w = Ret 0 w' \<and> lock w' = rw_init \<and>
    (case roster w xs (localMAC lv) of
       None \<Rightarrow> w' = w
     | Some pp \<Rightarrow> wf_world w' (remove1 pp xs) \<and> roster w' (remove1 pp xs) = (roster w xs)(localMAC lv := None) \<and>
         peers w' = (peers w)(pp := None) \<and> closed (kern w') = closed (kern w) @ [rfd (p_rio (the (peers w pp)))])"
proof -
  note run = Leave_enc [OF assms, of me len]
  show ?thesis
  proof (cases "roster w xs (localMAC lv)")
    case None
    then show ?thesis using run assms(2) by simp
  next
    case (Some pp)
    obtain q where q: "pp \<in> set xs" "peers w pp = Some q" "tapMAC (p_ls q) = localMAC lv"
      using roster_SomeD [OF assms(1) Some] by auto
    from remove_member_result [OF assms(1,2) q(2,1), of me] show ?thesis
      using run Some q by auto
  qed
qed

theorem leave_removes_sender_witness:
  "\<exists>w'. Leave 7 (enc_leave \<lparr>localIP = 0, localListenPort = 0, localMAC = demo_mac 1, lv_ID = zero_ts\<rparr>) 20 demo_world = Ret 0 w' \<and>
     wf_world w' [2]"
  using leave_removes_sender [OF demo_world_wf demo_world_simps(1),
      of "\<lparr>localIP = 0, localListenPort = 0, localMAC = demo_mac 1, lv_ID = zero_ts\<rparr>" 7 20] demo_roster(1)
  by (auto simp: wf_leave_def demo_mac_def size_defs)

section \<open>Quit\<close>

text \<open>
  C38. \<^verbatim>\<open>Quit\<close> ends the process only when there is no member. With members it holds the write
  lock and calls \<^verbatim>\<open>remove_member\<close>, which takes it again: after the packet was passed to the
  first member the thread waits for itself, and no other member is told.
\<close>

theorem quit_deadlocks_with_members:
  assumes "wf_world w xs" and "lock w = rw_init" and "QUIT_LEN \<le> length data"
  shows "\<exists>h w'. Quit me data (of_nat QUIT_LEN) w = Stop h w' \<and>
    (case xs of
       [] \<Rightarrow> h = Exit 0 \<and> cancelled w' = cancelled w @ [tap_tid w]
     | p # _ \<Rightarrow> h = Waiting \<or> h = SelfDeadlock \<and> members w' = members w \<and>
         (\<exists>k. sent (kern w') = (sent (kern w))(rfd (p_rio (the (peers w p))) :=
            sent (kern w) (rfd (p_rio (the (peers w p)))) @ take k (enc_proxy_header quit_header @ take QUIT_LEN data))))"
proof -
  let ?w = "w\<lparr>lock := write_locked me\<rparr>" and ?pkt = "enc_proxy_header quit_header @ take QUIT_LEN data"
  have ld: "load id QUIT_LEN 0 data w = Ret (take QUIT_LEN data) w" using load_id [of 0 QUIT_LEN data w] assms(3) by simp
  note rep = wf_worldD(1) [OF assms(1)]
  show ?thesis
  proof (cases xs)
    case Nil
    then have "HASH_ITER b ?w = Ret () ?w" for b
      using rep by (simp add: HASH_ITER_def next_of_def uh_rep_def hash_iter_loop.simps)
    then show ?thesis using Nil ld assms(2) by (simp add: Quit_def in_lock_def pthread_cancel_def)
  next
    case (Cons p ps)
    obtain q where q: "peers w p = Some q" using wf_worldD(5) [OF assms(1), of p] Cons by auto
    have hd: "head (members w) = Some p" using rep Cons by (auto simp: uh_rep_def)
    obtain n where n: "next_of (Some p) ?w = Some n" using next_of_rep [of ?w "[]" p ps] rep Cons by auto
    obtain s0 where dead: "writeBegin me (write_locked me) = Stop SelfDeadlock s0" using write_locked_nested by blast
    show ?thesis
    proof (cases "rio_write (p_rio q) ?pkt (kern w)")
      case (Ret r s)
      then show ?thesis
        using Cons q hd n dead ld assms(2) rio_write_result [OF Ret]
        by (auto simp: Quit_def in_lock_def HASH_ITER_def hash_iter_loop.simps peer_write_def in_kern_def get_peer_def
            remove_member_def write_result_def)
    next
      case (Stop h s)
      then show ?thesis
        using Cons q hd n ld assms(2) rio_write_Stop [OF Stop]
        by (auto simp: Quit_def in_lock_def HASH_ITER_def hash_iter_loop.simps peer_write_def in_kern_def get_peer_def)
    qed
  qed
qed

theorem quit_deadlocks_with_members_witness:
  "\<exists>h w'. Quit 7 (replicate 20 0) (of_nat QUIT_LEN) demo_world = Stop h w' \<and> (h = Waiting \<or> h = SelfDeadlock)"
  using quit_deadlocks_with_members [OF demo_world_wf demo_world_simps(1), of "replicate 20 0" 7]
  by (auto simp: size_defs)

section \<open>Link state\<close>

text \<open>What a record means: the time it carries becomes the timestamp of the peer it starts from.\<close>

definition host_ts :: "timespec \<Rightarrow> timespec" where
  "host_ts t = \<lparr>tv_sec = ntohl (tv_sec t), tv_nsec = ntohl (tv_nsec t)\<rparr>"

definition refresh :: "bytes \<Rightarrow> (bytes \<Rightarrow> ptr option) \<Rightarrow> link_state_record \<Rightarrow> (ptr \<Rightarrow> Peer option) \<Rightarrow> ptr \<Rightarrow> Peer option" where
  "refresh own R rec P =
     (if tapMAC (lsr_proxy1 rec) = own then P
      else case R (tapMAC (lsr_proxy1 rec)) of
        None \<Rightarrow> P
      | Some p \<Rightarrow> P(p := map_option (\<lambda>q. q\<lparr>timestamp := host_ts (lsr_ID rec)\<rparr>) (P p)))"

definition known :: "bytes \<Rightarrow> (bytes \<Rightarrow> ptr option) \<Rightarrow> link_state_record \<Rightarrow> bool" where
  "known own R rec \<longleftrightarrow> tapMAC (lsr_proxy1 rec) = own \<or> R (tapMAC (lsr_proxy1 rec)) \<noteq> None"

definition wf_record :: "link_state_record \<Rightarrow> bool" where
  "wf_record l \<longleftrightarrow> wf_link_state (lsr_proxy1 l) \<and> wf_link_state (lsr_proxy2 l)"

definition unlocked :: "world \<Rightarrow> bool" where
  "unlocked w \<longleftrightarrow> (\<forall>p q. peers w p = Some q \<longrightarrow> timeout_mutex q = None)"

lemma record_parts:
  assumes "wf_record rec"
  shows "load id ETH_ALEN (length pre + 14) (pre @ enc_link_state_record rec @ post) w = Ret (tapMAC (lsr_proxy1 rec)) w"
    and "take ETH_ALEN (drop (length pre + 14) (pre @ enc_link_state_record rec @ post)) = tapMAC (lsr_proxy1 rec)"
    and "load u32_of 4 (length pre + 8) (pre @ enc_link_state_record rec @ post) w = Ret (IPaddr (lsr_proxy1 rec)) w"
    and "load dec_timespec 8 (length pre) (pre @ enc_link_state_record rec @ post) w = Ret (lsr_ID rec) w"
    and "length (enc_link_state_record rec) = 48"
proof -
  show len: "length (enc_link_state_record rec) = 48" using lsr.enc_length [of rec] assms by (simp add: wf_record_def)
  have d: "drop (length pre + n) (pre @ enc_link_state_record rec @ post) = drop n (enc_link_state_record rec @ post)" for n
    by simp
  show mac: "take ETH_ALEN (drop (length pre + 14) (pre @ enc_link_state_record rec @ post)) = tapMAC (lsr_proxy1 rec)"
    unfolding d using assms by (simp add: enc_link_state_record_def enc_link_state_def enc_timespec_def codec_simps wf_record_def wf_link_state_def size_defs)
  then show "load id ETH_ALEN (length pre + 14) (pre @ enc_link_state_record rec @ post) w = Ret (tapMAC (lsr_proxy1 rec)) w"
    using len by (subst load_id) (simp_all add: size_defs)
  show "load u32_of 4 (length pre + 8) (pre @ enc_link_state_record rec @ post) w = Ret (IPaddr (lsr_proxy1 rec)) w"
    unfolding load_def peek_def d using len
    by (simp add: enc_link_state_record_def enc_link_state_def enc_timespec_def codec_simps)
  show "load dec_timespec 8 (length pre) (pre @ enc_link_state_record rec @ post) w = Ret (lsr_ID rec) w"
    using ts.peek_enc [where x = "lsr_ID rec" and pre = pre] by (simp add: load_def enc_link_state_record_def)
qed

lemma peer_refresh:
  assumes "peers w p = Some q" and "timeout_mutex q = None"
  shows "bind_run (peer_mutex_lock me p w) (\<lambda>_ w. bind_run (set_peer p (\<lambda>q. q\<lparr>timestamp := t\<rparr>) w) (\<lambda>_ w. peer_mutex_unlock p w)) =
    Ret () (w\<lparr>peers := (peers w)(p \<mapsto> q\<lparr>timestamp := t\<rparr>)\<rparr>)"
proof -
  have *: "q\<lparr>timestamp := t, timeout_mutex := None\<rparr> = q\<lparr>timestamp := t\<rparr>" using assms(2) by (cases q) simp
  show ?thesis
    using assms by (subst * [symmetric]) (simp add: peer_mutex_lock_def peer_mutex_unlock_def get_peer_def set_peer_def)
qed

lemma link_state_body_known:
  assumes wf: "wf_world w xs" and "wf_record rec" and "known (tapMAC (linkState w)) (roster w xs) rec" and "unlocked w"
  defines "P \<equiv> refresh (tapMAC (linkState w)) (roster w xs) rec (peers w)"
  shows "link_state_body me (pre @ enc_link_state_record rec @ post) (length pre) w = Ret () (w\<lparr>peers := P\<rparr>)"
    and "wf_world (w\<lparr>peers := P\<rparr>) xs" and "unlocked (w\<lparr>peers := P\<rparr>)"
proof -
  let ?mac = "tapMAC (lsr_proxy1 rec)" and ?data = "pre @ enc_link_state_record rec @ post"
  note parts = record_parts(1-4) [OF assms(2), where pre = pre and post = post] record_parts(5) [OF assms(2)]
  have "link_state_body me ?data (length pre) w = Ret () (w\<lparr>peers := P\<rparr>) \<and> wf_world (w\<lparr>peers := P\<rparr>) xs \<and> unlocked (w\<lparr>peers := P\<rparr>)"
  proof (cases "?mac = tapMAC (linkState w)")
    case True
    then show ?thesis using parts(1) wf assms(4) by (simp add: link_state_body_def P_def refresh_def)
  next
    case False
    then obtain p where p: "roster w xs ?mac = Some p" using assms(3) by (auto simp: known_def)
    obtain q where q: "peers w p = Some q" using roster_SomeD(3) [OF wf p] by blast
    have mx: "timeout_mutex q = None" using assms(4) q by (simp add: unlocked_def)
    have P: "P = (peers w)(p \<mapsto> q\<lparr>timestamp := host_ts (lsr_ID rec)\<rparr>)"
      using False p q by (simp add: P_def refresh_def)
    have "find_at (length pre + 14) ?data w = Ret (Some p) w"
      using find_at_ok [OF wf, of "length pre + 14" ?data] parts(2,5) p by (simp add: size_defs)
    then have "link_state_body me ?data (length pre) w = Ret () (w\<lparr>peers := P\<rparr>)"
      using False parts(1,3,4) peer_refresh [OF q mx, of me "host_ts (lsr_ID rec)"]
      by (simp add: link_state_body_def P host_ts_def)
    moreover have "wf_world (w\<lparr>peers := P\<rparr>) xs" unfolding P using wf_world_peer [OF wf q] by simp
    moreover have "unlocked (w\<lparr>peers := P\<rparr>)" unfolding P using assms(4) mx by (auto simp: unlocked_def)
    ultimately show ?thesis by blast
  qed
  then show "link_state_body me ?data (length pre) w = Ret () (w\<lparr>peers := P\<rparr>)" "wf_world (w\<lparr>peers := P\<rparr>) xs" "unlocked (w\<lparr>peers := P\<rparr>)"
    by blast+
qed

lemma link_state_loop_known:
  assumes "wf_world w xs" and "list_all wf_record recs" and "list_all (known (tapMAC (linkState w)) (roster w xs)) recs" and "unlocked w"
  defines "P \<equiv> fold (refresh (tapMAC (linkState w)) (roster w xs)) recs (peers w)"
  shows "link_state_loop me (pre @ concat (map enc_link_state_record recs) @ post) (length recs) (length pre) w = Ret () (w\<lparr>peers := P\<rparr>) \<and>
    wf_world (w\<lparr>peers := P\<rparr>) xs \<and> unlocked (w\<lparr>peers := P\<rparr>)"
  using assms(1-4) unfolding P_def
proof (induction recs arbitrary: pre w)
  case Nil
  then show ?case by simp
next
  case (Cons rec recs)
  let ?w = "w\<lparr>peers := refresh (tapMAC (linkState w)) (roster w xs) rec (peers w)\<rparr>"
  have len: "length (enc_link_state_record rec) = 48" using record_parts(5) Cons.prems(2) by simp
  have body: "link_state_body me (pre @ enc_link_state_record rec @ concat (map enc_link_state_record recs) @ post) (length pre) w = Ret () ?w"
      "wf_world ?w xs" "unlocked ?w"
    using link_state_body_known [of w xs rec] Cons.prems by simp_all
  have "link_state_loop me ((pre @ enc_link_state_record rec) @ concat (map enc_link_state_record recs) @ post) (length recs)
      (length (pre @ enc_link_state_record rec)) ?w = Ret () (?w\<lparr>peers := fold (refresh (tapMAC (linkState ?w)) (roster ?w xs)) recs (peers ?w)\<rparr>) \<and>
    wf_world (?w\<lparr>peers := fold (refresh (tapMAC (linkState ?w)) (roster ?w xs)) recs (peers ?w)\<rparr>) xs \<and>
    unlocked (?w\<lparr>peers := fold (refresh (tapMAC (linkState ?w)) (roster ?w xs)) recs (peers ?w)\<rparr>)"
    by (rule Cons.IH) (use body Cons.prems in simp_all)
  then show ?case using body(1) len by simp
qed

text \<open>The payload of a link-state packet: the number of neighbours, the source, the records.\<close>

definition ls_payload :: "u16 \<Rightarrow> link_state_source \<Rightarrow> link_state_record list \<Rightarrow> bytes" where
  "ls_payload N src recs = u16_bytes (htons N) @ enc_link_state_source src @ concat (map enc_link_state_record recs)"

definition ls_len :: "nat \<Rightarrow> nat" where "ls_len n = 22 + 48 * (n * n + n)"

lemma small_count: "ls_len n < 65536 \<Longrightarrow> n < 37"
proof (rule ccontr)
  assume "ls_len n < 65536" "\<not> n < 37"
  then have "37 * 37 \<le> n * n" by (intro mult_le_mono) auto
  with \<open>ls_len n < 65536\<close> show False by (simp add: ls_len_def)
qed

lemma ls_check_passes:
  assumes "ls_len n < 65536" and "n = unat N"
  shows "int_ok (uint N * uint N)" and "int_ok (uint N * uint N + uint N)"
    and "2 * 2 + 18 + (word_of_int (uint N * uint N + uint N) :: u32) * 48 = ucast (of_nat (ls_len n) :: u16)"
    and "unat (word_of_int (uint N * uint N + uint N) :: u16) = n * n + n"
proof -
  have N: "uint N = int n" using assms(2) by simp
  have le: "n * n + n < 65536" using assms(1) by (simp add: ls_len_def)
  have sum: "uint N * uint N + uint N = int (n * n + n)" by (simp add: N)
  have "int (n * n + n) < 65536" using le by linarith
  then show "int_ok (uint N * uint N + uint N)" unfolding sum by (simp add: int_ok_def del: of_nat_add of_nat_mult)
  have "int (n * n) < 65536" using le by linarith
  moreover have "uint N * uint N = int (n * n)" by (simp add: N)
  ultimately show "int_ok (uint N * uint N)" by (simp add: int_ok_def del: of_nat_mult)
  show "unat (word_of_int (uint N * uint N + uint N) :: u16) = n * n + n"
    unfolding sum of_int_of_nat_eq using le by (simp add: unat_of_nat del: of_nat_add of_nat_mult)
  have "(ucast (of_nat (ls_len n) :: u16) :: u32) = of_nat (ls_len n)"
    using assms(1) by (simp add: unsigned_of_nat take_bit_nat_eq_self)
  then show "2 * 2 + 18 + (word_of_int (uint N * uint N + uint N) :: u32) * 48 = ucast (of_nat (ls_len n) :: u16)"
    unfolding sum by (simp add: ls_len_def)
qed

lemma ls_payload_parts:
  assumes "wf_link_state (lss_ls src)" and "list_all wf_record recs"
  shows "load u16_of 2 0 (ls_payload N src recs) w = Ret (htons N) w"
    and "load id ETH_ALEN 8 (ls_payload N src recs) w = Ret (tapMAC (lss_ls src)) w"
    and "take ETH_ALEN (drop 8 (ls_payload N src recs)) = tapMAC (lss_ls src)"
    and "length (ls_payload N src recs) = 22 + 48 * length recs"
proof -
  have ls: "length (enc_link_state_source src) = 20" using lss.enc_length [of src] assms(1) by simp
  have "length (concat (map enc_link_state_record recs)) = length recs * 48"
    using lsr.encs_length [of recs] assms(2) by (simp add: wf_record_def [abs_def])
  then show len: "length (ls_payload N src recs) = 22 + 48 * length recs"
    using ls by (simp add: ls_payload_def codec_simps)
  show "load u16_of 2 0 (ls_payload N src recs) w = Ret (htons N) w"
    using len by (simp add: load_def peek_def ls_payload_def codec_simps)
  show mac: "take ETH_ALEN (drop 8 (ls_payload N src recs)) = tapMAC (lss_ls src)"
    using assms(1) by (simp add: ls_payload_def enc_link_state_source_def enc_link_state_def codec_simps wf_link_state_def size_defs)
  show "load id ETH_ALEN 8 (ls_payload N src recs) w = Ret (tapMAC (lss_ls src)) w"
    using len mac by (subst load_id) (simp_all add: size_defs)
qed

text \<open>Past the length check and the lookup of the source, the records are left.\<close>

lemma Link_State_enters:
  assumes wf: "wf_world w xs" and l: "lock w = rw_init" and fits: "ls_len (unat N) < 65536"
    and src: "wf_link_state (lss_ls src)" and recs: "list_all wf_record recs" "length recs = unat N * unat N + unat N"
    and k: "tapMAC (lss_ls src) \<noteq> tapMAC (linkState w)" "roster w xs (tapMAC (lss_ls src)) \<noteq> None"
  shows "Link_State me (ls_payload N src recs) (of_nat (ls_len (unat N))) w =
    bind_run (link_state_loop me (ls_payload N src recs) (length recs) 22 (w\<lparr>lock := write_locked me\<rparr>)) (\<lambda>_ w.
    bind_run (in_lock (writeEnd me) w) (\<lambda>_ w. Ret 0 w))"
proof -
  let ?w = "w\<lparr>lock := write_locked me\<rparr>"
  note parts = ls_payload_parts [OF src recs(1), where N = N]
  obtain p where p: "roster w xs (tapMAC (lss_ls src)) = Some p" using k(2) by blast
  have "find_at 8 (ls_payload N src recs) ?w = Ret (Some p) ?w"
    using find_at_ok [of ?w xs 8 "ls_payload N src recs"] wf parts(3,4) p by (simp add: size_defs)
  moreover have "in_lock (writeBegin me) w = Ret () ?w" using l by (simp add: in_lock_def)
  moreover have "(2 * 2 + 18 + (word_of_int (uint N * uint N + uint N) :: u32) * 48 \<noteq> ucast (of_nat (ls_len (unat N)) :: u16)) = False"
    using ls_check_passes(3) [OF fits refl] by blast
  ultimately show ?thesis
    using ls_check_passes(1,2,4) [OF fits refl] parts(1,2) k(1) recs(2)
    by (simp only: Link_State_def Let_def bind_run.simps ntohs_htons if_False if_True option.distinct not_True_eq_False simp_thms)
qed

lemma Link_State_known:
  assumes "wf_world w xs" and "lock w = rw_init" and "ls_len (unat N) < 65536" and "unlocked w"
    and "wf_link_state (lss_ls src)" and "list_all wf_record recs" and "length recs = unat N * unat N + unat N"
    and "tapMAC (lss_ls src) \<noteq> tapMAC (linkState w)" and "roster w xs (tapMAC (lss_ls src)) \<noteq> None"
    and "list_all (known (tapMAC (linkState w)) (roster w xs)) recs"
  defines "P \<equiv> fold (refresh (tapMAC (linkState w)) (roster w xs)) recs (peers w)"
  shows "Link_State me (ls_payload N src recs) (of_nat (ls_len (unat N))) w = Ret 0 (w\<lparr>peers := P\<rparr>) \<and> wf_world (w\<lparr>peers := P\<rparr>) xs"
proof -
  let ?w = "w\<lparr>lock := write_locked me\<rparr>" and ?pre = "u16_bytes (htons N) @ enc_link_state_source src"
  have pre: "length ?pre = 22" using lss.enc_length [of src] assms(5) by (simp add: codec_simps)
  have "ls_payload N src recs = ?pre @ concat (map enc_link_state_record recs) @ []" by (simp add: ls_payload_def)
  then have "link_state_loop me (ls_payload N src recs) (length recs) 22 ?w = Ret () (?w\<lparr>peers := P\<rparr>)" "wf_world (?w\<lparr>peers := P\<rparr>) xs"
    using link_state_loop_known [of ?w xs recs me ?pre "[]"] assms(1,4,6,10) pre
    by (simp_all add: unlocked_def P_def)
  moreover have "(w\<lparr>peers := P, lock := rw_init\<rparr>) = w\<lparr>peers := P\<rparr>" using assms(2) by simp
  ultimately show ?thesis
    using Link_State_enters [OF assms(1,2,3,5,6,7,8,9)] by (simp add: in_lock_def wf_world_def)
qed

text \<open>
  A link-state packet that fits its 16-bit length field and names only members: it is
  accepted, every record sets the timestamp of the member it starts from, in the order of
  the records, no access leaves the packet, the membership list is unchanged and the lock
  is released. A packet that this proxy itself has sent changes nothing.
\<close>

theorem link_state_refreshes:
  assumes "wf_world w xs" and "lock w = rw_init" and "ls_len (unat N) < 65536" and "unlocked w"
    and "wf_link_state (lss_ls src)" and "list_all wf_record recs" and "length recs = unat N * unat N + unat N"
    and "tapMAC (lss_ls src) \<noteq> tapMAC (linkState w) \<Longrightarrow> roster w xs (tapMAC (lss_ls src)) \<noteq> None \<and>
      list_all (known (tapMAC (linkState w)) (roster w xs)) recs"
  shows "\<exists>P. Link_State me (ls_payload N src recs) (of_nat (ls_len (unat N))) w = Ret 0 (w\<lparr>peers := P\<rparr>) \<and>
    wf_world (w\<lparr>peers := P\<rparr>) xs \<and>
    P = (if tapMAC (lss_ls src) = tapMAC (linkState w) then peers w
         else fold (refresh (tapMAC (linkState w)) (roster w xs)) recs (peers w))"
proof (cases "tapMAC (lss_ls src) = tapMAC (linkState w)")
  case True
  note parts = ls_payload_parts [OF assms(5,6), where N = N]
  have "(2 * 2 + 18 + (word_of_int (uint N * uint N + uint N) :: u32) * 48 \<noteq> ucast (of_nat (ls_len (unat N)) :: u16)) = False"
    using ls_check_passes(3) [OF assms(3) refl] by blast
  then have "Link_State me (ls_payload N src recs) (of_nat (ls_len (unat N))) w = Ret 0 w"
    using True ls_check_passes(1,2) [OF assms(3) refl] parts(1,2)
    by (simp only: Link_State_def Let_def bind_run.simps ntohs_htons if_False if_True simp_thms)
  then show ?thesis using True assms(1) by simp
next
  case False
  then show ?thesis using Link_State_known [OF assms(1-7) False] assms(8) [OF False] by auto
qed

definition demo_source :: "nat \<Rightarrow> link_state_source" where
  "demo_source i = \<lparr>lss_ls = demo_ls i, lss_numNbrs = htons 1\<rparr>"

definition demo_record :: "nat \<Rightarrow> nat \<Rightarrow> link_state_record" where
  "demo_record i j = \<lparr>lsr_ID = \<lparr>tv_sec = htonl 77, tv_nsec = 0\<rparr>, lsr_proxy1 = demo_ls i, lsr_proxy2 = demo_ls j, lsr_linkWeight = 0\<rparr>"

lemma demo_record_wf [simp]: "wf_record (demo_record i j)" "wf_link_state (lss_ls (demo_source i))"
  by (simp_all add: wf_record_def demo_record_def demo_source_def)

lemma demo_records:
  "tapMAC (linkState demo_world) = demo_mac 9" "tapMAC (lss_ls (demo_source i)) = demo_mac i"
  "tapMAC (lsr_proxy1 (demo_record i j)) = demo_mac i" "unlocked demo_world"
  "roster demo_world [1, 2] (demo_mac 2) = Some 2" "roster demo_world [1, 2] (demo_mac 5) = None"
  "demo_mac 1 \<noteq> demo_mac 9" "demo_mac 2 \<noteq> demo_mac 9" "demo_mac 5 \<noteq> demo_mac 9"
  using demo_two_rep(2,3)
  by (auto simp: demo_world_def demo_ls_def demo_source_def demo_record_def unlocked_def demo_peer_def zero_peer_def
      roster_def key_map_def demo_mac_def split: if_splits)

theorem link_state_refreshes_witness:
  "\<exists>P. Link_State 7 (ls_payload 1 (demo_source 1) [demo_record 1 9, demo_record 2 9]) (of_nat (ls_len (unat (1 :: u16)))) demo_world =
     Ret 0 (demo_world\<lparr>peers := P\<rparr>) \<and> map_option timestamp (P 2) = Some \<lparr>tv_sec = 77, tv_nsec = ntohl 0\<rparr>"
  using link_state_refreshes [OF demo_world_wf demo_world_simps(1), of 1 "demo_source 1" "[demo_record 1 9, demo_record 2 9]" 7]
  by (simp add: demo_records demo_roster known_def refresh_def ls_len_def demo_world_simps host_ts_def del: One_nat_def)
    (simp add: demo_record_def, rule exI, rule conjI, rule refl, simp)

text \<open>The loop reads as many records as it counts.\<close>

lemma load_RetD: "load dec sz off data w = Ret x w' \<Longrightarrow> off + sz \<le> length data \<and> w' = w"
  by (auto simp: load_def peek_def split: if_splits)

lemma link_state_loop_extent:
  "link_state_loop me data n off w = Ret u w' \<Longrightarrow> n = 0 \<or> off + 48 * (n - 1) + 20 \<le> length data"
proof (induction n arbitrary: off w)
  case (Suc n)
  obtain w1 where b: "link_state_body me data off w = Ret () w1" and r: "link_state_loop me data n (off + 48) w1 = Ret u w'"
    using Suc.prems by (auto simp: bind_run_Ret_iff)
  have "off + 14 + 6 \<le> length data"
    using b by (auto simp: link_state_body_def bind_run_Ret_iff size_defs dest!: load_RetD)
  with Suc.IH [OF r] show ?case by (cases n) auto
qed simp

text \<open>
  The length check of \<^verbatim>\<open>Link_State\<close> wraps around: a packet of 25718 bytes that announces
  13377 neighbours passes it, although 178957506 records are far more than it holds. The
  record counter is cut to 16 bits and asks for 44226 records; the handler never returns,
  because it leaves the packet, or deadlocks or waits before that.
\<close>

theorem link_state_length_check_wraps:
  assumes "length data = 25718" and "u16_of data = htons 13377" and "take ETH_ALEN (drop 8 data) \<noteq> tapMAC (linkState w)"
  shows "\<exists>h w'. Link_State me data 25718 w = Stop h w'"
proof (rule ccontr)
  assume no: "\<nexists>h w'. Link_State me data 25718 w = Stop h w'"
  have "u16_of (take 2 data) = htons 13377"
    using u16_of_append [of "take 2 data" "drop 2 data"] assms(1,2) by simp
  then have l1: "load u16_of 2 0 data w = Ret (htons 13377) w"
    using assms(1) by (simp add: load_def peek_def)
  have l2: "load id ETH_ALEN 8 data w = Ret (take ETH_ALEN (drop 8 data)) w"
    using assms(1) by (subst load_id) (simp_all add: size_defs)
  have N: "uint (13377 :: u16) = 13377" "int_ok (13377 * 13377)" "int_ok (13377 * 13377 + 13377)"
      "2 * 2 + 18 + (word_of_int (13377 * 13377 + 13377) :: u32) * 48 = ucast (25718 :: u16)"
      "unat (word_of_int (13377 * 13377 + 13377) :: u16) = 44226"
    by (simp_all add: int_ok_def)
  obtain r w' where "Link_State me data 25718 w = Ret r w'" using no by (cases "Link_State me data 25718 w") auto
  then obtain w1 w2 where "link_state_loop me data 44226 22 w1 = Ret () w2"
    using assms(3) unfolding Link_State_def l1 Let_def bind_run.simps ntohs_htons N
    by (auto simp: l2 bind_run_Ret_iff int_ok_def split: if_splits)
  from link_state_loop_extent [OF this] show False using assms(1) by simp
qed

theorem link_state_length_check_wraps_witness:
  "\<exists>h w'. Link_State 7 (u16_bytes (htons 13377) @ replicate 25716 0) 25718 demo_world = Stop h w'"
proof (rule link_state_length_check_wraps)
  have "take ETH_ALEN (drop 8 (u16_bytes (htons 13377) @ replicate 25716 0)) = replicate 6 0"
    by (simp add: codec_simps size_defs)
  moreover have "demo_mac 9 \<noteq> replicate 6 0" by (simp add: demo_mac_def numeral_eq_Suc)
  ultimately show "take ETH_ALEN (drop 8 (u16_bytes (htons 13377) @ replicate 25716 0)) \<noteq> tapMAC (linkState demo_world)"
    by (simp add: demo_records)
qed (simp_all add: codec_simps)

lemma link_state_loop_add:
  "link_state_loop me data (n + m) off w = bind_run (link_state_loop me data n off w) (\<lambda>_ w. link_state_loop me data m (off + 48 * n) w)"
proof (induction n arbitrary: off w)
  case (Suc n)
  have "bind_run (link_state_body me data off w) (\<lambda>_ w. link_state_loop me data (n + m) (off + 48) w) =
      bind_run (link_state_body me data off w) (\<lambda>_ w. bind_run (link_state_loop me data n (off + 48) w)
        (\<lambda>_ w. link_state_loop me data m (off + 48 + 48 * n) w))"
    by (rule bind_run_cong [OF refl]) (rule Suc.IH)
  then show ?case by (simp add: bind_run_assoc add.assoc)
qed simp

lemma link_state_body_unknown:
  assumes wf: "wf_world w xs" and "wf_record rec" and "\<not> known (tapMAC (linkState w)) (roster w xs) rec"
    and "conns w = a # as" and "sockfd a \<noteq> 0"
  shows "\<exists>w'. link_state_body me (pre @ enc_link_state_record rec @ post) (length pre) w = Stop UB w'"
proof -
  let ?data = "pre @ enc_link_state_record rec @ post"
  note parts = record_parts(1-4) [OF assms(2), where pre = pre and post = post] record_parts(5) [OF assms(2)]
  have "find_at (length pre + 14) ?data w = Ret None w"
    using find_at_ok [OF wf, of "length pre + 14" ?data] parts(2,5) assms(3) by (simp add: size_defs known_def)
  moreover have "\<exists>x. load u32_of 4 (length pre) ?data w = Ret x w" "\<exists>x. load u16_of 2 (length pre + 4) ?data w = Ret x w"
    using parts(5) by (simp_all add: load_def peek_def)
  ultimately show ?thesis
    using parts(1,3,4) assms(3,4,5) by (auto simp: link_state_body_def known_def connectbyaddr_def next_conn_def)
qed

text \<open>
  A link-state packet with a record of an address that is neither a member nor this
  proxy, after records of members: any descriptor that \<^verbatim>\<open>socket\<close> returns, except 0, is
  taken for an error by \<^verbatim>\<open>connectbyaddr\<close>, and the timestamp of the peer is written through
  the NULL pointer it returns.
\<close>

theorem link_state_unknown_address_undefined:
  assumes "wf_world w xs" and "lock w = rw_init" and "ls_len (unat N) < 65536" and "unlocked w"
    and "wf_link_state (lss_ls src)" and "list_all wf_record (recs @ rec # recs')"
    and "length (recs @ rec # recs') = unat N * unat N + unat N"
    and "tapMAC (lss_ls src) \<noteq> tapMAC (linkState w)" and "roster w xs (tapMAC (lss_ls src)) \<noteq> None"
    and "list_all (known (tapMAC (linkState w)) (roster w xs)) recs" and "\<not> known (tapMAC (linkState w)) (roster w xs) rec"
    and "conns w = a # as" and "sockfd a \<noteq> 0"
  shows "\<exists>w'. Link_State me (ls_payload N src (recs @ rec # recs')) (of_nat (ls_len (unat N))) w = Stop UB w'"
proof -
  let ?w = "w\<lparr>lock := write_locked me\<rparr>" and ?pre = "u16_bytes (htons N) @ enc_link_state_source src"
  let ?P = "fold (refresh (tapMAC (linkState w)) (roster w xs)) recs (peers w)"
  let ?tl = "concat (map enc_link_state_record recs')"
  let ?data = "ls_payload N src (recs @ rec # recs')"
  have lens: "length (enc_link_state_source src) = 20" using lss.enc_length [of src] assms(5) by simp
  have pre: "length ?pre = 22" using lens by (simp add: codec_simps)
  have mid: "length (concat (map enc_link_state_record recs)) = length recs * 48"
    using lsr.encs_length [of recs] assms(6) by (simp add: wf_record_def [abs_def])
  have d1: "?data = ?pre @ concat (map enc_link_state_record recs) @ (enc_link_state_record rec @ ?tl)"
   and d2: "?data = (?pre @ concat (map enc_link_state_record recs)) @ enc_link_state_record rec @ ?tl"
    by (simp_all add: ls_payload_def)
  have "link_state_loop me ?data (length recs) 22 ?w = Ret () (?w\<lparr>peers := ?P\<rparr>)" "wf_world (?w\<lparr>peers := ?P\<rparr>) xs"
    using link_state_loop_known [of ?w xs recs me ?pre "enc_link_state_record rec @ ?tl"] assms(1,4,6,10) pre
    by (simp_all add: unlocked_def d1)
  moreover have "\<exists>w'. link_state_body me ?data (22 + 48 * length recs) (?w\<lparr>peers := ?P\<rparr>) = Stop UB w'"
    using link_state_body_unknown [of "?w\<lparr>peers := ?P\<rparr>" xs rec a as me "?pre @ concat (map enc_link_state_record recs)" ?tl]
      assms(6,11,12,13) calculation(2) lens mid by (simp add: d2 mult.commute codec_simps)
  ultimately have "\<exists>w'. link_state_loop me ?data (length recs + Suc (length recs')) 22 ?w = Stop UB w'"
    by (subst link_state_loop_add) auto
  then show ?thesis
    using Link_State_enters [OF assms(1,2,3,5,6,7,8,9), of me] by auto
qed

definition demo_stranger_world :: world where
  "demo_stranger_world = demo_world\<lparr>conns := [\<lparr>sockfd = 5, setsockopt_ok = True, resolve_ok = True, connect_ok = True, local_addr = None\<rparr>]\<rparr>"

theorem link_state_unknown_address_undefined_witness:
  "\<exists>w'. Link_State 7 (ls_payload 1 (demo_source 1) [demo_record 1 9, demo_record 5 9]) (of_nat (ls_len (unat (1 :: u16)))) demo_stranger_world = Stop UB w'"
proof -
  have "wf_world demo_stranger_world [1, 2]" "roster demo_stranger_world [1, 2] = roster demo_world [1, 2]" "lock demo_stranger_world = rw_init"
      "unlocked demo_stranger_world" "linkState demo_stranger_world = linkState demo_world"
      "conns demo_stranger_world = [\<lparr>sockfd = 5, setsockopt_ok = True, resolve_ok = True, connect_ok = True, local_addr = None\<rparr>]"
    using demo_world_wf demo_records(4) demo_world_simps(1)
    by (simp_all add: demo_stranger_world_def wf_world_def roster_def unlocked_def)
  then show ?thesis
    using link_state_unknown_address_undefined [of demo_stranger_world "[1, 2]" 1 "demo_source 1" "[demo_record 1 9]" "demo_record 5 9" "[]" _ _ 7]
    by (simp add: demo_records demo_roster known_def ls_len_def del: One_nat_def)
qed

section \<open>Bandwidth probes\<close>

definition ns_of :: "timespec \<Rightarrow> int" where
  "ns_of t = sint (tv_sec t) * 1000000000 + sint (tv_nsec t)"

text \<open>
  The round-trip time that \<^verbatim>\<open>Bandwidth_Probe_Response\<close> computes from two well-formed
  times: it is exact while the nanoseconds do not need a borrow; with a borrow the code
  adds a second where one has to be taken away, and the result is two seconds too long.
\<close>

theorem probe_elapsed_borrow_adds_two_seconds:
  assumes "probe_elapsed ts tspkt = Some (sec, nsec)"
  shows "sec * 1000000000 + nsec =
    ns_of ts - ns_of tspkt + (if sint (tv_nsec ts) < sint (tv_nsec tspkt) then 2000000000 else 0)"
  using assms by (auto simp: probe_elapsed_def Let_def ns_of_def algebra_simps split: if_splits)

theorem probe_elapsed_borrow_adds_two_seconds_witness:
  "probe_elapsed \<lparr>tv_sec = 11, tv_nsec = 100\<rparr> \<lparr>tv_sec = 10, tv_nsec = 200\<rparr> = Some (2, 999999900) \<and>
   (2 * 1000000000 + 999999900 :: int) = ns_of \<lparr>tv_sec = 11, tv_nsec = 100\<rparr> - ns_of \<lparr>tv_sec = 10, tv_nsec = 200\<rparr> + 2000000000"
proof
  show *: "probe_elapsed \<lparr>tv_sec = 11, tv_nsec = 100\<rparr> \<lparr>tv_sec = 10, tv_nsec = 200\<rparr> = Some (2, 999999900)"
    by (simp add: probe_elapsed_def int_ok_def)
  show "(2 * 1000000000 + 999999900 :: int) = ns_of \<lparr>tv_sec = 11, tv_nsec = 100\<rparr> - ns_of \<lparr>tv_sec = 10, tv_nsec = 200\<rparr> + 2000000000"
    using probe_elapsed_borrow_adds_two_seconds [OF *] by simp
qed

text \<open>What a proxy answers to a probe is recognised by the proxy that sent it.\<close>

lemma probe_echo:
  assumes "peers w pp = Some q" and "data = enc_timespec \<lparr>tv_sec = htonl (tv_sec t), tv_nsec = htonl (tv_nsec t)\<rparr>"
    and "rio_write (p_rio q) (enc_probe_req \<lparr>pr_prxyhdr = \<lparr>ph_type = htons BANDWIDTH_PROBE_RESPONSE, ph_length = htons 8\<rparr>,
      pr_ID = \<lparr>tv_sec = htonl (tv_sec t), tv_nsec = htonl (tv_nsec t)\<rparr>\<rparr>) (kern w) = Ret r s"
  shows "Bandwidth_Probe_Request data len pp w = Ret (if r < 0 then -1 else 0) (w\<lparr>kern := s\<rparr>)"
  using assms ts.peek_enc [where pre = "[]" and off = 0 and post = "[]" and x = "\<lparr>tv_sec = htonl (tv_sec t), tv_nsec = htonl (tv_nsec t)\<rparr>"]
  by (simp add: Bandwidth_Probe_Request_def load_def peer_write_def get_peer_def in_kern_def)

text \<open>
  The probe exchange: the answer to a probe, handed to the prober, is matched with the
  probe it remembers; it then stores the bandwidth and the weight of the measured time, and
  an answer with any other time changes nothing of the peer.
\<close>

theorem probe_response_matched:
  assumes "peers w pp = Some q" and "clocks (kern w) = ts # cs" and "probe_elapsed ts t = Some (sec, nsec)"
    and "data = enc_timespec \<lparr>tv_sec = htonl (tv_sec t), tv_nsec = htonl (tv_nsec t)\<rparr>"
  shows "\<exists>w'. Bandwidth_Probe_Response fl data len pp w = Ret 0 w' \<and> members w' = members w \<and>
    peers w' = (if t = probe_ts q then (peers w)(pp \<mapsto> q\<lparr>bandwidth := fst (fl sec nsec), p_linkWeight := snd (fl sec nsec)\<rparr>)
      else peers w)"
proof -
  have ld: "load dec_timespec 8 0 data w' = Ret \<lparr>tv_sec = htonl (tv_sec t), tv_nsec = htonl (tv_nsec t)\<rparr> w'" for w'
    using ts.peek_enc [where pre = "[]" and off = 0 and post = "[]" and x = "\<lparr>tv_sec = htonl (tv_sec t), tv_nsec = htonl (tv_nsec t)\<rparr>"]
    by (simp add: load_def assms(4))
  have ext: "\<lparr>tv_sec = tv_sec x, tv_nsec = tv_nsec x\<rparr> = x" for x :: timespec by (cases x) simp
  show ?thesis
    using assms(1,2,3)
    by (cases "t = probe_ts q") (auto simp: ext Bandwidth_Probe_Response_def clock_gettime_def ld get_peer_def set_peer_def Let_def)
qed

theorem probe_response_matched_witness:
  "\<exists>w' q'. Bandwidth_Probe_Response (\<lambda>s n. (5, 6)) (enc_timespec \<lparr>tv_sec = htonl 0, tv_nsec = htonl 0\<rparr>) 8 1 demo_world = Ret 0 w' \<and>
     peers w' 1 = Some q' \<and> bandwidth q' = 5"
  using probe_response_matched [of demo_world 1 "demo_peer 1" zero_ts "[zero_ts]" zero_ts 0 0
      "enc_timespec \<lparr>tv_sec = htonl 0, tv_nsec = htonl 0\<rparr>" "\<lambda>s n. (5, 6)" 8]
  by (auto simp: demo_world_simps probe_elapsed_def zero_ts_def int_ok_def demo_peer_def zero_peer_def)

end
