(* ===== verification/Delivery.thy ===== *)
theory Delivery
  imports Packets
begin

text \<open>
  Loops that send something to every member and drop the members that cannot be reached.
  Several handlers have such a loop, with different packets, different tests of the result
  and a different order of the steps that drop a member; what the loops rely on is stated
  as an interface, and the outcome of the whole loop is proved from it once.
\<close>

definition fd_of :: "world \<Rightarrow> ptr \<Rightarrow> fd" where
  "fd_of w p = rfd (p_rio (the (peers w p)))"

text \<open>
  \<open>I\<close> is what the body needs of the state, \<open>R q q' bs\<close> what it does for a member it keeps:
  \<open>bs\<close> was sent completely and \<open>q'\<close> is the peer afterwards.
\<close>

locale delivery =
  fixes I :: "world \<Rightarrow> bool" and R :: "Peer \<Rightarrow> Peer \<Rightarrow> bytes \<Rightarrow> bool" and body :: "ptr \<Rightarrow> world \<Rightarrow> (world, unit) run"
  assumes body_result: "I w \<Longrightarrow> wf_world w xs \<Longrightarrow> peers w p = Some q \<Longrightarrow> p \<in> set xs \<Longrightarrow>
    case body p w of
      Stop h w' \<Rightarrow> h = Waiting
    | Ret _ w' \<Rightarrow> I w' \<and> lock w' = lock w \<and>
        (\<exists>bs. sent (kern w') = (sent (kern w))(rfd (p_rio q) := sent (kern w) (rfd (p_rio q)) @ bs) \<and>
        ((\<exists>q'. wf_world w' xs \<and> peers w' = (peers w)(p \<mapsto> q') \<and> R q q' bs) \<or>
         wf_world w' (remove1 p xs) \<and> peers w' = (peers w)(p := None)))"
begin

text \<open>
  The state of the loop over \<open>xs\<close>, started in \<open>w0\<close>, when \<open>zs\<close> are left; \<open>ys\<close> are the members
  served and kept.
\<close>

definition served :: "world \<Rightarrow> ptr list \<Rightarrow> ptr list \<Rightarrow> ptr list \<Rightarrow> world \<Rightarrow> bool" where
  "served w0 xs ys zs w \<longleftrightarrow> I w \<and> wf_world w (ys @ zs) \<and> lock w = lock w0 \<and>
     (\<exists>us. xs = us @ zs \<and> set ys \<subseteq> set us \<and> (\<forall>p\<in>set us - set ys. peers w p = None)) \<and>
     (\<forall>p\<in>set ys. \<exists>q q' bs. peers w0 p = Some q \<and> peers w p = Some q' \<and> R q q' bs \<and>
        sent (kern w) (fd_of w0 p) = sent (kern w0) (fd_of w0 p) @ bs) \<and>
     (\<forall>p\<in>set zs. peers w p = peers w0 p \<and> sent (kern w) (fd_of w0 p) = sent (kern w0) (fd_of w0 p)) \<and>
     (\<forall>p. p \<notin> set xs \<longrightarrow> peers w p = peers w0 p)"

lemma served_step:
  assumes sv: "served w0 xs ys (p # zs) w" and inj: "inj_on (fd_of w0) (set xs)" and d: "distinct xs"
    and q: "peers w0 p = Some q"
  shows "case body p w of Stop h w' \<Rightarrow> h = Waiting
    | Ret _ w' \<Rightarrow> served w0 xs (ys @ [p]) zs w' \<or> served w0 xs ys zs w'"
proof -
  obtain us where us: "xs = us @ p # zs" "set ys \<subseteq> set us" "\<forall>x\<in>set us - set ys. peers w x = None"
    using sv by (auto simp: served_def)
  have wf: "I w" "wf_world w (ys @ p # zs)" and qw: "peers w p = Some q" using sv q by (auto simp: served_def)
  have f: "fd_of w0 p = rfd (p_rio q)" by (simp add: fd_of_def q)
  have new: "p \<notin> set ys \<union> set zs" using us d by auto
  have r1: "remove1 p (ys @ p # zs) = ys @ zs" using new by (auto simp: remove1_append)
  have br: "case body p w of
      Stop h w' \<Rightarrow> h = Waiting
    | Ret _ w' \<Rightarrow> I w' \<and> lock w' = lock w \<and>
        (\<exists>bs. sent (kern w') = (sent (kern w))(rfd (p_rio q) := sent (kern w) (rfd (p_rio q)) @ bs) \<and>
        ((\<exists>q'. wf_world w' (ys @ p # zs) \<and> peers w' = (peers w)(p \<mapsto> q') \<and> R q q' bs) \<or>
         wf_world w' (ys @ zs) \<and> peers w' = (peers w)(p := None)))"
    using body_result [OF wf qw] unfolding r1 by simp
  show ?thesis
  proof (cases "body p w")
    case (Ret u w')
    obtain bs where w': "I w'" "lock w' = lock w" "sent (kern w') = (sent (kern w))(fd_of w0 p := sent (kern w) (fd_of w0 p) @ bs)"
        "(\<exists>q'. wf_world w' (ys @ p # zs) \<and> peers w' = (peers w)(p \<mapsto> q') \<and> R q q' bs) \<or> wf_world w' (ys @ zs) \<and> peers w' = (peers w)(p := None)"
      using br by (auto simp: Ret f)
    have "inj_on (fd_of w0) (set us \<union> {p} \<union> set zs)" using inj us(1) by simp
    then have other: "fd_of w0 x \<noteq> fd_of w0 p" if "x \<in> set ys \<or> x \<in> set zs" for x
      using that us d by (auto simp: inj_on_def)
    have s: "sent (kern w') (fd_of w0 x) = sent (kern w) (fd_of w0 x)" if "x \<in> set ys \<or> x \<in> set zs" for x
      using other [OF that] w'(3) by simp
    have us': "xs = (us @ [p]) @ zs" using us(1) by simp
    from w'(4) have "served w0 xs (ys @ [p]) zs w' \<or> served w0 xs ys zs w'"
    proof (elim disjE exE)
      fix q' assume a: "wf_world w' (ys @ p # zs) \<and> peers w' = (peers w)(p \<mapsto> q') \<and> R q q' bs"
      have "sent (kern w') (fd_of w0 p) = sent (kern w0) (fd_of w0 p) @ bs" using w'(3) sv by (simp add: served_def)
      moreover have "\<exists>us'. xs = us' @ zs \<and> set (ys @ [p]) \<subseteq> set us' \<and> (\<forall>x\<in>set us' - set (ys @ [p]). peers w' x = None)"
        using us us' a by (intro exI [of _ "us @ [p]"]) auto
      ultimately have "served w0 xs (ys @ [p]) zs w'"
        unfolding served_def using a sv w'(1,2) s q new us(1) by (auto simp: served_def)
      then show ?thesis ..
    next
      assume a: "wf_world w' (ys @ zs) \<and> peers w' = (peers w)(p := None)"
      have "\<exists>us'. xs = us' @ zs \<and> set ys \<subseteq> set us' \<and> (\<forall>x\<in>set us' - set ys. peers w' x = None)"
        using us us' a by (intro exI [of _ "us @ [p]"]) auto
      then have "served w0 xs ys zs w'"
        unfolding served_def using a sv w'(1,2) s new us(1) by (auto simp: served_def)
      then show ?thesis ..
    qed
    then show ?thesis by (simp add: Ret)
  next
    case (Stop h w')
    then show ?thesis using br by simp
  qed
qed

text \<open>The whole loop: the members \<open>ys\<close> are left, each of them served.\<close>

lemma loop_result:
  assumes "I w" and wf: "wf_world w xs" and inj: "inj_on (fd_of w) (set xs)"
  shows "case HASH_ITER body w of
      Ret _ w' \<Rightarrow> I w' \<and> lock w' = lock w \<and> (\<exists>ys. set ys \<subseteq> set xs \<and> wf_world w' ys \<and>
        (\<forall>p\<in>set ys. \<exists>q q' bs. peers w p = Some q \<and> peers w' p = Some q' \<and> R q q' bs \<and>
           sent (kern w') (fd_of w p) = sent (kern w) (fd_of w p) @ bs) \<and>
        (\<forall>p\<in>set xs - set ys. peers w' p = None)) \<and> (\<forall>p. p \<notin> set xs \<longrightarrow> peers w' p = peers w p)
    | Stop h w' \<Rightarrow> h = Waiting"
proof -
  have "case HASH_ITER body w of Ret _ w' \<Rightarrow> \<exists>ys. served w xs ys [] w' | Stop h w' \<Rightarrow> h = Waiting"
  proof (rule HASH_ITER_rule [where Q = "\<lambda>zs w'. \<exists>ys. served w xs ys zs w'" and E = "\<lambda>h w'. h = Waiting"])
    show "uh_rep (members w) xs" by (rule wf_worldD(1) [OF wf])
    show "\<exists>ys. served w xs ys xs w" using assms(1,2) by (intro exI [of _ "[]"]) (simp add: served_def)
  next
    fix zs w' assume "\<exists>ys. served w xs ys zs w'"
    then show "\<exists>ys. uh_rep (members w') (ys @ zs)" using wf_worldD(1) by (auto simp: served_def)
  next
    fix p zs w' assume "\<exists>ys. served w xs ys (p # zs) w'"
    then obtain ys where sv: "served w xs ys (p # zs) w'" ..
    then have "p \<in> set xs" by (auto simp: served_def)
    then obtain q where "peers w p = Some q" using wf_worldD(5) [OF wf] by blast
    from served_step [OF sv inj wf_worldD(3) [OF wf] this]
    show "(\<exists>w''. body p w' = Ret () w'' \<and> (\<exists>ys. served w xs ys zs w'')) \<or> (\<exists>h w''. body p w' = Stop h w'' \<and> h = Waiting)"
      by (cases "body p w'") auto
  qed
  then show ?thesis by (cases "HASH_ITER body w") (fastforce simp: served_def)+
qed

end

text \<open>What a write to a member does to the descriptor, in the form the loops need.\<close>

lemma peer_write_cases:
  assumes "peers w pp = Some q"
  shows "case peer_write pp pkt w of
      Stop h w' \<Rightarrow> h = Waiting
    | Ret r w' \<Rightarrow> \<exists>s k. w' = w\<lparr>kern := s\<rparr> \<and> closed s = closed (kern w) \<and> reads s = reads (kern w) \<and>
        sent s = (sent (kern w))(rfd (p_rio q) := sent (kern w) (rfd (p_rio q)) @ take k pkt) \<and>
        (r = -1 \<or> r = int (length pkt) \<and> take k pkt = pkt)"
proof (cases "rio_write (p_rio q) pkt (kern w)")
  case (Ret r s)
  then show ?thesis
    using rio_write_result [OF Ret] assms by (auto simp: peer_write_def get_peer_def in_kern_def write_result_def)
next
  case (Stop h s)
  then show ?thesis using rio_write_Stop [OF Stop] assms by (simp add: peer_write_def get_peer_def in_kern_def)
qed

end
