(* ===== verification/Tap_Handler.thy ===== *)
theory Tap_Handler
  imports Delivery
begin

text \<open>
  The thread that reads Ethernet frames from the tap device and forwards them to the
  members (\<^verbatim>\<open>handlers.c\<close>). \<open>tap_step\<close> is one round of its endless loop.
\<close>

section \<open>One round\<close>

definition BROADCAST_ADDR :: bytes where
  "BROADCAST_ADDR = replicate ETH_ALEN 0xFF"

text \<open>Remove a member while holding the lock.\<close>

definition drop_peer :: "ptr \<Rightarrow> world \<Rightarrow> (world, unit) run" where
  "drop_peer pp w =
     bind_run (get_peer pp w) (\<lambda>q w.
     bind_run (pthread_cancel (timeout_tid q) w) (\<lambda>_ w.
     unlink_peer (\<lambda>q. [p_tid q]) pp w))"

definition send_or_drop :: "bytes \<Rightarrow> ptr \<Rightarrow> world \<Rightarrow> (world, unit) run" where
  "send_or_drop pkt pp w =
     bind_run (peer_write pp pkt w) (\<lambda>r w. if r \<le> 0 then drop_peer pp w else Ret () w)"

text \<open>
  The read asks for four bytes more than there is room for behind the header. The key of
  the unicast lookup is \<^verbatim>\<open>tapMAC\<close> of the buffer taken as a \<^verbatim>\<open>link_state\<close>, its bytes 6 to 11,
  which are the bytes 2 to 7 of the frame.
\<close>

definition tap_step :: "tid \<Rightarrow> world \<Rightarrow> (world, unit) run" where
  "tap_step me w =
     bind_run (in_kern (rio_read (rio_tap w) (PROXY_HLEN + ETH_FRAME_LEN)) w) (\<lambda>x w. case x of (sz, d, rp) \<Rightarrow>
     let w = w\<lparr>rio_tap := rp\<rparr> in
     if length d > ETH_FRAME_LEN then Stop UB w
     else if sz \<le> 0 then Stop (Exit (-1)) w
     else
     let prxyhdr = \<lparr>ph_type = htons DATA, ph_length = htons (word_of_int sz)\<rparr>;
         buffer = enc_proxy_header prxyhdr @ d @ replicate (ETH_FRAME_LEN - length d) 0;
         pkt = take (PROXY_HLEN + unat (ntohs (ph_length prxyhdr))) buffer in
     bind_run (in_lock (writeBegin me) w) (\<lambda>_ w.
     bind_run (if take ETH_ALEN (drop PROXY_HLEN buffer) = BROADCAST_ADDR
         then HASH_ITER (send_or_drop pkt) w
         else bind_run (find_at 6 buffer w) (\<lambda>pp w. case pp of
             None \<Rightarrow> Ret () w
           | Some pp \<Rightarrow> send_or_drop pkt pp w)) (\<lambda>_ w.
     in_lock (writeEnd me) w)))"

text \<open>The first \<open>n\<close> rounds of the loop.\<close>

fun tap_handler :: "nat \<Rightarrow> tid \<Rightarrow> world \<Rightarrow> (world, unit) run" where
  "tap_handler 0 me w = Ret () w"
| "tap_handler (Suc n) me w = bind_run (tap_step me w) (\<lambda>_ w. tap_handler n me w)"

text \<open>A frame as it travels between two proxies.\<close>

definition data_packet :: "bytes \<Rightarrow> bytes" where
  "data_packet frame = enc_proxy_header \<lparr>ph_type = htons DATA, ph_length = htons (of_nat (length frame))\<rparr> @ frame"

section \<open>Sending to one member\<close>

lemma drop_peer_result:
  assumes "wf_world w xs" and "peers w pp = Some q" and "pp \<in> set xs"
  shows "\<exists>w'. drop_peer pp w = Ret () w' \<and> wf_world w' (remove1 pp xs) \<and> peers w' = (peers w)(pp := None) \<and>
    lock w' = lock w \<and> kern w' = (kern w)\<lparr>closed := closed (kern w) @ [rfd (p_rio q)]\<rparr> \<and>
    cancelled w' = cancelled w @ [timeout_tid q, p_tid q] \<and> rio_tap w' = rio_tap w"
proof -
  let ?w = "w\<lparr>cancelled := cancelled w @ [timeout_tid q]\<rparr>"
  obtain w' where w': "unlink_peer (\<lambda>q. [p_tid q]) pp ?w = Ret () w'" "wf_world w' (remove1 pp xs)"
      "w' = ?w\<lparr>members := members w', kern := (kern ?w)\<lparr>closed := closed (kern ?w) @ [rfd (p_rio q)]\<rparr>,
        cancelled := cancelled ?w @ [p_tid q], peers := (peers ?w)(pp := None)\<rparr>"
    using unlink_peer_result [of ?w xs pp q "\<lambda>q. [p_tid q]"] assms by auto
  moreover have "peers w' = (peers w)(pp := None)" "lock w' = lock w" "cancelled w' = cancelled w @ [timeout_tid q, p_tid q]" "rio_tap w' = rio_tap w"
      "kern w' = (kern w)\<lparr>closed := closed (kern w) @ [rfd (p_rio q)]\<rparr>"
    by (subst w'(3), simp)+
  ultimately show ?thesis using assms(2) by (simp add: drop_peer_def get_peer_def pthread_cancel_def)
qed

text \<open>The member has the whole packet and stays as it is, or it is gone; what is left to read from the tap device stays the same.\<close>

interpretation tap: delivery "\<lambda>w. rio_tap w = rp \<and> reads (kern w) = rs" "\<lambda>q q' bs. q' = q \<and> bs = data_packet frame" "send_or_drop (data_packet frame)" for rp rs frame
proof
  fix w xs p q
  assume I: "rio_tap w = rp \<and> reads (kern w) = rs" and wf: "wf_world w xs" and q: "peers w p = Some q" "p \<in> set xs"
  let ?pkt = "data_packet frame"
  show "case send_or_drop ?pkt p w of
      Stop h w' \<Rightarrow> h = Waiting
    | Ret _ w' \<Rightarrow> (rio_tap w' = rp \<and> reads (kern w') = rs) \<and> lock w' = lock w \<and>
        (\<exists>bs. sent (kern w') = (sent (kern w))(rfd (p_rio q) := sent (kern w) (rfd (p_rio q)) @ bs) \<and>
        ((\<exists>q'. wf_world w' xs \<and> peers w' = (peers w)(p \<mapsto> q') \<and> q' = q \<and> bs = ?pkt) \<or>
         wf_world w' (remove1 p xs) \<and> peers w' = (peers w)(p := None)))"
  proof (cases "peer_write p ?pkt w")
    case (Ret r w1)
    obtain s k where w1: "w1 = w\<lparr>kern := s\<rparr>" and k: "sent s = (sent (kern w))(rfd (p_rio q) := sent (kern w) (rfd (p_rio q)) @ take k ?pkt)"
        "r = -1 \<or> r = int (length ?pkt) \<and> take k ?pkt = ?pkt" "reads s = reads (kern w)"
      using peer_write_cases [OF q(1), of ?pkt] by (auto simp: Ret)
    show ?thesis
    proof (cases "r \<le> 0")
      case True
      obtain w' where "drop_peer p w1 = Ret () w'" "wf_world w' (remove1 p xs)" "peers w' = (peers w1)(p := None)"
          "lock w' = lock w1" "kern w' = (kern w1)\<lparr>closed := closed (kern w1) @ [rfd (p_rio q)]\<rparr>" "rio_tap w' = rio_tap w1"
        using drop_peer_result [of w1 xs p q] wf q w1 by auto
      then show ?thesis using True k(1,3) I by (auto simp: send_or_drop_def Ret w1)
    next
      case False
      have "(peers w)(p \<mapsto> q) = peers w" using q(1) by auto
      then show ?thesis using False k wf I by (auto simp: send_or_drop_def Ret w1)
    qed
  next
    case (Stop h w')
    then show ?thesis using peer_write_cases [OF q(1), of ?pkt] by (simp add: send_or_drop_def)
  qed
qed

section \<open>Rounds\<close>

lemma tap_packet:
  assumes "length frame \<le> ETH_FRAME_LEN"
  defines "hdr \<equiv> \<lparr>ph_type = htons DATA, ph_length = htons (word_of_int (int (length frame)))\<rparr>"
  shows "take (PROXY_HLEN + unat (ntohs (ph_length hdr))) (enc_proxy_header hdr @ frame @ pad) = data_packet frame"
    and "drop PROXY_HLEN (enc_proxy_header hdr @ frame @ pad) = frame @ pad"
    and "length (enc_proxy_header hdr) = 4"
proof -
  show len: "length (enc_proxy_header hdr) = 4" using ph.enc_length by simp
  have "unat (ntohs (ph_length hdr)) = length frame"
    using assms(1) by (simp add: hdr_def size_defs unat_of_nat)
  then show "take (PROXY_HLEN + unat (ntohs (ph_length hdr))) (enc_proxy_header hdr @ frame @ pad) = data_packet frame"
    using len by (simp add: data_packet_def hdr_def size_defs)
  show "drop PROXY_HLEN (enc_proxy_header hdr @ frame @ pad) = frame @ pad" using len by (simp add: size_defs)
qed

lemma tap_step_frame:
  fixes me :: tid
  assumes "lock w = rw_init" and "rio_read (rio_tap w) (PROXY_HLEN + ETH_FRAME_LEN) (kern w) = Ret (int (length frame), frame, rp) s"
    and "frame \<noteq> []" and "length frame \<le> ETH_FRAME_LEN"
  defines "w1 \<equiv> w\<lparr>kern := s, rio_tap := rp, lock := write_locked me\<rparr>"
    and "buffer \<equiv> frame @ replicate (ETH_FRAME_LEN - length frame) 0"
  shows "tap_step me w = bind_run (if take ETH_ALEN buffer = BROADCAST_ADDR then HASH_ITER (send_or_drop (data_packet frame)) w1
      else bind_run (find_at 2 buffer w1) (\<lambda>pp w. case pp of None \<Rightarrow> Ret () w | Some pp \<Rightarrow> send_or_drop (data_packet frame) pp w))
      (\<lambda>_ w. in_lock (writeEnd me) w)"
proof -
  have f: "find_at 6 (h @ buffer) v = find_at 2 buffer v" if "length h = 4" for h v
    using that by (simp add: find_at_def load_def peek_def)
  note tp = tap_packet(1-2) [OF assms(4), where pad = "replicate (ETH_FRAME_LEN - length frame) 0"]
  note f = f [unfolded buffer_def, OF tap_packet(3) [OF assms(4)]]
  have "\<not> ETH_FRAME_LEN < length frame" "\<not> int (length frame) \<le> 0" using assms(3,4) by auto
  moreover have "in_lock (writeBegin me) (w\<lparr>kern := s, rio_tap := rp\<rparr>) = Ret () w1"
    using assms(1) by (simp add: in_lock_def w1_def)
  ultimately show ?thesis
    unfolding tap_step_def in_kern_def assms(2) lift_run.simps bind_run.simps prod.case Let_def tp(1,2) f buffer_def
    by simp
qed

lemma tap_broadcast_run:
  assumes "wf_world w xs" and "lock w = rw_init" and "inj_on (fd_of w) (set xs)" and "wf_rio (rio_tap w)"
    and "rio_read (rio_tap w) (PROXY_HLEN + ETH_FRAME_LEN) (kern w) = Ret (int (length frame), frame, rp) s"
    and "length frame \<le> ETH_FRAME_LEN" and "take ETH_ALEN frame = BROADCAST_ADDR"
  shows "case tap_step me w of
      Ret _ w' \<Rightarrow> lock w' = rw_init \<and> (\<exists>ys. set ys \<subseteq> set xs \<and> wf_world w' ys \<and>
        (\<forall>p\<in>set ys. peers w' p = peers w p \<and> sent (kern w') (fd_of w p) = sent (kern w) (fd_of w p) @ data_packet frame) \<and>
        (\<forall>p\<in>set xs - set ys. peers w' p = None)) \<and> (\<forall>p. p \<notin> set xs \<longrightarrow> peers w' p = peers w p) \<and>
        rio_tap w' = rp \<and> reads (kern w') = reads s
    | Stop h w' \<Rightarrow> h = Waiting"
proof -
  let ?w = "w\<lparr>kern := s, rio_tap := rp, lock := write_locked me\<rparr>" and ?pkt = "data_packet frame"
  have "length (take ETH_ALEN frame) = ETH_ALEN" unfolding assms(7) by (simp add: BROADCAST_ADDR_def)
  then have lenf: "ETH_ALEN \<le> length frame" by simp
  then have ne: "frame \<noteq> []" by (auto simp: size_defs)
  have tk: "take ETH_ALEN (frame @ pad) = BROADCAST_ADDR" for pad using lenf assms(7) by simp
  have sent: "sent s = sent (kern w)" using rio_read_stream [OF assms(5,4)] by (simp add: read_frame_def)
  have fd: "fd_of ?w = fd_of w" by (simp add: fd_of_def fun_eq_iff)
  have wf: "wf_world ?w xs" using assms(1) by (simp add: wf_world_def)
  have I: "rio_tap ?w = rp \<and> reads (kern ?w) = reads s" by simp
  note loop = tap.loop_result [OF I wf, of frame]
  have run: "tap_step me w = bind_run (HASH_ITER (send_or_drop ?pkt) ?w) (\<lambda>_ w. in_lock (writeEnd me) w)"
    unfolding tap_step_frame [OF assms(2,5) ne assms(6), of me] tk by simp
  show ?thesis
  proof (cases "HASH_ITER (send_or_drop ?pkt) ?w")
    case (Ret u w')
    then have fr: "\<forall>p. p \<notin> set xs \<longrightarrow> peers w' p = peers w p" "rio_tap w' = rp" "reads (kern w') = reads s" using loop assms(3) by (simp_all add: fd)
    obtain ys where l: "lock w' = write_locked me" and ys: "set ys \<subseteq> set xs" "wf_world w' ys" "\<forall>p\<in>set xs - set ys. peers w' p = None"
        "\<forall>p\<in>set ys. peers w' p = peers w p \<and> sent (kern w') (fd_of w p) = sent (kern w) (fd_of w p) @ ?pkt"
      using loop assms(3) Ret by (fastforce simp: fd sent)
    then have "tap_step me w = Ret () (w'\<lparr>lock := rw_init\<rparr>)" using run Ret by (simp add: in_lock_def)
    with ys fr show ?thesis by auto
  next
    case (Stop h w')
    then show ?thesis using run loop assms(3) by (simp add: fd)
  qed
qed

text \<open>
  C12. A broadcast frame read from the tap device: in one round every member is either sent
  the complete data packet, after whatever was sent to it before, and keeps its entry, or
  its connection failed and it is removed from the list and freed. The list stays
  well-formed and the lock is released. Only the kernel can hold the round up.
\<close>

theorem tap_broadcast_reaches_members:
  assumes "wf_world w xs" and "lock w = rw_init" and "inj_on (fd_of w) (set xs)" and "wf_rio (rio_tap w)"
    and "rio_read (rio_tap w) (PROXY_HLEN + ETH_FRAME_LEN) (kern w) = Ret (int (length frame), frame, rp) s"
    and "length frame \<le> ETH_FRAME_LEN" and "take ETH_ALEN frame = BROADCAST_ADDR"
  shows "case tap_step me w of
      Ret _ w' \<Rightarrow> lock w' = rw_init \<and> (\<exists>ys. set ys \<subseteq> set xs \<and> wf_world w' ys \<and>
        (\<forall>p\<in>set ys. peers w' p = peers w p \<and> sent (kern w') (fd_of w p) = sent (kern w) (fd_of w p) @ data_packet frame) \<and>
        (\<forall>p\<in>set xs - set ys. peers w' p = None))
    | Stop h w' \<Rightarrow> h = Waiting"
  using tap_broadcast_run [OF assms, of me] by (auto split: run.splits)

text \<open>
  C37. A unicast frame is looked up under its bytes 2 to 7, not under its destination, its
  bytes 0 to 5: when no member has the former as address, the frame is discarded although
  its destination is a member.
\<close>

theorem tap_unicast_misses_destination:
  assumes "wf_world w xs" and "lock w = rw_init" and "wf_rio (rio_tap w)"
    and "rio_read (rio_tap w) (PROXY_HLEN + ETH_FRAME_LEN) (kern w) = Ret (int (length frame), frame, rp) s"
    and "14 \<le> length frame" and "length frame \<le> ETH_FRAME_LEN" and "take ETH_ALEN frame \<noteq> BROADCAST_ADDR"
    and "roster w xs (take ETH_ALEN frame) = Some p" and "roster w xs (take ETH_ALEN (drop 2 frame)) = None"
  shows "\<exists>w'. tap_step me w = Ret () w' \<and> sent (kern w') = sent (kern w) \<and> wf_world w' xs \<and> peers w' = peers w \<and> lock w' = rw_init"
proof -
  let ?w = "w\<lparr>kern := s, rio_tap := rp, lock := write_locked me\<rparr>" and ?b = "frame @ replicate (ETH_FRAME_LEN - length frame) 0"
  have ne: "frame \<noteq> []" using assms(5) by auto
  have wf: "wf_world ?w xs" "roster ?w xs = roster w xs" using assms(1) by (simp_all add: wf_world_def roster_def)
  have b: "take ETH_ALEN ?b = take ETH_ALEN frame" "take ETH_ALEN (drop 2 ?b) = take ETH_ALEN (drop 2 frame)" "2 + ETH_ALEN \<le> length ?b"
    using assms(5) by (auto simp: size_defs)
  have "find_at 2 ?b ?w = Ret None ?w" using find_at_ok [OF wf(1) b(3)] b(2) wf(2) assms(9) by simp
  then have "tap_step me w = Ret () (w\<lparr>kern := s, rio_tap := rp, lock := rw_init\<rparr>)"
    using tap_step_frame [OF assms(2,4) ne assms(6), of me] b(1) assms(7) by (simp add: in_lock_def)
  moreover have "sent s = sent (kern w)" using rio_read_stream [OF assms(4,3)] by (simp add: read_frame_def)
  ultimately show ?thesis using wf(1) by (simp add: wf_world_def)
qed

definition demo_bcast :: bytes where
  "demo_bcast = BROADCAST_ADDR @ demo_mac 9 @ [8, 0, 1, 2, 3]"

definition demo_ucast :: bytes where
  "demo_ucast = demo_mac 1 @ demo_mac 9 @ [8, 0, 1, 2, 3]"

definition demo_tap_world :: "bytes \<Rightarrow> world" where
  "demo_tap_world frame = demo_world\<lparr>kern := demo_os\<lparr>reads := [Inr frame], fcntls := replicate 4 None\<rparr>\<rparr>"

lemma demo_tap_world_simps:
  "wf_world (demo_tap_world frame) [1, 2]" "roster (demo_tap_world frame) = roster demo_world" "lock (demo_tap_world frame) = rw_init"
  "wf_rio (rio_tap (demo_tap_world frame))" "inj_on (fd_of (demo_tap_world frame)) (set [1, 2])"
  using demo_world_wf
  by (auto simp: demo_tap_world_def wf_world_def roster_def demo_world_def wf_rio_def demo_rio_def fd_of_def demo_peer_def inj_on_def)

lemma demo_tap_read:
  assumes "frame \<noteq> []" and "length frame \<le> ETH_FRAME_LEN"
  shows "\<exists>rp s. rio_read (rio_tap (demo_tap_world frame)) (PROXY_HLEN + ETH_FRAME_LEN) (kern (demo_tap_world frame)) = Ret (int (length frame), frame, rp) s"
  using assms by (simp add: rio_read_def demo_tap_world_def demo_world_def demo_os_def demo_rio_def Wait_def RIO_BUFSZ_def size_defs Let_def)

theorem tap_broadcast_reaches_members_witness:
  "case tap_step 7 (demo_tap_world demo_bcast) of
      Ret _ w' \<Rightarrow> (\<exists>ys. set ys \<subseteq> {1, 2} \<and> wf_world w' ys)
    | Stop h w' \<Rightarrow> h = Waiting"
proof -
  have f: "demo_bcast \<noteq> []" "length demo_bcast \<le> ETH_FRAME_LEN" "take ETH_ALEN demo_bcast = BROADCAST_ADDR"
    by (simp_all add: demo_bcast_def BROADCAST_ADDR_def demo_mac_def size_defs)
  obtain rp s where "rio_read (rio_tap (demo_tap_world demo_bcast)) (PROXY_HLEN + ETH_FRAME_LEN) (kern (demo_tap_world demo_bcast)) =
      Ret (int (length demo_bcast), demo_bcast, rp) s"
    using demo_tap_read [OF f(1,2)] by blast
  from tap_broadcast_reaches_members [OF demo_tap_world_simps(1,3,5,4) this f(2,3), of 7] show ?thesis
    by (auto split: run.splits)
qed

theorem tap_unicast_misses_destination_witness:
  "\<exists>w'. tap_step 7 (demo_tap_world demo_ucast) = Ret () w' \<and> sent (kern w') = (\<lambda>_. [])"
proof -
  have f: "demo_ucast \<noteq> []" "14 \<le> length demo_ucast" "length demo_ucast \<le> ETH_FRAME_LEN" "take ETH_ALEN demo_ucast = demo_mac 1"
    by (simp_all add: demo_ucast_def demo_mac_def size_defs)
  have "hd (demo_mac 1) \<noteq> hd BROADCAST_ADDR" by (simp add: BROADCAST_ADDR_def demo_mac_def size_defs hd_replicate)
  then have nb: "demo_mac 1 \<noteq> BROADCAST_ADDR" by metis
  obtain rp s where rd: "rio_read (rio_tap (demo_tap_world demo_ucast)) (PROXY_HLEN + ETH_FRAME_LEN) (kern (demo_tap_world demo_ucast)) =
      Ret (int (length demo_ucast), demo_ucast, rp) s"
    using demo_tap_read [OF f(1,3)] by blast
  have "roster demo_world [1, 2] (take ETH_ALEN (drop 2 demo_ucast)) = None"
    using demo_two_rep(2,3) by (simp add: roster_def key_map_def demo_world_def demo_ucast_def demo_mac_def size_defs)
  then show ?thesis
    using tap_unicast_misses_destination [OF demo_tap_world_simps(1,3,4) rd f(2,3), of 1 7] f(4) nb demo_roster(1)
    by (auto simp: demo_tap_world_simps(2)) (auto simp: demo_tap_world_def demo_os_def)
qed

end
