(* ===== verification/Eth_Handler.thy ===== *)
theory Eth_Handler
  imports Tap_Handler
begin

text \<open>
  The thread that reads packets from one peer and dispatches them (\<^verbatim>\<open>handlers.c\<close>).
  \<open>eth_step\<close> is one round of its endless loop. The header variable keeps its bytes between
  the rounds, \<open>junk\<close> is what a fresh block of memory holds. \<open>fl\<close> is the floating-point
  arithmetic of \<open>Bandwidth_Probe_Response\<close>.
\<close>

section \<open>Dispatch\<close>

text \<open>\<open>None\<close> is the \<^verbatim>\<open>default\<close> case; the others are the results of the handlers.\<close>

definition dispatch :: "(int \<Rightarrow> int \<Rightarrow> u32 \<times> u32) \<Rightarrow> tid \<Rightarrow> ptr \<Rightarrow> u16 \<Rightarrow> bytes \<Rightarrow> u16 \<Rightarrow> world \<Rightarrow> (world, int option) run" where
  "dispatch fl me pp type data len w =
     (let call = (\<lambda>h. bind_run (h w) (\<lambda>r w. Ret (Some r) w)) in
      if type = DATA then call (Data data len)
      else if type = LEAVE then call (Leave me data len)
      else if type = QUIT then call (Quit me data len)
      else if type = LINK_STATE then call (Link_State me data len)
      else if type = RTT_PROBE_REQUEST then call (RTT_Probe_Request data len pp)
      else if type = RTT_PROBE_RESPONSE then call (RTT_Probe_Response data len pp)
      else if type = PROXY_PUBLIC_KEY then call (Proxy_Public_Key data len)
      else if type = SIGNED_DATA then call (Signed_Data data len)
      else if type = PROXY_SECRET_KEY then call (Proxy_Secret_Key data len)
      else if type = ENCRYPTED_DATA then call (Encrypted_Data data len)
      else if type = ENCRYPTED_LINK_STATE then call (Encrypted_Link_State data len)
      else if type = SIGNED_LINK_STATE then call (Signed_Link_State data len)
      else if type = BANDWIDTH_PROBE_REQUEST then call (Bandwidth_Probe_Request data len pp)
      else if type = BANDWIDTH_PROBE_RESPONSE then call (Bandwidth_Probe_Response fl data len pp)
      else Ret None w)"

section \<open>One round\<close>

text \<open>
  What follows the label \<^verbatim>\<open>TYPE_ERROR\<close> and a failed read of the payload: the buffer is
  freed, the peer removed. A thread that is not cancelled here goes on with the freed
  buffer and frees it again.
\<close>

definition give_up :: "tid \<Rightarrow> ptr \<Rightarrow> world \<Rightarrow> (world, 'a) run" where
  "give_up me pp w =
     bind_run (remove_member me (Some pp) w) (\<lambda>_ w.
     bind_run (pthread_testcancel me w) (\<lambda>_ w. Stop UB w))"

definition eth_step :: "(int \<Rightarrow> int \<Rightarrow> u32 \<times> u32) \<Rightarrow> (nat \<Rightarrow> bytes) \<Rightarrow> tid \<Rightarrow> ptr \<Rightarrow> proxy_header \<Rightarrow> world
    \<Rightarrow> (world, proxy_header) run" where
  "eth_step fl junk me pp prxyhdr w =
     bind_run (peer_readnb pp PROXY_HLEN w) (\<lambda>x w. case x of (sz, d) \<Rightarrow>
     bind_run (if sz \<le> 0
         then bind_run (pthread_testcancel me w) (\<lambda>_ w. remove_member me (Some pp) w)
         else Ret () w) (\<lambda>_ w.
     bind_run (pthread_testcancel me w) (\<lambda>_ w.
     let prxyhdr = dec_proxy_header (over d (enc_proxy_header prxyhdr));
         prxyhdr = \<lparr>ph_type = ntohs (ph_type prxyhdr), ph_length = ntohs (ph_length prxyhdr)\<rparr>;
         len = ph_length prxyhdr in
     bind_run (peer_readnb pp (unat len) w) (\<lambda>x w. case x of (sz, d) \<Rightarrow>
     if sz \<le> 0 then give_up me pp w
     else bind_run (dispatch fl me pp (ph_type prxyhdr) (over d (junk (unat len))) len w) (\<lambda>r w.
     case r of
       None \<Rightarrow> give_up me pp w
     | Some r \<Rightarrow>
         if r < 0 then give_up me pp w
         else bind_run (pthread_testcancel me w) (\<lambda>_ w. Ret prxyhdr w))))))"

text \<open>The first \<open>n\<close> rounds of the loop.\<close>

fun eth_handler :: "nat \<Rightarrow> (int \<Rightarrow> int \<Rightarrow> u32 \<times> u32) \<Rightarrow> (nat \<Rightarrow> bytes) \<Rightarrow> tid \<Rightarrow> ptr \<Rightarrow> proxy_header \<Rightarrow> world
    \<Rightarrow> (world, proxy_header) run" where
  "eth_handler 0 fl junk me pp prxyhdr w = Ret prxyhdr w"
| "eth_handler (Suc n) fl junk me pp prxyhdr w =
     bind_run (eth_step fl junk me pp prxyhdr w) (\<lambda>prxyhdr w. eth_handler n fl junk me pp prxyhdr w)"

section \<open>Losing the peer\<close>

lemma give_up_result:
  assumes wf: "wf_world w xs" and l: "lock w = rw_init" and q: "peers w pp = Some q" "pp \<in> set xs" and me: "p_tid q = me"
  shows "\<exists>w'. give_up me pp w = Stop Cancelled w' \<and> wf_world w' (remove1 pp xs) \<and> lock w' = rw_init \<and>
    roster w' (remove1 pp xs) = (roster w xs)(tapMAC (p_ls q) := None) \<and> peers w' = (peers w)(pp := None) \<and> sent (kern w') = sent (kern w)"
  using remove_member_result [OF wf l q, of me] me by (auto simp: give_up_def pthread_testcancel_def)

text \<open>The state of the thread of a member between two rounds.\<close>

definition serving :: "world \<Rightarrow> ptr list \<Rightarrow> tid \<Rightarrow> ptr \<Rightarrow> Peer \<Rightarrow> bool" where
  "serving w xs me pp q \<longleftrightarrow> wf_world w xs \<and> lock w = rw_init \<and> peers w pp = Some q \<and> pp \<in> set xs \<and> p_tid q = me \<and>
     me \<notin> set (cancelled w) \<and> wf_rio (p_rio q)"

lemma peer_readnb_serving:
  assumes sv: "serving w xs me pp q" and rd: "rio_readnb (p_rio q) n (kern w) = Ret (r, d, rp) s"
  defines "w' \<equiv> w\<lparr>kern := s, peers := (peers w)(pp \<mapsto> q\<lparr>p_rio := rp\<rparr>)\<rparr>"
  shows "peer_readnb pp n w = Ret (r, d) w'" and "serving w' xs me pp (q\<lparr>p_rio := rp\<rparr>)"
    and "roster w' xs = roster w xs" and "sent (kern w') = sent (kern w)" and "rio_tap w' = rio_tap w" and "read_frame (kern w) (kern w')"
proof -
  have st: "wf_rio rp" "read_frame (kern w) s"
    using rio_readnb_loop_stream [OF rd [unfolded rio_readnb_def]] sv by (auto simp: serving_def)
  show "read_frame (kern w) (kern w')" using st(2) by (simp add: w'_def)
  show "peer_readnb pp n w = Ret (r, d) w'" using sv rd by (simp add: peer_ops w'_def serving_def)
  have "wf_world (w\<lparr>peers := (peers w)(pp \<mapsto> q\<lparr>p_rio := rp\<rparr>)\<rparr>) xs"
    using sv by (intro wf_world_peer) (auto simp: serving_def)
  then show "serving w' xs me pp (q\<lparr>p_rio := rp\<rparr>)" using sv st by (auto simp: serving_def w'_def wf_world_def)
  show "roster w' xs = roster w xs" "sent (kern w') = sent (kern w)" "rio_tap w' = rio_tap w"
    using st by (simp_all add: w'_def read_frame_def)
qed

text \<open>
  A connection that fails or is closed while the header of a packet is read: the thread
  removes its member from the list, closes and frees it, with the lock released, and ends
  by its own cancellation. No packet is dispatched.
\<close>

theorem eth_lost_connection_removes_member:
  assumes "serving w xs me pp q" and "rio_readnb (p_rio q) PROXY_HLEN (kern w) = Ret (r, d, rp) s" and "r \<le> 0"
  shows "\<exists>w'. eth_step fl junk me pp hdr w = Stop Cancelled w' \<and> wf_world w' (remove1 pp xs) \<and> lock w' = rw_init \<and>
    roster w' (remove1 pp xs) = (roster w xs)(tapMAC (p_ls q) := None) \<and> peers w' pp = None \<and> sent (kern w') = sent (kern w)"
proof -
  note rs = peer_readnb_serving [OF assms(1,2)]
  let ?w = "w\<lparr>kern := s, peers := (peers w)(pp \<mapsto> q\<lparr>p_rio := rp\<rparr>)\<rparr>"
  obtain w' where w': "remove_member me (Some pp) ?w = Ret () w'" "wf_world w' (remove1 pp xs)" "lock w' = rw_init"
      "roster w' (remove1 pp xs) = (roster ?w xs)(tapMAC (p_ls q) := None)" "peers w' = (peers ?w)(pp := None)"
      "cancelled w' = cancelled ?w @ [timeout_tid q, p_tid q]" "sent (kern w') = sent (kern ?w)"
    using remove_member_result [of ?w xs pp "q\<lparr>p_rio := rp\<rparr>" me] rs(2) by (auto simp: serving_def)
  have "pthread_testcancel me ?w = Ret () ?w" using rs(2) by (simp add: serving_def pthread_testcancel_def)
  moreover have "pthread_testcancel me w' = Stop Cancelled w'" using w'(6) assms(1) by (simp add: serving_def pthread_testcancel_def)
  ultimately show ?thesis
    using rs(1,3,4) w' assms(3) by (simp add: eth_step_def)
qed

section \<open>Reading a packet\<close>

definition packet :: "u16 \<Rightarrow> bytes \<Rightarrow> bytes" where
  "packet type body = enc_proxy_header \<lparr>ph_type = htons type, ph_length = htons (of_nat (length body))\<rparr> @ body"

lemma data_packet_is_packet: "data_packet frame = packet DATA frame"
  by (simp add: data_packet_def packet_def)

lemma over_full: "length old \<le> length d \<Longrightarrow> over d old = d"
  by (simp add: over_def)

text \<open>A packet on the stream is read completely and handed to its handler.\<close>

lemma eth_step_packet:
  assumes sv: "serving w xs me pp q" and "answering (kern w)" and len: "0 < length body" "length body < 65536"
    and st: "stream (p_rio q) (kern w) = packet type body @ rest" and j: "\<And>n. length (junk n) = n"
  obtains w' q' where "serving w' xs me pp q'" and "q' = q\<lparr>p_rio := p_rio q'\<rparr>" and "stream (p_rio q') (kern w') = rest" and "roster w' xs = roster w xs"
    and "sent (kern w') = sent (kern w)" and "rio_tap w' = rio_tap w" and "peers w' = (peers w)(pp \<mapsto> q')" and "answering (kern w')"
    and "read_frame (kern w) (kern w')" and "spare (kern w') = spare (kern w)" and "linkState w' = linkState w"
    and "eth_step fl junk me pp hdr w = bind_run (dispatch fl me pp type body (of_nat (length body)) w') (\<lambda>r w. case r of
        None \<Rightarrow> give_up me pp w
      | Some r \<Rightarrow> if r < 0 then give_up me pp w
          else bind_run (pthread_testcancel me w) (\<lambda>_ w. Ret \<lparr>ph_type = type, ph_length = of_nat (length body)\<rparr> w))"
proof -
  let ?h = "\<lparr>ph_type = htons type, ph_length = htons (of_nat (length body))\<rparr> :: proxy_header"
  have hl: "length (enc_proxy_header x) = 4" for x using ph.enc_length by simp
  have wf: "wf_rio (p_rio q)" using sv by (simp add: serving_def)
  have "PROXY_HLEN \<le> length (stream (p_rio q) (kern w))" using hl by (simp add: st packet_def size_defs)
  from rio_readnb_loop_answering [OF assms(2) wf this order_refl, of "[]"]
  obtain d1 rp1 s1 where rd1: "rio_readnb (p_rio q) PROXY_HLEN (kern w) = Ret (int PROXY_HLEN, d1, rp1) s1" and a1: "answering s1" "spare s1 = spare (kern w)"
    unfolding rio_readnb_def by blast
  have d1: "d1 = enc_proxy_header ?h" "stream rp1 s1 = body @ rest"
    using rio.read_full [OF wf rd1] hl by (simp_all add: st packet_def size_defs)
  note rs1 = peer_readnb_serving [OF sv rd1]
  let ?w1 = "w\<lparr>kern := s1, peers := (peers w)(pp \<mapsto> q\<lparr>p_rio := rp1\<rparr>)\<rparr>" and ?q1 = "q\<lparr>p_rio := rp1\<rparr>"
  have wf1: "wf_rio (p_rio ?q1)" using rs1(2) by (simp add: serving_def)
  have "length body \<le> length (stream (p_rio ?q1) (kern ?w1))" by (simp add: d1)
  from rio_readnb_loop_answering [OF _ wf1 this order_refl, of "[]"] a1
  obtain d2 rp2 s2 where rd2: "rio_readnb (p_rio ?q1) (length body) (kern ?w1) = Ret (int (length body), d2, rp2) s2" and a2: "answering s2" "spare s2 = spare s1"
    unfolding rio_readnb_def by auto
  have d2: "d2 = body" "stream rp2 s2 = rest" using rio.read_full [OF wf1 rd2] by (simp_all add: d1)
  note rs2 = peer_readnb_serving [OF rs1(2) rd2]
  let ?q2 = "?q1\<lparr>p_rio := rp2\<rparr>" and ?w2 = "?w1\<lparr>kern := s2, peers := (peers ?w1)(pp \<mapsto> ?q1\<lparr>p_rio := rp2\<rparr>)\<rparr>"
  have hd: "dec_proxy_header (over d1 (enc_proxy_header hdr)) = ?h"
    using ph.dec_enc [of ?h "[]"] hl by (simp add: d1 over_full)
  have ul: "unat (of_nat (length body) :: u16) = length body" using len by (simp add: unat_of_nat)
  have tc: "pthread_testcancel me ?w1 = Ret () ?w1" using rs1(2) by (simp add: serving_def pthread_testcancel_def)
  have ov: "over d2 (junk (length body)) = body" using j by (simp add: d2 over_full)
  show thesis
  proof (rule that)
    show "serving ?w2 xs me pp ?q2" by (rule rs2(2))
    show "stream (p_rio ?q2) (kern ?w2) = rest" "answering (kern ?w2)" "spare (kern ?w2) = spare (kern w)" using d2 a1 a2 by simp_all
    show "read_frame (kern w) (kern ?w2)" using rs1(6) rs2(6) read_frame_trans by auto
    show "roster ?w2 xs = roster w xs" "sent (kern ?w2) = sent (kern w)" "rio_tap ?w2 = rio_tap w" using rs1(3-5) rs2(3-5) by simp_all
    show "eth_step fl junk me pp hdr w = bind_run (dispatch fl me pp type body (of_nat (length body)) ?w2) (\<lambda>r w. case r of
        None \<Rightarrow> give_up me pp w
      | Some r \<Rightarrow> if r < 0 then give_up me pp w
          else bind_run (pthread_testcancel me w) (\<lambda>_ w. Ret \<lparr>ph_type = type, ph_length = of_nat (length body)\<rparr> w))"
      unfolding eth_step_def rs1(1) bind_run.simps prod.case tc hd Let_def ntohs_htons proxy_header.simps
      using len(1) by (simp add: tc rs2(1) ul ov size_defs hd)
  qed simp_all
qed

section \<open>Data packets\<close>

text \<open>
  Whatever the tap device does with the frame: it is written completely and the thread is
  ready for the rest of the stream, or the device fails and the member is given up.
\<close>

lemma data_packet_run:
  assumes sv: "serving w xs me pp q" and "answering (kern w)" and len: "0 < length frame" "length frame < 65536"
    and st: "stream (p_rio q) (kern w) = data_packet frame @ rest" and j: "\<And>n. length (junk n) = n"
  shows "case eth_step fl junk me pp hdr w of
      Ret _ w' \<Rightarrow> (\<exists>q'. serving w' xs me pp q' \<and> stream (p_rio q') (kern w') = rest) \<and> roster w' xs = roster w xs \<and>
        sent (kern w') = (sent (kern w))(rfd (rio_tap w) := sent (kern w) (rfd (rio_tap w)) @ frame)
    | Stop h w' \<Rightarrow> h = Waiting \<or> h = Cancelled \<and> wf_world w' (remove1 pp xs) \<and> lock w' = rw_init \<and>
        (\<exists>k. sent (kern w') = (sent (kern w))(rfd (rio_tap w) := sent (kern w) (rfd (rio_tap w)) @ take k frame))"
proof -
  obtain w1 q1 where sv1: "serving w1 xs me pp q1" "stream (p_rio q1) (kern w1) = rest" "roster w1 xs = roster w xs"
      "sent (kern w1) = sent (kern w)" "rio_tap w1 = rio_tap w" and
      run: "eth_step fl junk me pp hdr w = bind_run (dispatch fl me pp DATA frame (of_nat (length frame)) w1) (\<lambda>r w. case r of
        None \<Rightarrow> give_up me pp w
      | Some r \<Rightarrow> if r < 0 then give_up me pp w
          else bind_run (pthread_testcancel me w) (\<lambda>_ w. Ret \<lparr>ph_type = DATA, ph_length = of_nat (length frame)\<rparr> w))"
    by (rule eth_step_packet [OF sv assms(2) len st [unfolded data_packet_is_packet] j, of fl hdr])
  have ul: "unat (of_nat (length frame) :: u16) = length frame" using len by (simp add: unat_of_nat)
  have ld: "load id (length frame) 0 frame w1 = Ret frame w1" using load_id [of 0 "length frame" frame w1] by simp
  show ?thesis
  proof (cases "rio_write (rio_tap w1) frame (kern w1)")
    case (Ret r s)
    let ?w = "w1\<lparr>kern := s\<rparr>"
    obtain k where k: "sent s = (sent (kern w))(rfd (rio_tap w) := sent (kern w) (rfd (rio_tap w)) @ take k frame)" "reads s = reads (kern w1)"
        "r = -1 \<or> r = int (length frame) \<and> k = length frame"
      using rio_write_result [OF Ret] sv1(4,5) by (auto simp: write_result_def)
    have sv2: "serving ?w xs me pp q1" using sv1(1) by (simp add: serving_def)
    have dsp: "dispatch fl me pp DATA frame (of_nat (length frame)) w1 = Ret (Some (if r \<le> 0 then -1 else 0)) ?w"
      using Ret by (simp add: dispatch_def Data_def ul ld in_kern_def)
    show ?thesis
    proof (cases "r \<le> 0")
      case True
      obtain w' where "(give_up me pp ?w :: (world, proxy_header) run) = Stop Cancelled w'" "wf_world w' (remove1 pp xs)" "lock w' = rw_init"
          "sent (kern w') = sent (kern ?w)"
        using give_up_result [of ?w xs pp q1 me] sv2 by (auto simp: serving_def)
      then show ?thesis using run dsp True k(1) by auto
    next
      case False
      moreover have "pthread_testcancel me ?w = Ret () ?w" using sv2 by (simp add: serving_def pthread_testcancel_def)
      ultimately show ?thesis using run dsp k sv2 sv1(2,3) by (auto simp: stream_def)
    qed
  next
    case (Stop h s)
    then show ?thesis
      using run rio_write_Stop [OF Stop] by (simp add: dispatch_def Data_def ul ld in_kern_def)
  qed
qed

section \<open>Packets of no known type\<close>

definition packet_types :: "u16 list" where
  "packet_types = [DATA, LEAVE, QUIT, LINK_STATE, RTT_PROBE_REQUEST, RTT_PROBE_RESPONSE, PROXY_PUBLIC_KEY, SIGNED_DATA,
     PROXY_SECRET_KEY, ENCRYPTED_DATA, ENCRYPTED_LINK_STATE, SIGNED_LINK_STATE, BANDWIDTH_PROBE_REQUEST, BANDWIDTH_PROBE_RESPONSE]"

text \<open>
  A packet whose type is none of the fourteen of the protocol ends the connection: its
  sender is removed from the list, the other members keep their entries, nothing is sent,
  the lock is released and the thread ends.
\<close>

theorem eth_unknown_type_removes_member:
  assumes "serving w xs me pp q" and "answering (kern w)" and "0 < length body" and "length body < 65536"
    and "stream (p_rio q) (kern w) = packet type body @ rest" and "\<And>n. length (junk n) = n" and "type \<notin> set packet_types"
  shows "\<exists>w'. eth_step fl junk me pp hdr w = Stop Cancelled w' \<and> wf_world w' (remove1 pp xs) \<and> lock w' = rw_init \<and>
    roster w' (remove1 pp xs) = (roster w xs)(tapMAC (p_ls q) := None) \<and> peers w' pp = None \<and> sent (kern w') = sent (kern w)"
proof -
  obtain w1 q1 where sv1: "serving w1 xs me pp q1" "q1 = q\<lparr>p_rio := p_rio q1\<rparr>" "roster w1 xs = roster w xs" "sent (kern w1) = sent (kern w)" and
      run: "eth_step fl junk me pp hdr w = bind_run (dispatch fl me pp type body (of_nat (length body)) w1) (\<lambda>r w. case r of
        None \<Rightarrow> give_up me pp w
      | Some r \<Rightarrow> if r < 0 then give_up me pp w
          else bind_run (pthread_testcancel me w) (\<lambda>_ w. Ret \<lparr>ph_type = type, ph_length = of_nat (length body)\<rparr> w))"
    by (rule eth_step_packet [OF assms(1-6), of fl hdr])
  have "dispatch fl me pp type body (of_nat (length body)) w1 = Ret None w1"
    using assms(7) by (simp add: dispatch_def packet_types_def Let_def)
  then have "eth_step fl junk me pp hdr w = give_up me pp w1" using run by simp
  moreover have "tapMAC (p_ls q1) = tapMAC (p_ls q)" by (subst sv1(2)) simp
  ultimately show ?thesis
    using give_up_result [of w1 xs pp q1 me] sv1(1,3,4) by (auto simp: serving_def)
qed

section \<open>Concrete runs\<close>

text \<open>Peer 1 of the demonstration state is served by thread 0.\<close>

definition demo_eth_world :: "bytes \<Rightarrow> world" where
  "demo_eth_world bs = demo_world\<lparr>kern := demo_os\<lparr>reads := [Inr bs]\<rparr>\<rparr>"

definition demo_junk :: "nat \<Rightarrow> bytes" where "demo_junk n = replicate n 0"

lemma demo_serving: "serving (demo_eth_world bs) [1, 2] 0 1 (demo_peer 1)"
  using demo_world_wf
  by (auto simp: serving_def demo_eth_world_def wf_world_def demo_world_def demo_peer_def zero_peer_def wf_rio_def demo_rio_def)

lemma demo_eth_stream:
  assumes "bs \<noteq> []" and "length bs \<le> RIO_BUFSZ"
  shows "stream (p_rio (demo_peer 1)) (kern (demo_eth_world bs)) = bs @ []" and "answering (kern (demo_eth_world bs))"
  using assms by (simp_all add: stream_def demo_eth_world_def demo_peer_def demo_rio_def answering_def demo_os_def)

theorem eth_unknown_type_removes_member_witness:
  "\<exists>w'. eth_step (\<lambda>s n. (0, 0)) demo_junk 0 1 \<lparr>ph_type = 0, ph_length = 0\<rparr> (demo_eth_world (packet 0xABCE [1, 2, 3])) = Stop Cancelled w' \<and>
     wf_world w' [2]"
proof -
  have "packet 0xABCE [1, 2, 3] \<noteq> []" "length (packet 0xABCE [1, 2, 3]) \<le> RIO_BUFSZ"
    by (simp_all add: packet_def enc_proxy_header_def codec_simps RIO_BUFSZ_def size_defs)
  note st = demo_eth_stream [OF this]
  show ?thesis
    using eth_unknown_type_removes_member [OF demo_serving st(2) _ _ st(1), of demo_junk "\<lambda>s n. (0, 0)" "\<lparr>ph_type = 0, ph_length = 0\<rparr>"]
    by (auto simp: demo_junk_def packet_types_def packet_type_defs)
qed

theorem eth_lost_connection_removes_member_witness:
  "\<exists>w'. eth_step (\<lambda>s n. (0, 0)) demo_junk 0 1 \<lparr>ph_type = 0, ph_length = 0\<rparr> (demo_eth_world []) = Stop Cancelled w' \<and> wf_world w' [2]"
proof -
  obtain rp s where rd: "rio_readnb (p_rio (demo_peer 1)) PROXY_HLEN (kern (demo_eth_world [])) = Ret (0, [], rp) s"
    by (simp add: rio_readnb_def rio_readnb_loop.simps rio_read_def demo_eth_world_def demo_peer_def demo_rio_def demo_os_def Wait_def size_defs Let_def)
  show ?thesis
    using eth_lost_connection_removes_member [OF demo_serving rd, of "\<lambda>s n. (0, 0)" demo_junk "\<lparr>ph_type = 0, ph_length = 0\<rparr>"] by auto
qed

end
