(* ===== verification/Broadcast.thy ===== *)
theory Broadcast
  imports Eth_Handler
begin

text \<open>
  The handler of the alarm signal, which sends the link-state packet and the bandwidth probes
  (\<^verbatim>\<open>handlers.c\<close>). The packet is built in the block \<open>block\<close> of \<open>cap\<close> bytes; a write past
  its end is undefined. The handler runs on the main thread \<open>me\<close> and takes no lock of the
  membership list.
\<close>

section \<open>Building the packet\<close>

definition put_bytes :: "nat \<Rightarrow> bytes \<Rightarrow> world \<Rightarrow> (world, unit) run" where
  "put_bytes cap bs w =
     (if length (block w) + length bs \<le> cap then Ret () (w\<lparr>block := block w @ bs\<rparr>) else Stop UB w)"

text \<open>\<^verbatim>\<open>ntohl(1)\<close> is 16777216, stored as a \<^verbatim>\<open>float\<close>.\<close>

definition unit_weight :: u32 where "unit_weight = 0x4B800000"

definition ls_record :: "timespec \<Rightarrow> link_state \<Rightarrow> link_state \<Rightarrow> link_state_record" where
  "ls_record t p1 p2 = \<lparr>lsr_ID = \<lparr>tv_sec = htonl (tv_sec t), tv_nsec = htonl (tv_nsec t)\<rparr>,
     lsr_proxy1 = p1, lsr_proxy2 = p2, lsr_linkWeight = unit_weight\<rparr>"

definition put_record :: "nat \<Rightarrow> link_state_record \<Rightarrow> world \<Rightarrow> (world, unit) run" where
  "put_record cap r w = put_bytes cap (enc_link_state_record r) w"

text \<open>\<^verbatim>\<open>for(pp=hash_table; pp!=NULL; pp=pp->hh.next)\<close>\<close>

partial_function (option) for_loop :: "(ptr \<Rightarrow> world \<Rightarrow> (world, unit) run) \<Rightarrow> ptr option \<Rightarrow> world \<Rightarrow> (world, unit) run option" where
  "for_loop body el w =
     (case el of
        None \<Rightarrow> Some (Ret () w)
      | Some p \<Rightarrow> (case body p w of
            Stop h w \<Rightarrow> Some (Stop h w)
          | Ret _ w \<Rightarrow> (case next_of (Some p) w of
                None \<Rightarrow> Some (Stop UB w)
              | Some n \<Rightarrow> for_loop body n w)))"

definition for_members :: "(ptr \<Rightarrow> world \<Rightarrow> (world, unit) run) \<Rightarrow> world \<Rightarrow> (world, unit) run" where
  "for_members body w = (case for_loop body (head (members w)) w of None \<Rightarrow> Stop Diverges w | Some r \<Rightarrow> r)"

text \<open>The timestamp of a peer, read under its mutex.\<close>

definition read_stamp :: "tid \<Rightarrow> ptr \<Rightarrow> world \<Rightarrow> (world, timespec) run" where
  "read_stamp me pp w =
     bind_run (peer_mutex_lock me pp w) (\<lambda>_ w.
     bind_run (get_peer pp w) (\<lambda>q w.
     bind_run (peer_mutex_unlock pp w) (\<lambda>_ w. Ret (timestamp q) w)))"

text \<open>The record of an edge from a neighbour to this proxy is given the time of this proxy in the end.\<close>

definition broadcast_row :: "tid \<Rightarrow> nat \<Rightarrow> ptr \<Rightarrow> world \<Rightarrow> (world, unit) run" where
  "broadcast_row me cap pp w =
     bind_run (read_stamp me pp w) (\<lambda>_ w.
     bind_run (get_peer pp w) (\<lambda>q w.
     bind_run (put_record cap (ls_record (now w) (p_ls q) (linkState w)) w) (\<lambda>_ w.
     for_members (\<lambda>tmp w.
       if pp = tmp then Ret () w
       else
       bind_run (read_stamp me pp w) (\<lambda>t w.
       bind_run (get_peer pp w) (\<lambda>q w.
       bind_run (get_peer tmp w) (\<lambda>q' w.
       put_record cap (ls_record t (p_ls q) (p_ls q')) w)))) w)))"

definition broadcast_build :: "tid \<Rightarrow> u16 \<Rightarrow> u16 \<Rightarrow> world \<Rightarrow> (world, unit) run" where
  "broadcast_build me N len w =
     (let cap = PROXY_HLEN + unat len; w = w\<lparr>block := []\<rparr> in
      bind_run (put_bytes cap (enc_proxy_header \<lparr>ph_type = htons LINK_STATE, ph_length = htons len\<rparr>) w) (\<lambda>_ w.
      bind_run (put_bytes cap (u16_bytes (htons N)) w) (\<lambda>_ w.
      bind_run (put_bytes cap (enc_link_state (linkState w)) w) (\<lambda>_ w.
      bind_run (put_bytes cap (u16_bytes (htons N)) w) (\<lambda>_ w.
      bind_run (HASH_ITER (\<lambda>pp w. bind_run (get_peer pp w) (\<lambda>q w.
          put_record cap (ls_record (now w) (linkState w) (p_ls q)) w)) w) (\<lambda>_ w.
      for_members (broadcast_row me cap) w))))))"

section \<open>Sending it\<close>

definition broadcast_send :: "nat \<Rightarrow> ptr \<Rightarrow> world \<Rightarrow> (world, unit) run" where
  "broadcast_send n pp w =
     bind_run (load id n 0 (block w) w) (\<lambda>pkt w.
     bind_run (peer_write pp pkt w) (\<lambda>r w.
     if r < 0 then unlink_peer (\<lambda>q. [timeout_tid q, p_tid q]) pp w else Ret () w))"

definition probe_packet :: "timespec \<Rightarrow> probe_req" where
  "probe_packet t = \<lparr>pr_prxyhdr = \<lparr>ph_type = htons BANDWIDTH_PROBE_REQUEST, ph_length = htons 8\<rparr>,
     pr_ID = \<lparr>tv_sec = htonl (tv_sec t), tv_nsec = htonl (tv_nsec t)\<rparr>\<rparr>"

definition probe_send :: "ptr \<Rightarrow> world \<Rightarrow> (world, unit) run" where
  "probe_send pp w =
     bind_run (clock_gettime w) (\<lambda>t w.
     bind_run (set_peer pp (\<lambda>q. q\<lparr>probe_ts := t\<rparr>) w) (\<lambda>_ w.
     bind_run (peer_write pp (enc_probe_req (probe_packet t)) w) (\<lambda>r w.
     if r < 0 then unlink_peer (\<lambda>q. [timeout_tid q, p_tid q]) pp w else Ret () w)))"

definition Link_State_Broadcast :: "tid \<Rightarrow> world \<Rightarrow> (world, unit) run" where
  "Link_State_Broadcast me w =
     (let w = w\<lparr>alarm := link_period (config w)\<rparr> in
      bind_run (clock_gettime w) (\<lambda>t w.
      let w = w\<lparr>now := t\<rparr> in
      if head (members w) = None then Ret () w
      else
      let N = member_count w; n = uint N * (uint N + 1) in
      if \<not> int_ok n then Stop UB w
      else
      let len = ucast (2 + 20 + (word_of_int n :: u32) * 48) :: u16 in
      bind_run (broadcast_build me N len w) (\<lambda>_ w.
      bind_run (HASH_ITER (broadcast_send (PROXY_HLEN + unat len)) w) (\<lambda>_ w.
      bind_run (HASH_ITER probe_send w) (\<lambda>_ w.
      Ret () (w\<lparr>block := []\<rparr>))))))"

section \<open>Runs that only append to the block\<close>

text \<open>The bytes are appended when they fit; when they do not, the behaviour is undefined.\<close>

definition appends :: "nat \<Rightarrow> bytes \<Rightarrow> (world, unit) run \<Rightarrow> world \<Rightarrow> bool" where
  "appends cap bs r w \<longleftrightarrow>
     (if length (block w) + length bs \<le> cap then r = Ret () (w\<lparr>block := block w @ bs\<rparr>) else \<exists>w'. r = Stop UB w')"

lemma appends_nil: "length (block w) \<le> cap \<Longrightarrow> appends cap [] (Ret () w) w"
  by (simp add: appends_def)

lemma appends_put [simp]: "appends cap bs (put_bytes cap bs w) w"
  by (auto simp: appends_def put_bytes_def)

lemma appends_bind:
  assumes "appends cap bs m w" and "length (block w) + length bs \<le> cap \<Longrightarrow> appends cap cs (f () (w\<lparr>block := block w @ bs\<rparr>)) (w\<lparr>block := block w @ bs\<rparr>)"
  shows "appends cap (bs @ cs) (bind_run m f) w"
proof (cases "length (block w) + length bs \<le> cap")
  case True
  with assms show ?thesis by (simp add: appends_def add.assoc)
next
  case False
  with assms(1) obtain w' where "m = Stop UB w'" by (auto simp: appends_def)
  with False show ?thesis by (auto simp: appends_def)
qed

lemma for_loop_appends:
  assumes "uh_rep (members w) (us @ zs)" and "length (block w) \<le> cap"
    and body: "\<And>p b. p \<in> set zs \<Longrightarrow> length b \<le> cap \<Longrightarrow> appends cap (f p) (body p (w\<lparr>block := b\<rparr>)) (w\<lparr>block := b\<rparr>)"
  shows "\<exists>r. for_loop body (case zs of [] \<Rightarrow> None | z # _ \<Rightarrow> Some z) w = Some r \<and> appends cap (concat (map f zs)) r w"
  using assms
proof (induction zs arbitrary: us w)
  case Nil
  then show ?case by (subst for_loop.simps) (simp add: appends_nil)
next
  case (Cons p zs)
  have b: "appends cap (f p) (body p w) w" using Cons.prems(3) [of p "block w"] Cons.prems(2) by simp
  show ?case
  proof (cases "length (block w) + length (f p) \<le> cap")
    case True
    let ?w = "w\<lparr>block := block w @ f p\<rparr>"
    have run: "body p w = Ret () ?w" using b True by (simp add: appends_def)
    have nx: "next_of (Some p) ?w = Some (case zs of [] \<Rightarrow> None | z # _ \<Rightarrow> Some z)"
      using next_of_rep [of ?w us p zs] Cons.prems(1) by simp
    have "\<exists>r. for_loop body (case zs of [] \<Rightarrow> None | z # _ \<Rightarrow> Some z) ?w = Some r \<and> appends cap (concat (map f zs)) r ?w"
    proof (rule Cons.IH [where us = "us @ [p]"])
      show "appends cap (f p') (body p' (?w\<lparr>block := b\<rparr>)) (?w\<lparr>block := b\<rparr>)" if "p' \<in> set zs" "length b \<le> cap" for p' b
        using Cons.prems(3) [of p' b] that by simp
    qed (use Cons.prems(1) True in simp_all)
    then obtain r where r: "for_loop body (case zs of [] \<Rightarrow> None | z # _ \<Rightarrow> Some z) ?w = Some r" "appends cap (concat (map f zs)) r ?w"
      by blast
    have "for_loop body (Some p) w = Some r" using run nx r(1) by (subst for_loop.simps) simp
    moreover have "appends cap (f p @ concat (map f zs)) (bind_run (Ret () ?w) (\<lambda>_ _. r)) w"
      by (rule appends_bind) (use True r(2) in \<open>simp_all add: appends_def [of _ _ "Ret () ?w"]\<close>)
    ultimately show ?thesis by simp
  next
    case False
    then obtain w' where "body p w = Stop UB w'" using b by (auto simp: appends_def)
    then show ?thesis using False by (subst for_loop.simps) (auto simp: appends_def)
  qed
qed

lemma for_members_appends:
  assumes "uh_rep (members w) xs" and "length (block w) \<le> cap"
    and "\<And>p b. p \<in> set xs \<Longrightarrow> length b \<le> cap \<Longrightarrow> appends cap (f p) (body p (w\<lparr>block := b\<rparr>)) (w\<lparr>block := b\<rparr>)"
  shows "appends cap (concat (map f xs)) (for_members body w) w"
proof -
  have "head (members w) = (case xs of [] \<Rightarrow> None | z # _ \<Rightarrow> Some z)"
    using assms(1) by (cases xs) (auto simp: uh_rep_def)
  then show ?thesis
    using for_loop_appends [of w "[]" xs cap f body] assms by (auto simp: for_members_def)
qed

lemma HASH_ITER_appends:
  assumes "uh_rep (members w) xs" and "length (block w) \<le> cap"
    and body: "\<And>p b. p \<in> set xs \<Longrightarrow> length b \<le> cap \<Longrightarrow> appends cap (f p) (body p (w\<lparr>block := b\<rparr>)) (w\<lparr>block := b\<rparr>)"
  shows "appends cap (concat (map f xs)) (HASH_ITER body w) w"
proof -
  define Q where "Q zs v \<longleftrightarrow> (\<exists>us. xs = us @ zs \<and> v = w\<lparr>block := block w @ concat (map f us)\<rparr> \<and> length (block v) \<le> cap)" for zs v
  have "case HASH_ITER body w of Ret _ v \<Rightarrow> Q [] v | Stop h v \<Rightarrow> h = UB \<and> cap < length (block w) + length (concat (map f xs))"
  proof (rule HASH_ITER_rule [OF assms(1)])
    show "Q xs w" using assms(2) by (simp add: Q_def)
  next
    fix zs v assume "Q zs v"
    then show "\<exists>ys. uh_rep (members v) (ys @ zs)" using assms(1) by (auto simp: Q_def)
  next
    fix p zs v assume "Q (p # zs) v"
    then obtain us where us: "xs = us @ p # zs" "v = w\<lparr>block := block w @ concat (map f us)\<rparr>" "length (block v) \<le> cap"
      by (auto simp: Q_def)
    have b: "appends cap (f p) (body p v) v" using body [of p "block w @ concat (map f us)"] us by simp
    show "(\<exists>v'. body p v = Ret () v' \<and> Q zs v') \<or> (\<exists>h v'. body p v = Stop h v' \<and> h = UB \<and> cap < length (block w) + length (concat (map f xs)))"
    proof (cases "length (block v) + length (f p) \<le> cap")
      case True
      then have "body p v = Ret () (v\<lparr>block := block v @ f p\<rparr>)" using b by (simp add: appends_def)
      moreover have "Q zs (v\<lparr>block := block v @ f p\<rparr>)" unfolding Q_def using us True by (intro exI [of _ "us @ [p]"]) simp
      ultimately show ?thesis by blast
    next
      case False
      then show ?thesis using b us by (auto simp: appends_def)
    qed
  qed
  then show ?thesis by (cases "HASH_ITER body w") (auto simp: appends_def Q_def)
qed

section \<open>The packet that is built\<close>

definition ls_of :: "world \<Rightarrow> ptr \<Rightarrow> link_state" where "ls_of w p = p_ls (the (peers w p))"

text \<open>One record per edge: from this proxy to each member, and from each member to this proxy and to the other members.\<close>

definition row_records :: "world \<Rightarrow> ptr list \<Rightarrow> ptr \<Rightarrow> link_state_record list" where
  "row_records w xs p = ls_record (now w) (ls_of w p) (linkState w) #
     map (\<lambda>p'. ls_record (timestamp (the (peers w p))) (ls_of w p) (ls_of w p')) (filter (\<lambda>p'. p \<noteq> p') xs)"

definition broadcast_records :: "world \<Rightarrow> ptr list \<Rightarrow> link_state_record list" where
  "broadcast_records w xs = map (\<lambda>p. ls_record (now w) (linkState w) (ls_of w p)) xs @ concat (map (row_records w xs) xs)"

definition broadcast_source :: "world \<Rightarrow> ptr list \<Rightarrow> link_state_source" where
  "broadcast_source w xs = \<lparr>lss_ls = linkState w, lss_numNbrs = htons (of_nat (length xs))\<rparr>"

lemma broadcast_records_length:
  assumes "distinct xs"
  shows "length (broadcast_records w xs) = length xs * length xs + length xs"
proof -
  have "length (row_records w xs p) = length xs" if "p \<in> set xs" for p
  proof -
    have "length (filter (\<lambda>p'. p \<noteq> p') xs) = length xs - 1"
      using assms that distinct_remove1_removeAll [of xs p] length_remove1 [of p xs] by (simp add: removeAll_filter_not_eq)
    moreover have "length xs \<noteq> 0" using that by auto
    ultimately show ?thesis by (simp add: row_records_def)
  qed
  then have "length (concat (map (row_records w xs) xs)) = (\<Sum>p\<leftarrow>xs. length xs)"
    by (simp add: length_concat comp_def cong: map_cong)
  then show ?thesis by (simp add: broadcast_records_def sum_list_triv)
qed

definition wf_peers :: "world \<Rightarrow> ptr list \<Rightarrow> bool" where
  "wf_peers w xs \<longleftrightarrow> wf_link_state (linkState w) \<and> (\<forall>p\<in>set xs. wf_link_state (ls_of w p))"

lemma broadcast_records_wf: "wf_peers w xs \<Longrightarrow> list_all wf_record (broadcast_records w xs)"
  by (auto simp: broadcast_records_def row_records_def list_all_iff wf_record_def ls_record_def wf_peers_def)

lemma read_stamp_unlocked:
  assumes "peers w p = Some q" and "timeout_mutex q = None"
  shows "read_stamp me p w = Ret (timestamp q) w"
proof -
  have q: "q\<lparr>timeout_mutex := None\<rparr> = q" using assms(2) by simp
  have "(peers w)(p \<mapsto> q) = peers w" using assms(1) by auto
  then show ?thesis
    using assms by (simp add: read_stamp_def peer_mutex_lock_def peer_mutex_unlock_def get_peer_def set_peer_def q)
qed

lemma row_appends:
  assumes wf: "wf_world w xs" and u: "unlocked w" and p: "p \<in> set xs" and b: "length b \<le> cap"
  shows "appends cap (concat (map enc_link_state_record (row_records w xs p))) (broadcast_row me cap p (w\<lparr>block := b\<rparr>)) (w\<lparr>block := b\<rparr>)"
proof -
  obtain q where q: "peers w p = Some q" using wf_worldD(5) [OF wf p] by blast
  have stamp: "read_stamp me p (w\<lparr>block := b\<rparr>) = Ret (timestamp q) (w\<lparr>block := b\<rparr>)" for b
    using read_stamp_unlocked [of "w\<lparr>block := b\<rparr>" p q me] q u by (auto simp: unlocked_def)
  let ?r1 = "ls_record (now w) (p_ls q) (linkState w)"
  let ?f = "\<lambda>p'. if p = p' then [] else enc_link_state_record (ls_record (timestamp q) (p_ls q) (ls_of w p'))"
  let ?body = "\<lambda>tmp w. if p = tmp then Ret () w else
       bind_run (read_stamp me p w) (\<lambda>t w. bind_run (get_peer p w) (\<lambda>q w. bind_run (get_peer tmp w) (\<lambda>q' w.
       put_record cap (ls_record t (p_ls q) (p_ls q')) w)))"
  have inner: "appends cap (concat (map ?f xs)) (for_members ?body (w\<lparr>block := b'\<rparr>)) (w\<lparr>block := b'\<rparr>)" if "length b' \<le> cap" for b'
  proof (rule for_members_appends)
    show "uh_rep (members (w\<lparr>block := b'\<rparr>)) xs" using wf_worldD(1) [OF wf] by simp
    show "length (block (w\<lparr>block := b'\<rparr>)) \<le> cap" using that by simp
  next
    fix p' and c :: bytes assume p': "p' \<in> set xs" and c: "length c \<le> cap"
    obtain q' where q': "peers w p' = Some q'" using wf_worldD(5) [OF wf p'] by blast
    show "appends cap (?f p') (?body p' (w\<lparr>block := b'\<rparr>\<lparr>block := c\<rparr>)) (w\<lparr>block := b'\<rparr>\<lparr>block := c\<rparr>)"
      using c by (simp add: appends_nil stamp get_peer_def q q' put_record_def ls_of_def)
  qed
  have cm: "concat (map ?f xs) = concat (map enc_link_state_record (map (\<lambda>p'. ls_record (timestamp q) (p_ls q) (ls_of w p')) (filter (\<lambda>p'. p \<noteq> p') xs)))"
    by (induction xs) auto
  have "appends cap (enc_link_state_record ?r1 @ concat (map ?f xs))
      (bind_run (put_record cap ?r1 (w\<lparr>block := b\<rparr>)) (\<lambda>_ w. for_members ?body w)) (w\<lparr>block := b\<rparr>)"
    by (rule appends_bind) (use inner in \<open>simp_all add: put_record_def\<close>)
  then show ?thesis
    by (simp add: broadcast_row_def stamp get_peer_def q row_records_def ls_of_def cm del: map_map)
qed

lemma concat_map_rows: "concat (map e (concat (map r xs))) = concat (map (\<lambda>p. concat (map e (r p))) xs)"
  by (induction xs) simp_all

lemma broadcast_build_appends:
  fixes len :: u16
  assumes wf: "wf_world w xs" and u: "unlocked w"
  defines "cap \<equiv> PROXY_HLEN + unat len"
  shows "appends cap (enc_proxy_header \<lparr>ph_type = htons LINK_STATE, ph_length = htons len\<rparr> @ u16_bytes (htons N) @ enc_link_state (linkState w) @
      u16_bytes (htons N) @ concat (map enc_link_state_record (broadcast_records w xs))) (broadcast_build me N len w) (w\<lparr>block := []\<rparr>)"
proof -
  let ?e1 = "\<lambda>p. enc_link_state_record (ls_record (now w) (linkState w) (ls_of w p))" and ?e2 = "\<lambda>p. concat (map enc_link_state_record (row_records w xs p))"
  let ?body = "\<lambda>pp w. bind_run (get_peer pp w) (\<lambda>q w. put_record cap (ls_record (now w) (linkState w) (p_ls q)) w)"
  have rep: "uh_rep (members w) xs" by (rule wf_worldD(1) [OF wf])
  have l1: "appends cap (concat (map ?e1 xs)) (HASH_ITER ?body (w\<lparr>block := b\<rparr>)) (w\<lparr>block := b\<rparr>)" if "length b \<le> cap" for b
  proof (rule HASH_ITER_appends)
    fix p and c :: bytes assume "p \<in> set xs" "length c \<le> cap"
    then obtain q where "peers w p = Some q" using wf_worldD(5) [OF wf] by blast
    then show "appends cap (?e1 p) (?body p (w\<lparr>block := b\<rparr>\<lparr>block := c\<rparr>)) (w\<lparr>block := b\<rparr>\<lparr>block := c\<rparr>)"
      by (simp add: get_peer_def put_record_def ls_of_def)
  qed (use rep that in simp_all)
  have l2: "appends cap (concat (map ?e2 xs)) (for_members (broadcast_row me cap) (w\<lparr>block := b\<rparr>)) (w\<lparr>block := b\<rparr>)" if "length b \<le> cap" for b
  proof (rule for_members_appends)
    fix p and c :: bytes assume "p \<in> set xs" "length c \<le> cap"
    then show "appends cap (?e2 p) (broadcast_row me cap p (w\<lparr>block := b\<rparr>\<lparr>block := c\<rparr>)) (w\<lparr>block := b\<rparr>\<lparr>block := c\<rparr>)"
      using row_appends [OF wf u, of p c cap me] by simp
  qed (use rep that in simp_all)
  have recs: "concat (map enc_link_state_record (broadcast_records w xs)) = concat (map ?e1 xs) @ concat (map ?e2 xs)"
    by (simp add: broadcast_records_def concat_map_rows comp_def)
  show ?thesis
    unfolding broadcast_build_def Let_def cap_def [symmetric] recs
    apply (rule appends_bind, rule appends_put, simp)
    apply (rule appends_bind, rule appends_put, simp)
    apply (rule appends_bind, rule appends_put, simp)
    apply (rule appends_bind, rule appends_put, simp)
    apply (rule appends_bind, rule l1, simp, simp add: l2)
    done
qed

section \<open>Sending to the members\<close>

text \<open>The loops keep the alarm, the time and the block.\<close>

definition held :: "bytes \<Rightarrow> u32 \<Rightarrow> timespec \<Rightarrow> world \<Rightarrow> bool" where
  "held pkt a t w \<longleftrightarrow> block w = pkt \<and> alarm w = a \<and> now w = t"

text \<open>Both loops drop a member whose write has failed, and keep the others.\<close>

lemma write_or_unlink:
  assumes "wf_world w xs" and q: "peers w p = Some q" "p \<in> set xs" and "held blk a t w"
  shows "case bind_run (peer_write p pkt w) (\<lambda>r w. if r < 0 then unlink_peer (\<lambda>q. [timeout_tid q, p_tid q]) p w else Ret () w) of
      Stop h w' \<Rightarrow> h = Waiting
    | Ret _ w' \<Rightarrow> held blk a t w' \<and> lock w' = lock w \<and>
        (\<exists>bs. sent (kern w') = (sent (kern w))(rfd (p_rio q) := sent (kern w) (rfd (p_rio q)) @ bs) \<and>
        (wf_world w' xs \<and> peers w' = peers w \<and> bs = pkt \<or> wf_world w' (remove1 p xs) \<and> peers w' = (peers w)(p := None)))"
proof (cases "peer_write p pkt w")
  case (Ret r w1)
  obtain s k where w1: "w1 = w\<lparr>kern := s\<rparr>" and k: "sent s = (sent (kern w))(rfd (p_rio q) := sent (kern w) (rfd (p_rio q)) @ take k pkt)"
      "r = -1 \<or> r = int (length pkt) \<and> take k pkt = pkt"
    using peer_write_cases [OF q(1), of pkt] by (auto simp: Ret)
  show ?thesis
  proof (cases "r < 0")
    case True
    obtain w' where u: "unlink_peer (\<lambda>q. [timeout_tid q, p_tid q]) p w1 = Ret () w'" "wf_world w' (remove1 p xs)" and
        eq: "w' = w1\<lparr>members := members w', kern := (kern w1)\<lparr>closed := closed (kern w1) @ [rfd (p_rio q)]\<rparr>,
          cancelled := cancelled w1 @ [timeout_tid q, p_tid q], peers := (peers w1)(p := None)\<rparr>"
      using unlink_peer_result [of w1 xs p q "\<lambda>q. [timeout_tid q, p_tid q]"] assms w1 by auto
    have "held blk a t w'" "lock w' = lock w" "sent (kern w') = sent s" "peers w' = (peers w)(p := None)"
      unfolding held_def using assms(4) by (subst eq, simp add: w1 held_def)+
    then show ?thesis using True u k(1) by (auto simp: Ret)
  next
    case False
    then show ?thesis using k assms by (auto simp: Ret w1 held_def)
  qed
next
  case (Stop h w')
  then show ?thesis using peer_write_cases [OF q(1), of pkt] by simp
qed

interpretation bcast: delivery "held pkt a t" "\<lambda>q q' bs. q' = q \<and> bs = pkt" "broadcast_send (length pkt)" for pkt a t
proof
  fix w xs p q
  assume a: "held pkt a t w" "wf_world w xs" "peers w p = Some q" "p \<in> set xs"
  have "broadcast_send (length pkt) p w =
      bind_run (peer_write p pkt w) (\<lambda>r w. if r < 0 then unlink_peer (\<lambda>q. [timeout_tid q, p_tid q]) p w else Ret () w)"
    using a(1) load_id [of 0 "length pkt" pkt] by (simp add: broadcast_send_def held_def)
  moreover have "(peers w)(p \<mapsto> q) = peers w" using a(3) by auto
  ultimately show "case broadcast_send (length pkt) p w of
      Stop h w' \<Rightarrow> h = Waiting
    | Ret _ w' \<Rightarrow> held pkt a t w' \<and> lock w' = lock w \<and>
        (\<exists>bs. sent (kern w') = (sent (kern w))(rfd (p_rio q) := sent (kern w) (rfd (p_rio q)) @ bs) \<and>
        ((\<exists>q'. wf_world w' xs \<and> peers w' = (peers w)(p \<mapsto> q') \<and> q' = q \<and> bs = pkt) \<or>
         wf_world w' (remove1 p xs) \<and> peers w' = (peers w)(p := None)))"
    using write_or_unlink [OF a(2,3,4,1), of pkt] by (auto split: run.splits)
qed

interpretation probes: delivery "held pkt a t" "\<lambda>q q' bs. \<exists>t. q' = q\<lparr>probe_ts := t\<rparr> \<and> bs = enc_probe_req (probe_packet t)" probe_send for pkt a t
proof
  fix w xs p q
  assume a: "held pkt a t w" "wf_world w xs" "peers w p = Some q" "p \<in> set xs"
  show "case probe_send p w of
      Stop h w' \<Rightarrow> h = Waiting
    | Ret _ w' \<Rightarrow> held pkt a t w' \<and> lock w' = lock w \<and>
        (\<exists>bs. sent (kern w') = (sent (kern w))(rfd (p_rio q) := sent (kern w) (rfd (p_rio q)) @ bs) \<and>
        ((\<exists>q'. wf_world w' xs \<and> peers w' = (peers w)(p \<mapsto> q') \<and> (\<exists>t. q' = q\<lparr>probe_ts := t\<rparr> \<and> bs = enc_probe_req (probe_packet t))) \<or>
         wf_world w' (remove1 p xs) \<and> peers w' = (peers w)(p := None)))"
  proof (cases "clocks (kern w)")
    case Nil
    then show ?thesis by (simp add: probe_send_def clock_gettime_def)
  next
    case (Cons c cs)
    let ?q = "q\<lparr>probe_ts := c\<rparr>" and ?w = "w\<lparr>kern := (kern w)\<lparr>clocks := cs\<rparr>, peers := (peers w)(p \<mapsto> q\<lparr>probe_ts := c\<rparr>)\<rparr>"
    have "wf_world (w\<lparr>peers := (peers w)(p \<mapsto> ?q)\<rparr>) xs" by (rule wf_world_peer [OF a(2,3)]) simp
    then have "wf_world ?w xs" "peers ?w p = Some ?q" "held pkt a t ?w" using a(1) by (simp_all add: wf_world_def held_def)
    from write_or_unlink [OF this(1,2) a(4) this(3), of "enc_probe_req (probe_packet c)"] show ?thesis
      using a(3) Cons by (auto simp: probe_send_def clock_gettime_def set_peer_def split: run.splits)
  qed
qed

section \<open>The handler\<close>

lemma uint_of_small: "n < 65536 \<Longrightarrow> uint (of_nat n :: u16) = int n"
  by (simp add: unsigned_of_nat take_bit_nat_eq_self)

lemma broadcast_len:
  assumes "n < 65536" and "N = (of_nat n :: u16)"
  shows "ucast (2 + 20 + (word_of_int (uint N * (uint N + 1)) :: u32) * 48) = (of_nat (ls_len n) :: u16)"
proof -
  have "uint N = int n" using uint_of_small [OF assms(1)] assms(2) by simp
  then have "uint N * (uint N + 1) = int (n * n + n)" by (simp add: algebra_simps)
  then have "2 + 20 + (word_of_int (uint N * (uint N + 1)) :: u32) * 48 = of_nat (ls_len n)" by (simp add: ls_len_def)
  moreover have "ucast (of_nat m :: u32) = (of_nat m :: u16)" for m
    by (simp add: unsigned_of_nat word_of_nat_eq_iff)
  ultimately show ?thesis by simp
qed

lemma broadcast_block_length:
  assumes "wf_peers w xs" and "distinct xs"
  shows "length (enc_proxy_header h @ u16_bytes x @ enc_link_state (linkState w) @ u16_bytes y @
    concat (map enc_link_state_record (broadcast_records w xs))) = 4 + ls_len (length xs)"
proof -
  have "length (concat (map enc_link_state_record (broadcast_records w xs))) = length (broadcast_records w xs) * 48"
    using lsr.encs_length [of "broadcast_records w xs"] broadcast_records_wf [OF assms(1)] by (simp add: wf_record_def [abs_def])
  moreover have "length (enc_link_state (linkState w)) = 18" using ls.enc_length assms(1) by (simp add: wf_peers_def)
  moreover have "length (enc_proxy_header h) = 4" using ph.enc_length by simp
  ultimately show ?thesis
    using broadcast_records_length [OF assms(2)] by (simp add: codec_simps ls_len_def)
qed

lemma broadcast_starts:
  assumes wf: "wf_world w xs" and "xs \<noteq> []" and n: "length xs < 65536" and "clocks (kern w) = t # ts"
  defines "w1 \<equiv> w\<lparr>alarm := link_period (config w), kern := (kern w)\<lparr>clocks := ts\<rparr>, now := t\<rparr>"
    and "len \<equiv> of_nat (ls_len (length xs)) :: u16"
  shows "Link_State_Broadcast me w =
    (if \<not> int_ok (int (length xs) * (int (length xs) + 1)) then Stop UB w1
     else bind_run (broadcast_build me (of_nat (length xs)) len w1) (\<lambda>_ w.
      bind_run (HASH_ITER (broadcast_send (PROXY_HLEN + unat len)) w) (\<lambda>_ w.
      bind_run (HASH_ITER probe_send w) (\<lambda>_ w. Ret () (w\<lparr>block := []\<rparr>)))))"
proof -
  obtain y where "head (members w) = Some y" using wf_worldD(1) [OF wf] assms(2) by (auto simp: uh_rep_def)
  moreover have "member_count (w\<lparr>alarm := link_period (config w), kern := (kern w)\<lparr>clocks := ts\<rparr>, now := t\<rparr>) = of_nat (length xs)"
    using HASH_COUNT_ok [OF wf_worldD(1) [OF wf]] by (simp add: member_count_def)
  moreover note uint_of_small [OF n]
  moreover note broadcast_len [OF n refl]
  ultimately show ?thesis
    using assms(4) by (simp add: Link_State_Broadcast_def Let_def clock_gettime_def w1_def len_def)
qed

text \<open>
  C34. The packet of a proxy with 37 or more members does not fit the 16-bit length field:
  the field is cut off, the block is allocated with the cut length, and writing the records
  leaves the block.
\<close>

theorem broadcast_overflows:
  assumes "wf_world w xs" and "unlocked w" and "wf_peers w xs" and "37 \<le> length xs" and "length xs < 65536" and "clocks (kern w) = t # ts"
  shows "\<exists>w'. Link_State_Broadcast me w = Stop UB w'"
proof (cases "int_ok (int (length xs) * (int (length xs) + 1))")
  case True
  have ne: "xs \<noteq> []" using assms(4) by auto
  let ?w = "w\<lparr>alarm := link_period (config w), kern := (kern w)\<lparr>clocks := ts\<rparr>, now := t\<rparr>" and ?len = "of_nat (ls_len (length xs)) :: u16"
  have wf: "wf_world ?w xs" "unlocked ?w" "wf_peers ?w xs"
    using assms(1-3) by (simp_all add: wf_world_def unlocked_def wf_peers_def ls_of_def)
  have "37 * 37 \<le> length xs * length xs" using assms(4) by (intro mult_le_mono) auto
  then have big: "65536 + 4 < 4 + ls_len (length xs)" using assms(4) by (simp add: ls_len_def)
  have "PROXY_HLEN + unat ?len < 65536 + 4" using unsigned_less [of ?len, where 'a = nat] by (simp add: size_defs)
  then have "\<exists>w'. broadcast_build me (of_nat (length xs)) ?len ?w = Stop UB w'"
    using broadcast_build_appends [OF wf(1,2), of ?len "of_nat (length xs)" me] big
      broadcast_block_length [OF wf(3) wf_worldD(3) [OF wf(1)]]
    by (simp add: appends_def)
  then show ?thesis
    using broadcast_starts [OF assms(1) ne assms(5,6), of me] True by auto
next
  case False
  have "xs \<noteq> []" using assms(4) by auto
  from broadcast_starts [OF assms(1) this assms(5,6), of me] False show ?thesis by auto
qed

text \<open>A state with \<open>n\<close> members, the peers 0 to \<open>n - 1\<close>.\<close>

definition many_peer :: "nat \<Rightarrow> Peer" where
  "many_peer i = zero_peer\<lparr>p_ls := demo_ls i, p_rio := demo_rio\<lparr>rfd := int i\<rparr>\<rparr>"

primrec many_world :: "nat \<Rightarrow> world" where
  "many_world 0 = demo_world\<lparr>linkState := demo_ls 99, peers := \<lambda>p. if p < 64 then Some (many_peer p) else None,
     members := demo_empty\<lparr>hh := \<lambda>p. if p < 64 then Some zero_handle else None\<rparr>, brk := 64\<rparr>"
| "many_world (Suc n) = (many_world n)\<lparr>members := the (HASH_ADD (members (many_world n)) n (demo_mac n))\<rparr>"

lemma many_world_fields:
  "peers (many_world n) p = (if p < 64 then Some (many_peer p) else None)" "lock (many_world n) = rw_init" "linkState (many_world n) = demo_ls 99"
  "clocks (kern (many_world n)) = [zero_ts, zero_ts]"
  by (induction n) (simp_all add: demo_world_def)

lemma many_world_wf: "n \<le> 64 \<Longrightarrow> wf_world (many_world n) [0..<n] \<and> (\<forall>i. n \<le> i \<and> i < 64 \<longrightarrow> roster (many_world n) [0..<n] (demo_mac i) = None)"
proof (induction n)
  case 0
  then show ?case
    by (auto simp: wf_world_def roster_def key_map_def uh_rep_def demo_empty_def demo_world_def dom_def split: if_splits)
next
  case (Suc n)
  then have wf: "wf_world (many_world n) [0..<n]" "roster (many_world n) [0..<n] (demo_mac n) = None"
      "\<And>i. n \<le> i \<Longrightarrow> i < 64 \<Longrightarrow> roster (many_world n) [0..<n] (demo_mac i) = None"
    by simp_all
  have p: "peers (many_world n) n = Some (many_peer n)" "tapMAC (p_ls (many_peer n)) = demo_mac n"
    using Suc.prems by (simp_all add: many_world_fields many_peer_def demo_ls_def)
  obtain t where t: "HASH_ADD (members (many_world n)) n (demo_mac n) = Some t" "wf_world (many_world n\<lparr>members := t\<rparr>) ([0..<n] @ [n])"
      "roster (many_world n\<lparr>members := t\<rparr>) ([0..<n] @ [n]) = (roster (many_world n) [0..<n])(demo_mac n \<mapsto> n)"
    using wf_world_add [OF wf(1) p(1)] wf(2) p(2) by auto
  have "demo_mac i \<noteq> demo_mac n" if "Suc n \<le> i" "i < 64" for i
    using that by (simp add: demo_mac_def word_of_nat_eq_iff take_bit_nat_eq_self)
  then show ?case using t wf(3) by auto
qed

theorem broadcast_overflows_witness: "\<exists>w'. Link_State_Broadcast 7 (many_world 37) = Stop UB w'"
proof (rule broadcast_overflows)
  show "wf_world (many_world 37) [0..<37]" using many_world_wf [of 37] by simp
  show "unlocked (many_world 37)" by (auto simp: unlocked_def many_world_fields many_peer_def zero_peer_def split: if_splits)
  show "wf_peers (many_world 37) [0..<37]" by (simp add: wf_peers_def ls_of_def many_world_fields many_peer_def)
qed (simp_all add: many_world_fields)

section \<open>What the members receive\<close>

definition broadcast_packet :: "world \<Rightarrow> ptr list \<Rightarrow> bytes" where
  "broadcast_packet w xs = packet LINK_STATE (ls_payload (of_nat (length xs)) (broadcast_source w xs) (broadcast_records w xs))"

lemma broadcast_payload_length:
  assumes "wf_peers w xs" and "distinct xs"
  shows "length (ls_payload (of_nat (length xs)) (broadcast_source w xs) (broadcast_records w xs)) = ls_len (length xs)"
  using ls_payload_parts(4) [of "broadcast_source w xs" "broadcast_records w xs"] broadcast_records_wf [OF assms(1)]
    broadcast_records_length [OF assms(2), of w] assms(1)
  by (simp add: broadcast_source_def wf_peers_def ls_len_def)

lemma broadcast_build_run:
  assumes wf: "wf_world w xs" and "unlocked w" and "wf_peers w xs" and fits: "ls_len (length xs) < 65536"
  shows "broadcast_build me (of_nat (length xs)) (of_nat (ls_len (length xs))) w = Ret () (w\<lparr>block := broadcast_packet w xs\<rparr>)"
    and "length (broadcast_packet w xs) = 4 + ls_len (length xs)"
proof -
  note d = wf_worldD(3) [OF wf]
  have pk: "broadcast_packet w xs = enc_proxy_header \<lparr>ph_type = htons LINK_STATE, ph_length = htons (of_nat (ls_len (length xs)))\<rparr> @
      u16_bytes (htons (of_nat (length xs))) @ enc_link_state (linkState w) @ u16_bytes (htons (of_nat (length xs))) @
      concat (map enc_link_state_record (broadcast_records w xs))"
    unfolding broadcast_packet_def packet_def broadcast_payload_length [OF assms(3) d]
    by (simp add: ls_payload_def broadcast_source_def enc_link_state_source_def)
  then show len: "length (broadcast_packet w xs) = 4 + ls_len (length xs)" using broadcast_block_length [OF assms(3) d] by simp
  have "unat (of_nat (ls_len (length xs)) :: u16) = ls_len (length xs)" using fits by (simp add: unat_of_nat)
  then show "broadcast_build me (of_nat (length xs)) (of_nat (ls_len (length xs))) w = Ret () (w\<lparr>block := broadcast_packet w xs\<rparr>)"
    using broadcast_build_appends [OF wf assms(2), of "of_nat (ls_len (length xs))" "of_nat (length xs)" me, folded pk] len
    by (simp add: appends_def size_defs)
qed

text \<open>The two loops one after the other.\<close>

lemma broadcast_loops:
  assumes "held pkt a t w" and wf: "wf_world w xs" and inj: "inj_on (fd_of w) (set xs)"
  shows "case bind_run (HASH_ITER (broadcast_send (length pkt)) w) (\<lambda>_ w. HASH_ITER probe_send w) of
      Stop h w' \<Rightarrow> h = Waiting
    | Ret _ w' \<Rightarrow> held pkt a t w' \<and> (\<exists>ys. set ys \<subseteq> set xs \<and> wf_world w' ys \<and>
        (\<forall>p\<in>set ys. \<exists>q t. peers w p = Some q \<and> peers w' p = Some (q\<lparr>probe_ts := t\<rparr>) \<and>
           sent (kern w') (fd_of w p) = sent (kern w) (fd_of w p) @ pkt @ enc_probe_req (probe_packet t)) \<and>
        (\<forall>p\<in>set xs - set ys. peers w' p = None))"
proof (cases "HASH_ITER (broadcast_send (length pkt)) w")
  case (Stop h w1)
  then show ?thesis using bcast.loop_result [OF assms] by simp
next
  case (Ret u w1)
  then obtain zs where h1: "held pkt a t w1" and zs: "set zs \<subseteq> set xs" "wf_world w1 zs"
      and s1: "\<forall>p\<in>set zs. \<exists>q. peers w p = Some q \<and> peers w1 p = Some q \<and> sent (kern w1) (fd_of w p) = sent (kern w) (fd_of w p) @ pkt"
      and gone: "\<forall>p\<in>set xs - set zs. peers w1 p = None"
    using bcast.loop_result [OF assms] by fastforce
  have fd: "fd_of w1 p = fd_of w p" if "p \<in> set zs" for p using s1 that by (fastforce simp: fd_of_def)
  then have inj1: "inj_on (fd_of w1) (set zs)" using inj zs(1) by (auto simp: inj_on_def)
  note l2 = probes.loop_result [OF h1 zs(2) inj1]
  show ?thesis
  proof (cases "HASH_ITER probe_send w1")
    case (Ret v w2)
    obtain ys where ys: "held pkt a t w2" "set ys \<subseteq> set zs" "wf_world w2 ys" "\<forall>p\<in>set zs - set ys. peers w2 p = None"
        "\<forall>p. p \<notin> set zs \<longrightarrow> peers w2 p = peers w1 p"
        "\<forall>p\<in>set ys. \<exists>q t. peers w1 p = Some q \<and> peers w2 p = Some (q\<lparr>probe_ts := t\<rparr>) \<and>
           sent (kern w2) (fd_of w1 p) = sent (kern w1) (fd_of w1 p) @ enc_probe_req (probe_packet t)"
      using l2 by (fastforce simp: Ret)
    have "\<exists>q t. peers w p = Some q \<and> peers w2 p = Some (q\<lparr>probe_ts := t\<rparr>) \<and>
        sent (kern w2) (fd_of w p) = sent (kern w) (fd_of w p) @ pkt @ enc_probe_req (probe_packet t)" if "p \<in> set ys" for p
    proof -
      have z: "p \<in> set zs" using that ys(2) by auto
      then show ?thesis using bspec [OF ys(6) that] bspec [OF s1 z] fd [OF z] by auto
    qed
    moreover have "peers w2 p = None" if "p \<in> set xs - set ys" for p
      using that ys(4,5) gone by (cases "p \<in> set zs") auto
    ultimately show ?thesis using ys(1-3) zs(1) \<open>HASH_ITER (broadcast_send (length pkt)) w = Ret u w1\<close> Ret by (auto intro!: exI [of _ ys])
  next
    case (Stop h w2)
    then show ?thesis using l2 \<open>HASH_ITER (broadcast_send (length pkt)) w = Ret u w1\<close> by simp
  qed
qed

lemma broadcast_to_loops:
  assumes "wf_world w xs" and "xs \<noteq> []" and "unlocked w" and "wf_peers w xs" and "ls_len (length xs) < 65536" and "clocks (kern w) = t # ts"
  defines "pkt \<equiv> broadcast_packet (w\<lparr>now := t\<rparr>) xs"
  defines "w1 \<equiv> w\<lparr>alarm := link_period (config w), kern := (kern w)\<lparr>clocks := ts\<rparr>, now := t, block := pkt\<rparr>"
  shows "Link_State_Broadcast me w = bind_run (bind_run (HASH_ITER (broadcast_send (length pkt)) w1) (\<lambda>_ w. HASH_ITER probe_send w))
      (\<lambda>_ w. Ret () (w\<lparr>block := []\<rparr>))"
proof -
  let ?w = "w\<lparr>alarm := link_period (config w), kern := (kern w)\<lparr>clocks := ts\<rparr>, now := t\<rparr>"
  have n: "length xs < 65536" using small_count [OF assms(5)] by simp
  have ok: "int_ok (int (length xs) * (int (length xs) + 1))"
  proof -
    have "length xs * (length xs + 1) < 65536" using assms(5) by (simp add: ls_len_def)
    then have "int (length xs * (length xs + 1)) < 65536" by linarith
    moreover have "int (length xs) * (int (length xs) + 1) = int (length xs * (length xs + 1))" by (simp add: algebra_simps)
    ultimately show ?thesis by (simp add: int_ok_def del: of_nat_mult of_nat_add)
  qed
  have wf: "wf_world ?w xs" "unlocked ?w" "wf_peers ?w xs"
    using assms(1,3,4) by (simp_all add: wf_world_def unlocked_def wf_peers_def ls_of_def)
  have pk: "broadcast_packet ?w xs = pkt"
    by (simp add: pkt_def broadcast_packet_def broadcast_source_def broadcast_records_def row_records_def [abs_def] ls_of_def [abs_def])
  note build = broadcast_build_run [OF wf assms(5), unfolded pk]
  have "unat (of_nat (ls_len (length xs)) :: u16) = ls_len (length xs)" using assms(5) by (simp add: unat_of_nat)
  then show "Link_State_Broadcast me w = bind_run (bind_run (HASH_ITER (broadcast_send (length pkt)) w1) (\<lambda>_ w. HASH_ITER probe_send w))
      (\<lambda>_ w. Ret () (w\<lparr>block := []\<rparr>))"
    using broadcast_starts [OF assms(1,2) n assms(6), of me] ok build by (simp add: bind_run_assoc size_defs w1_def)
qed

lemma broadcast_run:
  assumes "wf_world w xs" and "xs \<noteq> []" and "unlocked w" and "wf_peers w xs" and "ls_len (length xs) < 65536"
    and "inj_on (fd_of w) (set xs)" and "clocks (kern w) = t # ts"
  shows "case Link_State_Broadcast me w of
      Stop h w' \<Rightarrow> h = Waiting
    | Ret _ w' \<Rightarrow> alarm w' = link_period (config w) \<and> now w' = t \<and> (\<exists>ys. set ys \<subseteq> set xs \<and> wf_world w' ys \<and>
        (\<forall>p\<in>set ys. \<exists>q t'. peers w p = Some q \<and> peers w' p = Some (q\<lparr>probe_ts := t'\<rparr>) \<and>
           sent (kern w') (fd_of w p) = sent (kern w) (fd_of w p) @ broadcast_packet (w\<lparr>now := t\<rparr>) xs @ enc_probe_req (probe_packet t')) \<and>
        (\<forall>p\<in>set xs - set ys. peers w' p = None))"
proof -
  let ?pkt = "broadcast_packet (w\<lparr>now := t\<rparr>) xs"
  let ?w1 = "w\<lparr>alarm := link_period (config w), kern := (kern w)\<lparr>clocks := ts\<rparr>, now := t, block := ?pkt\<rparr>"
  note run = broadcast_to_loops [OF assms(1-5,7), of me]
  have "held ?pkt (link_period (config w)) t ?w1" "wf_world ?w1 xs" "fd_of ?w1 = fd_of w"
    using assms(1) by (simp_all add: held_def fd_of_def fun_eq_iff wf_world_def)
  with broadcast_loops [of ?pkt "link_period (config w)" t ?w1 xs] assms(6) show ?thesis
    unfolding run by (auto simp: held_def split: run.splits)
qed

text \<open>
  C13. The periodic broadcast of a proxy with at most 36 members: the alarm is set again, and
  every member that is left afterwards has been sent the link-state packet with one record
  for every edge of the network as this proxy knows it, and after it a bandwidth probe whose
  time is remembered in the peer; the members that could not be reached are removed and
  freed. Only the kernel can hold the handler up.
\<close>

theorem broadcast_reaches_members:
  assumes "wf_world w xs" and "xs \<noteq> []" and "unlocked w" and "wf_peers w xs" and "ls_len (length xs) < 65536"
    and "inj_on (fd_of w) (set xs)" and "clocks (kern w) = t # ts"
  shows "case Link_State_Broadcast me w of
      Stop h w' \<Rightarrow> h = Waiting
    | Ret _ w' \<Rightarrow> alarm w' = link_period (config w) \<and> now w' = t \<and> (\<exists>ys. set ys \<subseteq> set xs \<and> wf_world w' ys \<and>
        (\<forall>p\<in>set ys. \<exists>q t'. peers w p = Some q \<and> peers w' p = Some (q\<lparr>probe_ts := t'\<rparr>) \<and>
           sent (kern w') (fd_of w p) = sent (kern w) (fd_of w p) @ broadcast_packet (w\<lparr>now := t\<rparr>) xs @ enc_probe_req (probe_packet t')) \<and>
        (\<forall>p\<in>set xs - set ys. peers w' p = None))"
  by (rule broadcast_run [OF assms])

theorem broadcast_reaches_members_witness:
  "case Link_State_Broadcast 7 (many_world 3) of
      Stop h w' \<Rightarrow> h = Waiting
    | Ret _ w' \<Rightarrow> alarm w' = 5 \<and> (\<exists>ys. set ys \<subseteq> {0, 1, 2} \<and> wf_world w' ys)"
proof -
  have cf: "link_period (config (many_world n)) = 5" for n by (induction n) (simp_all add: demo_world_def)
  have wf: "wf_world (many_world 3) [0..<3]" using many_world_wf [of 3] by simp
  have "unlocked (many_world 3)" by (auto simp: unlocked_def many_world_fields many_peer_def zero_peer_def split: if_splits)
  moreover have "wf_peers (many_world 3) [0..<3]" by (simp add: wf_peers_def ls_of_def many_world_fields many_peer_def)
  moreover have "inj_on (fd_of (many_world 3)) (set [0..<3])"
    by (auto simp: inj_on_def fd_of_def many_world_fields many_peer_def)
  moreover have "set [0..<3] = {0, 1, 2 :: nat}" by auto
  ultimately show ?thesis
    using broadcast_reaches_members [OF wf, of zero_ts "[zero_ts]" 7] cf
    by (auto simp: ls_len_def many_world_fields split: run.splits)
qed

end
