(* ===== verification/Timers.thy ===== *)
theory Timers
  imports Delivery
begin

text \<open>
  The thread that severs a link that was not refreshed, and the handler of the termination
  signals (\<^verbatim>\<open>handlers.c\<close>). While the thread waits, other threads run: the answers of
  \<^verbatim>\<open>pthread_cond_timedwait\<close> also say which timestamp they stored in the peer.
\<close>

section \<open>The timeout thread\<close>

text \<open>
  The seconds since \<open>stamp\<close>, with a borrow from the seconds when the nanoseconds are
  negative; \<open>None\<close> when a signed subtraction overflows.
\<close>

definition link_age :: "timespec \<Rightarrow> timespec \<Rightarrow> int option" where
  "link_age tscmp stamp =
     (let sec = sint (tv_sec tscmp) - sint (tv_sec stamp); nsec = sint (tv_nsec tscmp) - sint (tv_nsec stamp) in
      if \<not> int_ok sec \<or> \<not> int_ok nsec then None
      else if nsec < 0 then (if int_ok (sec - 1) then Some (sec - 1) else None)
      else Some sec)"

text \<open>\<^verbatim>\<open>tscmp.tv_sec>=config.link_timeout\<close> compares unsigned numbers.\<close>

definition expired :: "u32 \<Rightarrow> int \<Rightarrow> bool" where
  "expired timeout age \<longleftrightarrow> timeout \<le> word_of_int age"

definition deadline :: "u32 \<Rightarrow> timespec \<Rightarrow> timespec" where
  "deadline timeout t = t\<lparr>tv_sec := tv_sec t + timeout\<rparr>"

text \<open>The loop returns the absolute times the thread has waited for.\<close>

fun timeout_loop :: "(bool \<times> timespec option) list \<Rightarrow> tid \<Rightarrow> ptr \<Rightarrow> timespec \<Rightarrow> timespec list \<Rightarrow> world \<Rightarrow> (world, timespec list) run" where
  "timeout_loop [] me pp ts dls w = Stop Waiting w"
| "timeout_loop ((signalled, stored) # as) me pp ts dls w =
     (let w = w\<lparr>timedwaits := as\<rparr>; dls = dls @ [ts] in
      bind_run (case stored of None \<Rightarrow> Ret () w | Some t \<Rightarrow> set_peer pp (\<lambda>q. q\<lparr>timestamp := t\<rparr>) w) (\<lambda>_ w.
      if signalled then Ret dls w
      else
      bind_run (pthread_testcancel me w) (\<lambda>_ w.
      bind_run (clock_gettime w) (\<lambda>tscmp w.
      bind_run (get_peer pp w) (\<lambda>q w. case link_age tscmp (timestamp q) of
        None \<Rightarrow> Stop UB w
      | Some age \<Rightarrow>
          if expired (link_timeout (config w)) age then Ret dls w
          else timeout_loop as me pp (deadline (link_timeout (config w)) (timestamp q)) dls w)))))"

definition timeout_handler :: "tid \<Rightarrow> ptr \<Rightarrow> world \<Rightarrow> (world, timespec list) run" where
  "timeout_handler me pp w =
     bind_run (clock_gettime w) (\<lambda>ts w.
     bind_run (peer_mutex_lock me pp w) (\<lambda>_ w.
     bind_run (timeout_loop (timedwaits w) me pp (deadline (link_timeout (config w)) ts) [] w) (\<lambda>dls w.
     bind_run (peer_mutex_unlock pp w) (\<lambda>_ w.
     bind_run (pthread_testcancel me w) (\<lambda>_ w.
     bind_run (in_lock (writeBegin me) w) (\<lambda>_ w.
     bind_run (unlink_peer (\<lambda>q. [p_tid q]) pp w) (\<lambda>_ w.
     bind_run (in_lock (writeEnd me) w) (\<lambda>_ w.
     Ret dls w))))))))"

section \<open>The termination handler\<close>

definition leave_packet_of :: "link_state \<Rightarrow> timespec \<Rightarrow> leave_packet" where
  "leave_packet_of ls t = \<lparr>lp_prxyhdr = \<lparr>ph_type = htons LEAVE, ph_length = htons (of_nat QUIT_LEN)\<rparr>,
     lp_lv = \<lparr>localIP = IPaddr ls, localListenPort = htons (listenPort ls), localMAC = tapMAC ls,
       lv_ID = \<lparr>tv_sec = htonl (tv_sec t), tv_nsec = htonl (tv_nsec t)\<rparr>\<rparr>\<rparr>"

definition leave_body :: "bytes \<Rightarrow> ptr \<Rightarrow> world \<Rightarrow> (world, unit) run" where
  "leave_body pkt pp w =
     bind_run (get_peer pp w) (\<lambda>q w.
     bind_run (pthread_cancel (timeout_tid q) w) (\<lambda>_ w.
     bind_run (peer_write pp pkt w) (\<lambda>_ w.
     unlink_peer (\<lambda>q. [p_tid q]) pp w)))"

definition leave_handler :: "world \<Rightarrow> (world, unit) run" where
  "leave_handler w =
     bind_run (HASH_ITER (leave_body (enc_leave_packet (leave_packet_of (linkState w) (now w)))) w) (\<lambda>_ w.
     Stop (Exit 0) w)"

section \<open>Age of a link\<close>

text \<open>
  C23. The age that decides about a link is exact: with nanoseconds in their range it is the
  elapsed time rounded down to seconds, borrow included. Read as an unsigned number, a
  negative age (a timestamp from the future) counts as expired for every timeout below
  \<open>2 ^ 31\<close>.
\<close>

theorem link_age_exact:
  assumes "link_age t stamp = Some age" and "0 \<le> sint (tv_nsec t)" and "sint (tv_nsec t) < 1000000000"
    and "0 \<le> sint (tv_nsec stamp)" and "sint (tv_nsec stamp) < 1000000000" and "timeout < 2 ^ 31"
  shows "age = (ns_of t - ns_of stamp) div 1000000000 \<and> (expired timeout age \<longleftrightarrow> uint timeout \<le> age \<or> age < 0)"
proof
  let ?s = "sint (tv_sec t) - sint (tv_sec stamp)" and ?n = "sint (tv_nsec t) - sint (tv_nsec stamp)"
  have ns: "ns_of t - ns_of stamp = ?s * 1000000000 + ?n" by (simp add: ns_of_def algebra_simps)
  show age: "age = (ns_of t - ns_of stamp) div 1000000000"
    unfolding ns using assms(1-5) by (auto simp: link_age_def Let_def split: if_splits)
  have ok: "int_ok age" using assms(1) by (auto simp: link_age_def Let_def split: if_splits)
  show "expired timeout age \<longleftrightarrow> uint timeout \<le> age \<or> age < 0"
  proof (cases "age < 0")
    case True
    have "age mod 4294967296 = (age + 4294967296) mod 4294967296" by simp
    also have "\<dots> = age + 4294967296" using True ok by (intro mod_pos_pos_trivial) (auto simp: int_ok_def)
    finally have "uint (word_of_int age :: u32) = age + 2 ^ 32" by (simp add: uint_word_of_int)
    then show ?thesis using True ok assms(6) by (simp add: expired_def word_le_def word_less_def int_ok_def)
  next
    case False
    then have "uint (word_of_int age :: u32) = age"
      using ok by (simp add: uint_word_of_int int_ok_def)
    then show ?thesis using False by (simp add: expired_def word_le_def)
  qed
qed

theorem link_age_exact_witness:
  "link_age \<lparr>tv_sec = 110, tv_nsec = 100\<rparr> \<lparr>tv_sec = 100, tv_nsec = 200\<rparr> = Some 9 \<and> \<not> expired 10 9"
proof
  show *: "link_age \<lparr>tv_sec = 110, tv_nsec = 100\<rparr> \<lparr>tv_sec = 100, tv_nsec = 200\<rparr> = Some 9"
    by (simp add: link_age_def int_ok_def)
  show "\<not> expired 10 9" using link_age_exact [OF *, of 10] by simp
qed

section \<open>Runs of the timeout thread\<close>

declare timeout_loop.simps [simp del]

text \<open>At time \<open>t\<close> a link that was last refreshed at \<open>stamp\<close> is young enough.\<close>

definition young :: "u32 \<Rightarrow> timespec \<Rightarrow> timespec \<Rightarrow> bool" where
  "young timeout stamp t \<longleftrightarrow> (\<exists>age. link_age t stamp = Some age \<and> \<not> expired timeout age)"

text \<open>
  The rounds of the wait are pairs of the timestamp that was stored during the wait, if any, and the time at its end.
  \<open>stamps\<close> are the timestamps of the link after each round, when \<open>s\<close> is the one before.
\<close>

definition refreshed :: "timespec \<Rightarrow> timespec option \<Rightarrow> timespec" where
  "refreshed s stored = (case stored of None \<Rightarrow> s | Some t \<Rightarrow> t)"

fun stamps :: "timespec \<Rightarrow> (timespec option \<times> timespec) list \<Rightarrow> timespec list" where
  "stamps s [] = []"
| "stamps s ((stored, t) # rs) = refreshed s stored # stamps (refreshed s stored) rs"

fun in_time :: "u32 \<Rightarrow> timespec \<Rightarrow> (timespec option \<times> timespec) list \<Rightarrow> bool" where
  "in_time timeout s [] \<longleftrightarrow> True"
| "in_time timeout s ((stored, t) # rs) \<longleftrightarrow> young timeout (refreshed s stored) t \<and> in_time timeout (refreshed s stored) rs"

lemma timeout_round:
  assumes "peers w pp = Some q" and "me \<notin> set (cancelled w)" and "clocks (kern w) = t # cs" and "link_age t (refreshed (timestamp q) st) = Some age"
  shows "timeout_loop ((False, st) # as) me pp ts dls w =
    (let w' = w\<lparr>timedwaits := as, peers := (peers w)(pp \<mapsto> q\<lparr>timestamp := refreshed (timestamp q) st\<rparr>), kern := (kern w)\<lparr>clocks := cs\<rparr>\<rparr> in
     if expired (link_timeout (config w)) age then Ret (dls @ [ts]) w'
     else timeout_loop as me pp (deadline (link_timeout (config w)) (refreshed (timestamp q) st)) (dls @ [ts]) w')"
proof (cases st)
  case None
  have "(peers w)(pp \<mapsto> q) = peers w" using assms(1) by auto
  then show ?thesis
    using assms None by (simp add: timeout_loop.simps pthread_testcancel_def clock_gettime_def get_peer_def Let_def refreshed_def)
next
  case (Some s)
  then show ?thesis
    using assms by (simp add: timeout_loop.simps set_peer_def pthread_testcancel_def clock_gettime_def get_peer_def Let_def refreshed_def)
qed

lemma timeout_rounds:
  assumes "peers w pp = Some q" and "me \<notin> set (cancelled w)" and "in_time (link_timeout (config w)) (timestamp q) rs"
    and "clocks (kern w) = map snd rs @ cs" and "timedwaits w = map (\<lambda>r. (False, fst r)) rs @ as"
    and ds: "ds = ts # map (deadline (link_timeout (config w))) (stamps (timestamp q) rs)"
  shows "timeout_loop (timedwaits w) me pp ts dls w = timeout_loop as me pp (last ds) (dls @ butlast ds)
      (w\<lparr>timedwaits := as, peers := (peers w)(pp \<mapsto> q\<lparr>timestamp := last (timestamp q # stamps (timestamp q) rs)\<rparr>), kern := (kern w)\<lparr>clocks := cs\<rparr>\<rparr>)"
  using assms
proof (induction rs arbitrary: w q ts dls ds)
  case Nil
  have "(peers w)(pp \<mapsto> q) = peers w" using Nil.prems(1) by auto
  moreover have c: "cs = clocks (kern w)" "as = timedwaits w" using Nil.prems(4,5) by simp_all
  ultimately show ?case unfolding c using Nil.prems(6) by simp
next
  case (Cons r rs)
  obtain st t where r: "r = (st, t)" by (cases r)
  let ?T = "link_timeout (config w)" and ?s = "refreshed (timestamp q) st"
  obtain age where a: "link_age t ?s = Some age" "\<not> expired ?T age" and rest: "in_time ?T ?s rs"
    using Cons.prems(3) by (auto simp: young_def r)
  have c: "clocks (kern w) = t # map snd rs @ cs" using Cons.prems(4) by (simp add: r)
  let ?w = "w\<lparr>timedwaits := map (\<lambda>r. (False, fst r)) rs @ as, peers := (peers w)(pp \<mapsto> q\<lparr>timestamp := ?s\<rparr>), kern := (kern w)\<lparr>clocks := map snd rs @ cs\<rparr>\<rparr>"
  let ?ds = "deadline ?T ?s # map (deadline ?T) (stamps ?s rs)" and ?q = "q\<lparr>timestamp := ?s\<rparr>"
  have ih: "timeout_loop (timedwaits ?w) me pp (deadline ?T ?s) (dls @ [ts]) ?w = timeout_loop as me pp (last ?ds) ((dls @ [ts]) @ butlast ?ds)
      (?w\<lparr>timedwaits := as, peers := (peers ?w)(pp \<mapsto> ?q\<lparr>timestamp := last (timestamp ?q # stamps (timestamp ?q) rs)\<rparr>), kern := (kern ?w)\<lparr>clocks := cs\<rparr>\<rparr>)"
    by (rule Cons.IH) (use rest Cons.prems(2) in simp_all)
  have "timeout_loop (timedwaits w) me pp ts dls w = timeout_loop (timedwaits ?w) me pp (deadline ?T ?s) (dls @ [ts]) ?w"
    using timeout_round [OF Cons.prems(1,2) c a(1), of "timedwaits ?w" ts dls] a(2) Cons.prems(5) by (simp add: r)
  also note ih
  finally show ?case by (rule trans) (simp add: r Cons.prems(6), simp add: fun_upd_def)
qed

text \<open>After the loop: the peer is unlinked and freed under the write lock.\<close>

lemma timeout_removal:
  assumes "wf_world w xs" and "lock w = rw_init" and "peers w pp = Some q" and "pp \<in> set xs" and "me \<notin> set (cancelled w)"
    and w2: "w2 = w\<lparr>timedwaits := tw, peers := (peers w)(pp \<mapsto> q\<lparr>timeout_mutex := Some me, timestamp := st\<rparr>), kern := (kern w)\<lparr>clocks := cs\<rparr>\<rparr>"
  shows "\<exists>w'. bind_run (peer_mutex_unlock pp w2) (\<lambda>_ w. bind_run (pthread_testcancel me w) (\<lambda>_ w. bind_run (in_lock (writeBegin me) w) (\<lambda>_ w.
      bind_run (unlink_peer (\<lambda>q. [p_tid q]) pp w) (\<lambda>_ w. bind_run (in_lock (writeEnd me) w) (\<lambda>_ w. Ret dls w))))) = Ret dls w' \<and>
    wf_world w' (remove1 pp xs) \<and> lock w' = rw_init \<and> roster w' (remove1 pp xs) = (roster w xs)(tapMAC (p_ls q) := None) \<and>
    peers w' = (peers w)(pp := None) \<and> cancelled w' = cancelled w @ [p_tid q] \<and> closed (kern w') = closed (kern w) @ [rfd (p_rio q)]"
proof -
  let ?q = "q\<lparr>timestamp := st, timeout_mutex := None\<rparr>"
  let ?w = "w\<lparr>timedwaits := tw, kern := (kern w)\<lparr>clocks := cs\<rparr>, peers := (peers w)(pp \<mapsto> ?q), lock := write_locked me\<rparr>"
  have "wf_world ?w xs" "roster ?w xs = roster w xs"
    using wf_world_peer [OF assms(1,3), of ?q] by (simp_all add: wf_world_def roster_def)
  then obtain w' where u: "unlink_peer (\<lambda>q. [p_tid q]) pp ?w = Ret () w'" "wf_world w' (remove1 pp xs)"
      "roster w' (remove1 pp xs) = (roster w xs)(tapMAC (p_ls q) := None)" and
      eq: "w' = ?w\<lparr>members := members w', kern := (kern ?w)\<lparr>closed := closed (kern ?w) @ [rfd (p_rio ?q)]\<rparr>,
      cancelled := cancelled ?w @ [p_tid ?q], peers := (peers ?w)(pp := None)\<rparr>"
    using unlink_peer_result [of ?w xs pp ?q "\<lambda>q. [p_tid q]"] assms(4) by auto
  have w': "lock w' = write_locked me" "peers w' = (peers w)(pp := None)"
      "cancelled w' = cancelled w @ [p_tid q]" "closed (kern w') = closed (kern w) @ [rfd (p_rio q)]"
    by (subst eq, simp)+
  have "bind_run (peer_mutex_unlock pp w2) (\<lambda>_ w. bind_run (pthread_testcancel me w) (\<lambda>_ w. bind_run (in_lock (writeBegin me) w) (\<lambda>_ w.
      bind_run (unlink_peer (\<lambda>q. [p_tid q]) pp w) (\<lambda>_ w. bind_run (in_lock (writeEnd me) w) (\<lambda>_ w. Ret dls w))))) = Ret dls (w'\<lparr>lock := rw_init\<rparr>)"
    using assms(2,3,5) u(1) w'(1) by (simp add: w2 peer_mutex_unlock_def set_peer_def pthread_testcancel_def in_lock_def)
  with w' u(2,3) show ?thesis by simp
qed

text \<open>
  C22. The timeout thread of a member, over any number of waits that end without a signal while the link is young enough, whether or not it
  was refreshed during a wait. Each wait lasts until the timeout after the latest timestamp; as long as
  nothing else happens the thread waits and the list stays as it is. When a wait is signalled, or ends with an age of the link
  that has reached the timeout, the member is removed from the list and freed, its reader thread is
  cancelled, its connection closed, and the lock is free; every other member keeps its entry.
\<close>

theorem timeout_removes_expired_link:
  assumes "wf_world w xs" and "lock w = rw_init" and "peers w pp = Some q" and "pp \<in> set xs" and "timeout_mutex q = None"
    and "me \<notin> set (cancelled w)" and "in_time (link_timeout (config w)) (timestamp q) rs"
    and "timedwaits w = map (\<lambda>r. (False, fst r)) rs @ as" and "clocks (kern w) = t0 # map snd rs @ cs"
    and "latest = last (timestamp q # stamps (timestamp q) rs)"
  shows "(as = [] \<longrightarrow> (\<exists>w' q'. timeout_handler me pp w = Stop Waiting w' \<and> wf_world w' xs \<and> lock w' = rw_init \<and> roster w' xs = roster w xs \<and>
      peers w' pp = Some q' \<and> timestamp q' = latest \<and> cancelled w' = cancelled w \<and> closed (kern w') = closed (kern w))) \<and>
    (\<forall>signalled stored as'. as = (signalled, stored) # as' \<and>
        (signalled \<or> (\<exists>t cs' age. cs = t # cs' \<and> link_age t (refreshed latest stored) = Some age \<and> expired (link_timeout (config w)) age)) \<longrightarrow>
      (\<exists>w'. timeout_handler me pp w = Ret (map (deadline (link_timeout (config w))) (t0 # stamps (timestamp q) rs)) w' \<and>
        wf_world w' (remove1 pp xs) \<and> lock w' = rw_init \<and> roster w' (remove1 pp xs) = (roster w xs)(tapMAC (p_ls q) := None) \<and>
        peers w' = (peers w)(pp := None) \<and> cancelled w' = cancelled w @ [p_tid q] \<and> closed (kern w') = closed (kern w) @ [rfd (p_rio q)]))"
proof -
  let ?T = "link_timeout (config w)" and ?q1 = "q\<lparr>timeout_mutex := Some me\<rparr>"
  let ?w1 = "w\<lparr>kern := (kern w)\<lparr>clocks := map snd rs @ cs\<rparr>, peers := (peers w)(pp \<mapsto> ?q1)\<rparr>"
  let ?w2 = "\<lambda>as cs st. w\<lparr>timedwaits := as, peers := (peers w)(pp \<mapsto> ?q1\<lparr>timestamp := st\<rparr>), kern := (kern w)\<lparr>clocks := cs\<rparr>\<rparr>"
  let ?ds = "deadline ?T t0 # map (deadline ?T) (stamps (timestamp q) rs)"
  let ?fin = "\<lambda>dls w. bind_run (peer_mutex_unlock pp w) (\<lambda>_ w. bind_run (pthread_testcancel me w) (\<lambda>_ w. bind_run (in_lock (writeBegin me) w) (\<lambda>_ w.
      bind_run (unlink_peer (\<lambda>q. [p_tid q]) pp w) (\<lambda>_ w. bind_run (in_lock (writeEnd me) w) (\<lambda>_ w. Ret dls w)))))"
  have loop: "timeout_loop (timedwaits ?w1) me pp (deadline ?T t0) [] ?w1 = timeout_loop as me pp (last ?ds) (butlast ?ds) (?w2 as cs latest)"
    using timeout_rounds [of ?w1 pp ?q1 me rs cs as ?ds "deadline ?T t0" "[]"] assms(6-8) by (simp add: assms(10))
  have run: "timeout_handler me pp w = bind_run (timeout_loop as me pp (last ?ds) (butlast ?ds) (?w2 as cs latest)) ?fin"
    using assms(3,5,9) loop by (simp add: timeout_handler_def clock_gettime_def peer_mutex_lock_def get_peer_def set_peer_def)
  have ds: "butlast ?ds @ [last ?ds] = ?ds" by (rule append_butlast_last_id) simp
  show ?thesis
  proof (intro conjI allI impI, goal_cases)
    case 1
    have "wf_world (?w2 as cs latest) xs" "roster (?w2 as cs latest) xs = roster w xs"
      using wf_world_peer [OF assms(1,3), of "?q1\<lparr>timestamp := latest\<rparr>"] by (simp_all add: wf_world_def roster_def)
    then show ?case unfolding run using 1 assms(2) by (simp add: timeout_loop.simps)
  next
    case (2 signalled stored as')
    obtain cs2 where "timeout_loop as me pp (last ?ds) (butlast ?ds) (?w2 as cs latest) = Ret ?ds (?w2 as' cs2 (refreshed latest stored))"
    proof (cases signalled)
      case True
      then have "timeout_loop as me pp (last ?ds) (butlast ?ds) (?w2 as cs latest) = Ret (butlast ?ds @ [last ?ds]) (?w2 as' cs (refreshed latest stored))"
        using 2 by (cases stored) (simp_all add: timeout_loop.simps set_peer_def refreshed_def)
      then show ?thesis unfolding ds by (rule that)
    next
      case False
      then obtain t cs' age where t: "cs = t # cs'" "link_age t (refreshed latest stored) = Some age" "expired ?T age" using 2 by auto
      have "timeout_loop as me pp (last ?ds) (butlast ?ds) (?w2 as cs latest) = Ret (butlast ?ds @ [last ?ds]) (?w2 as' cs' (refreshed latest stored))"
        using timeout_round [of "?w2 as cs latest" pp "?q1\<lparr>timestamp := latest\<rparr>" me t cs' stored age as' "last ?ds" "butlast ?ds"] 2 False t assms(6) by simp
      then show ?thesis unfolding ds by (rule that)
    qed
    then have "timeout_handler me pp w = ?fin ?ds (?w2 as' cs2 (refreshed latest stored))" unfolding run by simp
    then show ?case using timeout_removal [OF assms(1-4,6) refl, where tw = as' and st = "refreshed latest stored" and cs = cs2 and dls = ?ds] by simp
  qed
qed

text \<open>The first wait sees a refresh, the second none; at the end of the third the link is 40 seconds old.\<close>

definition demo_timeout_world :: world where
  "demo_timeout_world = demo_world\<lparr>kern := (kern demo_world)\<lparr>clocks := [\<lparr>tv_sec = 100, tv_nsec = 0\<rparr>, \<lparr>tv_sec = 120, tv_nsec = 0\<rparr>, \<lparr>tv_sec = 130, tv_nsec = 0\<rparr>, \<lparr>tv_sec = 150, tv_nsec = 0\<rparr>]\<rparr>,
     timedwaits := [(False, Some \<lparr>tv_sec = 110, tv_nsec = 0\<rparr>), (False, None), (False, None)]\<rparr>"

theorem timeout_removes_expired_link_witness:
  "\<exists>w'. timeout_handler 0 1 demo_timeout_world = Ret [\<lparr>tv_sec = 125, tv_nsec = 0\<rparr>, \<lparr>tv_sec = 135, tv_nsec = 0\<rparr>, \<lparr>tv_sec = 135, tv_nsec = 0\<rparr>] w' \<and> wf_world w' [2]"
proof -
  let ?t = "\<lambda>n. \<lparr>tv_sec = n, tv_nsec = 0\<rparr> :: timespec"
  let ?rs = "[(Some (?t 110), ?t 120), (None, ?t 130)]"
  have w: "wf_world demo_timeout_world [1, 2]" using demo_world_wf by (simp add: wf_world_def demo_timeout_world_def)
  have d: "peers demo_timeout_world 1 = Some (demo_peer 1)" "lock demo_timeout_world = rw_init" "link_timeout (config demo_timeout_world) = 25"
      "timeout_mutex (demo_peer 1) = None" "cancelled demo_timeout_world = []"
    by (simp_all add: demo_timeout_world_def demo_world_def demo_peer_def zero_peer_def)
  have i: "in_time 25 (timestamp (demo_peer 1)) ?rs" "stamps (timestamp (demo_peer 1)) ?rs = [?t 110, ?t 110]"
      "link_age (?t 150) (refreshed (?t 110) None) = Some 40" "expired 25 40"
    by (simp_all add: young_def link_age_def expired_def int_ok_def refreshed_def)
  have a: "timedwaits demo_timeout_world = map (\<lambda>r. (False, fst r)) ?rs @ [(False, None)]" "clocks (kern demo_timeout_world) = ?t 100 # map snd ?rs @ [?t 150]"
    by (simp_all add: demo_timeout_world_def)
  have "me \<in> set [1, 2 :: ptr]" if "me = 1" for me using that by simp
  from timeout_removes_expired_link [OF w d(2,1) this [OF refl] d(4) _ i(1) [folded d(3)] a refl, unfolded d(3), of 0]
  show ?thesis using i d(5) by (auto simp: deadline_def)
qed

section \<open>Runs of the termination handler\<close>

text \<open>The kernel takes what is written \<open>n\<close> times.\<close>

abbreviation accepts_all :: "nat \<Rightarrow> os \<Rightarrow> bool" where
  "accepts_all n s \<equiv> answering s \<and> taking n s"

lemma leave_body_result:
  assumes wf: "wf_world w (p # zs)" and q: "peers w p = Some q" and pkt: "pkt \<noteq> []" "length pkt \<le> ETH_FRAME_LEN" and ok: "C \<Longrightarrow> accepts_all (Suc n) (kern w)"
  shows "case leave_body pkt p w of
      Stop h w' \<Rightarrow> h = Waiting \<and> \<not> C
    | Ret _ w' \<Rightarrow> wf_world w' zs \<and> peers w' = (peers w)(p := None) \<and> closed (kern w') = closed (kern w) @ [rfd (p_rio q)] \<and> (C \<longrightarrow> accepts_all n (kern w')) \<and>
        (\<exists>k. sent (kern w') = (sent (kern w))(rfd (p_rio q) := sent (kern w) (rfd (p_rio q)) @ take k pkt) \<and> (C \<longrightarrow> k = length pkt))"
proof -
  have tk: "\<exists>s'. rio_write (p_rio q) pkt (kern w) = Ret (int (length pkt)) s' \<and> accepts_all n s' \<and>
      sent s' = (sent (kern w))(rfd (p_rio q) := sent (kern w) (rfd (p_rio q)) @ pkt)" if C
    using taking_write [OF _ _ pkt, of "kern w" n "p_rio q"] ok [OF that] by blast
  show ?thesis
  proof (cases "rio_write (p_rio q) pkt (kern w)")
    case (Ret r s)
    let ?w = "w\<lparr>cancelled := cancelled w @ [timeout_tid q], kern := s\<rparr>"
    obtain k0 where k0: "sent s = (sent (kern w))(rfd (p_rio q) := sent (kern w) (rfd (p_rio q)) @ take k0 pkt)" "closed s = closed (kern w)"
      using rio_write_result [OF Ret] by (auto simp: write_result_def)
    define k where "k = (if C then length pkt else k0)"
    have k: "sent s = (sent (kern w))(rfd (p_rio q) := sent (kern w) (rfd (p_rio q)) @ take k pkt)" "C \<longrightarrow> k = length pkt" "C \<longrightarrow> accepts_all n s"
      using k0(1) tk Ret by (auto simp: k_def)
    obtain w' where u: "unlink_peer (\<lambda>q. [p_tid q]) p ?w = Ret () w'" "wf_world w' zs" and
        eq: "w' = ?w\<lparr>members := members w', kern := (kern ?w)\<lparr>closed := closed (kern ?w) @ [rfd (p_rio q)]\<rparr>,
          cancelled := cancelled ?w @ [p_tid q], peers := (peers ?w)(p := None)\<rparr>"
      using unlink_peer_result [of ?w "p # zs" p q "\<lambda>q. [p_tid q]"] wf q by auto
    have "peers w' = (peers w)(p := None)" "kern w' = s\<lparr>closed := closed s @ [rfd (p_rio q)]\<rparr>"
      by (subst eq, simp)+
    with u k k0(2) show ?thesis
      using q Ret by (auto simp: leave_body_def peer_write_def get_peer_def in_kern_def pthread_cancel_def answering_def taking_def spare_def)
  next
    case (Stop h s)
    then show ?thesis
      using q rio_write_Stop [OF Stop] tk by (auto simp: leave_body_def peer_write_def get_peer_def in_kern_def pthread_cancel_def)
  qed
qed

definition told :: "bool \<Rightarrow> world \<Rightarrow> bytes \<Rightarrow> ptr list \<Rightarrow> ptr list \<Rightarrow> world \<Rightarrow> bool" where
  "told C w0 pkt xs zs w \<longleftrightarrow> wf_world w zs \<and> (C \<longrightarrow> accepts_all (length zs) (kern w)) \<and>
     (\<exists>us. xs = us @ zs \<and> closed (kern w) = closed (kern w0) @ map (fd_of w0) us \<and>
     (\<forall>p\<in>set us. peers w p = None \<and> (\<exists>k. sent (kern w) (fd_of w0 p) = sent (kern w0) (fd_of w0 p) @ take k pkt \<and> (C \<longrightarrow> k = length pkt)))) \<and>
     (\<forall>p\<in>set zs. peers w p = peers w0 p \<and> sent (kern w) (fd_of w0 p) = sent (kern w0) (fd_of w0 p))"

lemma told_step:
  assumes t: "told C w0 pkt xs (p # zs) w" and inj: "inj_on (fd_of w0) (set xs)" and d: "distinct xs" and q: "peers w0 p = Some q"
    and pkt: "pkt \<noteq> []" "length pkt \<le> ETH_FRAME_LEN"
  shows "case leave_body pkt p w of Stop h w' \<Rightarrow> h = Waiting \<and> \<not> C | Ret _ w' \<Rightarrow> told C w0 pkt xs zs w'"
proof -
  have wf: "wf_world w (p # zs)" and qw: "peers w p = Some q" and sp: "sent (kern w) (fd_of w0 p) = sent (kern w0) (fd_of w0 p)"
      and ok: "C \<Longrightarrow> accepts_all (Suc (length zs)) (kern w)"
    using t q by (auto simp: told_def)
  obtain us where us: "xs = us @ p # zs" "closed (kern w) = closed (kern w0) @ map (fd_of w0) us"
      "\<forall>x\<in>set us. peers w x = None \<and> (\<exists>k. sent (kern w) (fd_of w0 x) = sent (kern w0) (fd_of w0 x) @ take k pkt \<and> (C \<longrightarrow> k = length pkt))"
    using t by (auto simp: told_def)
  have f: "rfd (p_rio q) = fd_of w0 p" by (simp add: fd_of_def q)
  have other: "fd_of w0 x \<noteq> fd_of w0 p \<and> x \<noteq> p" if "x \<in> set us \<union> set zs" for x
    using that us(1) d inj by (auto simp: inj_on_def)
  show ?thesis
  proof (cases "leave_body pkt p w")
    case (Ret u w')
    obtain k where w': "wf_world w' zs" "peers w' = (peers w)(p := None)" "closed (kern w') = closed (kern w) @ [fd_of w0 p]"
        "sent (kern w') = (sent (kern w))(fd_of w0 p := sent (kern w) (fd_of w0 p) @ take k pkt)" "C \<longrightarrow> k = length pkt" "C \<longrightarrow> accepts_all (length zs) (kern w')"
      using leave_body_result [OF wf qw pkt ok, of C] by (auto simp: Ret f)
    have "told C w0 pkt xs zs w'"
      unfolding told_def using w' us sp t other by (auto simp: told_def intro!: exI [of _ "us @ [p]"])
    then show ?thesis by (simp add: Ret)
  next
    case (Stop h w')
    then show ?thesis using leave_body_result [OF wf qw pkt ok, of C] by simp
  qed
qed

lemma leave_packet_length: "wf_link_state ls \<Longrightarrow> length (enc_leave_packet (leave_packet_of ls t)) = 24"
  using lp.enc_length [of "leave_packet_of ls t"] by (simp add: leave_packet_of_def wf_link_state_def wf_leave_def)

text \<open>
  C24. On a termination signal every member is passed the leave packet of this proxy before its connection is closed: the whole of it when the
  kernel takes what is written, otherwise as far as the connection takes it. The connections are closed in
  the order of the list, every member is freed, the table is empty, and the process ends
  with status 0. Only a kernel that does not answer a write can hold the handler up.
\<close>

theorem leave_handler_tells_everyone:
  assumes "wf_world w xs" and "inj_on (fd_of w) (set xs)" and "wf_link_state (linkState w)"
    and "pkt = enc_leave_packet (leave_packet_of (linkState w) (now w))"
  shows "case leave_handler w of
      Ret _ w' \<Rightarrow> False
    | Stop h w' \<Rightarrow> h = Waiting \<and> \<not> accepts_all (length xs) (kern w) \<or>
        h = Exit 0 \<and> wf_world w' [] \<and> closed (kern w') = closed (kern w) @ map (fd_of w) xs \<and>
        (\<forall>p\<in>set xs. peers w' p = None \<and> (\<exists>k. sent (kern w') (fd_of w p) = sent (kern w) (fd_of w p) @ take k pkt \<and>
          (accepts_all (length xs) (kern w) \<longrightarrow> k = length pkt)))"
proof -
  let ?C = "accepts_all (length xs) (kern w)"
  have len: "pkt \<noteq> []" "length pkt \<le> ETH_FRAME_LEN" using leave_packet_length [OF assms(3), of "now w"] by (auto simp: assms(4) size_defs)
  have "case HASH_ITER (leave_body pkt) w of Ret _ w' \<Rightarrow> told ?C w pkt xs [] w' | Stop h w' \<Rightarrow> h = Waiting \<and> \<not> ?C"
  proof (rule HASH_ITER_rule [where Q = "told ?C w pkt xs" and E = "\<lambda>h w'. h = Waiting \<and> \<not> ?C"])
    show "uh_rep (members w) xs" by (rule wf_worldD(1) [OF assms(1)])
    show "told ?C w pkt xs xs w" using assms(1) by (simp add: told_def)
  next
    fix zs w' assume "told ?C w pkt xs zs w'"
    then show "\<exists>ys. uh_rep (members w') (ys @ zs)" using wf_worldD(1) [of w' zs] by (auto simp: told_def intro!: exI [of _ "[]"])
  next
    fix p zs w' assume t: "told ?C w pkt xs (p # zs) w'"
    then have "p \<in> set xs" by (auto simp: told_def)
    then obtain q where "peers w p = Some q" using wf_worldD(5) [OF assms(1)] by blast
    from told_step [OF t assms(2) wf_worldD(3) [OF assms(1)] this len]
    show "(\<exists>w''. leave_body pkt p w' = Ret () w'' \<and> told ?C w pkt xs zs w'') \<or> (\<exists>h w''. leave_body pkt p w' = Stop h w'' \<and> h = Waiting \<and> \<not> ?C)"
      by (cases "leave_body pkt p w'") auto
  qed
  then show ?thesis
    by (cases "HASH_ITER (leave_body pkt) w") (auto simp: leave_handler_def told_def assms(4) [symmetric])
qed

definition demo_leave_world :: world where
  "demo_leave_world = demo_world\<lparr>kern := (kern demo_world)\<lparr>reads := [], polls := [None, None], fcntls := [None, None, None, None], writes := [Inr 2048, Inr 2048]\<rparr>\<rparr>"

theorem leave_handler_tells_everyone_witness:
  "\<exists>w'. leave_handler demo_leave_world = Stop (Exit 0) w' \<and> wf_world w' [] \<and> closed (kern w') = [1, 2] \<and>
     sent (kern w') 2 = enc_leave_packet (leave_packet_of (demo_ls 9) (now demo_world))"
proof -
  let ?pkt = "enc_leave_packet (leave_packet_of (linkState demo_leave_world) (now demo_leave_world))"
  have w: "wf_world demo_leave_world [1, 2]" using demo_world_wf by (simp add: wf_world_def demo_leave_world_def)
  have i: "inj_on (fd_of demo_leave_world) (set [1, 2])"
    by (auto simp: fd_of_def demo_leave_world_def demo_world_def demo_peer_def inj_on_def)
  have f: "fd_of demo_leave_world (Suc 0) = 1" "fd_of demo_leave_world 2 = 2" "closed (kern demo_leave_world) = []" "sent (kern demo_leave_world) = (\<lambda>_. [])"
      "linkState demo_leave_world = demo_ls 9" "now demo_leave_world = now demo_world"
    by (simp_all add: fd_of_def demo_leave_world_def demo_world_def demo_peer_def demo_os_def)
  have "accepts_all (length [1, 2 :: ptr]) (kern demo_leave_world)"
    by (auto simp: demo_leave_world_def demo_world_def demo_os_def answering_def taking_def spare_def size_defs numeral_eq_Suc intro!: exI [of _ "[2048, 2048]"])
  from leave_handler_tells_everyone [OF w i _ refl] this show ?thesis
    by (cases "leave_handler demo_leave_world") (auto simp: f)
qed

end
