(* ===== verification/Tunnel.thy ===== *)
theory Tunnel
  imports Broadcast Timers
begin

text \<open>
  Sequences of rounds. The tap thread of one proxy and the thread of the connection at the other end, run for any number
  of rounds: what the frames of the first tap device become on the connection, and what is written to the second.
\<close>

section \<open>Rounds of the tap thread\<close>

text \<open>The frames that the first \<open>n\<close> rounds read from the tap device.\<close>

fun tap_frames :: "nat \<Rightarrow> tid \<Rightarrow> world \<Rightarrow> bytes list" where
  "tap_frames 0 me w = []"
| "tap_frames (Suc n) me w =
     (case (rio_read (rio_tap w) (PROXY_HLEN + ETH_FRAME_LEN) (kern w), tap_step me w) of
        (Ret (sz, d, rp) s, Ret _ w') \<Rightarrow> d # tap_frames n me w'
      | _ \<Rightarrow> [])"

lemma tap_step_reads:
  assumes "tap_step me w = Ret () w'" and "wf_rio (rio_tap w)"
  obtains frame rp s where "rio_read (rio_tap w) (PROXY_HLEN + ETH_FRAME_LEN) (kern w) = Ret (int (length frame), frame, rp) s"
    and "frame \<noteq> []" and "length frame \<le> ETH_FRAME_LEN" and "wf_rio rp" and "stream (rio_tap w) (kern w) = frame @ stream rp s"
proof -
  obtain sz d rp s where rd: "rio_read (rio_tap w) (PROXY_HLEN + ETH_FRAME_LEN) (kern w) = Ret (sz, d, rp) s" and
      c: "length d \<le> ETH_FRAME_LEN" "0 < sz"
    using assms(1) by (auto simp: tap_step_def in_kern_def bind_run_Ret_iff lift_run_Ret_iff Let_def split: if_splits)
  from rio_read_stream [OF rd assms(2)] c(2) have r: "wf_rio rp" "sz = int (length d)" "stream (rio_tap w) (kern w) = d @ stream rp s"
    by auto
  show ?thesis using that rd r c by auto
qed

text \<open>What the rounds read, in order, is what the device had; a member that is left has every frame, in the same order, behind what it had before.\<close>

lemma tap_handler_sends:
  assumes "wf_world w xs" and "lock w = rw_init" and "inj_on (fd_of w) (set xs)" and "wf_rio (rio_tap w)"
    and "tap_handler n me w = Ret () w'" and "\<forall>f \<in> set (tap_frames n me w). take ETH_ALEN f = BROADCAST_ADDR"
  shows "length (tap_frames n me w) = n \<and> (\<forall>f \<in> set (tap_frames n me w). f \<noteq> [] \<and> length f \<le> ETH_FRAME_LEN) \<and>
    stream (rio_tap w) (kern w) = concat (tap_frames n me w) @ stream (rio_tap w') (kern w') \<and> lock w' = rw_init \<and>
    (\<exists>ys. set ys \<subseteq> set xs \<and> wf_world w' ys \<and> (\<forall>p \<in> set ys. peers w' p = peers w p \<and>
       sent (kern w') (fd_of w p) = sent (kern w) (fd_of w p) @ concat (map data_packet (tap_frames n me w))) \<and>
       (\<forall>p \<in> set xs - set ys. peers w' p = None)) \<and> (\<forall>p. p \<notin> set xs \<longrightarrow> peers w' p = peers w p)"
  using assms
proof (induction n arbitrary: w xs)
  case 0
  then show ?case by (auto intro!: exI [of _ xs])
next
  case (Suc n)
  obtain w1 where st: "tap_step me w = Ret () w1" and rest: "tap_handler n me w1 = Ret () w'" using Suc.prems(5) by (auto simp: bind_run_Ret_iff)
  obtain f rp s where rd: "rio_read (rio_tap w) (PROXY_HLEN + ETH_FRAME_LEN) (kern w) = Ret (int (length f), f, rp) s"
      and f: "f \<noteq> []" "length f \<le> ETH_FRAME_LEN" "wf_rio rp" "stream (rio_tap w) (kern w) = f @ stream rp s"
    by (rule tap_step_reads [OF st Suc.prems(4)])
  have fs: "tap_frames (Suc n) me w = f # tap_frames n me w1" using rd st by simp
  have bc: "take ETH_ALEN f = BROADCAST_ADDR" "\<forall>f \<in> set (tap_frames n me w1). take ETH_ALEN f = BROADCAST_ADDR" using Suc.prems(6) unfolding fs by auto
  obtain ys where r: "lock w1 = rw_init" "set ys \<subseteq> set xs" "wf_world w1 ys" "\<forall>p \<in> set xs - set ys. peers w1 p = None"
      "\<forall>p \<in> set ys. peers w1 p = peers w p \<and> sent (kern w1) (fd_of w p) = sent (kern w) (fd_of w p) @ data_packet f"
      "\<forall>p. p \<notin> set xs \<longrightarrow> peers w1 p = peers w p" "rio_tap w1 = rp" "reads (kern w1) = reads s"
    using tap_broadcast_run [OF Suc.prems(1-4) rd f(2) bc(1), of me] by (auto simp: st)
  have fd: "fd_of w1 p = fd_of w p" if "p \<in> set ys" for p using r(5) that by (simp add: fd_of_def)
  have inj: "inj_on (fd_of w1) (set ys)" using inj_on_subset [OF Suc.prems(3) r(2)] fd inj_on_cong [of "set ys" "fd_of w1" "fd_of w"] by blast
  have wr: "wf_rio (rio_tap w1)" using r(7) f(3) by simp
  note ih = Suc.IH [OF r(3,1) inj wr rest bc(2)]
  have sm: "stream (rio_tap w) (kern w) = f @ concat (tap_frames n me w1) @ stream (rio_tap w') (kern w')"
    using f(4) ih r(7,8) by (simp add: stream_def)
  obtain zs where zs: "set zs \<subseteq> set ys" "wf_world w' zs" "\<forall>p \<in> set ys - set zs. peers w' p = None"
      "\<forall>p \<in> set zs. peers w' p = peers w1 p \<and> sent (kern w') (fd_of w1 p) = sent (kern w1) (fd_of w1 p) @ concat (map data_packet (tap_frames n me w1))"
    using ih by blast
  have out: "\<forall>p. p \<notin> set ys \<longrightarrow> peers w' p = peers w1 p" using ih by blast
  have snt: "peers w' p = peers w p \<and> sent (kern w') (fd_of w p) = sent (kern w) (fd_of w p) @ data_packet f @ concat (map data_packet (tap_frames n me w1))"
    if "p \<in> set zs" for p
    using that zs(1,4) r(5) fd by fastforce
  have "peers w' p = None" if "p \<in> set xs - set zs" for p using that zs(3) out r(4) by (cases "p \<in> set ys") auto
  moreover have "\<forall>p. p \<notin> set xs \<longrightarrow> peers w' p = peers w p" using out r(2,6) by auto
  ultimately show ?case unfolding fs using ih f sm snt zs(1,2) r(2) by (auto intro!: exI [of _ zs])
qed

section \<open>Rounds of the thread of a connection\<close>

lemma data_packet_accepted:
  assumes sv: "serving w xs me pp q" and "answering (kern w)" and "taking (Suc n) (kern w)" and f: "f \<noteq> []" "length f \<le> ETH_FRAME_LEN"
    and st: "stream (p_rio q) (kern w) = data_packet f @ rest" and j: "\<And>n. length (junk n) = n"
  shows "\<exists>hdr' w' q'. eth_step fl junk me pp hdr w = Ret hdr' w' \<and> serving w' xs me pp q' \<and> stream (p_rio q') (kern w') = rest \<and>
    roster w' xs = roster w xs \<and> sent (kern w') = (sent (kern w))(rfd (rio_tap w) := sent (kern w) (rfd (rio_tap w)) @ f) \<and>
    answering (kern w') \<and> taking n (kern w') \<and> rio_tap w' = rio_tap w"
proof -
  have len: "0 < length f" "length f < 65536" using f by (auto simp: size_defs)
  obtain w1 q1 where sv1: "serving w1 xs me pp q1" "stream (p_rio q1) (kern w1) = rest" "roster w1 xs = roster w xs"
      "sent (kern w1) = sent (kern w)" "rio_tap w1 = rio_tap w" "answering (kern w1)" "read_frame (kern w) (kern w1)" "spare (kern w1) = spare (kern w)" and
      run: "eth_step fl junk me pp hdr w = bind_run (dispatch fl me pp DATA f (of_nat (length f)) w1) (\<lambda>r w. case r of
        None \<Rightarrow> give_up me pp w
      | Some r \<Rightarrow> if r < 0 then give_up me pp w
          else bind_run (pthread_testcancel me w) (\<lambda>_ w. Ret \<lparr>ph_type = DATA, ph_length = of_nat (length f)\<rparr> w))"
    by (rule eth_step_packet [OF sv assms(2) len st [unfolded data_packet_is_packet] j, of fl hdr])
  have "taking (Suc n) (kern w1)" using assms(3) sv1(7,8) by (simp add: taking_def read_frame_def)
  from taking_write [OF sv1(6) this f, of "rio_tap w1"] obtain s where s: "rio_write (rio_tap w1) f (kern w1) = Ret (int (length f)) s"
      "answering s" "taking n s" "reads s = reads (kern w1)" "sent s = (sent (kern w1))(rfd (rio_tap w1) := sent (kern w1) (rfd (rio_tap w1)) @ f)" by blast
  let ?w = "w1\<lparr>kern := s\<rparr>"
  have sv2: "serving ?w xs me pp q1" using sv1(1) by (simp add: serving_def)
  have "unat (of_nat (length f) :: u16) = length f" using len by (simp add: unat_of_nat)
  then have "dispatch fl me pp DATA f (of_nat (length f)) w1 = Ret (Some 0) ?w"
    using s(1) len(1) load_id [of 0 "length f" f w1] by (simp add: dispatch_def Data_def in_kern_def)
  moreover have "pthread_testcancel me ?w = Ret () ?w" using sv2 by (simp add: serving_def pthread_testcancel_def)
  ultimately show ?thesis using run sv2 sv1(2-5) s(2-5)
    by (intro exI [of _ "\<lparr>ph_type = DATA, ph_length = of_nat (length f)\<rparr>"] exI [of _ ?w] exI [of _ q1]) (simp add: stream_def)
qed

lemma eth_handler_accepts:
  assumes "serving w xs me pp q" and "answering (kern w)" and "taking (length fs) (kern w)"
    and "\<forall>f \<in> set fs. f \<noteq> [] \<and> length f \<le> ETH_FRAME_LEN" and "stream (p_rio q) (kern w) = concat (map data_packet fs) @ rest" and "\<And>n. length (junk n) = n"
  shows "\<exists>hdr' w' q'. eth_handler (length fs) fl junk me pp hdr w = Ret hdr' w' \<and> serving w' xs me pp q' \<and> stream (p_rio q') (kern w') = rest \<and>
    roster w' xs = roster w xs \<and> sent (kern w') = (sent (kern w))(rfd (rio_tap w) := sent (kern w) (rfd (rio_tap w)) @ concat fs)"
  using assms(1-5)
proof (induction fs arbitrary: w q hdr)
  case Nil
  then show ?case by auto
next
  case (Cons f fs)
  have st: "stream (p_rio q) (kern w) = data_packet f @ concat (map data_packet fs) @ rest" using Cons.prems(5) by simp
  obtain h1 w1 q1 where w1: "eth_step fl junk me pp hdr w = Ret h1 w1" "serving w1 xs me pp q1" "stream (p_rio q1) (kern w1) = concat (map data_packet fs) @ rest"
      "roster w1 xs = roster w xs" "sent (kern w1) = (sent (kern w))(rfd (rio_tap w) := sent (kern w) (rfd (rio_tap w)) @ f)"
      "answering (kern w1)" "taking (length fs) (kern w1)" "rio_tap w1 = rio_tap w"
    using data_packet_accepted [OF Cons.prems(1,2) _ _ _ st assms(6), of "length fs" fl hdr] Cons.prems(3,4) by auto
  have "\<forall>f \<in> set fs. f \<noteq> [] \<and> length f \<le> ETH_FRAME_LEN" using Cons.prems(4) by simp
  from Cons.IH [OF w1(2,6,7) this w1(3), of h1] obtain h2 w2 q2 where w2: "eth_handler (length fs) fl junk me pp h1 w1 = Ret h2 w2" "serving w2 xs me pp q2"
      "stream (p_rio q2) (kern w2) = rest" "roster w2 xs = roster w1 xs"
      "sent (kern w2) = (sent (kern w1))(rfd (rio_tap w1) := sent (kern w1) (rfd (rio_tap w1)) @ concat fs)" by blast
  have "sent (kern w2) = (sent (kern w))(rfd (rio_tap w) := sent (kern w) (rfd (rio_tap w)) @ concat (f # fs))" using w2(5) w1(5,8) by (simp add: fun_eq_iff)
  moreover have "eth_handler (length (f # fs)) fl junk me pp hdr w = Ret h2 w2" using w1(1) w2(1) by simp
  ultimately show ?case using w2(2-4) w1(4) by metis
qed

end
