(* ===== verification/Heap.thy ===== *)
theory Heap
  imports Uthash_Ops "HOL-Library.Multiset"
begin

text \<open>
  The binary heap of \<^verbatim>\<open>route.c\<close>. The array holds pointers to entries that no one else
  points to, so it is a list of entries (\<open>None\<close>: a NULL slot, as \<^verbatim>\<open>calloc\<close> leaves it).
  Indices are 32-bit: subtraction and doubling wrap. \<open>None\<close> as a result is undefined
  behaviour, an access outside the array or through NULL, or a loop that never ends.
  \<open>mac\<close> reads the MAC address of a graph node.
\<close>

record heapent =
  ent_node :: ptr
  ent_prev :: "ptr option"
  ent_dist :: u32
  ent_visited :: u8

record Heap =
  hsize :: nat
  hmax :: nat
  heap :: "heapent option list"
  index :: uthash
  hip_index :: "ptr \<Rightarrow> nat"

definition parent_of :: "nat \<Rightarrow> nat" where
  "parent_of i = ((i + (2 ^ 32 - 1)) mod 2 ^ 32) div 2"

definition heap_alloc :: "uthash \<Rightarrow> nat \<Rightarrow> Heap" where
  "heap_alloc mem n = \<lparr>hsize = 0, hmax = n, heap = replicate n None, index = mem\<lparr>head := None\<rparr>,
     hip_index = \<lambda>_. 0\<rparr>"

text \<open>\<^verbatim>\<open>hp->heap[i]\<close>, dereferenced.\<close>

definition entry :: "Heap \<Rightarrow> nat \<Rightarrow> heapent option" where
  "entry hp i = (if i < length (heap hp) then heap hp ! i else None)"

definition swap :: "nat \<Rightarrow> nat \<Rightarrow> Heap \<Rightarrow> Heap" where
  "swap i j hp = hp\<lparr>heap := (heap hp)[i := heap hp ! j, j := heap hp ! i]\<rparr>"

text \<open>The lookup in \<^verbatim>\<open>hp->index\<close> evaluates its key only if the table is not NULL.\<close>

definition set_index :: "(ptr \<Rightarrow> bytes option) \<Rightarrow> nat \<Rightarrow> Heap \<Rightarrow> Heap option" where
  "set_index mac i hp = (case head (index hp) of
       None \<Rightarrow> Some hp
     | Some _ \<Rightarrow> do {
         e \<leftarrow> entry hp i;
         k \<leftarrow> mac (ent_node e);
         q \<leftarrow> HASH_FIND (index hp) k;
         Some (case q of None \<Rightarrow> hp | Some hip \<Rightarrow> hp\<lparr>hip_index := (hip_index hp)(hip := i)\<rparr>) })"

partial_function (option) upheap_loop :: "(ptr \<Rightarrow> bytes option) \<Rightarrow> nat \<Rightarrow> nat \<Rightarrow> Heap \<Rightarrow> Heap option" where
  "upheap_loop mac i parent hp =
     Option.bind (entry hp i) (\<lambda>e. Option.bind (entry hp parent) (\<lambda>p.
       if ent_dist e < ent_dist p
       then Option.bind (set_index mac parent (swap i parent hp))
              (\<lambda>hp. upheap_loop mac parent (parent_of parent) hp)
       else set_index mac i hp))"

declare upheap_loop.simps [code]

definition upheap :: "(ptr \<Rightarrow> bytes option) \<Rightarrow> Heap \<Rightarrow> nat \<Rightarrow> Heap option" where
  "upheap mac hp i = upheap_loop mac i (parent_of i) hp"

text \<open>\<open>raw\<close> is the content of the fresh entry; its other fields stay as \<^verbatim>\<open>malloc\<close> gave them.\<close>

definition heap_insert :: "(ptr \<Rightarrow> bytes option) \<Rightarrow> heapent \<Rightarrow> Heap \<Rightarrow> ptr \<Rightarrow> u32 \<Rightarrow> (u32 \<times> Heap) option" where
  "heap_insert mac raw hp node dist =
     (if hsize hp \<ge> hmax hp then Some (-1, hp)
      else if hsize hp \<ge> length (heap hp) then None
      else do {
        let ent = raw\<lparr>ent_node := node, ent_dist := dist\<rparr>;
        let hp = hp\<lparr>heap := (heap hp)[hsize hp := Some ent]\<rparr>;
        hp \<leftarrow> upheap mac hp (hsize hp);
        Some (0, hp\<lparr>hsize := hsize hp + 1\<rparr>) })"

text \<open>The loop of \<^verbatim>\<open>downheap\<close>; \<^verbatim>\<open>left<right?left:right\<close> compares the two indices.\<close>

definition smaller_at :: "Heap \<Rightarrow> nat \<Rightarrow> nat \<Rightarrow> bool option" where
  "smaller_at hp i c =
     (if c < hsize hp then Option.bind (entry hp i) (\<lambda>e. Option.bind (entry hp c) (\<lambda>f.
        Some (ent_dist e > ent_dist f)))
      else Some False)"

partial_function (option) downheap_loop :: "(ptr \<Rightarrow> bytes option) \<Rightarrow> nat \<Rightarrow> nat \<Rightarrow> nat \<Rightarrow> Heap \<Rightarrow> Heap option" where
  "downheap_loop mac i left right hp =
     Option.bind (smaller_at hp i left) (\<lambda>a. Option.bind (if a then Some True else smaller_at hp i right) (\<lambda>b.
       if b then
         (let left = (if left < right then left else right) in
          if left < length (heap hp) \<and> i < length (heap hp) then
            Option.bind (set_index mac left (swap i left hp)) (\<lambda>hp.
              downheap_loop mac left ((2 * left + 1) mod 2 ^ 32) ((2 * left + 2) mod 2 ^ 32) hp)
          else None)
       else set_index mac i hp))"

declare downheap_loop.simps [code]

definition downheap :: "(ptr \<Rightarrow> bytes option) \<Rightarrow> Heap \<Rightarrow> Heap option" where
  "downheap mac hp = downheap_loop mac 0 1 2 hp"

definition heap_delete :: "(ptr \<Rightarrow> bytes option) \<Rightarrow> Heap \<Rightarrow> (heapent option \<times> Heap) option" where
  "heap_delete mac hp =
     (if hsize hp = 0 then Some (None, hp)
      else do {
        let hp = hp\<lparr>hsize := hsize hp - 1\<rparr>;
        if hsize hp < length (heap hp) then do {
          let ent = heap hp ! 0;
          let hp = hp\<lparr>heap := (heap hp)[0 := heap hp ! hsize hp]\<rparr>;
          hp \<leftarrow> downheap mac hp;
          Some (ent, hp)
        } else None })"

text \<open>
  The object that a pointer to a heap refers to, \<open>None\<close> once it is freed. The entries that the array
  still holds are not freed.
\<close>

definition heap_free :: "Heap option \<Rightarrow> (Heap option, unit) run" where
  "heap_free hp = (case hp of None \<Rightarrow> Stop UB None | Some _ \<Rightarrow> Ret () None)"

section \<open>Order and contents\<close>

text \<open>
  No function of the program ever fills \<^verbatim>\<open>hp->index\<close>, so it is NULL; an array of
  pointers on the 32-bit target has fewer than \<open>2 ^ 30\<close> elements.
\<close>

definition heap_wf :: "Heap \<Rightarrow> bool" where
  "heap_wf hp \<longleftrightarrow> hmax hp = length (heap hp) \<and> hsize hp \<le> hmax hp \<and> hmax hp < 2 ^ 30 \<and>
     head (index hp) = None \<and> (\<forall>i < hsize hp. heap hp ! i \<noteq> None)"

definition dist_at :: "Heap \<Rightarrow> nat \<Rightarrow> u32" where
  "dist_at hp i = ent_dist (the (heap hp ! i))"

definition heap_ordered :: "Heap \<Rightarrow> bool" where
  "heap_ordered hp \<longleftrightarrow> (\<forall>i. 0 < i \<and> i < hsize hp \<longrightarrow> dist_at hp ((i - 1) div 2) \<le> dist_at hp i)"

definition entries :: "Heap \<Rightarrow> heapent option multiset" where
  "entries hp = mset (take (hsize hp) (heap hp))"

lemma parent_of_pos: "0 < i \<Longrightarrow> i < 2 ^ 32 \<Longrightarrow> parent_of i = (i - 1) div 2"
proof -
  assume "0 < i" "i < 2 ^ 32"
  then have "i + (2 ^ 32 - 1) = (i - 1) + 2 ^ 32" "i - 1 < 2 ^ 32" by auto
  then have "(i + (2 ^ 32 - 1)) mod 2 ^ 32 = i - 1" by (simp only: mod_add_self2 mod_less)
  then show ?thesis by (simp add: parent_of_def)
qed

lemma parent_of_0: "parent_of 0 = 2 ^ 31 - 1"
  by (simp add: parent_of_def)

lemma set_index_NULL [simp]: "head (index hp) = None \<Longrightarrow> set_index mac i hp = Some hp"
  by (simp add: set_index_def)

lemma swap_simps [simp]:
  "hsize (swap i j hp) = hsize hp" "hmax (swap i j hp) = hmax hp" "index (swap i j hp) = index hp"
  "hip_index (swap i j hp) = hip_index hp" "length (heap (swap i j hp)) = length (heap hp)"
  by (simp_all add: swap_def)

lemma swap_nth:
  "i < length (heap hp) \<Longrightarrow> j < length (heap hp) \<Longrightarrow> heap (swap i j hp) ! k =
     (if k = j then heap hp ! i else if k = i then heap hp ! j else heap hp ! k)"
  by (auto simp: swap_def nth_list_update)

text \<open>\<open>mset_swap\<close> on the part of the array that is in use.\<close>

lemma take_swap:
  assumes "i < n" and "j < n" and "n \<le> length (heap hp)"
  shows "mset (take n (heap (swap i j hp))) = mset (take n (heap hp))"
proof -
  have "take n (heap (swap i j hp)) = (take n (heap hp))[i := take n (heap hp) ! j, j := take n (heap hp) ! i]"
    using assms by (simp add: swap_def take_update_swap)
  then show ?thesis
    using assms mset_swap [of j "take n (heap hp)" i] by simp
qed

lemma downheap_loop_terminates:
  assumes "heap_wf hp" and "i < hsize hp"
  shows "\<exists>hp'. downheap_loop mac i (2 * i + 1) (2 * i + 2) hp = Some hp' \<and> heap_wf hp' \<and>
    hsize hp' = hsize hp \<and> hmax hp' = hmax hp \<and> entries hp' = entries hp"
  using assms
proof (induction "hsize hp - i" arbitrary: i hp rule: less_induct)
  case less
  have wf: "hmax hp = length (heap hp)" "hsize hp \<le> length (heap hp)" "length (heap hp) < 2 ^ 30"
      "head (index hp) = None" "\<And>k. k < hsize hp \<Longrightarrow> \<exists>e. heap hp ! k = Some e"
    using less.prems(1) by (auto simp: heap_wf_def)
  have ent: "\<exists>e. entry hp k = Some e" if "k < hsize hp" for k
    using wf that by (simp add: entry_def)
  have ans: "\<exists>b. smaller_at hp i c = Some b \<and> (b \<longrightarrow> c < hsize hp)" for c
    using ent [OF less.prems(2)] ent [of c] by (auto simp: smaller_at_def)
  obtain a where a: "smaller_at hp i (2 * i + 1) = Some a" "a \<longrightarrow> 2 * i + 1 < hsize hp" using ans by blast
  obtain b where b: "smaller_at hp i (2 * i + 2) = Some b" "b \<longrightarrow> 2 * i + 2 < hsize hp" using ans by blast
  show ?case
  proof (cases "a \<or> b")
    case False
    then show ?thesis
      using a b wf less.prems by (subst downheap_loop.simps) simp
  next
    case True
    define l where "l = 2 * i + 1"
    let ?hp = "swap i l hp"
    have l: "l < hsize hp" "i < l" using True a b by (auto simp: l_def)
    have wf': "heap_wf ?hp"
      using less.prems wf l by (auto simp: heap_wf_def swap_nth)
    have less_l: "hsize ?hp - l < hsize hp - i" using l by simp
    have ent: "entries ?hp = entries hp"
      using wf l less.prems(2) by (simp add: entries_def take_swap)
    obtain hp' where hp': "downheap_loop mac l (2 * l + 1) (2 * l + 2) ?hp = Some hp'" "heap_wf hp'"
        "hsize hp' = hsize ?hp" "hmax hp' = hmax ?hp" "entries hp' = entries ?hp"
      using less.hyps [of ?hp l, OF less_l wf'] l by auto
    have wrap: "(2 * l + 1) mod 2 ^ 32 = 2 * l + 1" "(2 * l + 2) mod 2 ^ 32 = 2 * l + 2"
      using l wf by simp_all
    have idx: "2 * i + 1 = l" "2 * i + 2 = l + 1" by (simp_all add: l_def)
    have "downheap_loop mac i l (l + 1) hp = downheap_loop mac l (2 * l + 1) (2 * l + 2) ?hp"
    proof -
      have "smaller_at hp i l = Some a" "smaller_at hp i (l + 1) = Some b" using a b unfolding idx by simp_all
      then show ?thesis
        using True wf l less.prems(2)
        by (subst downheap_loop.simps) (cases a; simp add: Let_def wrap [simplified])
    qed
    then show ?thesis
      using hp' ent unfolding idx by simp
  qed
qed

section \<open>Sifting up\<close>

text \<open>The order holds everywhere but between \<open>i\<close> and its parent, and \<open>i\<close> is not below the root.\<close>

definition up_inv :: "Heap \<Rightarrow> nat \<Rightarrow> nat \<Rightarrow> bool" where
  "up_inv hp n i \<longleftrightarrow> 0 < i \<and> i \<le> n \<and> dist_at hp 0 \<le> dist_at hp i \<and>
     (\<forall>j. 0 < j \<and> j \<le> n \<and> j \<noteq> i \<longrightarrow> dist_at hp ((j - 1) div 2) \<le> dist_at hp j) \<and>
     (\<forall>j. 0 < j \<and> j \<le> n \<and> (j - 1) div 2 = i \<longrightarrow> dist_at hp ((i - 1) div 2) \<le> dist_at hp j)"

definition slots_ok :: "Heap \<Rightarrow> nat \<Rightarrow> bool" where
  "slots_ok hp n \<longleftrightarrow> n < length (heap hp) \<and> length (heap hp) < 2 ^ 30 \<and> head (index hp) = None \<and>
     (\<forall>k \<le> n. heap hp ! k \<noteq> None)"

lemma up_inv_step:
  assumes inv: "up_inv hp n i" and lt: "dist_at hp i < dist_at hp ((i - 1) div 2)" and n: "n < length (heap hp)"
  shows "up_inv (swap i ((i - 1) div 2) hp) n ((i - 1) div 2)"
proof -
  let ?p = "(i - 1) div 2" and ?hp = "swap i ((i - 1) div 2) hp"
  have i: "0 < i" "i \<le> n" and root: "dist_at hp 0 \<le> dist_at hp i"
    and ord: "\<And>j. 0 < j \<Longrightarrow> j \<le> n \<Longrightarrow> j \<noteq> i \<Longrightarrow> dist_at hp ((j - 1) div 2) \<le> dist_at hp j"
    and skip: "\<And>j. 0 < j \<Longrightarrow> j \<le> n \<Longrightarrow> (j - 1) div 2 = i \<Longrightarrow> dist_at hp ?p \<le> dist_at hp j"
    using inv by (auto simp: up_inv_def)
  have p: "?p < i" "0 < ?p" using i root lt by (auto intro: gr0I)
  have d: "dist_at ?hp k = (if k = ?p then dist_at hp i else if k = i then dist_at hp ?p else dist_at hp k)" for k
    using i n p by (simp add: dist_at_def swap_nth)
  have "dist_at ?hp ((j - 1) div 2) \<le> dist_at ?hp j" if "0 < j" "j \<le> n" "j \<noteq> ?p" for j
    using that ord [of j] skip [of j] lt p d by (auto simp del: One_nat_def)
  moreover have "dist_at ?hp ((?p - 1) div 2) \<le> dist_at ?hp j" if "0 < j" "j \<le> n" "(j - 1) div 2 = ?p" for j
  proof -
    have q: "dist_at hp ((?p - 1) div 2) \<le> dist_at hp ?p" "(?p - 1) div 2 \<noteq> ?p" "(?p - 1) div 2 \<noteq> i"
      using ord [of ?p] p i by auto
    moreover have "j \<noteq> ?p" using that q(2) by metis
    ultimately show ?thesis
      using that ord [of j] d by (cases "j = i") auto
  qed
  ultimately show ?thesis
    using p i root d by (auto simp: up_inv_def)
qed

lemma upheap_loop_ok:
  assumes "slots_ok hp n" and "up_inv hp n i"
  shows "\<exists>hp'. upheap_loop mac i (parent_of i) hp = Some hp' \<and> slots_ok hp' n \<and>
    (\<forall>j. 0 < j \<and> j \<le> n \<longrightarrow> dist_at hp' ((j - 1) div 2) \<le> dist_at hp' j) \<and>
    mset (take (Suc n) (heap hp')) = mset (take (Suc n) (heap hp)) \<and>
    hsize hp' = hsize hp \<and> hmax hp' = hmax hp \<and> length (heap hp') = length (heap hp)"
  using assms
proof (induction i arbitrary: hp rule: less_induct)
  case (less i)
  let ?p = "(i - 1) div 2" and ?hp = "swap i ((i - 1) div 2) hp"
  have i: "0 < i" "i \<le> n" "i < 2 ^ 32" and p: "?p < i" and wf: "n < length (heap hp)" "head (index hp) = None"
    using less.prems by (auto simp: up_inv_def slots_ok_def)
  have par: "parent_of i = ?p" using parent_of_pos i by simp
  obtain e f where e: "heap hp ! i = Some e" "heap hp ! ?p = Some f"
    using less.prems(1) i p by (fastforce simp: slots_ok_def)
  have ent: "entry hp i = Some e" "entry hp ?p = Some f" "dist_at hp i = ent_dist e" "dist_at hp ?p = ent_dist f"
    using e i p wf by (simp_all add: entry_def dist_at_def)
  show ?case
  proof (cases "dist_at hp i < dist_at hp ?p")
    case True
    have "slots_ok ?hp n"
      using less.prems(1) i p by (auto simp: slots_ok_def swap_nth)
    from less.IH [OF p this up_inv_step [OF less.prems(2) True wf(1)]]
    show ?thesis
      using True ent wf par take_swap [of i "Suc n" ?p hp] i p
      by (subst upheap_loop.simps) (simp add: less_Suc_eq_le)
  next
    case False
    have "\<forall>j. 0 < j \<and> j \<le> n \<longrightarrow> dist_at hp ((j - 1) div 2) \<le> dist_at hp j"
      using less.prems(2) False unfolding up_inv_def by (metis linorder_not_less)
    then show ?thesis
      using False ent wf par less.prems(1) by (subst upheap_loop.simps) simp
  qed
qed

text \<open>An entry below all others climbs to index 0, whose parent index lies outside every array.\<close>

lemma upheap_loop_minimum:
  assumes "slots_ok hp n" and "i \<le> n" and "\<And>k. k \<le> n \<Longrightarrow> k \<noteq> i \<Longrightarrow> dist_at hp i < dist_at hp k"
  shows "upheap_loop mac i (parent_of i) hp = None"
  using assms
proof (induction i arbitrary: hp rule: less_induct)
  case (less i)
  have wf: "n < length (heap hp)" "length (heap hp) < 2 ^ 30" "head (index hp) = None"
    using less.prems(1) by (auto simp: slots_ok_def)
  obtain e where e: "heap hp ! i = Some e" "entry hp i = Some e"
    using less.prems(1,2) wf by (fastforce simp: slots_ok_def entry_def)
  show ?case
  proof (cases "i = 0")
    case True
    then have "entry hp (parent_of i) = None" using wf by (simp add: parent_of_0 entry_def)
    then show ?thesis using e by (subst upheap_loop.simps) simp
  next
    case False
    let ?p = "(i - 1) div 2" and ?hp = "swap i ((i - 1) div 2) hp"
    have p: "?p < i" and par: "parent_of i = ?p"
      using False parent_of_pos [of i] less.prems(2) wf by auto
    obtain f where f: "heap hp ! ?p = Some f" "entry hp ?p = Some f"
      using less.prems(1,2) wf p by (fastforce simp: slots_ok_def entry_def)
    have lt: "ent_dist e < ent_dist f"
      using less.prems(3) [of ?p] less.prems(2) p e f by (simp add: dist_at_def)
    have ok: "slots_ok ?hp n"
      using less.prems(1,2) p by (auto simp: slots_ok_def swap_nth)
    have "dist_at ?hp ?p < dist_at ?hp k" if "k \<le> n" "k \<noteq> ?p" for k
      using that less.prems(2,3) p wf lt e f by (simp add: dist_at_def swap_nth)
    then have "upheap_loop mac ?p (parent_of ?p) ?hp = None"
      using less.IH [OF p ok] less.prems(2) p by simp
    then show ?thesis
      using e f lt wf par by (subst upheap_loop.simps) simp
  qed
qed

lemma heap_ordered_root:
  assumes "heap_ordered hp" and "i < hsize hp"
  shows "dist_at hp 0 \<le> dist_at hp i"
  using assms(2)
proof (induction i rule: less_induct)
  case (less i)
  show ?case
  proof (cases "i = 0")
    case False
    then have "dist_at hp 0 \<le> dist_at hp ((i - 1) div 2)" using less by simp
    also have "\<dots> \<le> dist_at hp i" using assms(1) less.prems False by (simp add: heap_ordered_def)
    finally show ?thesis .
  qed simp
qed

section \<open>Properties of the heap\<close>

definition demo_ent :: "u32 \<Rightarrow> heapent" where
  "demo_ent d = \<lparr>ent_node = 0, ent_prev = None, ent_dist = d, ent_visited = 0\<rparr>"

definition demo_heap :: "u32 list \<Rightarrow> nat \<Rightarrow> Heap" where
  "demo_heap ds free = \<lparr>hsize = length ds, hmax = length ds + free,
     heap = map (\<lambda>d. Some (demo_ent d)) ds @ replicate free None, index = demo_empty, hip_index = \<lambda>_. 0\<rparr>"

lemma demo_heap_wf: "length ds + free < 2 ^ 30 \<Longrightarrow> heap_wf (demo_heap ds free)"
  by (auto simp: heap_wf_def demo_heap_def nth_append demo_empty_def)

lemma demo_heap_dist: "i < length ds \<Longrightarrow> dist_at (demo_heap ds free) i = ds ! i"
  by (simp add: demo_heap_def dist_at_def nth_append demo_ent_def)

lemma demo_heap_simps [simp]: "hsize (demo_heap ds free) = length ds" "hmax (demo_heap ds free) = length ds + free"
  by (simp_all add: demo_heap_def)

lemma demo_heap_ordered: "heap_ordered (demo_heap [1, 5, 2] free)"
  by (auto simp: heap_ordered_def demo_heap_dist less_Suc_eq)

text \<open>
  C31. \<^verbatim>\<open>heap_insert\<close> into a heap with room, of an entry that is not closer than the
  root: it returns, the heap order is kept, and the contents are the old ones and the
  new entry.
\<close>

theorem heap_insert_keeps_order:
  assumes "heap_wf hp" and "heap_ordered hp" and "0 < hsize hp" and "hsize hp < hmax hp"
    and "dist_at hp 0 \<le> dist"
  shows "\<exists>hp'. heap_insert mac raw hp node dist = Some (0, hp') \<and> heap_wf hp' \<and> heap_ordered hp' \<and>
    hsize hp' = hsize hp + 1 \<and>
    entries hp' = add_mset (Some (raw\<lparr>ent_node := node, ent_dist := dist\<rparr>)) (entries hp)"
proof -
  let ?n = "hsize hp" and ?e = "raw\<lparr>ent_node := node, ent_dist := dist\<rparr>"
  let ?hp = "hp\<lparr>heap := (heap hp)[?n := Some ?e]\<rparr>"
  have wf: "hmax hp = length (heap hp)" "hmax hp < 2 ^ 30" "head (index hp) = None"
      "\<And>k. k < ?n \<Longrightarrow> heap hp ! k \<noteq> None"
    using assms(1) by (auto simp: heap_wf_def)
  have d: "dist_at ?hp k = (if k = ?n then dist else dist_at hp k)" for k
    using assms(4) wf(1) by (simp add: dist_at_def nth_list_update)
  have ok: "slots_ok ?hp ?n"
    using wf assms(4) by (auto simp: slots_ok_def nth_list_update)
  have "up_inv ?hp ?n ?n"
    using assms(2,3,5) d by (auto simp: up_inv_def heap_ordered_def)
  from upheap_loop_ok [OF ok this, of mac] obtain hp' where hp': "upheap mac ?hp ?n = Some hp'" "slots_ok hp' ?n"
      "\<forall>j. 0 < j \<and> j \<le> ?n \<longrightarrow> dist_at hp' ((j - 1) div 2) \<le> dist_at hp' j"
      "mset (take (Suc ?n) (heap hp')) = mset (take (Suc ?n) (heap ?hp))"
      "hsize hp' = ?n" "hmax hp' = hmax hp" "length (heap hp') = length (heap hp)"
    by (auto simp: upheap_def)
  have ins: "heap_insert mac raw hp node dist = Some (0, hp'\<lparr>hsize := ?n + 1\<rparr>)"
    using assms(4) wf(1) hp'(1,5) by (simp add: heap_insert_def)
  have "heap_wf (hp'\<lparr>hsize := ?n + 1\<rparr>)"
    using hp'(2,6,7) wf assms(4) by (auto simp: heap_wf_def slots_ok_def)
  moreover have "heap_ordered (hp'\<lparr>hsize := ?n + 1\<rparr>)"
    using hp'(3) by (auto simp: heap_ordered_def dist_at_def)
  moreover have "entries (hp'\<lparr>hsize := ?n + 1\<rparr>) = add_mset (Some ?e) (entries hp)"
    using hp'(4) wf(1) assms(4) by (simp add: entries_def take_Suc_conv_app_nth)
  ultimately show ?thesis using ins by auto
qed

theorem heap_insert_keeps_order_witness:
  "\<exists>hp'. heap_insert (\<lambda>_. None) (demo_ent 0) (demo_heap [1, 5, 2] 2) 0 1 = Some (0, hp') \<and> heap_ordered hp'"
  using heap_insert_keeps_order [OF demo_heap_wf demo_heap_ordered, of 2 1 "\<lambda>_. None" "demo_ent 0" 0]
  by (auto simp: demo_heap_dist)

text \<open>
  \<^verbatim>\<open>heap_insert\<close> of a new minimum, and so of the first entry, is undefined: the entry
  climbs to index 0, \<^verbatim>\<open>(0-1)/2\<close> wraps to \<open>2 ^ 31 - 1\<close>, and the loop condition
  dereferences \<^verbatim>\<open>heap[2147483647]\<close>.
\<close>

theorem heap_insert_minimum_undefined:
  assumes "heap_wf hp" and "heap_ordered hp" and "hsize hp < hmax hp"
    and "hsize hp = 0 \<or> dist < dist_at hp 0"
  shows "heap_insert mac raw hp node dist = None"
proof -
  let ?n = "hsize hp" and ?e = "raw\<lparr>ent_node := node, ent_dist := dist\<rparr>"
  let ?hp = "hp\<lparr>heap := (heap hp)[?n := Some ?e]\<rparr>"
  have wf: "hmax hp = length (heap hp)" "hmax hp < 2 ^ 30" "head (index hp) = None"
      "\<And>k. k < ?n \<Longrightarrow> heap hp ! k \<noteq> None"
    using assms(1) by (auto simp: heap_wf_def)
  have ok: "slots_ok ?hp ?n"
    using wf assms(3) by (auto simp: slots_ok_def nth_list_update)
  have "dist_at ?hp ?n < dist_at ?hp k" if "k \<le> ?n" "k \<noteq> ?n" for k
  proof -
    have "dist < dist_at hp k"
      using heap_ordered_root [OF assms(2), of k] assms(4) that by auto
    then show ?thesis using that assms(3) wf(1) by (simp add: dist_at_def)
  qed
  then have "upheap mac ?hp ?n = None"
    using upheap_loop_minimum [OF ok] by (simp add: upheap_def)
  then show ?thesis
    using assms(3) wf(1) by (simp add: heap_insert_def)
qed

theorem heap_insert_minimum_undefined_witness:
  "heap_insert (\<lambda>_. None) (demo_ent 0) (heap_alloc demo_empty 4) 0 7 = None"
  by (rule heap_insert_minimum_undefined)
    (auto simp: heap_wf_def heap_ordered_def heap_alloc_def demo_empty_def)

text \<open>
  C32. \<^verbatim>\<open>heap_delete\<close> on a non-empty heap always returns: it hands out the entry at the
  root, which is the closest one if the heap is in order, and the rest of the entries
  stay in the heap, each exactly once.
\<close>

theorem heap_delete_takes_root:
  assumes "heap_wf hp" and "0 < hsize hp" and "heap_ordered hp"
  shows "\<exists>ent hp'. heap_delete mac hp = Some (Some ent, hp') \<and> heap_wf hp' \<and> hsize hp' + 1 = hsize hp \<and>
    add_mset (Some ent) (entries hp') = entries hp \<and>
    (\<forall>i < hsize hp. ent_dist ent \<le> dist_at hp i)"
proof -
  have wf: "hmax hp = length (heap hp)" "hsize hp \<le> length (heap hp)" "hmax hp < 2 ^ 30" "head (index hp) = None"
      "\<And>k. k < hsize hp \<Longrightarrow> heap hp ! k \<noteq> None"
    using assms(1) by (auto simp: heap_wf_def)
  obtain m where m: "hsize hp = Suc m" using assms(2) gr0_conv_Suc by auto
  obtain ent where ent: "heap hp ! 0 = Some ent" using wf(5) assms(2) by blast
  let ?hp = "hp\<lparr>hsize := m, heap := (heap hp)[0 := heap hp ! m]\<rparr>"
  have wf1: "heap_wf ?hp"
  proof -
    have "(heap hp)[0 := heap hp ! m] ! k \<noteq> None" if "k < m" for k
    proof (cases "k = 0")
      case True
      have "0 < length (heap hp)" using wf(2) m by linarith
      then show ?thesis using True wf(5) [of m] m by (simp only: nth_list_update_eq) simp
    qed (use that wf(5) m in simp)
    then show ?thesis using wf m by (simp add: heap_wf_def)
  qed
  obtain hp' where hp': "downheap mac ?hp = Some hp'" "heap_wf hp'" "hsize hp' = m" "entries hp' = entries ?hp"
  proof (cases "m = 0")
    case True
    then have "downheap mac ?hp = Some ?hp"
      using wf unfolding downheap_def by (subst downheap_loop.simps) (simp add: smaller_at_def)
    then show ?thesis using that wf1 by simp
  next
    case False
    then show ?thesis
      using downheap_loop_terminates [OF wf1, of 0 mac] that by (auto simp: downheap_def numeral_2_eq_2)
  qed
  have "take (Suc m) (heap hp) = take m (heap hp) @ [heap hp ! m]"
    using wf m by (simp add: take_Suc_conv_app_nth)
  moreover have "mset (take m ((heap hp)[0 := heap hp ! m])) + {#heap hp ! 0#} = mset (take m (heap hp)) + {#heap hp ! m#}"
    using wf m by (cases m; cases "heap hp") simp_all
  ultimately have "add_mset (Some ent) (entries hp') = entries hp"
    using hp'(4) m ent by (simp add: entries_def)
  moreover have "heap_delete mac hp = Some (Some ent, hp')"
    using m wf ent hp'(1) by (simp add: heap_delete_def)
  moreover have "\<forall>i < hsize hp. ent_dist ent \<le> dist_at hp i"
    using heap_ordered_root [OF assms(3)] ent by (simp add: dist_at_def)
  ultimately show ?thesis using hp'(2,3) m by auto
qed

theorem heap_delete_takes_root_witness:
  "\<exists>ent hp'. heap_delete (\<lambda>_. None) (demo_heap [1, 5, 2] 0) = Some (Some ent, hp') \<and> ent_dist ent \<le> 1"
  using heap_delete_takes_root [OF demo_heap_wf _ demo_heap_ordered, of 0 "\<lambda>_. None"]
  by (fastforce simp: demo_heap_dist dest: spec [of _ 0])

text \<open>
  \<^verbatim>\<open>heap_delete\<close> does not keep the heap order: \<^verbatim>\<open>downheap\<close> picks the smaller child
  index instead of the closer child, so it always moves the left child up. Deleting the
  minimum of \<open>1, 5, 2, 6\<close> leaves 5 above 2.
\<close>

theorem heap_delete_breaks_order:
  "heap_ordered (demo_heap [1, 5, 2, 6] 0) \<and>
   (\<exists>ent hp'. heap_delete (\<lambda>_. None) (demo_heap [1, 5, 2, 6] 0) = Some (ent, hp') \<and> \<not> heap_ordered hp')"
proof
  show "heap_ordered (demo_heap [1, 5, 2, 6] 0)"
    by (auto simp: heap_ordered_def demo_heap_dist less_Suc_eq)
  have "map_option (\<lambda>(ent, hp'). (hsize hp', map (map_option ent_dist) (heap hp')))
      (heap_delete (\<lambda>_. None) (demo_heap [1, 5, 2, 6] 0)) = Some (3, [Some 5, Some 6, Some 2, Some 6])"
    unfolding heap_delete_def downheap_def demo_heap_def
    apply simp
    apply (subst downheap_loop.simps)
    apply (simp add: smaller_at_def entry_def demo_ent_def demo_empty_def set_index_def swap_def)
    apply (subst downheap_loop.simps)
    apply (simp add: smaller_at_def entry_def demo_ent_def demo_empty_def set_index_def swap_def)
    done
  then obtain ent hp' where del: "heap_delete (\<lambda>_. None) (demo_heap [1, 5, 2, 6] 0) = Some (ent, hp')"
      "hsize hp' = 3" "map (map_option ent_dist) (heap hp') = [Some 5, Some 6, Some 2, Some 6]"
    by auto
  have "length (heap hp') = 4" using arg_cong [OF del(3), of length] by simp
  then have "map_option ent_dist (heap hp' ! 0) = Some 5" "map_option ent_dist (heap hp' ! 2) = Some 2"
    using arg_cong [OF del(3), of "\<lambda>xs. xs ! 0"] arg_cong [OF del(3), of "\<lambda>xs. xs ! 2"] by simp_all
  then have "dist_at hp' 0 = 5" "dist_at hp' 2 = 2"
    by (auto simp: dist_at_def)
  then have "\<not> heap_ordered hp'"
    using del(2) by (auto simp: heap_ordered_def intro!: exI [of _ 2])
  with del(1) show "\<exists>ent hp'. heap_delete (\<lambda>_. None) (demo_heap [1, 5, 2, 6] 0) = Some (ent, hp') \<and> \<not> heap_ordered hp'"
    by blast
qed

end
