(* ===== verification/Graph.thy ===== *)
theory Graph
  imports Heap Members
begin

text \<open>
  The graph of the network and the routing functions of \<^verbatim>\<open>route.c\<close>. A vertex and an edge are
  objects in memory; the table \<^verbatim>\<open>network\<close> holds the vertices under the address of their proxy,
  the table \<^verbatim>\<open>nbrs\<close> of a vertex its edges under the address of their target. The handles of
  the edges belong to the table of their vertex. \<open>own_mac\<close> is the address of this proxy, \<open>glock\<close> the
  readers-writers lock. The weight of a record is a \<^verbatim>\<open>float\<close>: \<open>fl\<close> is its conversion to an
  integer, the byte swap of this integer and the conversion back, on the bits of the number.
\<close>

section \<open>State\<close>

record edge =
  e_node :: ptr
  e_timestamp :: timespec
  e_linkWeight :: u32

record graph =
  g_ls :: link_state
  nbrs :: uthash

record gworld =
  network :: uthash
  vertices :: "ptr \<Rightarrow> graph option"
  edges :: "ptr \<Rightarrow> edge option"
  gbrk :: ptr
  glock :: rwlock
  own_mac :: bytes

definition in_glock :: "(rwlock \<Rightarrow> (rwlock, 'a) run) \<Rightarrow> gworld \<Rightarrow> (gworld, 'a) run" where
  "in_glock f g = lift_run (\<lambda>l. g\<lparr>glock := l\<rparr>) (f (glock g))"

definition get_vertex :: "ptr \<Rightarrow> gworld \<Rightarrow> (gworld, graph) run" where
  "get_vertex v g = (case vertices g v of None \<Rightarrow> Stop UB g | Some x \<Rightarrow> Ret x g)"

definition set_vertex :: "ptr \<Rightarrow> (graph \<Rightarrow> graph) \<Rightarrow> gworld \<Rightarrow> (gworld, unit) run" where
  "set_vertex v f g = (case vertices g v of None \<Rightarrow> Stop UB g
     | Some x \<Rightarrow> Ret () (g\<lparr>vertices := (vertices g)(v \<mapsto> f x)\<rparr>))"

definition find_vertex :: "bytes \<Rightarrow> gworld \<Rightarrow> (gworld, ptr option) run" where
  "find_vertex k g = (case HASH_FIND (network g) k of None \<Rightarrow> Stop UB g | Some r \<Rightarrow> Ret r g)"

definition find_edge :: "ptr \<Rightarrow> bytes \<Rightarrow> gworld \<Rightarrow> (gworld, ptr option) run" where
  "find_edge v k g = bind_run (get_vertex v g) (\<lambda>x g. case HASH_FIND (nbrs x) k of None \<Rightarrow> Stop UB g | Some r \<Rightarrow> Ret r g)"

text \<open>\<open>raw\<close> is what \<^verbatim>\<open>malloc\<close> leaves in a vertex.\<close>

definition new_vertex :: "graph \<Rightarrow> gworld \<Rightarrow> (gworld, ptr) run" where
  "new_vertex raw g = Ret (gbrk g) (g\<lparr>gbrk := gbrk g + 1, vertices := (vertices g)(gbrk g \<mapsto> raw),
     network := (network g)\<lparr>hh := (hh (network g))(gbrk g \<mapsto> zero_handle)\<rparr>\<rparr>)"

text \<open>A new edge from \<open>v\<close>, its target not yet set. Its other fields are set before anyone reads them.\<close>

definition new_edge :: "ptr \<Rightarrow> gworld \<Rightarrow> (gworld, ptr) run" where
  "new_edge v g =
     (let e = gbrk g; g = g\<lparr>gbrk := e + 1, edges := (edges g)(e \<mapsto> \<lparr>e_node = 0, e_timestamp = zero_ts, e_linkWeight = 0\<rparr>)\<rparr> in
      bind_run (set_vertex v (\<lambda>x. x\<lparr>nbrs := (nbrs x)\<lparr>hh := (hh (nbrs x))(e \<mapsto> zero_handle)\<rparr>\<rparr>) g) (\<lambda>_ g. Ret e g))"

definition set_edge :: "ptr \<Rightarrow> (edge \<Rightarrow> edge) \<Rightarrow> gworld \<Rightarrow> (gworld, unit) run" where
  "set_edge e f g = (case edges g e of None \<Rightarrow> Stop UB g
     | Some x \<Rightarrow> Ret () (g\<lparr>edges := (edges g)(e \<mapsto> f x)\<rparr>))"

text \<open>\<^verbatim>\<open>HASH_ADD\<close> to the network and to the neighbours of a vertex, under the address of the proxy.\<close>

definition add_vertex :: "ptr \<Rightarrow> gworld \<Rightarrow> (gworld, unit) run" where
  "add_vertex v g =
     bind_run (get_vertex v g) (\<lambda>x g. case HASH_ADD (network g) v (tapMAC (g_ls x)) of
       None \<Rightarrow> Stop UB g
     | Some t \<Rightarrow> Ret () (g\<lparr>network := t\<rparr>))"

definition add_edge :: "ptr \<Rightarrow> ptr \<Rightarrow> gworld \<Rightarrow> (gworld, unit) run" where
  "add_edge v e g = (case edges g e of None \<Rightarrow> Stop UB g | Some y \<Rightarrow>
     bind_run (get_vertex (e_node y) g) (\<lambda>n g.
     bind_run (get_vertex v g) (\<lambda>x g. case HASH_ADD (nbrs x) e (tapMAC (g_ls n)) of
       None \<Rightarrow> Stop UB g
     | Some t \<Rightarrow> set_vertex v (\<lambda>x. x\<lparr>nbrs := t\<rparr>) g)))"

section \<open>Recording an edge\<close>

text \<open>The target of a new edge: a vertex of the network, or a new one outside of it.\<close>

definition target :: "graph \<Rightarrow> link_state \<Rightarrow> gworld \<Rightarrow> (gworld, ptr) run" where
  "target raw ls g =
     bind_run (find_vertex (tapMAC ls) g) (\<lambda>n g. case n of None \<Rightarrow> new_vertex raw g | Some n \<Rightarrow> Ret n g)"

definition evaluate_record :: "graph \<Rightarrow> (u32 \<Rightarrow> u32) \<Rightarrow> tid \<Rightarrow> link_state_record \<Rightarrow> gworld \<Rightarrow> (gworld, unit) run" where
  "evaluate_record raw fl me lsr g =
     bind_run (in_glock (writeBegin me) g) (\<lambda>_ g.
     bind_run (find_vertex (tapMAC (lsr_proxy1 lsr)) g) (\<lambda>v g.
     bind_run (case v of
       None \<Rightarrow>
         bind_run (new_vertex raw g) (\<lambda>v g.
         bind_run (new_edge v g) (\<lambda>e g.
         bind_run (set_vertex v (\<lambda>x. x\<lparr>g_ls := lsr_proxy1 lsr, nbrs := (nbrs x)\<lparr>head := None\<rparr>\<rparr>) g) (\<lambda>_ g.
         bind_run (target raw (lsr_proxy2 lsr) g) (\<lambda>n g.
         bind_run (set_edge e (\<lambda>y. y\<lparr>e_node := n\<rparr>) g) (\<lambda>_ g.
         bind_run (set_vertex n (\<lambda>x. x\<lparr>g_ls := lsr_proxy2 lsr, nbrs := (nbrs x)\<lparr>head := None\<rparr>\<rparr>) g) (\<lambda>_ g.
         bind_run (add_vertex v g) (\<lambda>_ g.
         bind_run (add_edge v e g) (\<lambda>_ g. Ret e g))))))))
     | Some v \<Rightarrow>
         bind_run (find_edge v (tapMAC (lsr_proxy2 lsr)) g) (\<lambda>e g. case e of
           Some e \<Rightarrow> Ret e g
         | None \<Rightarrow>
             bind_run (new_edge v g) (\<lambda>e g.
             bind_run (target raw (lsr_proxy2 lsr) g) (\<lambda>n g.
             bind_run (set_edge e (\<lambda>y. y\<lparr>e_node := n\<rparr>) g) (\<lambda>_ g.
             bind_run (set_vertex n (\<lambda>x. x\<lparr>g_ls := lsr_proxy2 lsr\<rparr>) g) (\<lambda>_ g.
             bind_run (add_edge v e g) (\<lambda>_ g. Ret e g))))))) (\<lambda>e g.
     bind_run (set_edge e (\<lambda>y. y\<lparr>e_timestamp := \<lparr>tv_sec = ntohl (tv_sec (lsr_ID lsr)), tv_nsec = ntohl (tv_nsec (lsr_ID lsr))\<rparr>,
         e_linkWeight := fl (lsr_linkWeight lsr)\<rparr>) g) (\<lambda>_ g.
     in_glock (writeEnd me) g))))"

text \<open>The braces around the two statements after \<^verbatim>\<open>if(node==NULL)\<close> are missing: the function always returns there.\<close>

definition remove_from_network :: "tid \<Rightarrow> ptr \<Rightarrow> gworld \<Rightarrow> (gworld, unit) run" where
  "remove_from_network me pp g =
     bind_run (in_glock (writeBegin me) g) (\<lambda>_ g.
     bind_run (get_vertex pp g) (\<lambda>x g.
     bind_run (find_vertex (tapMAC (g_ls x)) g) (\<lambda>node g.
     if node = None then in_glock (writeEnd me) g else Ret () g)))"

section \<open>Routing\<close>

text \<open>
  \<^verbatim>\<open>shortest_path\<close> and \<^verbatim>\<open>bfs\<close> use the pointer \<^verbatim>\<open>q\<close> that was never set as soon as this proxy is in
  the graph.
\<close>

definition shortest_path :: "tid \<Rightarrow> gworld \<Rightarrow> (gworld, unit) run" where
  "shortest_path me g =
     bind_run (in_glock (writeBegin me) g) (\<lambda>_ g.
     bind_run (find_vertex (own_mac g) g) (\<lambda>node g. case node of None \<Rightarrow> Ret () g | Some node \<Rightarrow> Stop UB g))"

definition bfs :: "tid \<Rightarrow> gworld \<Rightarrow> (gworld, ptr option) run" where
  "bfs me g =
     bind_run (in_glock (writeBegin me) g) (\<lambda>_ g.
     bind_run (find_vertex (own_mac g) g) (\<lambda>node g. case node of None \<Rightarrow> Ret None g | Some node \<Rightarrow> Stop UB g))"

text \<open>
  The first loop of \<^verbatim>\<open>Dijkstra\<close>, with the successor read before the body as \<^verbatim>\<open>HASH_ITER\<close> does;
  \<open>None\<close> is undefined behaviour. The index returned by \<^verbatim>\<open>heap_insert\<close> is 0, or -1 when the heap is full.
\<close>

partial_function (option) dijkstra_fill :: "gworld \<Rightarrow> heapent \<Rightarrow> ptr option \<Rightarrow> Heap \<Rightarrow> Heap option" where
  "dijkstra_fill g rawent el hp = (case el of
       None \<Rightarrow> Some hp
     | Some v \<Rightarrow>
         Option.bind (hh (network g) v) (\<lambda>h.
         Option.bind (heap_insert (\<lambda>p. map_option (\<lambda>x. tapMAC (g_ls x)) (vertices g p)) rawent hp v (-1)) (\<lambda>(i, hp).
         Option.bind (entry hp (unat i)) (\<lambda>ent.
         dijkstra_fill g rawent (app_next h)
           (hp\<lparr>heap := (heap hp)[unat i := Some (ent\<lparr>ent_prev := None, ent_visited := 0\<rparr>)]\<rparr>)))))"

text \<open>
  No one fills the table \<^verbatim>\<open>hp->index\<close> that \<open>heap_alloc\<close> set to NULL, so the lookup of the source
  in it fails and the function returns; what follows is not reached. \<open>idx\<close> is the memory of the
  handles of that table.
\<close>

definition Dijkstra :: "uthash \<Rightarrow> heapent \<Rightarrow> tid \<Rightarrow> gworld \<Rightarrow> (gworld, unit) run" where
  "Dijkstra idx rawent me g =
     bind_run (in_glock (writeBegin me) g) (\<lambda>_ g.
     bind_run (find_vertex (own_mac g) g) (\<lambda>node g. case node of
       None \<Rightarrow> Ret () g
     | Some node \<Rightarrow> (case dijkstra_fill g rawent (head (network g)) (heap_alloc idx (HASH_COUNT (network g))) of
           None \<Rightarrow> Stop UB g
         | Some hp \<Rightarrow> (case HASH_FIND (index hp) (own_mac g) of
               Some None \<Rightarrow> Ret () g
             | _ \<Rightarrow> Stop UB g))))"

section \<open>Well-formed graphs\<close>

text \<open>
  \<open>vs\<close> are the vertices of the network, \<open>es v\<close> the edges of the vertex \<open>v\<close>. Every edge is stored
  under the address of its target and belongs to one vertex only.
\<close>

definition wf_vertex :: "gworld \<Rightarrow> graph \<Rightarrow> ptr list \<Rightarrow> bool" where
  "wf_vertex g x el \<longleftrightarrow> uh_rep (nbrs x) el \<and> inj_on (key_at (nbrs x)) (set el) \<and>
     (\<forall>e\<in>set el. \<exists>y n. edges g e = Some y \<and> vertices g (e_node y) = Some n \<and> key_at (nbrs x) e = tapMAC (g_ls n))"

definition wf_graph :: "gworld \<Rightarrow> ptr list \<Rightarrow> (ptr \<Rightarrow> ptr list) \<Rightarrow> bool" where
  "wf_graph g vs es \<longleftrightarrow> uh_rep (network g) vs \<and> inj_on (key_at (network g)) (set vs) \<and>
     (\<forall>p\<ge>gbrk g. vertices g p = None \<and> edges g p = None) \<and>
     (\<forall>v\<in>set vs. \<exists>x. vertices g v = Some x \<and> key_at (network g) v = tapMAC (g_ls x) \<and> wf_vertex g x (es v)) \<and>
     (\<forall>v\<in>set vs. \<forall>u\<in>set vs. v \<noteq> u \<longrightarrow> set (es v) \<inter> set (es u) = {})"

text \<open>The edges as the program finds them: from an address to the edges with their time and weight.\<close>

definition edge_data :: "gworld \<Rightarrow> ptr \<Rightarrow> timespec \<times> u32" where
  "edge_data g e = (e_timestamp (the (edges g e)), e_linkWeight (the (edges g e)))"

definition out_edges :: "gworld \<Rightarrow> graph \<Rightarrow> bytes \<Rightarrow> (timespec \<times> u32) option" where
  "out_edges g x k = (case HASH_FIND (nbrs x) k of Some (Some e) \<Rightarrow> Some (edge_data g e) | _ \<Rightarrow> None)"

definition adj :: "gworld \<Rightarrow> bytes \<Rightarrow> (bytes \<Rightarrow> (timespec \<times> u32) option) option" where
  "adj g k = (case HASH_FIND (network g) k of Some (Some v) \<Rightarrow> Some (out_edges g (the (vertices g v))) | _ \<Rightarrow> None)"

text \<open>The map of vertices.\<close>

definition vmap :: "gworld \<Rightarrow> ptr list \<Rightarrow> bytes \<Rightarrow> ptr option" where
  "vmap g vs = key_map (key_at (network g)) vs"

lemma wf_graphD:
  assumes "wf_graph g vs es"
  shows "uh_rep (network g) vs" and "inj_on (key_at (network g)) (set vs)" and "p \<ge> gbrk g \<Longrightarrow> vertices g p = None \<and> edges g p = None"
    and "v \<in> set vs \<Longrightarrow> \<exists>x. vertices g v = Some x \<and> key_at (network g) v = tapMAC (g_ls x) \<and> wf_vertex g x (es v)"
    and "v \<in> set vs \<Longrightarrow> u \<in> set vs \<Longrightarrow> v \<noteq> u \<Longrightarrow> set (es v) \<inter> set (es u) = {}"
    and "find_vertex k g = Ret (vmap g vs k) g"
  using assms uh.lookup_map [of "network g" vs k] by (auto simp: wf_graph_def find_vertex_def vmap_def)

lemma wf_vertexD:
  assumes "wf_vertex g x el"
  shows "uh_rep (nbrs x) el" and "inj_on (key_at (nbrs x)) (set el)" and "HASH_FIND (nbrs x) k = Some (key_map (key_at (nbrs x)) el k)"
    and "e \<in> set el \<Longrightarrow> \<exists>y n. edges g e = Some y \<and> vertices g (e_node y) = Some n \<and> key_at (nbrs x) e = tapMAC (g_ls n)"
  using assms uh.lookup_map [of "nbrs x" el k] by (auto simp: wf_vertex_def)

lemma vmap_SomeD:
  assumes "wf_graph g vs es" and "vmap g vs k = Some v"
  shows "v \<in> set vs" and "\<exists>x. vertices g v = Some x \<and> tapMAC (g_ls x) = k \<and> wf_vertex g x (es v)"
proof -
  show v: "v \<in> set vs" using key_map_Some assms(2) by (auto simp: vmap_def)
  have "key_at (network g) v = k" using key_map_Some assms(2) by (auto simp: vmap_def)
  then show "\<exists>x. vertices g v = Some x \<and> tapMAC (g_ls x) = k \<and> wf_vertex g x (es v)" using wf_graphD(4) [OF assms(1) v] by auto
qed

lemma adj_vmap:
  assumes "wf_graph g vs es"
  shows "adj g k = map_option (\<lambda>v. out_edges g (the (vertices g v))) (vmap g vs k)"
  using uh.lookup_map [OF wf_graphD(1,2) [OF assms], of k] by (simp add: adj_def vmap_def split: option.splits)

lemma out_edges_map:
  assumes "wf_vertex g x el"
  shows "out_edges g x k = map_option (edge_data g) (key_map (key_at (nbrs x)) el k)"
  by (simp add: out_edges_def wf_vertexD(3) [OF assms] split: option.splits)

text \<open>Two graphs with the same vertices whose edges are found alike.\<close>

lemma adj_cong:
  assumes "wf_graph g vs es" and "wf_graph g' vs es'" and "vmap g' vs = vmap g vs"
    and "\<And>v. v \<in> set vs \<Longrightarrow> out_edges g' (the (vertices g' v)) = out_edges g (the (vertices g v))"
  shows "adj g' = adj g"
proof
  fix k
  show "adj g' k = adj g k"
    unfolding adj_vmap [OF assms(1)] adj_vmap [OF assms(2)] assms(3)
    using vmap_SomeD(1) [OF assms(1)] assms(4) by (cases "vmap g vs k") auto
qed

text \<open>What every step keeps: vertices stay allocated with their address, listed edges keep their targets.\<close>

definition extends :: "gworld \<Rightarrow> gworld \<Rightarrow> bool" where
  "extends g g' \<longleftrightarrow> (\<forall>p n. vertices g p = Some n \<longrightarrow> (\<exists>n'. vertices g' p = Some n' \<and> tapMAC (g_ls n') = tapMAC (g_ls n)))"

lemma wf_vertex_mono:
  assumes "wf_vertex g x el" and "extends g g'" and "\<And>e y. e \<in> set el \<Longrightarrow> edges g e = Some y \<Longrightarrow> \<exists>y'. edges g' e = Some y' \<and> e_node y' = e_node y"
    and "uh_rep (nbrs x') el" and "\<And>e. e \<in> set el \<Longrightarrow> key_at (nbrs x') e = key_at (nbrs x) e"
  shows "wf_vertex g' x' el"
proof -
  have "\<exists>y n. edges g' e = Some y \<and> vertices g' (e_node y) = Some n \<and> key_at (nbrs x') e = tapMAC (g_ls n)" if e: "e \<in> set el" for e
  proof -
    obtain y n where y: "edges g e = Some y" "vertices g (e_node y) = Some n" "key_at (nbrs x) e = tapMAC (g_ls n)"
      using wf_vertexD(4) [OF assms(1) e] by blast
    obtain y' where "edges g' e = Some y'" "e_node y' = e_node y" using assms(3) [OF e y(1)] by blast
    moreover obtain n' where "vertices g' (e_node y) = Some n'" "tapMAC (g_ls n') = tapMAC (g_ls n)"
      using assms(2) y(2) by (auto simp: extends_def)
    ultimately show ?thesis using assms(5) [OF e] y(3) by auto
  qed
  moreover have "inj_on (key_at (nbrs x')) (set el)"
    using wf_vertexD(2) [OF assms(1)] assms(5) by (auto simp: inj_on_def)
  ultimately show ?thesis using assms(4) by (simp add: wf_vertex_def)
qed

lemma key_map_cong: "(\<And>p. p \<in> set xs \<Longrightarrow> f p = f' p) \<Longrightarrow> key_map f xs = key_map f' xs"
  by (simp add: key_map_def cong: map_cong)

lemma wf_graph_mono:
  assumes wf: "wf_graph g vs es" and ext: "extends g g'"
    and ed: "\<And>e y v. v \<in> set vs \<Longrightarrow> e \<in> set (es v) \<Longrightarrow> edges g e = Some y \<Longrightarrow> \<exists>y'. edges g' e = Some y' \<and> e_node y' = e_node y"
    and net: "uh_rep (network g') vs" "\<And>v. v \<in> set vs \<Longrightarrow> key_at (network g') v = key_at (network g) v"
    and fresh: "\<And>p. p \<ge> gbrk g' \<Longrightarrow> vertices g' p = None \<and> edges g' p = None"
    and vx: "\<And>v x. v \<in> set vs \<Longrightarrow> vertices g v = Some x \<Longrightarrow>
      \<exists>x'. vertices g' v = Some x' \<and> uh_rep (nbrs x') (es v) \<and> (\<forall>e\<in>set (es v). key_at (nbrs x') e = key_at (nbrs x) e)"
  shows "wf_graph g' vs es" and "vmap g' vs = vmap g vs"
    and "(\<And>v e. v \<in> set vs \<Longrightarrow> e \<in> set (es v) \<Longrightarrow> edge_data g' e = edge_data g e) \<Longrightarrow> adj g' = adj g"
proof -
  have vx': "\<exists>x x'. vertices g v = Some x \<and> vertices g' v = Some x' \<and> tapMAC (g_ls x') = tapMAC (g_ls x) \<and> wf_vertex g x (es v) \<and> wf_vertex g' x' (es v) \<and>
      (\<forall>e\<in>set (es v). key_at (nbrs x') e = key_at (nbrs x) e)" if v: "v \<in> set vs" for v
  proof -
    obtain x where x: "vertices g v = Some x" "wf_vertex g x (es v)" using wf_graphD(4) [OF wf v] by blast
    obtain x' where x': "vertices g' v = Some x'" "uh_rep (nbrs x') (es v)" "\<forall>e\<in>set (es v). key_at (nbrs x') e = key_at (nbrs x) e"
      using vx [OF v x(1)] by blast
    have "wf_vertex g' x' (es v)" by (rule wf_vertex_mono [OF x(2) ext ed [OF v] x'(2)]) (use x'(3) in auto)
    moreover have "tapMAC (g_ls x') = tapMAC (g_ls x)" using ext x(1) x'(1) unfolding extends_def by fastforce
    ultimately show ?thesis using x x' by blast
  qed
  have "\<exists>x. vertices g' v = Some x \<and> key_at (network g') v = tapMAC (g_ls x) \<and> wf_vertex g' x (es v)" if v: "v \<in> set vs" for v
    using vx' [OF v] wf_graphD(4) [OF wf v] net(2) [OF v] by auto
  moreover have "inj_on (key_at (network g')) (set vs)" using wf_graphD(2) [OF wf] net(2) by (auto simp: inj_on_def)
  ultimately show wf': "wf_graph g' vs es" using net(1) fresh wf_graphD(5) [OF wf] by (auto simp: wf_graph_def)
  show vm: "vmap g' vs = vmap g vs" unfolding vmap_def by (rule key_map_cong) (rule net(2))
  assume dt: "\<And>v e. v \<in> set vs \<Longrightarrow> e \<in> set (es v) \<Longrightarrow> edge_data g' e = edge_data g e"
  show "adj g' = adj g"
  proof (rule adj_cong [OF wf wf' vm])
    fix v assume v: "v \<in> set vs"
    obtain x x' where x: "vertices g v = Some x" "vertices g' v = Some x'" "wf_vertex g x (es v)" "wf_vertex g' x' (es v)"
        "\<forall>e\<in>set (es v). key_at (nbrs x') e = key_at (nbrs x) e" using vx' [OF v] by blast
    have km: "key_map (key_at (nbrs x')) (es v) = key_map (key_at (nbrs x)) (es v)" by (rule key_map_cong) (use x(5) in auto)
    show "out_edges g' (the (vertices g' v)) = out_edges g (the (vertices g v))"
    proof
      fix k
      have "e \<in> set (es v)" if "key_map (key_at (nbrs x)) (es v) k = Some e" for e using key_map_Some [OF that] by simp
      then show "out_edges g' (the (vertices g' v)) k = out_edges g (the (vertices g v)) k"
        using dt [OF v] by (cases "key_map (key_at (nbrs x)) (es v) k") (auto simp: x(1,2) out_edges_map [OF x(3)] out_edges_map [OF x(4)] km)
    qed
  qed
qed

lemma fresh_edge: "wf_graph g vs es \<Longrightarrow> v \<in> set vs \<Longrightarrow> e \<in> set (es v) \<Longrightarrow> e < gbrk g"
  using wf_graphD(3,4) wf_vertexD(4) by (metis leI option.distinct(1))

lemma fresh_vertex: "wf_graph g vs es \<Longrightarrow> vertices g v = Some x \<Longrightarrow> v < gbrk g"
  using wf_graphD(3) by (metis leI option.distinct(1))

section \<open>The steps\<close>

lemma new_vertex_ok:
  fixes raw :: graph
  assumes wf: "wf_graph g vs es"
  defines "g' \<equiv> g\<lparr>gbrk := gbrk g + 1, vertices := (vertices g)(gbrk g \<mapsto> raw), network := (network g)\<lparr>hh := (hh (network g))(gbrk g \<mapsto> zero_handle)\<rparr>\<rparr>"
  shows "new_vertex raw g = Ret (gbrk g) g'" and "wf_graph g' vs es" and "vmap g' vs = vmap g vs" and "adj g' = adj g" and "gbrk g \<notin> set vs"
    and "extends g g'"
proof -
  have none: "vertices g (gbrk g) = None" using wf_graphD(3) [OF wf] by blast
  then show new: "gbrk g \<notin> set vs" using wf_graphD(4) [OF wf] by fastforce
  show "new_vertex raw g = Ret (gbrk g) g'" by (simp add: new_vertex_def g'_def)
  show ext: "extends g g'" using none by (auto simp: extends_def g'_def)
  have net: "uh_rep (network g') vs" unfolding g'_def using new by (auto intro: uh_rep_frame [OF wf_graphD(1) [OF wf]])
  have key: "key_at (network g') v = key_at (network g) v" if "v \<in> set vs" for v using that new by (auto simp: key_at_def g'_def)
  have fr: "vertices g' p = None \<and> edges g' p = None" if "p \<ge> gbrk g'" for p using that wf_graphD(3) [OF wf, of p] by (auto simp: g'_def)
  have vx: "\<exists>x'. vertices g' v = Some x' \<and> uh_rep (nbrs x') (es v) \<and> (\<forall>e\<in>set (es v). key_at (nbrs x') e = key_at (nbrs x) e)"
    if v: "v \<in> set vs" "vertices g v = Some x" for v x
    using that new wf_graphD(4) [OF wf v(1)] by (auto simp: g'_def wf_vertex_def)
  have ed: "\<exists>y'. edges g' e = Some y' \<and> e_node y' = e_node y" if "edges g e = Some y" for e y using that by (simp add: g'_def)
  note m = wf_graph_mono [OF wf ext ed net key fr vx]
  show "wf_graph g' vs es" "vmap g' vs = vmap g vs" by (rule m; assumption)+
  show "adj g' = adj g" by (rule m; (assumption | simp add: edge_data_def g'_def))
qed

lemma new_edge_ok:
  assumes wf: "wf_graph g vs es" and x: "vertices g v = Some x"
  defines "e \<equiv> gbrk g"
  defines "x1 \<equiv> x\<lparr>nbrs := (nbrs x)\<lparr>hh := (hh (nbrs x))(e \<mapsto> zero_handle)\<rparr>\<rparr>"
  defines "g' \<equiv> g\<lparr>gbrk := e + 1, edges := (edges g)(e \<mapsto> \<lparr>e_node = 0, e_timestamp = zero_ts, e_linkWeight = 0\<rparr>), vertices := (vertices g)(v \<mapsto> x1)\<rparr>"
  shows "new_edge v g = Ret e g'" and "wf_graph g' vs es" and "vmap g' vs = vmap g vs" and "adj g' = adj g" and "u \<in> set vs \<Longrightarrow> e \<notin> set (es u)"
    and "extends g g'"
proof -
  show un: "e \<notin> set (es u)" if "u \<in> set vs" for u using fresh_edge [OF wf that, of e] by (auto simp: e_def)
  show "new_edge v g = Ret e g'" using x by (simp add: new_edge_def set_vertex_def Let_def g'_def e_def x1_def)
  show ext: "extends g g'" using x by (auto simp: extends_def g'_def x1_def)
  have net: "uh_rep (network g') vs" "\<And>v. v \<in> set vs \<Longrightarrow> key_at (network g') v = key_at (network g) v" using wf_graphD(1) [OF wf] by (simp_all add: g'_def)
  have fr: "vertices g' p = None \<and> edges g' p = None" if "p \<ge> gbrk g'" for p
    using that wf_graphD(3) [OF wf, of p] fresh_vertex [OF wf x] by (auto simp: g'_def e_def)
  have vx: "\<exists>x'. vertices g' u = Some x' \<and> uh_rep (nbrs x') (es u) \<and> (\<forall>e\<in>set (es u). key_at (nbrs x') e = key_at (nbrs z) e)"
    if u: "u \<in> set vs" "vertices g u = Some z" for u z
  proof (cases "u = v")
    case True
    then have z: "z = x" "uh_rep (nbrs x) (es v)" using u x wf_graphD(4) [OF wf u(1)] by (auto simp: wf_vertex_def)
    have "e \<notin> set (es v)" using un [OF u(1)] True by simp
    then have "uh_rep (nbrs x1) (es v)" by (auto simp: x1_def intro: uh_rep_frame [OF z(2)])
    moreover have "\<forall>e\<in>set (es v). key_at (nbrs x1) e = key_at (nbrs x) e" using un u(1) True by (auto simp: x1_def key_at_def)
    ultimately show ?thesis using True z by (simp add: g'_def)
  next
    case False
    then show ?thesis using u wf_graphD(4) [OF wf u(1)] by (auto simp: g'_def wf_vertex_def)
  qed
  have ed: "\<exists>y'. edges g' d = Some y' \<and> e_node y' = e_node y" if "u \<in> set vs" "d \<in> set (es u)" "edges g d = Some y" for u d y
    using that un by (auto simp: g'_def)
  note m = wf_graph_mono [OF wf ext ed net fr vx]
  show "wf_graph g' vs es" "vmap g' vs = vmap g vs" by (rule m; assumption)+
  have dt: "edge_data g' d = edge_data g d" if "u \<in> set vs" "d \<in> set (es u)" for u d using that un by (auto simp: edge_data_def g'_def)
  show "adj g' = adj g" by (rule m; (assumption | rule dt))
qed

text \<open>An edge object is changed, but not its target.\<close>

lemma wf_graph_edge:
  assumes wf: "wf_graph g vs es" and y: "edges g e = Some y" and "e_node y' = e_node y \<or> (\<forall>u\<in>set vs. e \<notin> set (es u))"
  defines "g' \<equiv> g\<lparr>edges := (edges g)(e \<mapsto> y')\<rparr>"
  shows "wf_graph g' vs es" and "vmap g' vs = vmap g vs" and "(\<And>u. u \<in> set vs \<Longrightarrow> e \<notin> set (es u)) \<Longrightarrow> adj g' = adj g"
proof -
  have ext: "extends g g'" by (simp add: extends_def g'_def)
  have net: "uh_rep (network g') vs" "\<And>v. v \<in> set vs \<Longrightarrow> key_at (network g') v = key_at (network g) v" using wf_graphD(1) [OF wf] by (simp_all add: g'_def)
  have "e < gbrk g" using wf_graphD(3) [OF wf, of e] y by (cases "e < gbrk g") auto
  then have fr: "vertices g' p = None \<and> edges g' p = None" if "p \<ge> gbrk g'" for p using that wf_graphD(3) [OF wf, of p] by (auto simp: g'_def)
  have vx: "\<exists>x'. vertices g' u = Some x' \<and> uh_rep (nbrs x') (es u) \<and> (\<forall>e\<in>set (es u). key_at (nbrs x') e = key_at (nbrs z) e)"
    if u: "u \<in> set vs" "vertices g u = Some z" for u z
    using u wf_graphD(4) [OF wf u(1)] by (auto simp: g'_def wf_vertex_def)
  have ed: "\<exists>y'. edges g' d = Some y' \<and> e_node y' = e_node z" if "u \<in> set vs" "d \<in> set (es u)" "edges g d = Some z" for u d z
    using that assms(3) y by (auto simp: g'_def)
  note m = wf_graph_mono [OF wf ext ed net fr vx]
  show "wf_graph g' vs es" "vmap g' vs = vmap g vs" by (rule m; assumption)+
  assume un: "\<And>u. u \<in> set vs \<Longrightarrow> e \<notin> set (es u)"
  have dt: "edge_data g' d = edge_data g d" if "u \<in> set vs" "d \<in> set (es u)" for u d using that un by (auto simp: edge_data_def g'_def)
  show "adj g' = adj g" by (rule m; (assumption | rule dt))
qed

text \<open>A vertex of the network gets new neighbours.\<close>

lemma wf_graph_put:
  assumes wf: "wf_graph g vs es" and v: "v \<in> set vs" "vertices g v = Some x" and mac: "tapMAC (g_ls x') = tapMAC (g_ls x)"
    and el: "wf_vertex (g\<lparr>vertices := (vertices g)(v \<mapsto> x')\<rparr>) x' el" and dj: "\<And>u. u \<in> set vs \<Longrightarrow> u \<noteq> v \<Longrightarrow> set el \<inter> set (es u) = {}"
  defines "g' \<equiv> g\<lparr>vertices := (vertices g)(v \<mapsto> x')\<rparr>"
  shows "wf_graph g' vs (es(v := el))" and "vmap g' vs = vmap g vs" and "adj g' = (adj g)(tapMAC (g_ls x) \<mapsto> out_edges g' x')"
proof -
  have ext: "extends g g'" using v mac by (auto simp: extends_def g'_def)
  have vx: "\<exists>z. vertices g' u = Some z \<and> key_at (network g') u = tapMAC (g_ls z) \<and> wf_vertex g' z ((es(v := el)) u)" if u: "u \<in> set vs" for u
  proof (cases "u = v")
    case True
    then show ?thesis using wf_graphD(4) [OF wf u] v mac el by (auto simp: g'_def)
  next
    case False
    obtain z where z: "vertices g u = Some z" "key_at (network g) u = tapMAC (g_ls z)" "wf_vertex g z (es u)" using wf_graphD(4) [OF wf u] by blast
    have "wf_vertex g' z (es u)" by (rule wf_vertex_mono [OF z(3) ext]) (use z(3) in \<open>auto simp: g'_def wf_vertex_def\<close>)
    then show ?thesis using z False by (simp add: g'_def)
  qed
  have fr: "vertices g' p = None \<and> edges g' p = None" if "p \<ge> gbrk g'" for p
    using that wf_graphD(3) [OF wf, of p] fresh_vertex [OF wf v(2)] by (auto simp: g'_def)
  have dj': "set ((es(v := el)) u) \<inter> set ((es(v := el)) w) = {}" if "u \<in> set vs" "w \<in> set vs" "u \<noteq> w" for u w
    using that dj [of u] dj [of w] wf_graphD(5) [OF wf that] by auto
  show wf': "wf_graph g' vs (es(v := el))"
    using wf_graphD(1,2) [OF wf] vx fr dj' unfolding wf_graph_def by (auto simp: g'_def)
  show vm: "vmap g' vs = vmap g vs" by (simp add: vmap_def g'_def)
  have kv: "vmap g vs (tapMAC (g_ls x)) = Some v"
    using wf_graphD(4) [OF wf v(1)] v key_map_mem [OF wf_graphD(2) [OF wf] v(1)] by (auto simp: vmap_def)
  show "adj g' = (adj g)(tapMAC (g_ls x) \<mapsto> out_edges g' x')"
  proof
    fix k
    show "adj g' k = ((adj g)(tapMAC (g_ls x) \<mapsto> out_edges g' x')) k"
    proof (cases "k = tapMAC (g_ls x)")
      case True
      then show ?thesis using kv by (simp add: adj_vmap [OF wf'] vm) (simp add: g'_def)
    next
      case False
      have "u \<noteq> v" if "vmap g vs k = Some u" for u using vmap_SomeD(2) [OF wf that] v(2) False by auto
      moreover have "out_edges g' = out_edges g" by (auto simp: fun_eq_iff out_edges_def edge_data_def g'_def split: option.splits)
      ultimately show ?thesis using False unfolding adj_vmap [OF wf'] adj_vmap [OF wf] vm fun_upd_apply
        by (cases "vmap g vs k") (auto simp: g'_def)
    qed
  qed
qed

lemma add_edge_ok:
  assumes wf: "wf_graph g vs es" and v: "v \<in> set vs" "vertices g v = Some x" and e: "edges g e = Some y" "vertices g (e_node y) = Some n"
    and un: "\<And>u. u \<in> set vs \<Longrightarrow> e \<notin> set (es u)" and al: "e \<in> dom (hh (nbrs x))" and new: "out_edges g x (tapMAC (g_ls n)) = None"
  shows "\<exists>t. add_edge v e g = Ret () (g\<lparr>vertices := (vertices g)(v \<mapsto> x\<lparr>nbrs := t\<rparr>)\<rparr>) \<and>
    wf_graph (g\<lparr>vertices := (vertices g)(v \<mapsto> x\<lparr>nbrs := t\<rparr>)\<rparr>) vs (es(v := es v @ [e])) \<and>
    adj (g\<lparr>vertices := (vertices g)(v \<mapsto> x\<lparr>nbrs := t\<rparr>)\<rparr>) = (adj g)(tapMAC (g_ls x) \<mapsto> (out_edges g x)(tapMAC (g_ls n) \<mapsto> edge_data g e))"
proof -
  have wx: "wf_vertex g x (es v)" using wf_graphD(4) [OF wf v(1)] v(2) by auto
  let ?k = "tapMAC (g_ls n)"
  have "?k \<notin> key_at (nbrs x) ` set (es v)" using new out_edges_map [OF wx] by (simp add: key_map_None)
  then obtain t where t: "HASH_ADD (nbrs x) e ?k = Some t" "uh_rep t (es v @ [e])" "inj_on (key_at t) (set (es v @ [e]))"
      "key_map (key_at t) (es v @ [e]) = (key_map (key_at (nbrs x)) (es v))(?k \<mapsto> e)" "key_at t = (key_at (nbrs x))(e := ?k)"
    using uh.add_map [OF wf_vertexD(1,2) [OF wx] _ un [OF v(1)] al] by blast
  let ?x = "x\<lparr>nbrs := t\<rparr>" and ?g = "g\<lparr>vertices := (vertices g)(v \<mapsto> x\<lparr>nbrs := t\<rparr>)\<rparr>"
  have ext: "extends g ?g" using v(2) by (auto simp: extends_def)
  have "\<exists>y n. edges ?g d = Some y \<and> vertices ?g (e_node y) = Some n \<and> key_at t d = tapMAC (g_ls n)" if d: "d \<in> set (es v @ [e])" for d
  proof -
    obtain z m where z: "edges g d = Some z" "vertices g (e_node z) = Some m" "key_at t d = tapMAC (g_ls m)"
      using wf_vertexD(4) [OF wx, of d] e t(5) d un [OF v(1)] by (cases "d = e") auto
    obtain m' where "vertices ?g (e_node z) = Some m'" "tapMAC (g_ls m') = tapMAC (g_ls m)" using ext z(2) unfolding extends_def by blast
    then show ?thesis using z by auto
  qed
  then have wx': "wf_vertex ?g ?x (es v @ [e])" using t(2,3) by (simp add: wf_vertex_def)
  have dj: "set (es v @ [e]) \<inter> set (es u) = {}" if "u \<in> set vs" "u \<noteq> v" for u using wf_graphD(5) [OF wf v(1) that(1)] that un [OF that(1)] by auto
  note put = wf_graph_put [OF wf v _ wx' dj]
  have "add_edge v e g = Ret () ?g" using e v(2) t(1) by (simp add: add_edge_def get_vertex_def set_vertex_def)
  moreover have "out_edges ?g ?x = (out_edges g x)(?k \<mapsto> edge_data g e)"
  proof -
    have "edge_data ?g = edge_data g" by (simp add: edge_data_def fun_eq_iff)
    then show ?thesis by (intro HOL.ext) (simp add: out_edges_map [OF wx'] out_edges_map [OF wx] t(4))
  qed
  ultimately show ?thesis using put(1,3) by (intro exI [of _ t]) simp
qed

lemma add_vertex_ok:
  assumes wf: "wf_graph g vs es" and v: "vertices g v = Some x" "v \<notin> set vs" "v \<in> dom (hh (network g))"
    and hd: "head (nbrs x) = None" and new: "vmap g vs (tapMAC (g_ls x)) = None"
  shows "\<exists>t. add_vertex v g = Ret () (g\<lparr>network := t\<rparr>) \<and> wf_graph (g\<lparr>network := t\<rparr>) (vs @ [v]) (es(v := [])) \<and>
    adj (g\<lparr>network := t\<rparr>) = (adj g)(tapMAC (g_ls x) \<mapsto> Map.empty)"
proof -
  let ?k = "tapMAC (g_ls x)"
  have "?k \<notin> key_at (network g) ` set vs" using new by (simp add: vmap_def key_map_None)
  then obtain t where t: "HASH_ADD (network g) v ?k = Some t" "uh_rep t (vs @ [v])" "inj_on (key_at t) (set (vs @ [v]))"
      "key_map (key_at t) (vs @ [v]) = (key_map (key_at (network g)) vs)(?k \<mapsto> v)" "key_at t = (key_at (network g))(v := ?k)"
    using uh.add_map [OF wf_graphD(1,2) [OF wf] _ v(2,3)] by blast
  let ?g = "g\<lparr>network := t\<rparr>"
  have wfv: "wf_vertex ?g z el \<longleftrightarrow> wf_vertex g z el" for z el by (simp add: wf_vertex_def)
  have x: "wf_vertex ?g x []" using hd by (simp add: wf_vertex_def uh_rep_empty)
  have vx: "\<exists>z. vertices ?g u = Some z \<and> key_at (network ?g) u = tapMAC (g_ls z) \<and> wf_vertex ?g z ((es(v := [])) u)" if u: "u \<in> set (vs @ [v])" for u
    using wf_graphD(4) [OF wf, of u] u v x t(5) by (cases "u = v") (auto simp: wfv)
  have dj: "set ((es(v := [])) u) \<inter> set ((es(v := [])) w) = {}" if "u \<in> set (vs @ [v])" "w \<in> set (vs @ [v])" "u \<noteq> w" for u w
    using that wf_graphD(5) [OF wf, of u w] by auto
  have wf': "wf_graph ?g (vs @ [v]) (es(v := []))"
    unfolding wf_graph_def using t(2,3) wf_graphD(3) [OF wf] vx dj by auto
  have oe: "out_edges ?g = out_edges g" by (auto simp: fun_eq_iff out_edges_def edge_data_def split: option.splits)
  have em: "out_edges g x = Map.empty" using out_edges_map [OF x [unfolded wfv]] by (simp add: fun_eq_iff key_map_def)
  have "adj ?g = (adj g)(?k \<mapsto> Map.empty)"
    using v(1) t(4) by (auto simp: fun_eq_iff adj_vmap [OF wf'] adj_vmap [OF wf] vmap_def oe em)
  then show ?thesis using t(1) wf' v(1) by (intro exI [of _ t]) (simp add: add_vertex_def get_vertex_def)
qed

text \<open>The data of a listed edge is changed.\<close>

lemma stamp_edge_ok:
  assumes wf: "wf_graph g vs es" and v: "v \<in> set vs" "vertices g v = Some x" and e: "e \<in> set (es v)" "edges g e = Some y" and "e_node y' = e_node y"
  defines "g' \<equiv> g\<lparr>edges := (edges g)(e \<mapsto> y')\<rparr>"
  shows "wf_graph g' vs es" and "adj g' = (adj g)(tapMAC (g_ls x) \<mapsto> (out_edges g x)(key_at (nbrs x) e \<mapsto> (e_timestamp y', e_linkWeight y')))"
proof -
  note wg = wf_graph_edge [OF wf e(2), of y', folded g'_def]
  show wf': "wf_graph g' vs es" using wg(1) assms(6) by blast
  have vm: "vmap g' vs = vmap g vs" using wg(2) assms(6) by blast
  have kv: "vmap g vs (tapMAC (g_ls x)) = Some v"
    using wf_graphD(4) [OF wf v(1)] v key_map_mem [OF wf_graphD(2) [OF wf] v(1)] by (auto simp: vmap_def)
  have dt: "edge_data g' d = (if d = e then (e_timestamp y', e_linkWeight y') else edge_data g d)" for d by (simp add: edge_data_def g'_def)
  have "adj g' k = ((adj g)(tapMAC (g_ls x) \<mapsto> (out_edges g x)(key_at (nbrs x) e \<mapsto> (e_timestamp y', e_linkWeight y')))) k" for k
  proof (cases "vmap g vs k")
    case None
    then show ?thesis using kv by (auto simp: adj_vmap [OF wf'] adj_vmap [OF wf] vm)
  next
    case (Some u)
    obtain z where z: "u \<in> set vs" "vertices g u = Some z" "tapMAC (g_ls z) = k" "wf_vertex g z (es u)" using vmap_SomeD [OF wf Some] by blast
    have wz: "wf_vertex g' z (es u)" using wf_graphD(4) [OF wf' z(1)] z(2) by (auto simp: g'_def)
    have "out_edges g' z = (if u = v then (out_edges g z)(key_at (nbrs z) e \<mapsto> (e_timestamp y', e_linkWeight y')) else out_edges g z)"
    proof
      fix j
      have in_u: "d \<in> set (es u) \<and> key_at (nbrs z) d = j" if "key_map (key_at (nbrs z)) (es u) j = Some d" for d using key_map_Some [OF that] .
      have "e \<notin> set (es u)" if "u \<noteq> v" using wf_graphD(5) [OF wf z(1) v(1) that] e(1) by auto
      moreover have "key_map (key_at (nbrs z)) (es u) (key_at (nbrs z) e) = Some e" if "u = v"
        using key_map_mem [OF wf_vertexD(2) [OF z(4)]] e(1) that by simp
      ultimately show "out_edges g' z j = (if u = v then (out_edges g z)(key_at (nbrs z) e \<mapsto> (e_timestamp y', e_linkWeight y')) else out_edges g z) j"
        using in_u by (cases "key_map (key_at (nbrs z)) (es u) j") (auto simp: out_edges_map [OF z(4)] out_edges_map [OF wz] dt)
    qed
    moreover have "u = v \<longleftrightarrow> k = tapMAC (g_ls x)" using kv Some z v(2) by auto
    moreover have "adj g' k = Some (out_edges g' z)" "adj g k = Some (out_edges g z)"
      using Some z(2) by (simp_all add: adj_vmap [OF wf'] adj_vmap [OF wf] vm) (simp add: g'_def)
    moreover have "z = x" if "u = v" using that z(2) v(2) by simp
    ultimately show ?thesis by (cases "u = v") simp_all
  qed
  then show "adj g' = (adj g)(tapMAC (g_ls x) \<mapsto> (out_edges g x)(key_at (nbrs x) e \<mapsto> (e_timestamp y', e_linkWeight y')))" by (simp add: fun_eq_iff)
qed

text \<open>
  The target of the edge \<open>e\<close> is found or made and gets the link state \<open>ls\<close>; if \<open>W\<close>, its neighbours are dropped.
\<close>

lemma target_ok:
  assumes wf: "wf_graph g vs es" and e: "edges g e = Some y" "\<And>u. u \<in> set vs \<Longrightarrow> e \<notin> set (es u)"
    and f: "\<And>x. g_ls (f x) = ls" "\<And>x. nbrs (f x) = (if W then (nbrs x)\<lparr>head := None\<rparr> else nbrs x)"
  shows "\<exists>n g' es'. (\<forall>K :: ptr \<Rightarrow> gworld \<Rightarrow> (gworld, ptr) run. bind_run (target raw ls g) (\<lambda>n g. bind_run (set_edge e (\<lambda>y. y\<lparr>e_node := n\<rparr>) g) (\<lambda>_ g.
      bind_run (set_vertex n f g) (\<lambda>_ g. K n g))) = K n g') \<and> wf_graph g' vs es' \<and> vmap g' vs = vmap g vs \<and> extends g g' \<and>
    adj g' = (if W \<and> adj g (tapMAC ls) \<noteq> None then (adj g)(tapMAC ls \<mapsto> Map.empty) else adj g) \<and>
    edges g' = (edges g)(e \<mapsto> y\<lparr>e_node := n\<rparr>) \<and> (\<exists>x. vertices g' n = Some x \<and> tapMAC (g_ls x) = tapMAC ls) \<and>
    (\<forall>u. set (es' u) \<subseteq> set (es u)) \<and> dom (hh (network g)) \<subseteq> dom (hh (network g')) \<and> glock g' = glock g \<and>
    (\<forall>u x. vertices g u = Some x \<longrightarrow> u \<in> set vs \<and> W \<or> (\<exists>x'. vertices g' u = Some x' \<and> nbrs x' = nbrs x))"
proof (cases "vmap g vs (tapMAC ls)")
  case None
  let ?n = "gbrk g" and ?y = "y\<lparr>e_node := gbrk g\<rparr>"
  let ?g1 = "g\<lparr>gbrk := gbrk g + 1, vertices := (vertices g)(gbrk g \<mapsto> f raw), network := (network g)\<lparr>hh := (hh (network g))(gbrk g \<mapsto> zero_handle)\<rparr>\<rparr>"
  let ?g = "?g1\<lparr>edges := (edges ?g1)(e \<mapsto> ?y)\<rparr>"
  note nv = new_vertex_ok(2-4,6) [OF wf, where raw = "f raw"]
  have y1: "edges ?g1 e = Some y" using e(1) by simp
  note ne = wf_graph_edge [OF nv(1) y1, of ?y]
  have none: "vertices g (gbrk g) = None" using wf_graphD(3) [OF wf] by blast
  have run: "bind_run (target raw ls g) (\<lambda>n g. bind_run (set_edge e (\<lambda>y. y\<lparr>e_node := n\<rparr>) g) (\<lambda>_ g.
      bind_run (set_vertex n f g) (\<lambda>_ g. K n g))) = K ?n ?g" for K :: "ptr \<Rightarrow> gworld \<Rightarrow> (gworld, ptr) run"
    using wf_graphD(6) [OF wf, of "tapMAC ls"] None e(1)
    by (simp add: target_def new_vertex_def set_edge_def set_vertex_def) (rule arg_cong [where f = "K (gbrk g)"], simp)
  have "adj g (tapMAC ls) = None" using None by (simp add: adj_vmap [OF wf])
  moreover have "extends g ?g" using nv(4) by (simp add: extends_def)
  moreover have "\<forall>u x. vertices g u = Some x \<longrightarrow> (\<exists>x'. vertices ?g u = Some x' \<and> nbrs x' = nbrs x)" using none by auto
  moreover have "dom (hh (network g)) \<subseteq> dom (hh (network ?g))" by auto
  moreover have "wf_graph ?g vs es" "vmap ?g vs = vmap g vs" "adj ?g = adj g" using ne e(2) nv(2,3) by auto
  moreover have "\<exists>x. vertices ?g ?n = Some x \<and> tapMAC (g_ls x) = tapMAC ls" using f(1) by simp
  moreover have "edges ?g = (edges g)(e \<mapsto> ?y)" "glock ?g = glock g" by simp_all
  ultimately show ?thesis using run by (intro exI [of _ ?n] exI [of _ ?g] exI [of _ es]) simp
next
  case (Some n)
  obtain x where x: "n \<in> set vs" "vertices g n = Some x" "tapMAC (g_ls x) = tapMAC ls" "wf_vertex g x (es n)" using vmap_SomeD [OF wf Some] by blast
  let ?y = "y\<lparr>e_node := n\<rparr>" and ?el = "if W then [] else es n"
  let ?g1 = "g\<lparr>edges := (edges g)(e \<mapsto> ?y)\<rparr>"
  let ?g = "?g1\<lparr>vertices := (vertices ?g1)(n \<mapsto> f x)\<rparr>"
  note ne = wf_graph_edge [OF wf e(1), of ?y]
  have wf1: "wf_graph ?g1 vs es" "vmap ?g1 vs = vmap g vs" "adj ?g1 = adj g" using ne e(2) by auto
  have x1: "vertices ?g1 n = Some x" "tapMAC (g_ls (f x)) = tapMAC (g_ls x)" using x f(1) by simp_all
  have wx1: "wf_vertex ?g1 x (es n)" using wf_graphD(4) [OF wf1(1) x(1)] x1(1) by auto
  have ext: "extends ?g1 ?g" "extends g ?g" using x x1(2) by (auto simp: extends_def)
  have wx: "wf_vertex ?g (f x) ?el"
  proof (cases W)
    case True
    then show ?thesis using f(2) by (simp add: wf_vertex_def uh_rep_empty)
  next
    case False
    then show ?thesis using wf_vertex_mono [OF wx1 ext(1), of "f x"] wx1 f(2) by (simp add: wf_vertex_def)
  qed
  have dj: "set ?el \<inter> set (es u) = {}" if "u \<in> set vs" "u \<noteq> n" for u using wf_graphD(5) [OF wf x(1) that(1)] that by auto
  note put = wf_graph_put [OF wf1(1) x(1) x1 wx dj]
  have run: "bind_run (target raw ls g) (\<lambda>n g. bind_run (set_edge e (\<lambda>y. y\<lparr>e_node := n\<rparr>) g) (\<lambda>_ g.
      bind_run (set_vertex n f g) (\<lambda>_ g. K n g))) = K n ?g" for K :: "ptr \<Rightarrow> gworld \<Rightarrow> (gworld, ptr) run"
    using wf_graphD(6) [OF wf, of "tapMAC ls"] Some e(1) x(2) by (simp add: target_def set_edge_def set_vertex_def)
  have some: "adj g (tapMAC ls) = Some (out_edges g x)" using Some x(2) by (simp add: adj_vmap [OF wf])
  have oe: "out_edges ?g (f x) = (if W then Map.empty else out_edges g x)"
  proof (cases W)
    case True
    then show ?thesis using f(2) by (simp add: fun_eq_iff out_edges_def HASH_FIND_def)
  next
    case False
    have "edge_data ?g d = edge_data g d" if "d \<in> set (es n)" for d using e(2) [OF x(1)] that by (auto simp: edge_data_def)
    then have "out_edges ?g (f x) k = out_edges g x k" for k
      using False f(2) wf_vertexD(3) [OF x(4), of k] key_map_Some [of "key_at (nbrs x)" "es n" k]
      by (auto simp: out_edges_def split: option.splits)
    then show ?thesis using False by (simp add: fun_eq_iff)
  qed
  have "adj ?g = (if W \<and> adj g (tapMAC ls) \<noteq> None then (adj g)(tapMAC ls \<mapsto> Map.empty) else adj g)"
    using put(3) wf1(3) x(3) oe some by (auto simp: fun_upd_idem)
  moreover have "\<forall>u z. vertices g u = Some z \<longrightarrow> u \<in> set vs \<and> W \<or> (\<exists>x'. vertices ?g u = Some x' \<and> nbrs x' = nbrs z)"
    using x f(2) by auto
  moreover have "\<exists>z. vertices ?g n = Some z \<and> tapMAC (g_ls z) = tapMAC ls" using f(1) by simp
  moreover have "\<forall>u. set ((es(n := ?el)) u) \<subseteq> set (es u)" by auto
  moreover have "edges ?g = (edges g)(e \<mapsto> ?y)" "glock ?g = glock g" "network ?g = network g" by simp_all
  moreover have "wf_graph ?g vs (es(n := ?el))" "vmap ?g vs = vmap g vs" using put(1,2) wf1(2) by auto
  ultimately show ?thesis using run ext(2) by (intro exI [of _ n] exI [of _ ?g] exI [of _ "es(n := ?el)"]) auto
qed

section \<open>What a record does\<close>

text \<open>The edge \<open>e\<close> stands for the record: it leads from the vertex under \<open>m1\<close> and is found under \<open>m2\<close>; the rest of the map is \<open>A\<close>.\<close>

definition recorded :: "bytes \<Rightarrow> bytes \<Rightarrow> (bytes \<Rightarrow> (bytes \<Rightarrow> (timespec \<times> u32) option) option) \<Rightarrow> rwlock \<Rightarrow> ptr \<Rightarrow> gworld \<Rightarrow> bool" where
  "recorded m1 m2 A l e g \<longleftrightarrow> (\<exists>vs es v x y. wf_graph g vs es \<and> v \<in> set vs \<and> vertices g v = Some x \<and> e \<in> set (es v) \<and> edges g e = Some y \<and>
     tapMAC (g_ls x) = m1 \<and> key_at (nbrs x) e = m2 \<and> glock g = l \<and> (\<exists>d N. adj g = A(m1 \<mapsto> N(m2 \<mapsto> d)) \<and> A(m1 \<mapsto> N) = A))"

lemma add_edge_recorded:
  assumes wf: "wf_graph g vs es" and v: "v \<in> set vs" "vertices g v = Some x" and e: "edges g e = Some y" "vertices g (e_node y) = Some n"
    and un: "\<And>u. u \<in> set vs \<Longrightarrow> e \<notin> set (es u)" and al: "e \<in> dom (hh (nbrs x))" and new: "out_edges g x (tapMAC (g_ls n)) = None"
  shows "\<exists>g'. add_edge v e g = Ret () g' \<and> recorded (tapMAC (g_ls x)) (tapMAC (g_ls n)) (adj g) (glock g) e g'"
proof -
  let ?k = "tapMAC (g_ls x)" and ?m = "tapMAC (g_ls n)"
  obtain t where t: "add_edge v e g = Ret () (g\<lparr>vertices := (vertices g)(v \<mapsto> x\<lparr>nbrs := t\<rparr>)\<rparr>)"
      "wf_graph (g\<lparr>vertices := (vertices g)(v \<mapsto> x\<lparr>nbrs := t\<rparr>)\<rparr>) vs (es(v := es v @ [e]))"
      "adj (g\<lparr>vertices := (vertices g)(v \<mapsto> x\<lparr>nbrs := t\<rparr>)\<rparr>) = (adj g)(?k \<mapsto> (out_edges g x)(?m \<mapsto> edge_data g e))"
    using add_edge_ok [OF assms] by blast
  let ?g = "g\<lparr>vertices := (vertices g)(v \<mapsto> x\<lparr>nbrs := t\<rparr>)\<rparr>"
  have "vmap g vs ?k = Some v"
    using wf_graphD(4) [OF wf v(1)] v key_map_mem [OF wf_graphD(2) [OF wf] v(1)] by (auto simp: vmap_def)
  then have N: "(adj g)(?k \<mapsto> out_edges g x) = adj g" using v(2) by (simp add: fun_upd_idem adj_vmap [OF wf])
  have wx: "wf_vertex ?g (x\<lparr>nbrs := t\<rparr>) (es v @ [e])" using wf_graphD(4) [OF t(2) v(1)] by simp
  obtain z m where "edges ?g e = Some z" "vertices ?g (e_node z) = Some m" "key_at t e = tapMAC (g_ls m)" using wf_vertexD(4) [OF wx, of e] by auto
  then have "key_at t e = ?m" using e v(2) by (auto split: if_splits)
  moreover have "\<exists>d N. adj ?g = (adj g)(?k \<mapsto> N(?m \<mapsto> d)) \<and> (adj g)(?k \<mapsto> N) = adj g" using t(3) N by blast
  ultimately have "recorded ?k ?m (adj g) (glock g) e ?g"
    unfolding recorded_def using t(2) v e(1)
    by (intro exI [of _ vs] exI [of _ "es(v := es v @ [e])"] exI [of _ v] exI [of _ "x\<lparr>nbrs := t\<rparr>"] exI [of _ y] conjI) simp_all
  then show ?thesis using t(1) by blast
qed

text \<open>The map of edges after a record: what was known about the target is dropped when the source is new.\<close>

definition record_edge :: "bytes \<Rightarrow> bytes \<Rightarrow> timespec \<times> u32 \<Rightarrow> (bytes \<Rightarrow> (bytes \<Rightarrow> (timespec \<times> u32) option) option)
    \<Rightarrow> bytes \<Rightarrow> (bytes \<Rightarrow> (timespec \<times> u32) option) option" where
  "record_edge m1 m2 d A = (case A m1 of
       Some N \<Rightarrow> A(m1 \<mapsto> N(m2 \<mapsto> d))
     | None \<Rightarrow> (if A m2 = None then A else A(m2 \<mapsto> Map.empty))(m1 \<mapsto> [m2 \<mapsto> d]))"

lemma stamp_recorded:
  assumes "recorded m1 m2 A l e g"
  shows "\<exists>g' vs es. set_edge e (\<lambda>y. y\<lparr>e_timestamp := t, e_linkWeight := w\<rparr>) g = Ret () g' \<and> wf_graph g' vs es \<and> glock g' = l \<and>
    (\<exists>N. A(m1 \<mapsto> N) = A \<and> adj g' = A(m1 \<mapsto> N(m2 \<mapsto> (t, w))))"
proof -
  obtain vs es v x y d N where r: "wf_graph g vs es" "v \<in> set vs" "vertices g v = Some x" "e \<in> set (es v)" "edges g e = Some y"
      "tapMAC (g_ls x) = m1" "key_at (nbrs x) e = m2" "glock g = l" "adj g = A(m1 \<mapsto> N(m2 \<mapsto> d))" "A(m1 \<mapsto> N) = A"
    using assms unfolding recorded_def by blast
  let ?y = "y\<lparr>e_timestamp := t, e_linkWeight := w\<rparr>"
  note st = stamp_edge_ok [OF r(1-5), of ?y]
  have "vmap g vs m1 = Some v"
    using wf_graphD(4) [OF r(1,2)] r(3,6) key_map_mem [OF wf_graphD(2) [OF r(1)] r(2)] by (auto simp: vmap_def)
  then have "adj g m1 = Some (out_edges g x)" using r(3) by (simp add: adj_vmap [OF r(1)])
  then have "out_edges g x = N(m2 \<mapsto> d)" using r(9) by simp
  then have "adj (g\<lparr>edges := (edges g)(e \<mapsto> ?y)\<rparr>) = A(m1 \<mapsto> N(m2 \<mapsto> (t, w)))" using st(2) r(6,7,9) by simp
  then show ?thesis using st(1) r(5,8,10) by (auto simp: set_edge_def)
qed

text \<open>The edge is added to a vertex of the network that has none with this target.\<close>

lemma add_to_known:
  assumes wf: "wf_graph g vs es" and v: "v \<in> set vs" "vertices g v = Some x" and new: "out_edges g x (tapMAC ls) = None"
  shows "\<exists>e g'. bind_run (new_edge v g) (\<lambda>e g. bind_run (target raw ls g) (\<lambda>n g. bind_run (set_edge e (\<lambda>y. y\<lparr>e_node := n\<rparr>) g) (\<lambda>_ g.
      bind_run (set_vertex n (\<lambda>x. x\<lparr>g_ls := ls\<rparr>) g) (\<lambda>_ g. bind_run (add_edge v e g) (\<lambda>_ g. Ret e g))))) = Ret e g' \<and>
    recorded (tapMAC (g_ls x)) (tapMAC ls) (adj g) (glock g) e g'"
proof -
  let ?e = "gbrk g" and ?x1 = "x\<lparr>nbrs := (nbrs x)\<lparr>hh := (hh (nbrs x))(gbrk g \<mapsto> zero_handle)\<rparr>\<rparr>"
  let ?g1 = "g\<lparr>gbrk := gbrk g + 1, edges := (edges g)(gbrk g \<mapsto> \<lparr>e_node = 0, e_timestamp = zero_ts, e_linkWeight = 0\<rparr>), vertices := (vertices g)(v \<mapsto> ?x1)\<rparr>"
  note ne = new_edge_ok [OF wf v(2)]
  have e1: "edges ?g1 ?e = Some \<lparr>e_node = 0, e_timestamp = zero_ts, e_linkWeight = 0\<rparr>" by simp
  have un: "\<And>u. u \<in> set vs \<Longrightarrow> ?e \<notin> set (es u)" by (rule ne(5))
  obtain n g2 es2 where t: "\<And>K :: ptr \<Rightarrow> gworld \<Rightarrow> (gworld, ptr) run. bind_run (target raw ls ?g1) (\<lambda>n g. bind_run (set_edge ?e (\<lambda>y. y\<lparr>e_node := n\<rparr>) g) (\<lambda>_ g.
      bind_run (set_vertex n (\<lambda>x. x\<lparr>g_ls := ls\<rparr>) g) (\<lambda>_ g. K n g))) = K n g2" "wf_graph g2 vs es2" "extends ?g1 g2" "adj g2 = adj ?g1"
      "edges g2 = (edges ?g1)(?e \<mapsto> \<lparr>e_node = n, e_timestamp = zero_ts, e_linkWeight = 0\<rparr>)" "\<exists>x. vertices g2 n = Some x \<and> tapMAC (g_ls x) = tapMAC ls"
      "\<forall>u. set (es2 u) \<subseteq> set (es u)" "glock g2 = glock ?g1" "\<forall>u x. vertices ?g1 u = Some x \<longrightarrow> (\<exists>x'. vertices g2 u = Some x' \<and> nbrs x' = nbrs x)"
    using target_ok [OF ne(2) e1 un, of "\<lambda>x. x\<lparr>g_ls := ls\<rparr>" ls False raw] by auto
  obtain x2 where x2: "vertices g2 v = Some x2" "nbrs x2 = nbrs ?x1" using t(9) [rule_format, of v ?x1] by auto
  obtain nx where nx: "vertices g2 n = Some nx" "tapMAC (g_ls nx) = tapMAC ls" using t(6) by blast
  have mac: "tapMAC (g_ls x2) = tapMAC (g_ls x)" using t(3) [unfolded extends_def, rule_format, of v ?x1] x2(1) by simp
  have vm: "vmap g vs (tapMAC (g_ls x)) = Some v"
    using wf_graphD(4) [OF wf v(1)] v key_map_mem [OF wf_graphD(2) [OF wf] v(1)] by (auto simp: vmap_def)
  have "vmap g2 vs (tapMAC (g_ls x2)) = Some v"
    using wf_graphD(4) [OF t(2) v(1)] x2(1) key_map_mem [OF wf_graphD(2) [OF t(2)] v(1)] by (auto simp: vmap_def)
  then have "adj g2 (tapMAC (g_ls x)) = Some (out_edges g2 x2)" using x2(1) mac by (simp add: adj_vmap [OF t(2)])
  moreover have "adj g2 = adj g" using t(4) ne(4) by simp
  moreover have "adj g (tapMAC (g_ls x)) = Some (out_edges g x)" using vm v(2) by (simp add: adj_vmap [OF wf])
  ultimately have "out_edges g2 x2 (tapMAC (g_ls nx)) = None" using new nx(2) by simp
  moreover have "?e \<in> dom (hh (nbrs x2))" using x2(2) by simp
  moreover have "edges g2 ?e = Some \<lparr>e_node = n, e_timestamp = zero_ts, e_linkWeight = 0\<rparr>" using t(5) by simp
  moreover have "?e \<notin> set (es2 u)" if "u \<in> set vs" for u using t(7) un [OF that] by auto
  ultimately obtain g3 where "add_edge v ?e g2 = Ret () g3" "recorded (tapMAC (g_ls x)) (tapMAC ls) (adj g) (glock g) ?e g3"
    using add_edge_recorded [OF t(2) v(1) x2(1), of ?e _ nx] nx mac \<open>adj g2 = adj g\<close> t(8) by auto
  then show ?thesis using ne(1) t(1) by auto
qed

text \<open>The vertex is new.\<close>

lemma add_to_new:
  assumes wf: "wf_graph g vs es" and new: "vmap g vs (tapMAC ls1) = None"
  shows "\<exists>e g'. bind_run (new_vertex raw g) (\<lambda>v g. bind_run (new_edge v g) (\<lambda>e g.
      bind_run (set_vertex v (\<lambda>x. x\<lparr>g_ls := ls1, nbrs := (nbrs x)\<lparr>head := None\<rparr>\<rparr>) g) (\<lambda>_ g.
      bind_run (target raw ls2 g) (\<lambda>n g. bind_run (set_edge e (\<lambda>y. y\<lparr>e_node := n\<rparr>) g) (\<lambda>_ g.
      bind_run (set_vertex n (\<lambda>x. x\<lparr>g_ls := ls2, nbrs := (nbrs x)\<lparr>head := None\<rparr>\<rparr>) g) (\<lambda>_ g.
      bind_run (add_vertex v g) (\<lambda>_ g. bind_run (add_edge v e g) (\<lambda>_ g. Ret e g)))))))) = Ret e g' \<and>
    recorded (tapMAC ls1) (tapMAC ls2)
      ((if adj g (tapMAC ls2) = None then adj g else (adj g)(tapMAC ls2 \<mapsto> Map.empty))(tapMAC ls1 \<mapsto> Map.empty)) (glock g) e g'"
proof -
  let ?v = "gbrk g" and ?e = "gbrk g + 1"
  let ?x = "raw\<lparr>g_ls := ls1, nbrs := (nbrs raw)\<lparr>head := None\<rparr>\<rparr>"
  let ?g1 = "g\<lparr>gbrk := gbrk g + 1, vertices := (vertices g)(gbrk g \<mapsto> ?x), network := (network g)\<lparr>hh := (hh (network g))(gbrk g \<mapsto> zero_handle)\<rparr>\<rparr>"
  let ?x1 = "?x\<lparr>nbrs := (nbrs ?x)\<lparr>hh := (hh (nbrs ?x))(?e \<mapsto> zero_handle)\<rparr>\<rparr>"
  let ?y = "\<lparr>e_node = 0, e_timestamp = zero_ts, e_linkWeight = 0\<rparr>"
  let ?g2 = "?g1\<lparr>gbrk := ?e + 1, edges := (edges g)(?e \<mapsto> ?y), vertices := (vertices ?g1)(?v \<mapsto> ?x1)\<rparr>"
  note nv = new_vertex_ok(2-4,6) [OF wf, where raw = ?x] and vn = new_vertex_ok(5) [OF wf]
  have x1: "vertices ?g1 ?v = Some ?x" by simp
  note ne = new_edge_ok [OF nv(1) x1]
  have eq: "(nbrs raw)\<lparr>hh := H, head := None\<rparr> = (nbrs raw)\<lparr>head := None, hh := H\<rparr>" for H by simp
  have step: "bind_run (new_vertex raw g) (\<lambda>v g. bind_run (new_edge v g) (\<lambda>e g.
      bind_run (set_vertex v (\<lambda>x. x\<lparr>g_ls := ls1, nbrs := (nbrs x)\<lparr>head := None\<rparr>\<rparr>) g) (\<lambda>_ g. K v e g))) = K ?v ?e ?g2" for K :: "ptr \<Rightarrow> ptr \<Rightarrow> gworld \<Rightarrow> (gworld, ptr) run"
    by (simp add: new_vertex_def new_edge_def set_vertex_def Let_def) (rule arg_cong [where f = "K (gbrk g) (Suc (gbrk g))"], simp add: eq)
  have e2: "edges ?g2 ?e = Some ?y" by simp
  have un: "?e \<notin> set (es u)" if "u \<in> set vs" for u using ne(5) [OF that] by simp
  have wf2: "wf_graph ?g2 vs es" "vmap ?g2 vs = vmap g vs" "adj ?g2 = adj g" "extends ?g1 ?g2" using ne(2,3,4,6) nv(2,3) by simp_all
  obtain n g3 es3 where t: "\<And>K :: ptr \<Rightarrow> gworld \<Rightarrow> (gworld, ptr) run. bind_run (target raw ls2 ?g2) (\<lambda>n g. bind_run (set_edge ?e (\<lambda>y. y\<lparr>e_node := n\<rparr>) g) (\<lambda>_ g.
      bind_run (set_vertex n (\<lambda>x. x\<lparr>g_ls := ls2, nbrs := (nbrs x)\<lparr>head := None\<rparr>\<rparr>) g) (\<lambda>_ g. K n g))) = K n g3" "wf_graph g3 vs es3" "extends ?g2 g3"
      "adj g3 = (if adj ?g2 (tapMAC ls2) \<noteq> None then (adj ?g2)(tapMAC ls2 \<mapsto> Map.empty) else adj ?g2)" "vmap g3 vs = vmap ?g2 vs"
      "edges g3 = (edges ?g2)(?e \<mapsto> \<lparr>e_node = n, e_timestamp = zero_ts, e_linkWeight = 0\<rparr>)" "\<exists>x. vertices g3 n = Some x \<and> tapMAC (g_ls x) = tapMAC ls2"
      "\<forall>u. set (es3 u) \<subseteq> set (es u)" "glock g3 = glock ?g2" "dom (hh (network ?g2)) \<subseteq> dom (hh (network g3))"
      "\<forall>u x. vertices ?g2 u = Some x \<longrightarrow> u \<in> set vs \<or> (\<exists>x'. vertices g3 u = Some x' \<and> nbrs x' = nbrs x)"
    using target_ok [OF wf2(1) e2 un, of "\<lambda>x. x\<lparr>g_ls := ls2, nbrs := (nbrs x)\<lparr>head := None\<rparr>\<rparr>" ls2 True raw] by auto
  let ?A = "if adj g (tapMAC ls2) = None then adj g else (adj g)(tapMAC ls2 \<mapsto> Map.empty)"
  have a3: "adj g3 = ?A" using t(4) wf2(3) by simp
  obtain x3 where x3: "vertices g3 ?v = Some x3" "nbrs x3 = nbrs ?x1" using t(11) [rule_format, of ?v ?x1] vn by auto
  have "vertices ?g2 ?v = Some ?x1" by simp
  then have mac: "tapMAC (g_ls x3) = tapMAC ls1" using t(3) [unfolded extends_def, rule_format, of ?v ?x1] x3(1) by simp
  obtain nx where nx: "vertices g3 n = Some nx" "tapMAC (g_ls nx) = tapMAC ls2" using t(7) by blast
  have "?v \<in> dom (hh (network ?g2))" by simp
  then have dm: "?v \<in> dom (hh (network g3))" using t(10) by blast
  have hd: "head (nbrs x3) = None" and ed: "?e \<in> dom (hh (nbrs x3))" using x3(2) by simp_all
  have vm: "vmap g3 vs (tapMAC (g_ls x3)) = None" using new mac t(5) wf2(2) by simp
  obtain tb where tb: "add_vertex ?v g3 = Ret () (g3\<lparr>network := tb\<rparr>)" "wf_graph (g3\<lparr>network := tb\<rparr>) (vs @ [?v]) (es3(?v := []))"
      "adj (g3\<lparr>network := tb\<rparr>) = (adj g3)(tapMAC (g_ls x3) \<mapsto> Map.empty)"
    using add_vertex_ok [OF t(2) x3(1) vn dm hd vm] by blast
  let ?g4 = "g3\<lparr>network := tb\<rparr>"
  have "out_edges ?g4 x3 = Map.empty" using hd by (simp add: fun_eq_iff out_edges_def HASH_FIND_def)
  then have "out_edges ?g4 x3 (tapMAC (g_ls nx)) = None" by simp
  moreover have "?e \<notin> set ((es3(?v := [])) u)" if "u \<in> set (vs @ [?v])" for u using t(8) un [of u] that by auto
  moreover have "edges ?g4 ?e = Some \<lparr>e_node = n, e_timestamp = zero_ts, e_linkWeight = 0\<rparr>" using t(6) by simp
  ultimately obtain g5 where "add_edge ?v ?e ?g4 = Ret () g5" "recorded (tapMAC ls1) (tapMAC ls2) (?A(tapMAC ls1 \<mapsto> Map.empty)) (glock g) ?e g5"
    using add_edge_recorded [OF tb(2), of ?v x3 ?e _ nx] x3(1) nx mac a3 tb(3) t(9) ed by auto
  then show ?thesis unfolding step t(1) using tb(1) by auto
qed

text \<open>The lock is no part of the graph.\<close>

lemma glock_frame [simp]:
  "wf_graph (g\<lparr>glock := l\<rparr>) vs es = wf_graph g vs es" "adj (g\<lparr>glock := l\<rparr>) = adj g" "vmap (g\<lparr>glock := l\<rparr>) vs = vmap g vs"
  by (auto simp: wf_graph_def wf_vertex_def adj_def out_edges_def edge_data_def vmap_def fun_eq_iff split: option.splits)

lemma in_glock_free:
  "glock g = rw_init \<Longrightarrow> in_glock (writeBegin me) g = Ret () (g\<lparr>glock := write_locked me\<rparr>)"
  "glock g = write_locked me \<Longrightarrow> in_glock (writeEnd me) g = Ret () (g\<lparr>glock := rw_init\<rparr>)"
  by (simp_all add: in_glock_def)

text \<open>The part of the function that finds or makes the edge.\<close>

definition find_or_make :: "graph \<Rightarrow> link_state \<Rightarrow> link_state \<Rightarrow> gworld \<Rightarrow> (gworld, ptr) run" where
  "find_or_make raw ls1 ls2 g = bind_run (find_vertex (tapMAC ls1) g) (\<lambda>v g. case v of
       None \<Rightarrow>
         bind_run (new_vertex raw g) (\<lambda>v g. bind_run (new_edge v g) (\<lambda>e g.
         bind_run (set_vertex v (\<lambda>x. x\<lparr>g_ls := ls1, nbrs := (nbrs x)\<lparr>head := None\<rparr>\<rparr>) g) (\<lambda>_ g.
         bind_run (target raw ls2 g) (\<lambda>n g. bind_run (set_edge e (\<lambda>y. y\<lparr>e_node := n\<rparr>) g) (\<lambda>_ g.
         bind_run (set_vertex n (\<lambda>x. x\<lparr>g_ls := ls2, nbrs := (nbrs x)\<lparr>head := None\<rparr>\<rparr>) g) (\<lambda>_ g.
         bind_run (add_vertex v g) (\<lambda>_ g. bind_run (add_edge v e g) (\<lambda>_ g. Ret e g))))))))
     | Some v \<Rightarrow>
         bind_run (find_edge v (tapMAC ls2) g) (\<lambda>e g. case e of
           Some e \<Rightarrow> Ret e g
         | None \<Rightarrow>
             bind_run (new_edge v g) (\<lambda>e g. bind_run (target raw ls2 g) (\<lambda>n g. bind_run (set_edge e (\<lambda>y. y\<lparr>e_node := n\<rparr>) g) (\<lambda>_ g.
             bind_run (set_vertex n (\<lambda>x. x\<lparr>g_ls := ls2\<rparr>) g) (\<lambda>_ g. bind_run (add_edge v e g) (\<lambda>_ g. Ret e g)))))))"

text \<open>What is forgotten when the source is new.\<close>

definition forget :: "bytes \<Rightarrow> bytes \<Rightarrow> (bytes \<Rightarrow> (bytes \<Rightarrow> (timespec \<times> u32) option) option)
    \<Rightarrow> bytes \<Rightarrow> (bytes \<Rightarrow> (timespec \<times> u32) option) option" where
  "forget m1 m2 A = (if A m1 \<noteq> None then A else (if A m2 = None then A else A(m2 \<mapsto> Map.empty))(m1 \<mapsto> Map.empty))"

lemma find_or_make_ok:
  assumes wf: "wf_graph g vs es"
  shows "\<exists>e g'. find_or_make raw ls1 ls2 g = Ret e g' \<and> recorded (tapMAC ls1) (tapMAC ls2) (forget (tapMAC ls1) (tapMAC ls2) (adj g)) (glock g) e g'"
proof (cases "vmap g vs (tapMAC ls1)")
  case None
  then have "adj g (tapMAC ls1) = None" by (simp add: adj_vmap [OF wf])
  then show ?thesis using add_to_new [OF wf None, of raw ls2] wf_graphD(6) [OF wf, of "tapMAC ls1"] None by (simp add: find_or_make_def forget_def)
next
  case (Some v)
  obtain x where x: "v \<in> set vs" "vertices g v = Some x" "tapMAC (g_ls x) = tapMAC ls1" "wf_vertex g x (es v)" using vmap_SomeD [OF wf Some] by blast
  have a: "adj g (tapMAC ls1) = Some (out_edges g x)" using Some x(2) by (simp add: adj_vmap [OF wf])
  then have A: "(adj g)(tapMAC ls1 \<mapsto> out_edges g x) = adj g" by (simp add: fun_upd_idem)
  have fe: "find_edge v (tapMAC ls2) g = Ret (key_map (key_at (nbrs x)) (es v) (tapMAC ls2)) g"
    using wf_vertexD(3) [OF x(4), of "tapMAC ls2"] x(2) by (simp add: find_edge_def get_vertex_def)
  show ?thesis
  proof (cases "key_map (key_at (nbrs x)) (es v) (tapMAC ls2)")
    case None
    then have "out_edges g x (tapMAC ls2) = None" by (simp add: out_edges_map [OF x(4)])
    then show ?thesis using add_to_known [OF wf x(1,2), of ls2 raw] wf_graphD(6) [OF wf, of "tapMAC ls1"] Some fe None a x(3)
      by (simp add: find_or_make_def forget_def)
  next
    case (Some e)
    have e: "e \<in> set (es v)" "key_at (nbrs x) e = tapMAC ls2" using key_map_Some [OF Some] by auto
    obtain y where y: "edges g e = Some y" using wf_vertexD(4) [OF x(4) e(1)] by blast
    have "out_edges g x (tapMAC ls2) = Some (edge_data g e)" using Some by (simp add: out_edges_map [OF x(4)])
    then have "(out_edges g x)(tapMAC ls2 \<mapsto> edge_data g e) = out_edges g x" by (simp add: fun_upd_idem)
    then have "\<exists>d N. adj g = (adj g)(tapMAC ls1 \<mapsto> N(tapMAC ls2 \<mapsto> d)) \<and> (adj g)(tapMAC ls1 \<mapsto> N) = adj g" using A by metis
    then have "recorded (tapMAC ls1) (tapMAC ls2) (adj g) (glock g) e g" unfolding recorded_def using wf x e y
      by (intro exI [of _ vs] exI [of _ es] exI [of _ v] exI [of _ x] exI [of _ y] conjI) simp_all
    then show ?thesis using wf_graphD(6) [OF wf, of "tapMAC ls1"] \<open>vmap g vs _ = Some v\<close> fe Some a by (simp add: find_or_make_def forget_def)
  qed
qed

lemma record_edge_forget:
  assumes "(forget m1 m2 A)(m1 \<mapsto> N) = forget m1 m2 A"
  shows "record_edge m1 m2 d A = (forget m1 m2 A)(m1 \<mapsto> N(m2 \<mapsto> d))"
proof -
  have "forget m1 m2 A m1 = Some N" using assms by (metis fun_upd_same)
  then show ?thesis by (auto simp: record_edge_def forget_def split: option.splits if_splits)
qed

lemma evaluate_record_run:
  assumes "wf_graph g vs es" and "glock g = rw_init"
  shows "\<exists>g' vs' es'. evaluate_record raw fl me lsr g = Ret () g' \<and> wf_graph g' vs' es' \<and> glock g' = rw_init \<and>
    adj g' = record_edge (tapMAC (lsr_proxy1 lsr)) (tapMAC (lsr_proxy2 lsr))
      (\<lparr>tv_sec = ntohl (tv_sec (lsr_ID lsr)), tv_nsec = ntohl (tv_nsec (lsr_ID lsr))\<rparr>, fl (lsr_linkWeight lsr)) (adj g)"
proof -
  let ?g = "g\<lparr>glock := write_locked me\<rparr>" and ?m1 = "tapMAC (lsr_proxy1 lsr)" and ?m2 = "tapMAC (lsr_proxy2 lsr)"
  let ?t = "\<lparr>tv_sec = ntohl (tv_sec (lsr_ID lsr)), tv_nsec = ntohl (tv_nsec (lsr_ID lsr))\<rparr>" and ?w = "fl (lsr_linkWeight lsr)"
  have wf: "wf_graph ?g vs es" using assms(1) by simp
  obtain e g1 where f: "find_or_make raw (lsr_proxy1 lsr) (lsr_proxy2 lsr) ?g = Ret e g1"
      "recorded ?m1 ?m2 (forget ?m1 ?m2 (adj g)) (write_locked me) e g1"
    using find_or_make_ok [OF wf, of raw "lsr_proxy1 lsr" "lsr_proxy2 lsr"] by auto
  obtain g2 vs2 es2 N where s: "set_edge e (\<lambda>y. y\<lparr>e_timestamp := ?t, e_linkWeight := ?w\<rparr>) g1 = Ret () g2" "wf_graph g2 vs2 es2"
      "glock g2 = write_locked me" "(forget ?m1 ?m2 (adj g))(?m1 \<mapsto> N) = forget ?m1 ?m2 (adj g)" "adj g2 = (forget ?m1 ?m2 (adj g))(?m1 \<mapsto> N(?m2 \<mapsto> (?t, ?w)))"
    using stamp_recorded [OF f(2), where t = ?t and w = ?w] by blast
  have "evaluate_record raw fl me lsr g = bind_run (in_glock (writeBegin me) g) (\<lambda>_ g.
      bind_run (find_or_make raw (lsr_proxy1 lsr) (lsr_proxy2 lsr) g) (\<lambda>e g.
      bind_run (set_edge e (\<lambda>y. y\<lparr>e_timestamp := ?t, e_linkWeight := ?w\<rparr>) g) (\<lambda>_ g. in_glock (writeEnd me) g)))"
    by (simp only: evaluate_record_def find_or_make_def bind_run_assoc)
  also have "\<dots> = Ret () (g2\<lparr>glock := rw_init\<rparr>)" using f(1) s(1,3) assms(2) by (simp add: in_glock_free)
  finally show ?thesis using s(2,5) record_edge_forget [OF s(4), of "(?t, ?w)"]
    by (intro exI [of _ "g2\<lparr>glock := rw_init\<rparr>"] exI [of _ vs2] exI [of _ es2]) simp
qed

text \<open>
  C21. \<^verbatim>\<open>evaluate_record\<close> on a well-formed graph: it returns with the lock free and the graph
  well-formed; the edge of the record is found under its two addresses with the time and the
  weight of the record, and every other edge is unchanged, with one exception: when the
  first proxy is new to the graph, all edges of the second one are forgotten.
\<close>

theorem evaluate_record_refines:
  assumes "wf_graph g vs es" and "glock g = rw_init"
  shows "\<exists>g' vs' es'. evaluate_record raw fl me lsr g = Ret () g' \<and> wf_graph g' vs' es' \<and> glock g' = rw_init \<and>
    adj g' = record_edge (tapMAC (lsr_proxy1 lsr)) (tapMAC (lsr_proxy2 lsr))
      (\<lparr>tv_sec = ntohl (tv_sec (lsr_ID lsr)), tv_nsec = ntohl (tv_nsec (lsr_ID lsr))\<rparr>, fl (lsr_linkWeight lsr)) (adj g)"
  using assms by (rule evaluate_record_run)

definition demo_vertex :: graph where
  "demo_vertex = \<lparr>g_ls = demo_ls 0, nbrs = demo_empty\<rparr>"

text \<open>The empty graph of the proxy with the address 1 and a record about its edge to 2.\<close>

definition demo_graph :: gworld where
  "demo_graph = \<lparr>network = demo_empty, vertices = [0 \<mapsto> demo_vertex\<lparr>g_ls := demo_ls 1\<rparr>], edges = Map.empty, gbrk = 1, glock = rw_init, own_mac = demo_mac 1\<rparr>"

definition demo_record :: link_state_record where
  "demo_record = \<lparr>lsr_ID = zero_ts, lsr_proxy1 = demo_ls 1, lsr_proxy2 = demo_ls 2, lsr_linkWeight = 5\<rparr>"

lemma demo_graph_wf: "wf_graph demo_graph [] (\<lambda>_. [])" "glock demo_graph = rw_init" "adj demo_graph = Map.empty"
  by (auto simp: wf_graph_def demo_graph_def demo_empty_def uh_rep_empty adj_def HASH_FIND_def fun_eq_iff)

lemma demo_record_data:
  "tapMAC (lsr_proxy1 demo_record) = demo_mac 1" "tapMAC (lsr_proxy2 demo_record) = demo_mac 2" "id (lsr_linkWeight demo_record) = 5"
  "\<lparr>tv_sec = ntohl (tv_sec (lsr_ID demo_record)), tv_nsec = ntohl (tv_nsec (lsr_ID demo_record))\<rparr> = zero_ts"
  by (code_simp+)

theorem evaluate_record_refines_witness:
  "\<exists>g' vs' es'. evaluate_record demo_vertex id 1 demo_record demo_graph = Ret () g' \<and> wf_graph g' vs' es' \<and> glock g' = rw_init \<and>
    adj g' = [demo_mac 1 \<mapsto> [demo_mac 2 \<mapsto> (zero_ts, 5)]]"
  using evaluate_record_refines [OF demo_graph_wf(1,2), of demo_vertex id 1 demo_record]
  unfolding demo_record_data demo_graph_wf(3) by (simp add: record_edge_def)

section \<open>Removing a vertex\<close>

text \<open>
  \<^verbatim>\<open>remove_from_network\<close> never removes anything. It returns, and gives the lock back only
  if the graph has no vertex with the address; otherwise the calling thread keeps it.
\<close>

theorem remove_from_network_removes_nothing:
  assumes "wf_graph g vs es" and "glock g = rw_init" and "vertices g pp = Some x"
  shows "remove_from_network me pp g = Ret () (g\<lparr>glock := if adj g (tapMAC (g_ls x)) = None then rw_init else write_locked me\<rparr>)"
proof -
  let ?g = "g\<lparr>glock := write_locked me\<rparr>"
  have "find_vertex (tapMAC (g_ls x)) ?g = Ret (vmap g vs (tapMAC (g_ls x))) ?g"
    using wf_graphD(6) [of ?g vs es] assms(1) by simp
  then show ?thesis using assms(2,3)
    by (simp add: remove_from_network_def in_glock_free get_vertex_def adj_vmap [OF assms(1)])
qed

lemma own_kept:
  "in_glock f g = Ret r g' \<Longrightarrow> own_mac g' = own_mac g" "find_vertex k g = Ret r' g' \<Longrightarrow> own_mac g' = own_mac g" "find_edge v k g = Ret r' g' \<Longrightarrow> own_mac g' = own_mac g"
  "new_vertex x g = Ret v g' \<Longrightarrow> own_mac g' = own_mac g" "new_edge v g = Ret e g' \<Longrightarrow> own_mac g' = own_mac g" "set_vertex v h g = Ret () g' \<Longrightarrow> own_mac g' = own_mac g"
  "set_edge e y g = Ret () g' \<Longrightarrow> own_mac g' = own_mac g" "add_vertex v g = Ret () g' \<Longrightarrow> own_mac g' = own_mac g" "add_edge v e g = Ret () g' \<Longrightarrow> own_mac g' = own_mac g"
  "target x ls g = Ret n g' \<Longrightarrow> own_mac g' = own_mac g"
  by (auto simp: in_glock_def find_vertex_def find_edge_def get_vertex_def new_vertex_def new_edge_def set_vertex_def set_edge_def add_vertex_def
      add_edge_def target_def Let_def bind_run_Ret_iff lift_run_Ret_iff split: option.splits)

lemma evaluate_record_own: "evaluate_record raw fl me lsr g = Ret () g' \<Longrightarrow> own_mac g' = own_mac g"
  unfolding evaluate_record_def by (auto simp: bind_run_Ret_iff split: option.splits dest!: own_kept)

lemma card_adj: "wf_graph g vs es \<Longrightarrow> length vs = card (dom (adj g))"
proof -
  assume wf: "wf_graph g vs es"
  have "dom (adj g) = key_at (network g) ` set vs"
    using key_map_None [of "key_at (network g)" vs] by (auto simp: dom_def adj_vmap [OF wf] vmap_def simp del: not_None_eq simp flip: not_None_eq)
  then show ?thesis using card_image [OF wf_graphD(2) [OF wf]] wf_graphD(1) [OF wf] by (simp add: uh_rep_def distinct_card)
qed

lemma demo_graph_run:
  "\<exists>g vs es. evaluate_record demo_vertex id 1 demo_record demo_graph = Ret () g \<and> wf_graph g vs es \<and> glock g = rw_init \<and> own_mac g = demo_mac 1 \<and>
    length vs = 1 \<and> (\<exists>v x. vmap g vs (demo_mac 1) = Some v \<and> vertices g v = Some x \<and> tapMAC (g_ls x) = demo_mac 1)"
proof -
  obtain g vs es where g: "evaluate_record demo_vertex id 1 demo_record demo_graph = Ret () g" "wf_graph g vs es" "glock g = rw_init"
      "adj g = record_edge (demo_mac 1) (demo_mac 2) (zero_ts, 5) Map.empty"
    using evaluate_record_run [OF demo_graph_wf(1,2), of demo_vertex id 1 demo_record]
    unfolding demo_record_data demo_graph_wf(3) by blast
  then have "adj g (demo_mac 1) \<noteq> None" "length vs = 1" using card_adj [OF g(2)] by (simp_all add: record_edge_def)
  then obtain v where "vmap g vs (demo_mac 1) = Some v" using adj_vmap [OF g(2)] by auto
  moreover have "own_mac g = demo_mac 1" using evaluate_record_own [OF g(1)] by (simp add: demo_graph_def)
  ultimately show ?thesis using vmap_SomeD(2) [OF g(2)] g(1-3) \<open>length vs = 1\<close> by blast
qed

theorem remove_from_network_removes_nothing_witness:
  "\<exists>g v. evaluate_record demo_vertex id 1 demo_record demo_graph = Ret () g \<and> remove_from_network 1 v g = Ret () (g\<lparr>glock := write_locked 1\<rparr>)"
proof -
  obtain g vs es v x where g: "evaluate_record demo_vertex id 1 demo_record demo_graph = Ret () g" "wf_graph g vs es" "glock g = rw_init"
      "vmap g vs (demo_mac 1) = Some v" "vertices g v = Some x" "tapMAC (g_ls x) = demo_mac 1" using demo_graph_run by blast
  then show ?thesis using remove_from_network_removes_nothing [OF g(2,3,5), of 1] by (auto simp: adj_vmap [OF g(2)])
qed

section \<open>Routing\<close>

lemma heap_alloc_wf: "n < 2 ^ 30 \<Longrightarrow> heap_wf (heap_alloc idx n)" "heap_ordered (heap_alloc idx n)" "hsize (heap_alloc idx n) = 0" "hmax (heap_alloc idx n) = n"
  by (simp_all add: heap_wf_def heap_ordered_def heap_alloc_def)

text \<open>The first node put into the heap is its minimum.\<close>

lemma dijkstra_fill_undefined:
  assumes "wf_graph g vs es" and "vs \<noteq> []" and "length vs < 2 ^ 30"
  shows "dijkstra_fill g rawent (head (network g)) (heap_alloc idx (HASH_COUNT (network g))) = None"
proof -
  have cnt: "HASH_COUNT (network g) = length vs" using wf_graphD(1) [OF assms(1)] by (rule HASH_COUNT_ok)
  have hd: "head (network g) = Some (hd vs)" using wf_graphD(1) [OF assms(1)] assms(2) by (cases vs) (auto simp: uh_rep_def)
  show ?thesis
    unfolding hd cnt using heap_insert_minimum_undefined [OF heap_alloc_wf(1) [OF assms(3)] heap_alloc_wf(2), where raw = rawent and node = "hd vs" and dist = "-1"] assms(2)
    by (subst dijkstra_fill.simps) (auto simp: heap_alloc_wf split: option.splits)
qed

text \<open>
  C35. The routing functions do not route. If the proxy is not in its own graph, each of them
  returns at once and keeps the lock; if it is, \<^verbatim>\<open>shortest_path\<close> and \<^verbatim>\<open>bfs\<close> follow a
  pointer that was never set, and \<^verbatim>\<open>Dijkstra\<close> reads far outside of its heap at the first node.
\<close>

theorem routing_never_routes:
  assumes "wf_graph g vs es" and "glock g = rw_init" and "length vs < 2 ^ 30"
  shows "if adj g (own_mac g) = None
    then shortest_path me g = Ret () (g\<lparr>glock := write_locked me\<rparr>) \<and> bfs me g = Ret None (g\<lparr>glock := write_locked me\<rparr>) \<and>
      Dijkstra idx rawent me g = Ret () (g\<lparr>glock := write_locked me\<rparr>)
    else shortest_path me g = Stop UB (g\<lparr>glock := write_locked me\<rparr>) \<and> bfs me g = Stop UB (g\<lparr>glock := write_locked me\<rparr>) \<and>
      Dijkstra idx rawent me g = Stop UB (g\<lparr>glock := write_locked me\<rparr>)"
proof -
  let ?g = "g\<lparr>glock := write_locked me\<rparr>"
  have wf: "wf_graph ?g vs es" using assms(1) by simp
  have f: "find_vertex (own_mac g) ?g = Ret (vmap g vs (own_mac g)) ?g" using wf_graphD(6) [OF wf] by simp
  have "vs \<noteq> []" if "vmap g vs (own_mac g) \<noteq> None" using that by (auto simp: vmap_def key_map_def)
  then have "dijkstra_fill ?g rawent (head (network ?g)) (heap_alloc idx (HASH_COUNT (network ?g))) = None" if "vmap g vs (own_mac g) \<noteq> None"
    using dijkstra_fill_undefined [OF wf _ assms(3)] that by blast
  then show ?thesis using f assms(2)
    by (cases "vmap g vs (own_mac g)") (simp_all add: shortest_path_def bfs_def Dijkstra_def in_glock_free adj_vmap [OF assms(1)])
qed

theorem routing_never_routes_witness:
  "shortest_path 1 demo_graph = Ret () (demo_graph\<lparr>glock := write_locked 1\<rparr>) \<and>
    (\<exists>g. evaluate_record demo_vertex id 1 demo_record demo_graph = Ret () g \<and> Dijkstra demo_empty (demo_ent 0) 1 g = Stop UB (g\<lparr>glock := write_locked 1\<rparr>))"
proof -
  obtain g vs es v x where g: "evaluate_record demo_vertex id 1 demo_record demo_graph = Ret () g" "wf_graph g vs es" "glock g = rw_init"
      "vmap g vs (demo_mac 1) = Some v" "own_mac g = demo_mac 1" "length vs = 1" using demo_graph_run by blast
  then show ?thesis using routing_never_routes [OF g(2,3), of 1 demo_empty "demo_ent 0"] routing_never_routes [OF demo_graph_wf(1,2), of 1 demo_empty "demo_ent 0"]
    by (auto simp: adj_vmap [OF g(2)] demo_graph_wf(3))
qed

end
