(* ===== verification/Utlist.thy ===== *)
theory Utlist
  imports Prelude
begin

text \<open>
  The singly linked lists of \<^verbatim>\<open>utlist.h\<close> that the program uses, and the queue of
  \<^verbatim>\<open>route.c\<close> built on them. A list lives in a memory of cells; the head is a pointer that
  the macros return when they assign to it. \<open>chain m h ps\<close> says that the list at \<open>h\<close> consists of the
  cells \<open>ps\<close>, in this order.
\<close>

section \<open>Cells\<close>

record 'a cell =
  content :: 'a
  ll_next :: "ptr option"

record 'a cells =
  mem :: "ptr \<Rightarrow> 'a cell option"
  cbrk :: ptr  \<comment> \<open>the next pointer \<^verbatim>\<open>malloc\<close> returns\<close>

definition get_cell :: "ptr \<Rightarrow> 'a cells \<Rightarrow> ('a cells, 'a cell) run" where
  "get_cell p m = (case mem m p of None \<Rightarrow> Stop UB m | Some c \<Rightarrow> Ret c m)"

definition set_next :: "ptr \<Rightarrow> ptr option \<Rightarrow> 'a cells \<Rightarrow> ('a cells, unit) run" where
  "set_next p n m = (case mem m p of None \<Rightarrow> Stop UB m
     | Some c \<Rightarrow> Ret () (m\<lparr>mem := (mem m)(p \<mapsto> c\<lparr>ll_next := n\<rparr>)\<rparr>))"

definition new_cell :: "'a \<Rightarrow> 'a cells \<Rightarrow> ('a cells, ptr) run" where
  "new_cell x m = Ret (cbrk m) (m\<lparr>mem := (mem m)(cbrk m \<mapsto> \<lparr>content = x, ll_next = None\<rparr>), cbrk := cbrk m + 1\<rparr>)"

definition free_cell :: "ptr \<Rightarrow> 'a cells \<Rightarrow> ('a cells, unit) run" where
  "free_cell p m = (case mem m p of None \<Rightarrow> Stop UB m | Some _ \<Rightarrow> Ret () (m\<lparr>mem := (mem m)(p := None)\<rparr>))"

text \<open>A loop that never ends gives \<open>None\<close>.\<close>

definition looped :: "('s \<Rightarrow> ('s, 'b) run option) \<Rightarrow> 's \<Rightarrow> ('s, 'b) run" where
  "looped f s = (case f s of None \<Rightarrow> Stop Diverges s | Some r \<Rightarrow> r)"

section \<open>The macros\<close>

definition LL_PREPEND :: "ptr option \<Rightarrow> ptr \<Rightarrow> 'a cells \<Rightarrow> ('a cells, ptr option) run" where
  "LL_PREPEND head add m =
     bind_run (set_next add head m) (\<lambda>_ m. Ret (Some add) m)"

text \<open>\<^verbatim>\<open>while (_tmp->next) { _tmp = _tmp->next; }\<close>\<close>

partial_function (option) ll_last :: "ptr \<Rightarrow> 'a cells \<Rightarrow> ('a cells, ptr) run option" where
  "ll_last tmp m = (case mem m tmp of
       None \<Rightarrow> Some (Stop UB m)
     | Some c \<Rightarrow> (case ll_next c of None \<Rightarrow> Some (Ret tmp m) | Some n \<Rightarrow> ll_last n m))"

declare ll_last.simps [code]

definition LL_APPEND :: "ptr option \<Rightarrow> ptr \<Rightarrow> 'a cells \<Rightarrow> ('a cells, ptr option) run" where
  "LL_APPEND head add m =
     bind_run (set_next add None m) (\<lambda>_ m. case head of
       None \<Rightarrow> Ret (Some add) m
     | Some h \<Rightarrow>
         bind_run (looped (ll_last h) m) (\<lambda>tmp m.
         bind_run (set_next tmp (Some add) m) (\<lambda>_ m. Ret head m)))"

text \<open>\<^verbatim>\<open>while (_tmp->next && (_tmp->next != (del))) { _tmp = _tmp->next; }\<close>\<close>

partial_function (option) ll_before :: "ptr \<Rightarrow> ptr \<Rightarrow> 'a cells \<Rightarrow> ('a cells, ptr) run option" where
  "ll_before del tmp m = (case mem m tmp of
       None \<Rightarrow> Some (Stop UB m)
     | Some c \<Rightarrow> (case ll_next c of
           None \<Rightarrow> Some (Ret tmp m)
         | Some n \<Rightarrow> if n \<noteq> del then ll_before del n m else Some (Ret tmp m)))"

declare ll_before.simps [code]

definition LL_DELETE :: "ptr option \<Rightarrow> ptr \<Rightarrow> 'a cells \<Rightarrow> ('a cells, ptr option) run" where
  "LL_DELETE head del m =
     (if head = Some del then bind_run (get_cell del m) (\<lambda>c m. Ret (ll_next c) m)
      else case head of
        None \<Rightarrow> Stop UB m
      | Some h \<Rightarrow>
          bind_run (looped (ll_before del h) m) (\<lambda>tmp m.
          bind_run (get_cell tmp m) (\<lambda>c m. case ll_next c of
            None \<Rightarrow> Ret head m
          | Some _ \<Rightarrow>
              bind_run (get_cell del m) (\<lambda>d m.
              bind_run (set_next tmp (ll_next d) m) (\<lambda>_ m. Ret head m)))))"

text \<open>
  \<^verbatim>\<open>for((el)=(head);(el) && (tmp = (el)->next, 1); (el) = tmp)\<close> around a body that works on a
  larger state \<open>s\<close> with the cells \<open>cs s\<close>.
\<close>

partial_function (option) ll_foreach_loop :: "('s \<Rightarrow> 'a cells) \<Rightarrow> (ptr \<Rightarrow> 's \<Rightarrow> ('s, unit) run) \<Rightarrow> ptr option \<Rightarrow> 's \<Rightarrow> ('s, unit) run option" where
  "ll_foreach_loop cs body el s = (case el of
       None \<Rightarrow> Some (Ret () s)
     | Some p \<Rightarrow> (case mem (cs s) p of
           None \<Rightarrow> Some (Stop UB s)
         | Some c \<Rightarrow> (case body p s of
               Stop h s \<Rightarrow> Some (Stop h s)
             | Ret _ s \<Rightarrow> ll_foreach_loop cs body (ll_next c) s)))"

declare ll_foreach_loop.simps [code]

definition LL_FOREACH_SAFE :: "('s \<Rightarrow> 'a cells) \<Rightarrow> (ptr \<Rightarrow> 's \<Rightarrow> ('s, unit) run) \<Rightarrow> ptr option \<Rightarrow> 's \<Rightarrow> ('s, unit) run" where
  "LL_FOREACH_SAFE cs body head s = looped (ll_foreach_loop cs body head) s"

section \<open>The queue\<close>

text \<open>
  Both functions get the pointer to the first cell by value: what the macros assign to it
  is lost when they return.
\<close>

definition enqueue :: "ptr option \<Rightarrow> ptr \<Rightarrow> ptr cells \<Rightarrow> (ptr cells, unit) run" where
  "enqueue q peer m =
     bind_run (new_cell peer m) (\<lambda>newQ m.
     bind_run (LL_APPEND q newQ m) (\<lambda>q m. Ret () m))"

definition dequeue :: "ptr option \<Rightarrow> ptr cells \<Rightarrow> (ptr cells, ptr) run" where
  "dequeue q m = (case q of
       None \<Rightarrow> Stop UB m
     | Some p \<Rightarrow>
         bind_run (get_cell p m) (\<lambda>c m. let tmp = ll_next c; returnTmp = p in
         bind_run (LL_DELETE q p m) (\<lambda>q m. let q = tmp in
         bind_run (get_cell returnTmp m) (\<lambda>c m. Ret (content c) m))))"

section \<open>Lists in memory\<close>

primrec chain :: "(ptr \<Rightarrow> 'a cell option) \<Rightarrow> ptr option \<Rightarrow> ptr list \<Rightarrow> bool" where
  "chain m h [] \<longleftrightarrow> h = None"
| "chain m h (p # ps) \<longleftrightarrow> h = Some p \<and> (\<exists>c. m p = Some c \<and> chain m (ll_next c) ps)"

text \<open>The contents of cells.\<close>

definition contents :: "(ptr \<Rightarrow> 'a cell option) \<Rightarrow> ptr list \<Rightarrow> 'a list" where
  "contents m ps = map (\<lambda>p. content (the (m p))) ps"

lemma chain_cong: "(\<And>p. p \<in> set ps \<Longrightarrow> m p = m' p) \<Longrightarrow> chain m h ps \<longleftrightarrow> chain m' h ps"
  by (induction ps arbitrary: h) auto

lemma chain_other [simp]: "p \<notin> set ps \<Longrightarrow> chain (m(p := x)) h ps \<longleftrightarrow> chain m h ps"
  by (rule chain_cong) auto

lemma contents_other [simp]: "p \<notin> set ps \<Longrightarrow> contents (m(p := x)) ps = contents m ps"
  by (auto simp: contents_def)

lemma chain_alloc: "chain m h ps \<Longrightarrow> p \<in> set ps \<Longrightarrow> m p \<noteq> None"
  by (induction ps arbitrary: h) auto

lemma chain_unique: "chain m h ps \<Longrightarrow> chain m h qs \<Longrightarrow> ps = qs"
proof (induction ps arbitrary: h qs)
  case Nil
  then show ?case by (cases qs) auto
next
  case (Cons p ps)
  then show ?case by (cases qs) auto
qed

text \<open>A list that ends has no cell twice.\<close>

lemma chain_suffix: "chain m h (ps @ p # qs) \<Longrightarrow> chain m (Some p) (p # qs)"
proof (induction ps arbitrary: h)
  case (Cons x ps)
  from Cons.prems obtain k where "chain m k (ps @ p # qs)" by auto
  then show ?case by (rule Cons.IH)
qed simp

lemma chain_distinct: "chain m h ps \<Longrightarrow> distinct ps"
proof (induction ps arbitrary: h)
  case (Cons p ps)
  show ?case
  proof (rule ccontr)
    assume "\<not> distinct (p # ps)"
    moreover have "distinct ps" using Cons by auto
    ultimately have "p \<in> set ps" by simp
    then obtain us vs where ps: "ps = us @ p # vs" by (meson split_list)
    have "chain m (Some p) (p # ps)" using Cons.prems by auto
    moreover have "chain m (Some p) (p # vs)" using chain_suffix [of m h "p # us" p vs] Cons.prems ps by simp
    ultimately have "p # ps = p # vs" by (rule chain_unique)
    then show False using ps by simp
  qed
qed simp

text \<open>The list after the successor of one of its cells was changed.\<close>

lemma chain_relink:
  assumes "chain m h (ps @ p # qs)" and "m p = Some c" and "chain m n rs" and "p \<notin> set rs"
  shows "chain (m(p \<mapsto> c\<lparr>ll_next := n\<rparr>)) h (ps @ p # rs)"
proof -
  have "p \<notin> set ps" using chain_distinct [OF assms(1)] by simp
  with assms show ?thesis by (induction ps arbitrary: h) auto
qed

lemma contents_relink: "m p = Some c \<Longrightarrow> contents (m(p \<mapsto> c\<lparr>ll_next := n\<rparr>)) ps = contents m ps"
  by (auto simp: contents_def)

lemma ll_last_chain: "chain (mem m) (Some h) (ps @ [p]) \<Longrightarrow> ll_last h m = Some (Ret p m)"
proof (induction ps arbitrary: h)
  case Nil
  then show ?case by (subst ll_last.simps) auto
next
  case (Cons x ps)
  then obtain c n where "x = h" "mem m h = Some c" "ll_next c = Some n" "chain (mem m) (Some n) (ps @ [p])" by (cases ps) auto
  then show ?case using Cons.IH by (subst ll_last.simps) simp
qed

lemma ll_before_chain: "chain (mem m) (Some h) (ps @ p # d # qs) \<Longrightarrow> ll_before d h m = Some (Ret p m)"
proof (induction ps arbitrary: h)
  case Nil
  then show ?case by (subst ll_before.simps) auto
next
  case (Cons x ps)
  then obtain c n where n: "x = h" "mem m h = Some c" "ll_next c = Some n" "chain (mem m) (Some n) (ps @ p # d # qs)" by (cases ps) auto
  have "n \<noteq> d" using n(4) chain_distinct [OF n(4)] by (cases ps) auto
  then show ?case using Cons.IH n by (subst ll_before.simps) simp
qed

section \<open>The macros on lists\<close>

text \<open>
  \<^verbatim>\<open>LL_APPEND\<close> of an allocated cell that is not in the list returns, makes the cell the
  last of the list and keeps the other cells in their order with their contents.
\<close>

lemma LL_APPEND_appends:
  assumes "chain (mem m) h ps" and "mem m a = Some c" and "a \<notin> set ps"
  shows "\<exists>h' m'. LL_APPEND h a m = Ret h' m' \<and> chain (mem m') h' (ps @ [a]) \<and>
    contents (mem m') (ps @ [a]) = contents (mem m) ps @ [content c] \<and> cbrk m' = cbrk m \<and>
    (\<forall>x. map_option content (mem m' x) = map_option content (mem m x))"
proof (cases ps rule: rev_cases)
  case Nil
  then show ?thesis using assms by (simp add: LL_APPEND_def set_next_def contents_def)
next
  case (snoc qs p)
  let ?m = "m\<lparr>mem := (mem m)(a \<mapsto> c\<lparr>ll_next := None\<rparr>)\<rparr>"
  have ch: "chain (mem ?m) h (qs @ [p])" using assms snoc by simp
  then obtain x where x: "h = Some x" by (cases qs) auto
  obtain d where d: "mem ?m p = Some d" using chain_alloc [OF ch, of p] by auto
  have "looped (ll_last x) ?m = Ret p ?m" using ll_last_chain [of ?m x qs p] ch x by (simp add: looped_def)
  then have "LL_APPEND h a m = Ret h (?m\<lparr>mem := (mem ?m)(p \<mapsto> d\<lparr>ll_next := Some a\<rparr>)\<rparr>)"
    using assms(2) x d by (simp add: LL_APPEND_def set_next_def)
  moreover have "chain ((mem ?m)(p \<mapsto> d\<lparr>ll_next := Some a\<rparr>)) h (qs @ p # [a])"
    by (rule chain_relink [OF ch d]) (use assms(3) snoc in auto)
  moreover have "contents ((mem ?m)(p \<mapsto> d\<lparr>ll_next := Some a\<rparr>)) (ps @ [a]) = contents (mem m) ps @ [content c]"
    unfolding contents_relink [where m = "mem ?m", OF d] using assms(3) by (auto simp: contents_def)
  ultimately show ?thesis using snoc assms(2) d by auto
qed

text \<open>
  \<^verbatim>\<open>LL_DELETE\<close> of a cell of the list returns and takes exactly this cell out; the others
  stay in their order with their contents.
\<close>

lemma LL_DELETE_removes:
  assumes "chain (mem m) h ps" and "d \<in> set ps"
  shows "\<exists>h' m'. LL_DELETE h d m = Ret h' m' \<and> chain (mem m') h' (remove1 d ps) \<and>
    contents (mem m') (remove1 d ps) = contents (mem m) (remove1 d ps) \<and> cbrk m' = cbrk m \<and> mem m' d = mem m d \<and>
    (\<forall>x. map_option content (mem m' x) = map_option content (mem m x))"
proof -
  obtain us vs where ps: "ps = us @ d # vs" using assms(2) by (meson split_list)
  have dis: "distinct ps" by (rule chain_distinct [OF assms(1)])
  then have rm: "remove1 d ps = us @ vs" using ps by (simp add: remove1_append)
  obtain c where c: "mem m d = Some c" using chain_alloc [OF assms] by auto
  have tl: "chain (mem m) (ll_next c) vs" using chain_suffix [of "mem m" h us d vs] assms(1) c ps by auto
  show ?thesis
  proof (cases us rule: rev_cases)
    case Nil
    then have "h = Some d" using assms(1) ps by simp
    then show ?thesis using Nil c tl rm by (simp add: LL_DELETE_def get_cell_def)
  next
    case (snoc qs p)
    have ch: "chain (mem m) h (qs @ p # d # vs)" using assms(1) ps snoc by simp
    obtain x where x: "h = Some x" "x \<noteq> d" using ch dis ps snoc by (cases qs) auto
    obtain e where e: "mem m p = Some e" using chain_alloc [OF ch, of p] by auto
    have "ll_next e = Some d" using chain_suffix [OF ch] e by simp
    moreover have "looped (ll_before d x) m = Ret p m" using ll_before_chain [of m x qs p d vs] ch x by (simp add: looped_def)
    ultimately have run: "LL_DELETE h d m = Ret h (m\<lparr>mem := (mem m)(p \<mapsto> e\<lparr>ll_next := ll_next c\<rparr>)\<rparr>)"
      using x c e by (simp add: LL_DELETE_def get_cell_def set_next_def)
    have "chain ((mem m)(p \<mapsto> e\<lparr>ll_next := ll_next c\<rparr>)) h (qs @ p # vs)"
      by (rule chain_relink [OF ch e tl]) (use dis ps snoc in auto)
    then show ?thesis using run rm snoc dis ps e by (simp add: contents_relink [where m = "mem m", OF e])
  qed
qed

lemma LL_PREPEND_prepends:
  assumes "chain (mem m) h ps" and "mem m a = Some c" and "a \<notin> set ps"
  shows "LL_PREPEND h a m = Ret (Some a) (m\<lparr>mem := (mem m)(a \<mapsto> c\<lparr>ll_next := h\<rparr>)\<rparr>)"
    and "chain ((mem m)(a \<mapsto> c\<lparr>ll_next := h\<rparr>)) (Some a) (a # ps)"
  using assms by (simp_all add: LL_PREPEND_def set_next_def)

section \<open>The queue\<close>

lemma dequeue_front:
  assumes "chain (mem m) q (p # ps)"
  shows "dequeue q m = Ret (content (the (mem m p))) m"
  using assms by (auto simp: dequeue_def get_cell_def LL_DELETE_def Let_def)

text \<open>
  An element put into a queue that has elements stands at its end; put into an empty
  queue it is lost, since the pointer of the caller stays NULL. Taking an element returns the
  first one, but the caller's queue keeps it, so that the same element is returned every time.
\<close>

theorem queue_keeps_its_front:
  assumes "chain (mem m) q ps" and "mem m (cbrk m) = None"
  shows "(\<exists>m'. enqueue q x m = Ret () m' \<and>
      (if q = None then chain (mem m') q []
       else chain (mem m') q (ps @ [cbrk m]) \<and> contents (mem m') (ps @ [cbrk m]) = contents (mem m) ps @ [x] \<and>
         (\<exists>y. dequeue q m' = Ret y m' \<and> y = hd (contents (mem m) ps))))"
proof -
  let ?m = "m\<lparr>mem := (mem m)(cbrk m \<mapsto> \<lparr>content = x, ll_next = None\<rparr>), cbrk := cbrk m + 1\<rparr>"
  have new: "cbrk m \<notin> set ps" using chain_alloc [OF assms(1)] assms(2) by blast
  then have ch: "chain (mem ?m) q ps" "contents (mem ?m) ps = contents (mem m) ps" using assms(1) by simp_all
  obtain h' m' where m': "LL_APPEND q (cbrk m) ?m = Ret h' m'" "chain (mem m') h' (ps @ [cbrk m])"
      "contents (mem m') (ps @ [cbrk m]) = contents (mem ?m) ps @ [x]"
    using LL_APPEND_appends [OF ch(1), of "cbrk m"] new by auto
  have run: "enqueue q x m = Ret () m'" using m'(1) by (simp add: enqueue_def new_cell_def)
  show ?thesis
  proof (cases ps)
    case Nil
    then have "q = None" using assms(1) by simp
    then show ?thesis using run by simp
  next
    case (Cons p qs)
    then have q: "q = Some p" using assms(1) by simp
    have "h' = q" using m'(1) q by (auto simp: LL_APPEND_def bind_run_Ret_iff)
    moreover have "content (the (mem m' p)) = hd (contents (mem m) ps)"
      using m'(3) ch(2) Cons by (simp add: contents_def)
    ultimately show ?thesis
      using run m'(2,3) ch(2) q Cons dequeue_front [of m' q p "qs @ [cbrk m]"] by auto
  qed
qed

definition demo_queue :: "ptr cells" where
  "demo_queue = \<lparr>mem = [5 \<mapsto> \<lparr>content = 10, ll_next = None\<rparr>], cbrk = 6\<rparr>"

theorem queue_keeps_its_front_witness:
  "\<exists>m'. enqueue (Some 5) 11 demo_queue = Ret () m' \<and> contents (mem m') [5, 6] = [10, 11] \<and> dequeue (Some 5) m' = Ret 10 m'"
  using queue_keeps_its_front [of demo_queue "Some 5" "[5]" 11] by (auto simp: demo_queue_def contents_def)

end
