(* ===== verification/Graph_Free.thy ===== *)
theory Graph_Free
  imports Graph Utlist
begin

text \<open>
  Freeing the graph of the network, and the forwarding table (\<^verbatim>\<open>route.c\<close>). \<^verbatim>\<open>graph_free\<close> iterates
  with \<^verbatim>\<open>HASH_ITER\<close> over tables from which its body deletes; \<open>tb\<close> reads the table from the state.
\<close>

section \<open>Iteration\<close>

definition succ_in :: "('s \<Rightarrow> uthash option) \<Rightarrow> ptr option \<Rightarrow> 's \<Rightarrow> ptr option option" where
  "succ_in tb p s = (case p of None \<Rightarrow> Some None | Some p \<Rightarrow> Option.bind (tb s) (\<lambda>t. map_option app_next (hh t p)))"

partial_function (option) iter_loop :: "('s \<Rightarrow> uthash option) \<Rightarrow> (ptr \<Rightarrow> 's \<Rightarrow> ('s, unit) run) \<Rightarrow> ptr option \<Rightarrow> ptr option \<Rightarrow> 's
    \<Rightarrow> ('s, unit) run option" where
  "iter_loop tb body el tmp s = (case el of
       None \<Rightarrow> Some (Ret () s)
     | Some p \<Rightarrow> (case body p s of
           Stop h s \<Rightarrow> Some (Stop h s)
         | Ret _ s \<Rightarrow> (case succ_in tb tmp s of
               None \<Rightarrow> Some (Stop UB s)
             | Some n \<Rightarrow> iter_loop tb body tmp n s)))"

declare iter_loop.simps [code]

definition iter :: "('s \<Rightarrow> uthash option) \<Rightarrow> (ptr \<Rightarrow> 's \<Rightarrow> ('s, unit) run) \<Rightarrow> 's \<Rightarrow> ('s, unit) run" where
  "iter tb body s = (case tb s of
       None \<Rightarrow> Stop UB s
     | Some t \<Rightarrow> (case succ_in tb (head t) s of
           None \<Rightarrow> Stop UB s
         | Some n \<Rightarrow> looped (iter_loop tb body (head t) n) s))"

section \<open>Freeing\<close>

definition del_edge :: "ptr \<Rightarrow> ptr \<Rightarrow> gworld \<Rightarrow> (gworld, unit) run" where
  "del_edge v e g = bind_run (get_vertex v g) (\<lambda>x g. case HASH_DELETE (nbrs x) e of
       None \<Rightarrow> Stop UB g
     | Some t \<Rightarrow> set_vertex v (\<lambda>x. x\<lparr>nbrs := t\<rparr>) g)"

text \<open>The handle is freed with the edge.\<close>

definition free_edge :: "ptr \<Rightarrow> ptr \<Rightarrow> gworld \<Rightarrow> (gworld, unit) run" where
  "free_edge v e g = (case edges g e of
       None \<Rightarrow> Stop UB g
     | Some _ \<Rightarrow> set_vertex v (\<lambda>x. x\<lparr>nbrs := (nbrs x)\<lparr>hh := (hh (nbrs x))(e := None)\<rparr>\<rparr>) (g\<lparr>edges := (edges g)(e := None)\<rparr>))"

definition del_vertex :: "ptr \<Rightarrow> gworld \<Rightarrow> (gworld, unit) run" where
  "del_vertex v g = (case HASH_DELETE (network g) v of None \<Rightarrow> Stop UB g | Some t \<Rightarrow> Ret () (g\<lparr>network := t\<rparr>))"

definition free_vertex :: "ptr \<Rightarrow> gworld \<Rightarrow> (gworld, unit) run" where
  "free_vertex v g = (case vertices g v of
       None \<Rightarrow> Stop UB g
     | Some _ \<Rightarrow> Ret () (g\<lparr>vertices := (vertices g)(v := None), network := (network g)\<lparr>hh := (hh (network g))(v := None)\<rparr>\<rparr>))"

definition free_nbrs :: "ptr \<Rightarrow> gworld \<Rightarrow> (gworld, unit) run" where
  "free_nbrs v = iter (\<lambda>g. map_option nbrs (vertices g v)) (\<lambda>e g. bind_run (del_edge v e g) (\<lambda>_ g. free_edge v e g))"

text \<open>The parameter of \<^verbatim>\<open>graph_free(network)\<close> is a copy of the pointer: the variable \<^verbatim>\<open>network\<close> keeps its value.\<close>

definition graph_free :: "gworld \<Rightarrow> (gworld, unit) run" where
  "graph_free g = bind_run (iter (\<lambda>g. Some (network g)) (\<lambda>v g.
       bind_run (free_nbrs v g) (\<lambda>_ g.
       bind_run (del_vertex v g) (\<lambda>_ g.
       free_vertex v g))) g) (\<lambda>_ g'.
     Ret () (g'\<lparr>network := (network g')\<lparr>head := head (network g)\<rparr>\<rparr>))"

section \<open>Loops that delete what they visit\<close>

lemma succ_in_rep:
  assumes "tb s = Some t" and "uh_rep t (p # zs)"
  shows "succ_in tb (Some p) s = Some (case zs of [] \<Rightarrow> None | z # _ \<Rightarrow> Some z)"
proof -
  have "dseg (hh t) app_next app_prev None (head t) (p # zs) (Some (tail (tbl t))) None" using assms(2) by (auto simp: uh_rep_def)
  then obtain h where "hh t p = Some h" "app_next h = (case zs of [] \<Rightarrow> None | z # _ \<Rightarrow> Some z)" by (auto dest: dseg_first)
  then show ?thesis using assms(1) by (simp add: succ_in_def)
qed

lemma iter_loop_drains:
  assumes "Q zs s" and tab: "\<And>z zs s. Q (z # zs) s \<Longrightarrow> \<exists>t. tb s = Some t \<and> uh_rep t (z # zs)"
    and body: "\<And>p zs s. Q (p # zs) s \<Longrightarrow> \<exists>s'. body p s = Ret () s' \<and> Q zs s'"
  shows "\<exists>s'. iter_loop tb body (case zs of [] \<Rightarrow> None | z # _ \<Rightarrow> Some z) (case zs of [] \<Rightarrow> None | [z] \<Rightarrow> None | z # y # _ \<Rightarrow> Some y) s =
    Some (Ret () s') \<and> Q [] s'"
  using assms(1)
proof (induction zs arbitrary: s)
  case Nil
  then show ?case by (simp add: iter_loop.simps)
next
  case (Cons p zs)
  let ?tmp = "case zs of [] \<Rightarrow> None | y # _ \<Rightarrow> Some y"
  have tmp: "(case p # zs of [] \<Rightarrow> None | [z] \<Rightarrow> None | z # y # _ \<Rightarrow> Some y) = ?tmp" by (simp split: list.splits)
  obtain s1 where s1: "body p s = Ret () s1" "Q zs s1" using body [OF Cons.prems] by blast
  have nxt: "succ_in tb ?tmp s1 = Some (case zs of [] \<Rightarrow> None | [z] \<Rightarrow> None | z # y # _ \<Rightarrow> Some y)"
  proof (cases zs)
    case (Cons z ys)
    obtain t where "tb s1 = Some t" "uh_rep t (z # ys)" using tab s1(2) Cons by blast
    then show ?thesis using succ_in_rep [of tb s1 t z ys] Cons by (simp split: list.splits)
  qed (simp add: succ_in_def)
  from Cons.IH [OF s1(2)] show ?case unfolding tmp using s1(1) nxt by (subst iter_loop.simps) simp
qed

lemma iter_drains:
  assumes "Q xs s" and "tb s = Some t" and "uh_rep t xs" and "\<And>z zs s. Q (z # zs) s \<Longrightarrow> \<exists>t. tb s = Some t \<and> uh_rep t (z # zs)"
    and "\<And>p zs s. Q (p # zs) s \<Longrightarrow> \<exists>s'. body p s = Ret () s' \<and> Q zs s'"
  shows "\<exists>s'. iter tb body s = Ret () s' \<and> Q [] s'"
proof -
  have hd: "head t = (case xs of [] \<Rightarrow> None | z # _ \<Rightarrow> Some z)" using assms(3) by (cases xs) (auto simp: uh_rep_def)
  have "succ_in tb (head t) s = Some (case xs of [] \<Rightarrow> None | [z] \<Rightarrow> None | z # y # _ \<Rightarrow> Some y)"
    unfolding hd using succ_in_rep [of tb s t] assms(2,3) by (cases xs) (auto simp: succ_in_def split: list.splits)
  then show ?thesis
    using iter_loop_drains [where Q = Q and tb = tb and body = body, OF assms(1,4,5)] assms(2) by (auto simp: iter_def looped_def hd)
qed

text \<open>The first element of a table is deleted and its handle freed.\<close>

lemma delete_first:
  assumes "uh_rep t (p # zs)"
  shows "\<exists>t'. HASH_DELETE t p = Some t' \<and> uh_rep (t'\<lparr>hh := (hh t')(p := None)\<rparr>) zs"
proof -
  obtain t' where t': "HASH_DELETE t p = Some t'" "uh_rep t' zs" using uh.del_ok [OF assms, of p] by auto
  have "p \<notin> set zs" using uh.rep_distinct [OF assms] by simp
  then show ?thesis using t' by (auto intro!: uh_rep_frame)
qed

section \<open>Everything is freed\<close>

abbreviation without :: "(ptr \<Rightarrow> 'a option) \<Rightarrow> ptr set \<Rightarrow> ptr \<Rightarrow> 'a option" where
  "without m A \<equiv> (\<lambda>p. if p \<in> A then None else m p)"

lemma free_nbrs_run:
  assumes x: "vertices g v = Some x" and rep: "uh_rep (nbrs x) el" and al: "\<And>e. e \<in> set el \<Longrightarrow> edges g e \<noteq> None"
  shows "\<exists>x'. free_nbrs v g = Ret () (g\<lparr>vertices := (vertices g)(v \<mapsto> x'), edges := without (edges g) (set el)\<rparr>)"
proof -
  define Q where "Q zs s \<longleftrightarrow> (\<exists>us x'. el = us @ zs \<and> uh_rep (nbrs x') zs \<and>
    s = g\<lparr>vertices := (vertices g)(v \<mapsto> x'), edges := without (edges g) (set us)\<rparr>)" for zs s
  have d: "distinct el" using uh.rep_distinct [OF rep] .
  have "\<exists>s'. free_nbrs v g = Ret () s' \<and> Q [] s'"
    unfolding free_nbrs_def
  proof (rule iter_drains [where Q = Q])
    have "(vertices g)(v \<mapsto> x) = vertices g" using x by (auto simp: fun_eq_iff)
    then have "g = g\<lparr>vertices := (vertices g)(v \<mapsto> x), edges := without (edges g) (set [])\<rparr>" by simp
    then show "Q el g" using rep unfolding Q_def by blast
    show "map_option nbrs (vertices g v) = Some (nbrs x)" using x by simp
    show "\<exists>t. map_option nbrs (vertices s v) = Some t \<and> uh_rep t (z # zs)" if "Q (z # zs) s" for z zs s using that by (auto simp: Q_def)
  next
    fix e zs s assume "Q (e # zs) s"
    then obtain us x' where q: "el = us @ e # zs" "uh_rep (nbrs x') (e # zs)" and
        s: "s = g\<lparr>vertices := (vertices g)(v \<mapsto> x'), edges := without (edges g) (set us)\<rparr>" by (auto simp: Q_def)
    obtain t where t: "HASH_DELETE (nbrs x') e = Some t" "uh_rep (t\<lparr>hh := (hh t)(e := None)\<rparr>) zs" using delete_first [OF q(2)] by blast
    let ?x = "x'\<lparr>nbrs := t\<lparr>hh := (hh t)(e := None)\<rparr>\<rparr>"
    let ?s = "g\<lparr>vertices := (vertices g)(v \<mapsto> ?x), edges := without (edges g) (set (us @ [e]))\<rparr>"
    have "edges g e \<noteq> None" "e \<notin> set us" using al q(1) d by auto
    moreover have "(without (edges g) (set us))(e := None) = without (edges g) (set (us @ [e]))" by (auto simp: fun_eq_iff)
    ultimately have "bind_run (del_edge v e s) (\<lambda>_ g. free_edge v e g) = Ret () ?s"
      using t(1) by (auto simp: del_edge_def free_edge_def get_vertex_def set_vertex_def s)
    moreover have "Q zs ?s" unfolding Q_def using q(1) t(2) by (intro exI [of _ "us @ [e]"] exI [of _ ?x]) simp
    ultimately show "\<exists>s'. bind_run (del_edge v e s) (\<lambda>_ g. free_edge v e g) = Ret () s' \<and> Q zs s'" by blast
  qed (rule rep)
  then show ?thesis by (auto simp: Q_def)
qed

text \<open>
  C33. \<^verbatim>\<open>graph_free\<close> on a well-formed graph returns and frees every vertex of the graph and every
  edge of these vertices, each exactly once, and nothing else. The variable \<^verbatim>\<open>network\<close> is not
  reset: it still points to its first vertex, which is freed.
\<close>

theorem graph_free_frees_all:
  assumes wf: "wf_graph g vs es"
  shows "\<exists>g'. graph_free g = Ret () g' \<and> vertices g' = without (vertices g) (set vs) \<and>
    edges g' = without (edges g) (\<Union>v\<in>set vs. set (es v)) \<and> head (network g') = head (network g) \<and> glock g' = glock g"
proof -
  define Q where "Q zs s \<longleftrightarrow> (\<exists>us t. vs = us @ zs \<and> uh_rep t zs \<and>
    s = g\<lparr>network := t, vertices := without (vertices g) (set us), edges := without (edges g) (\<Union>v\<in>set us. set (es v))\<rparr>)" for zs s
  let ?body = "\<lambda>v g. bind_run (free_nbrs v g) (\<lambda>_ g. bind_run (del_vertex v g) (\<lambda>_ g. free_vertex v g))"
  have rep: "uh_rep (network g) vs" and d: "distinct vs" using wf_graphD(1) [OF wf] uh.rep_distinct by auto
  have "\<exists>s'. iter (\<lambda>g. Some (network g)) ?body g = Ret () s' \<and> Q [] s'"
  proof (rule iter_drains [where Q = Q])
    have "g = g\<lparr>network := network g, vertices := without (vertices g) (set []), edges := without (edges g) (\<Union>v\<in>set []. set (es v))\<rparr>" by simp
    then show "Q vs g" using rep unfolding Q_def by blast
    show "Some (network g) = Some (network g)" ..
    show "\<exists>t. Some (network s) = Some t \<and> uh_rep t (z # zs)" if "Q (z # zs) s" for z zs s using that by (auto simp: Q_def)
  next
    fix v zs s assume "Q (v # zs) s"
    then obtain us t where q: "vs = us @ v # zs" "uh_rep t (v # zs)" and
        s: "s = g\<lparr>network := t, vertices := without (vertices g) (set us), edges := without (edges g) (\<Union>v\<in>set us. set (es v))\<rparr>" by (auto simp: Q_def)
    have v: "v \<in> set vs" "v \<notin> set us" using q(1) d by auto
    obtain x where x: "vertices g v = Some x" "wf_vertex g x (es v)" using wf_graphD(4) [OF wf v(1)] by blast
    have xs: "vertices s v = Some x" using x(1) v(2) by (simp add: s)
    have "edges s e \<noteq> None" if "e \<in> set (es v)" for e
    proof -
      have "e \<notin> set (es u)" if "u \<in> set us" for u using wf_graphD(5) [OF wf v(1), of u] that q(1) v(2) \<open>e \<in> set (es v)\<close> by auto
      then show ?thesis using wf_vertexD(4) [OF x(2) that] by (auto simp: s)
    qed
    then obtain x' where fn: "free_nbrs v s = Ret () (s\<lparr>vertices := (vertices s)(v \<mapsto> x'), edges := without (edges s) (set (es v))\<rparr>)"
      using free_nbrs_run [OF xs wf_vertexD(1) [OF x(2)]] by blast
    obtain t' where t': "HASH_DELETE t v = Some t'" "uh_rep (t'\<lparr>hh := (hh t')(v := None)\<rparr>) zs" using delete_first [OF q(2)] by blast
    let ?s = "g\<lparr>network := t'\<lparr>hh := (hh t')(v := None)\<rparr>, vertices := without (vertices g) (set (us @ [v])), edges := without (edges g) (\<Union>v\<in>set (us @ [v]). set (es v))\<rparr>"
    have "(without (vertices g) (set us))(v := None) = without (vertices g) (set (us @ [v]))"
      "without (without (edges g) (\<Union>v\<in>set us. set (es v))) (set (es v)) = without (edges g) (\<Union>v\<in>set (us @ [v]). set (es v))"
      by (auto simp: fun_eq_iff)
    then have "?body v s = Ret () ?s" using t'(1) unfolding fn by (simp add: del_vertex_def free_vertex_def s cong: if_cong)
    moreover have "Q zs ?s" unfolding Q_def using q(1) t'(2) by (intro exI [of _ "us @ [v]"] exI [of _ "t'\<lparr>hh := (hh t')(v := None)\<rparr>"]) simp
    ultimately show "\<exists>s'. ?body v s = Ret () s' \<and> Q zs s'" by blast
  qed (rule rep)
  then show ?thesis by (auto simp: graph_free_def Q_def)
qed

theorem graph_free_frees_all_witness:
  "\<exists>g g'. evaluate_record demo_vertex id 1 demo_record demo_graph = Ret () g \<and> graph_free g = Ret () g' \<and> (\<exists>v. head (network g') = Some v \<and> vertices g' v = None)"
proof -
  obtain g vs es where g: "evaluate_record demo_vertex id 1 demo_record demo_graph = Ret () g" "wf_graph g vs es" "length vs = 1" using demo_graph_run by blast
  obtain v where v: "vs = [v]" using g(3) by (cases vs) auto
  then have h: "head (network g) = Some v" using wf_graphD(1) [OF g(2)] by (auto simp: uh_rep_def)
  obtain g' where g': "graph_free g = Ret () g'" "vertices g' = without (vertices g) (set vs)" "head (network g') = head (network g)"
    using graph_free_frees_all [OF g(2)] by blast
  have "vertices g' v = None" unfolding g'(2) v by simp
  then show ?thesis using g(1) g'(1,3) h by (intro exI [of _ g] exI [of _ g'] exI [of _ v] conjI) simp_all
qed

end
