(* ===== verification/Forwarding.thy ===== *)
theory Forwarding
  imports Graph
begin

text \<open>
  The forwarding table of \<^verbatim>\<open>route.c\<close>. The table \<^verbatim>\<open>visited\<close> is keyed by the bytes of a whole vertex
  object, which depend on the target: \<open>rep\<close> gives them. The variable \<^verbatim>\<open>table\<close> is local and never set.
\<close>

section \<open>State\<close>

record Visited =
  v_node :: ptr
  v_prev :: "ptr option"
  v_dist :: u32

record ForwardingTable =
  nextHop :: ptr
  ft_dest :: ptr
  ft_dist :: int

text \<open>The graph, the proxy with its members, the table of visited vertices and the entries of forwarding tables.\<close>

record fworld =
  fgraph :: gworld
  fnet :: world
  visited :: uthash
  visits :: "ptr \<Rightarrow> Visited option"
  fts :: "ptr \<Rightarrow> ForwardingTable option"
  fbrk :: ptr

definition find_visited :: "(graph \<Rightarrow> bytes) \<Rightarrow> ptr \<Rightarrow> fworld \<Rightarrow> (fworld, ptr option) run" where
  "find_visited rep n s = (case head (visited s) of
       None \<Rightarrow> Ret None s
     | Some _ \<Rightarrow> (case vertices (fgraph s) n of
           None \<Rightarrow> Stop UB s
         | Some x \<Rightarrow> (case HASH_FIND (visited s) (rep x) of None \<Rightarrow> Stop UB s | Some r \<Rightarrow> Ret r s)))"

definition find_hop :: "ptr \<Rightarrow> fworld \<Rightarrow> (fworld, ptr option) run" where
  "find_hop n s = (case head (members (fnet s)) of
       None \<Rightarrow> Ret None s
     | Some _ \<Rightarrow> (case vertices (fgraph s) n of
           None \<Rightarrow> Stop UB s
         | Some x \<Rightarrow> (case HASH_FIND (members (fnet s)) (tapMAC (g_ls x)) of None \<Rightarrow> Stop UB s | Some r \<Rightarrow> Ret r s)))"

definition set_ft :: "ptr \<Rightarrow> (ForwardingTable \<Rightarrow> ForwardingTable) \<Rightarrow> fworld \<Rightarrow> (fworld, unit) run" where
  "set_ft p f s = (case fts s p of None \<Rightarrow> Stop UB s | Some t \<Rightarrow> Ret () (s\<lparr>fts := (fts s)(p \<mapsto> f t)\<rparr>))"

text \<open>
  The body of the loop ends the function: \<^verbatim>\<open>HASH_ADD\<close> tests the variable \<^verbatim>\<open>table\<close>, whose value is
  indeterminate. \<open>raw\<close> is what \<^verbatim>\<open>malloc\<close> leaves in the entry.
\<close>

definition prepare_forwarding_table :: "(graph \<Rightarrow> bytes) \<Rightarrow> ForwardingTable \<Rightarrow> ptr \<Rightarrow> ptr \<Rightarrow> ptr \<Rightarrow> fworld \<Rightarrow> (fworld, unit) run" where
  "prepare_forwarding_table rep raw cur previous destination s =
     (let tmpFT = fbrk s; s = s\<lparr>fbrk := tmpFT + 1, fts := (fts s)(tmpFT \<mapsto> raw)\<rparr> in
     bind_run (find_visited rep previous s) (\<lambda>v s. case v of
       None \<Rightarrow> Ret () s
     | Some v \<Rightarrow> (case visits s v of
         None \<Rightarrow> Stop UB s
       | Some x \<Rightarrow>
           if v_prev x = None then Ret () s
           else
           bind_run (find_hop (v_node x) s) (\<lambda>p s. case p of
             None \<Rightarrow> Ret () s
           | Some p \<Rightarrow>
               bind_run (set_ft tmpFT (\<lambda>t. t\<lparr>nextHop := p, ft_dest := destination\<rparr>) s) (\<lambda>_ s.
               Stop UB s)))))"

section \<open>No entry is ever made\<close>

lemma find_visited_same: "find_visited rep n s = Ret r s' \<Longrightarrow> s' = s"
  by (auto simp: find_visited_def split: option.splits)

lemma find_hop_same: "find_hop n s = Ret r s' \<Longrightarrow> s' = s"
  by (auto simp: find_hop_def split: option.splits)

text \<open>
  \<^verbatim>\<open>prepare_forwarding_table\<close> makes no forwarding table. When it returns it has changed nothing but
  the entry it allocated, which nothing points to; and if the last vertex on the path was visited, has a
  predecessor and belongs to a member, so that there is an entry to make, it does not return: its
  behaviour is undefined.
\<close>

theorem forwarding_table_never_built:
  "(\<forall>s'. prepare_forwarding_table rep raw cur previous destination s = Ret () s' \<longrightarrow>
      s' = s\<lparr>fbrk := fbrk s + 1, fts := (fts s)(fbrk s \<mapsto> raw)\<rparr>) \<and>
   (vertices (fgraph s) previous = Some x \<and> head (visited s) \<noteq> None \<and> HASH_FIND (visited s) (rep x) = Some (Some v) \<and>
      visits s v = Some y \<and> v_prev y \<noteq> None \<and> vertices (fgraph s) (v_node y) = Some z \<and> head (members (fnet s)) \<noteq> None \<and>
      HASH_FIND (members (fnet s)) (tapMAC (g_ls z)) = Some (Some p) \<longrightarrow>
    (\<exists>s'. prepare_forwarding_table rep raw cur previous destination s = Stop UB s'))"
proof (intro conjI allI impI)
  fix s' assume "prepare_forwarding_table rep raw cur previous destination s = Ret () s'"
  then show "s' = s\<lparr>fbrk := fbrk s + 1, fts := (fts s)(fbrk s \<mapsto> raw)\<rparr>"
    by (cases "find_visited rep previous (s\<lparr>fbrk := fbrk s + 1, fts := (fts s)(fbrk s \<mapsto> raw)\<rparr>)")
      (auto simp: prepare_forwarding_table_def Let_def bind_run_Ret_iff dest: find_visited_same find_hop_same split: option.splits if_splits)
qed (auto simp: prepare_forwarding_table_def Let_def find_visited_def find_hop_def set_ft_def)

section \<open>A concrete path\<close>

text \<open>The vertex 1, of the member with the address 2, was reached from the vertex 0.\<close>

definition demo_rep :: "graph \<Rightarrow> bytes" where
  "demo_rep x = tapMAC (g_ls x)"

definition demo_paths :: fworld where
  "demo_paths = \<lparr>fgraph = demo_graph\<lparr>vertices := [0 \<mapsto> demo_vertex\<lparr>g_ls := demo_ls 1\<rparr>, 1 \<mapsto> demo_vertex\<lparr>g_ls := demo_ls 2\<rparr>]\<rparr>, fnet = demo_world,
     visited = demo_two, visits = [1 \<mapsto> \<lparr>v_node = 0, v_prev = None, v_dist = 0\<rparr>, 2 \<mapsto> \<lparr>v_node = 1, v_prev = Some 0, v_dist = 1\<rparr>],
     fts = Map.empty, fbrk = 0\<rparr>"

lemma demo_two_find: "HASH_FIND demo_two (demo_mac 2) = Some (Some 2)" "head demo_two \<noteq> None"
proof -
  show "HASH_FIND demo_two (demo_mac 2) = Some (Some 2)"
    using uh.lookup_map [OF demo_two_rep(1) demo_two_inj, of "demo_mac 2"] demo_two_rep(2,3) by (simp add: key_map_def demo_mac_def)
  show "head demo_two \<noteq> None" using demo_two_rep(1) by (auto simp: uh_rep_def)
qed

theorem forwarding_table_never_built_witness:
  "\<exists>s'. prepare_forwarding_table demo_rep \<lparr>nextHop = 0, ft_dest = 0, ft_dist = 0\<rparr> 0 1 1 demo_paths = Stop UB s'"
  using forwarding_table_never_built [of demo_rep "\<lparr>nextHop = 0, ft_dest = 0, ft_dist = 0\<rparr>" 0 1 1 demo_paths "demo_vertex\<lparr>g_ls := demo_ls 2\<rparr>" 2
      "\<lparr>v_node = 1, v_prev = Some 0, v_dist = 1\<rparr>" "demo_vertex\<lparr>g_ls := demo_ls 2\<rparr>" 2] demo_two_find
  by (simp add: demo_paths_def demo_rep_def demo_ls_def demo_world_def)

end
