(* ===== verification/Utlist_Sort.thy ===== *)
theory Utlist_Sort
  imports Utlist "HOL-Library.Sorting_Algorithms"
begin

text \<open>
  The merge sorts of \<^verbatim>\<open>utlist.h\<close>. \<^verbatim>\<open>LL_SORT\<close>, \<^verbatim>\<open>DL_SORT\<close> and \<^verbatim>\<open>CDL_SORT\<close> have the same text, except that
  the last two also assign \<^verbatim>\<open>prev\<close>, that the ends of a list are closed differently, and that in a
  circular list the successor of the last element is the first. The record \<open>list_ops\<close> holds what differs;
  the locale \<open>sortable\<close> states what the sort relies on.
\<close>

section \<open>The algorithm\<close>

record ('s, 'a) list_ops =
  val :: "'s \<Rightarrow> ptr \<Rightarrow> 'a option"  \<comment> \<open>what an element holds, \<open>None\<close> if it is not allocated\<close>
  nxt :: "'s \<Rightarrow> ptr \<Rightarrow> ptr option"
  link :: "ptr option \<Rightarrow> ptr option \<Rightarrow> ptr \<Rightarrow> 's \<Rightarrow> ('s, ptr option) run"  \<comment> \<open>append \<^verbatim>\<open>_ls_e\<close> behind \<^verbatim>\<open>_ls_tail\<close>\<close>
  close :: "ptr option \<Rightarrow> ptr option \<Rightarrow> 's \<Rightarrow> ('s, unit) run"  \<comment> \<open>the assignments after a pass\<close>
  stop :: "ptr option \<Rightarrow> ptr option"  \<comment> \<open>what follows the last element of a list with this head\<close>

text \<open>\<^verbatim>\<open>_NEXT(q,list,next)\<close>, with \<^verbatim>\<open>_ls_oldhead\<close> replaced by NULL in a circular list.\<close>

definition sort_next :: "('s, 'a) list_ops \<Rightarrow> ptr option \<Rightarrow> ptr option \<Rightarrow> 's \<Rightarrow> ('s, ptr option) run" where
  "sort_next L oh q s = (case q of
       None \<Rightarrow> Stop UB s
     | Some p \<Rightarrow> if val L s p = None then Stop UB s else Ret (if nxt L s p = oh then None else nxt L s p) s)"

text \<open>The loop over \<^verbatim>\<open>_ls_i\<close> with \<open>k\<close> rounds left.\<close>

fun sort_advance :: "('s, 'a) list_ops \<Rightarrow> ptr option \<Rightarrow> nat \<Rightarrow> nat \<Rightarrow> ptr option \<Rightarrow> 's \<Rightarrow> ('s, nat \<times> ptr option) run" where
  "sort_advance L oh 0 psize q s = Ret (psize, q) s"
| "sort_advance L oh (Suc k) psize q s =
     bind_run (sort_next L oh q s) (\<lambda>q s.
     if q = None then Ret (psize + 1, q) s else sort_advance L oh k (psize + 1) q s)"

text \<open>Whether the next element comes from the first run.\<close>

definition sort_takes_p :: "('s, 'a) list_ops \<Rightarrow> ('a \<Rightarrow> 'a \<Rightarrow> int) \<Rightarrow> ptr option \<Rightarrow> nat \<Rightarrow> ptr option \<Rightarrow> nat \<Rightarrow> 's \<Rightarrow> ('s, bool) run" where
  "sort_takes_p L cmp p psize q qsize s =
     (if psize = 0 then Ret False s
      else if qsize = 0 \<or> q = None then Ret True s
      else case (Option.bind p (val L s), Option.bind q (val L s)) of
        (Some x, Some y) \<Rightarrow> Ret (cmp x y \<le> 0) s
      | _ \<Rightarrow> Stop UB s)"

lemma sort_takes_p_sizes:
  "sort_takes_p L cmp p psize q qsize s = Ret True s' \<Longrightarrow> 0 < psize"
  "sort_takes_p L cmp p psize q qsize s = Ret False s' \<Longrightarrow> 0 < psize \<or> 0 < qsize \<Longrightarrow> 0 < qsize"
  by (auto simp: sort_takes_p_def split: if_splits)

function sort_merge :: "('s, 'a) list_ops \<Rightarrow> ('a \<Rightarrow> 'a \<Rightarrow> int) \<Rightarrow> ptr option \<Rightarrow> ptr option \<Rightarrow> nat \<Rightarrow> ptr option \<Rightarrow> nat \<Rightarrow> ptr option \<Rightarrow> ptr option \<Rightarrow> 's
    \<Rightarrow> ('s, ptr option \<times> ptr option \<times> ptr option) run" where
  "sort_merge L cmp oh p psize q qsize list tail s =
     (if 0 < psize \<or> 0 < qsize \<and> q \<noteq> None then
        bind_run (sort_takes_p L cmp p psize q qsize s) (\<lambda>b s.
        if b then
          bind_run (sort_next L oh p s) (\<lambda>n s.
          bind_run (link L list tail (the p) s) (\<lambda>list s.
          sort_merge L cmp oh n (psize - 1) q qsize list p s))
        else
          bind_run (sort_next L oh q s) (\<lambda>n s.
          bind_run (link L list tail (the q) s) (\<lambda>list s.
          sort_merge L cmp oh p psize n (qsize - 1) list q s)))
      else Ret (q, list, tail) s)"
  by pat_completeness auto

termination
  by (relation "measure (\<lambda>(L, cmp, oh, p, psize, q, qsize, list, tail, s). psize + qsize)")
    (auto dest: sort_takes_p_sizes)

declare sort_merge.simps [simp del]

text \<open>\<^verbatim>\<open>while (_ls_p)\<close>\<close>

partial_function (option) sort_pass :: "('s, 'a) list_ops \<Rightarrow> ('a \<Rightarrow> 'a \<Rightarrow> int) \<Rightarrow> ptr option \<Rightarrow> nat \<Rightarrow> ptr option \<Rightarrow> nat \<Rightarrow> ptr option \<Rightarrow> ptr option \<Rightarrow> 's
    \<Rightarrow> ('s, nat \<times> ptr option \<times> ptr option) run option" where
  "sort_pass L cmp oh insize p nmerges list tail s =
     (if p = None then Some (Ret (nmerges, list, tail) s)
      else if nmerges + 1 \<ge> 2 ^ 31 then Some (Stop UB s)
      else case bind_run (sort_advance L oh insize 0 p s) (\<lambda>(psize, q) s.
          sort_merge L cmp oh p psize q insize list tail s) of
        Stop h s \<Rightarrow> Some (Stop h s)
      | Ret (q, list, tail) s \<Rightarrow> sort_pass L cmp oh insize q (nmerges + 1) list tail s)"

declare sort_pass.simps [code]

text \<open>\<^verbatim>\<open>while (_ls_looping)\<close>; the width of an \<^verbatim>\<open>int\<close> limits \<^verbatim>\<open>_ls_insize\<close>.\<close>

partial_function (option) sort_loop :: "('s, 'a) list_ops \<Rightarrow> ('a \<Rightarrow> 'a \<Rightarrow> int) \<Rightarrow> nat \<Rightarrow> ptr option \<Rightarrow> 's \<Rightarrow> ('s, ptr option \<times> ptr option) run option" where
  "sort_loop L cmp insize list s =
     (case bind_run (looped (sort_pass L cmp (stop L list) insize list 0 None None) s) (\<lambda>(nmerges, list, tail) s.
          bind_run (close L list tail s) (\<lambda>_ s. if 2 * insize \<ge> 2 ^ 31 then Stop UB s else Ret (nmerges, list, tail) s)) of
        Stop h s \<Rightarrow> Some (Stop h s)
      | Ret (nmerges, list, tail) s \<Rightarrow> if nmerges \<le> 1 then Some (Ret (list, tail) s) else sort_loop L cmp (2 * insize) list s)"

declare sort_loop.simps [code]

definition SORT :: "('s, 'a) list_ops \<Rightarrow> ('a \<Rightarrow> 'a \<Rightarrow> int) \<Rightarrow> ptr option \<Rightarrow> 's \<Rightarrow> ('s, ptr option) run" where
  "SORT L cmp list s = (if list = None then Ret None s else bind_run (looped (sort_loop L cmp 1 list) s) (\<lambda>(list, tail) s. Ret list s))"

section \<open>Merging on lists\<close>

text \<open>One pass with runs of length \<open>k\<close>, on the list of the elements.\<close>

fun mrg :: "('b \<Rightarrow> 'b \<Rightarrow> bool) \<Rightarrow> 'b list \<Rightarrow> 'b list \<Rightarrow> 'b list" where
  "mrg le [] [] = []"
| "mrg le [] (y # ys) = y # mrg le [] ys"
| "mrg le (x # xs) [] = x # mrg le xs []"
| "mrg le (x # xs) (y # ys) = (if le x y then x # mrg le xs (y # ys) else y # mrg le (x # xs) ys)"

function runs :: "('b \<Rightarrow> 'b \<Rightarrow> bool) \<Rightarrow> nat \<Rightarrow> 'b list \<Rightarrow> 'b list" where
  "runs le k P = (if P = [] \<or> k = 0 then [] else mrg le (take k P) (take k (drop k P)) @ runs le k (drop (2 * k) P))"
  by pat_completeness auto

termination
  by (relation "measure (\<lambda>(le, k, P). length P)") auto

function count_runs :: "nat \<Rightarrow> 'b list \<Rightarrow> nat" where
  "count_runs k P = (if P = [] \<or> k = 0 then 0 else 1 + count_runs k (drop (2 * k) P))"
  by pat_completeness auto

termination
  by (relation "measure (\<lambda>(k, P). length P)") auto

function run_sorted :: "'a comparator \<Rightarrow> nat \<Rightarrow> 'a list \<Rightarrow> bool" where
  "run_sorted c k xs = (if xs = [] \<or> k = 0 then True else Sorting_Algorithms.sorted c (take k xs) \<and> run_sorted c k (drop k xs))"
  by pat_completeness auto

termination
  by (relation "measure (\<lambda>(c, k, xs). length xs)") auto

declare runs.simps [simp del] count_runs.simps [simp del] run_sorted.simps [simp del]

lemma mrg_Nil [simp]: "mrg le [] ys = ys" "mrg le xs [] = xs"
  by (induction ys, simp_all) (induction xs, simp_all)

lemma mset_mrg [simp]: "mset (mrg le xs ys) = mset xs + mset ys"
  by (induction le xs ys rule: mrg.induct) auto

lemma length_mrg [simp]: "length (mrg le xs ys) = length xs + length ys"
  by (metis mset_mrg size_mset size_union)

lemma set_mrg [simp]: "set (mrg le xs ys) = set xs \<union> set ys"
  by (metis mset_mrg set_mset_mset set_mset_union)

lemma map_mrg: "map f (mrg (\<lambda>x y. le (f x) (f y)) xs ys) = mrg le (map f xs) (map f ys)"
  by (induction "\<lambda>x y. le (f x) (f y)" xs ys rule: mrg.induct) auto

lemma mrg_merge: "mrg (\<lambda>x y. compare c x y \<noteq> Greater) xs ys = Sorting_Algorithms.merge c xs ys"
  by (induction "\<lambda>x y. compare c x y \<noteq> Greater" xs ys rule: mrg.induct) auto

lemma split_drop: "drop (2 * k) P = drop k (drop k P)"
  by (simp add: mult_2)

lemma mset_runs: "0 < k \<Longrightarrow> mset (runs le k P) = mset P"
proof (induction le k P rule: runs.induct)
  case (1 le k P)
  show ?case
  proof (cases "P = []")
    case False
    have "mset P = mset (take k P) + (mset (take k (drop k P)) + mset (drop k (drop k P)))" by (metis append_take_drop_id mset_append)
    then show ?thesis using 1 False by (simp add: runs.simps [of le k P] split_drop)
  qed (simp add: runs.simps)
qed

lemma length_runs: "0 < k \<Longrightarrow> length (runs le k P) = length P"
  by (metis mset_runs size_mset)

lemma map_runs: "map f (runs (\<lambda>x y. le (f x) (f y)) k P) = runs le k (map f P)"
proof (induction "\<lambda>x y. le (f x) (f y)" k P rule: runs.induct)
  case (1 k P)
  then show ?case by (simp add: runs.simps [of _ k P] runs.simps [of _ k "map f P"] map_mrg take_map drop_map)
qed

lemma count_runs_le: "count_runs k P \<le> length P"
proof (induction k P rule: count_runs.induct)
  case (1 k P)
  show ?case
  proof (cases "P = [] \<or> k = 0")
    case False
    then have "count_runs k (drop (2 * k) P) \<le> length P - 2 * k" using 1 by simp
    moreover have "0 < length P" "0 < k" using False by simp_all
    ultimately have "1 + count_runs k (drop (2 * k) P) \<le> length P" by linarith
    then show ?thesis using False by (simp add: count_runs.simps [of k P])
  qed (auto simp: count_runs.simps [of k P])
qed

lemma count_runs_1: "count_runs k P \<le> 1 \<Longrightarrow> 0 < k \<Longrightarrow> length P \<le> 2 * k"
  by (rule ccontr) (simp add: count_runs.simps [of k P] count_runs.simps [of k "drop (2 * k) P"] split: if_splits)

lemma run_sorted_1: "run_sorted c 1 xs"
proof (induction xs)
  case (Cons x xs)
  then show ?case using run_sorted.simps [of c 1 "x # xs"] by simp
qed (simp add: run_sorted.simps)

lemma run_sorted_short: "run_sorted c k xs \<Longrightarrow> length xs \<le> k \<Longrightarrow> 0 < k \<Longrightarrow> Sorting_Algorithms.sorted c xs"
  by (auto simp: run_sorted.simps [of c k xs] split: if_splits)

abbreviation not_greater :: "'a comparator \<Rightarrow> 'a \<Rightarrow> 'a \<Rightarrow> bool" where
  "not_greater c \<equiv> (\<lambda>x y. compare c x y \<noteq> Greater)"

lemma run_sortedD:
  assumes "run_sorted c k xs" and "0 < k"
  shows "Sorting_Algorithms.sorted c (take k xs)" and "run_sorted c k (drop k xs)"
  using assms by (auto simp: run_sorted.simps [of c k xs] run_sorted.simps [of c k "[]"] split: if_splits)

lemma run_sortedI:
  assumes "Sorting_Algorithms.sorted c b" and "run_sorted c k r" and "take k (b @ r) = b \<and> drop k (b @ r) = r"
  shows "run_sorted c k (b @ r)"
  unfolding run_sorted.simps [of c k "b @ r"] unfolding conjunct1 [OF assms(3)] conjunct2 [OF assms(3)] using assms(1,2) by simp

lemma run_sorted_runs: "run_sorted c k xs \<Longrightarrow> 0 < k \<Longrightarrow> run_sorted c (2 * k) (runs (not_greater c) k xs)"
proof (induction "not_greater c" k xs rule: runs.induct)
  case (1 k P)
  let ?b = "mrg (not_greater c) (take k P) (take k (drop k P))" and ?r = "runs (not_greater c) k (drop (2 * k) P)"
  show ?case
  proof (cases "P = []")
    case False
    have d: "run_sorted c k (drop k P)" using run_sortedD(2) [OF "1.prems"] .
    have s: "Sorting_Algorithms.sorted c ?b" unfolding mrg_merge
      using run_sortedD(1) "1.prems" d by (intro sorted_merge) auto
    have r: "run_sorted c (2 * k) ?r" using "1.hyps" [OF _ _ "1.prems"(2)] False "1.prems"(2) run_sortedD(2) [OF d] by (simp add: split_drop)
    have "length ?r = length P - 2 * k" using "1.prems" by (simp add: length_runs)
    then have "take (2 * k) (?b @ ?r) = ?b \<and> drop (2 * k) (?b @ ?r) = ?r" by (cases "length P \<le> 2 * k") auto
    then show ?thesis using run_sortedI [OF s r] False "1.prems" by (simp add: runs.simps [of _ k P])
  qed (simp add: runs.simps run_sorted.simps)
qed

lemma stable_runs:
  "run_sorted c k xs \<Longrightarrow> 0 < k \<Longrightarrow> filter (\<lambda>y. compare c l y = Equiv) (runs (not_greater c) k xs) = filter (\<lambda>y. compare c l y = Equiv) xs"
proof (induction "not_greater c" k xs rule: runs.induct)
  case (1 k P)
  let ?f = "filter (\<lambda>y. compare c l y = Equiv)"
  show ?case
  proof (cases "P = []")
    case False
    have sd: "Sorting_Algorithms.sorted c (take k P)" "Sorting_Algorithms.sorted c (take k (drop k P))" "run_sorted c k (drop (2 * k) P)"
      using "1.prems" run_sortedD split_drop by metis+
    have "?f (mrg (not_greater c) (take k P) (take k (drop k P))) = ?f (take k P) @ ?f (take k (drop k P))"
      unfolding mrg_merge using sd by (simp add: filter_merge merge_stable_segments)
    moreover have "?f (runs (not_greater c) k (drop (2 * k) P)) = ?f (drop k (drop k P))" using 1 False sd(3) by (simp add: split_drop)
    ultimately have "?f (runs (not_greater c) k P) = ?f (take k P @ take k (drop k P) @ drop k (drop k P))"
      using False "1.prems" by (simp add: runs.simps [of _ k P])
    also have "take k P @ take k (drop k P) @ drop k (drop k P) = P" by (metis append_take_drop_id)
    finally show ?thesis .
  qed (simp add: runs.simps)
qed

lemma sort_cong:
  assumes "mset xs = mset ys" and "\<And>l. filter (\<lambda>y. compare c l y = Equiv) xs = filter (\<lambda>y. compare c l y = Equiv) ys"
  shows "Sorting_Algorithms.sort c xs = Sorting_Algorithms.sort c ys"
  by (rule sort_eqI) (use assms in \<open>simp_all add: stable_sort\<close>)

lemma sort_sorted: "Sorting_Algorithms.sorted c xs \<Longrightarrow> Sorting_Algorithms.sort c xs = xs"
  by (rule sort_eqI) simp_all

section \<open>Elements linked in memory\<close>

definition first :: "ptr list \<Rightarrow> ptr option" where
  "first xs = (case xs of [] \<Rightarrow> None | x # _ \<Rightarrow> Some x)"

lemma first_simps [simp]: "first [] = None" "first (x # xs) = Some x" "first xs = None \<longleftrightarrow> xs = []"
  by (simp_all add: first_def split: list.splits)

lemma first_append: "first (xs @ ys) = (if xs = [] then first ys else first xs)"
  by (cases xs) simp_all

lemma first_hd: "xs \<noteq> [] \<Longrightarrow> first xs = Some (hd xs)"
  by (cases xs) simp_all

primrec seg :: "(ptr \<Rightarrow> ptr option) \<Rightarrow> ptr list \<Rightarrow> ptr option \<Rightarrow> bool" where
  "seg n [] e \<longleftrightarrow> True"
| "seg n (x # xs) e \<longleftrightarrow> n x = (if xs = [] then e else first xs) \<and> seg n xs e"

lemma seg_cong: "(\<And>x. x \<in> set xs \<Longrightarrow> n x = n' x) \<Longrightarrow> seg n xs e = seg n' xs e"
  by (induction xs) auto

lemma seg_upd [simp]: "t \<notin> set xs \<Longrightarrow> seg (n(t := v)) xs e = seg n xs e"
  by (rule seg_cong) auto

lemma seg_frame: "seg n xs e \<Longrightarrow> (\<forall>z. z \<notin> A \<longrightarrow> n' z = n z) \<Longrightarrow> A \<inter> set xs = {} \<Longrightarrow> seg n' xs e"
  by (subst seg_cong [of xs n' n]) auto

lemma seg_append: "seg n (xs @ ys) e \<longleftrightarrow> seg n xs (if ys = [] then e else first ys) \<and> seg n ys e"
  by (induction xs) (auto simp: first_append)

lemma seg_drop: "seg n xs e \<Longrightarrow> seg n (drop k xs) e"
  using seg_append [of n "take k xs" "drop k xs" e] by simp

lemma seg_take: "seg n xs e \<Longrightarrow> \<exists>e'. seg n (take k xs) e'"
  using seg_append [of n "take k xs" "drop k xs" e] by auto

lemma seg_extend: "seg n out e \<Longrightarrow> distinct (out @ [x]) \<Longrightarrow> out \<noteq> [] \<Longrightarrow> \<exists>e. seg (n(last out := Some x)) (out @ [x]) e"
proof -
  assume sg: "seg n out e" and d: "distinct (out @ [x])" and "out \<noteq> []"
  then obtain ys t where o: "out = ys @ [t]" by (metis rev_exhaust)
  have "seg (n(t := Some x)) ys (Some t)" using sg [unfolded o seg_append] d by (simp add: o)
  then have "seg (n(last out := Some x)) (out @ [x]) (n x)" using d by (auto simp: o seg_append)
  then show ?thesis by blast
qed

lemma seg_close: "seg n out e \<Longrightarrow> distinct out \<Longrightarrow> out \<noteq> [] \<Longrightarrow> seg (n(last out := e')) out e'"
proof -
  assume sg: "seg n out e" and d: "distinct out" and "out \<noteq> []"
  then obtain ys t where o: "out = ys @ [t]" by (metis rev_exhaust)
  have "seg (n(t := e')) ys (Some t)" using sg [unfolded o seg_append] d by (simp add: o)
  then show ?thesis by (simp add: o seg_append)
qed

section \<open>The contract and the correctness of the sort\<close>

text \<open>
  \<open>cell\<close> reads an element with all its fields. \<open>built\<close> says that the elements appended so far have
  the back links they should have, \<open>whole\<close> that the closed list has.
\<close>

locale sortable =
  fixes L :: "('s, 'a) list_ops" and cell :: "'s \<Rightarrow> ptr \<Rightarrow> 'c" and built :: "'s \<Rightarrow> ptr list \<Rightarrow> bool" and whole :: "'s \<Rightarrow> ptr list \<Rightarrow> bool"
  assumes link_first: "val L s e \<noteq> None \<Longrightarrow> \<exists>s'. link L h None e s = Ret (Some e) s' \<and> val L s' = val L s \<and> nxt L s' = nxt L s \<and>
      (\<forall>x. x \<noteq> e \<longrightarrow> cell s' x = cell s x) \<and> built s' [e]"
    and link_next: "val L s t \<noteq> None \<Longrightarrow> val L s e \<noteq> None \<Longrightarrow> distinct (out @ [t, e]) \<Longrightarrow> built s (out @ [t]) \<Longrightarrow>
      \<exists>s'. link L h (Some t) e s = Ret h s' \<and> val L s' = val L s \<and> nxt L s' = (nxt L s)(t := Some e) \<and>
        (\<forall>x. x \<notin> {t, e} \<longrightarrow> cell s' x = cell s x) \<and> built s' (out @ [t, e])"
    and close_ok: "out \<noteq> [] \<Longrightarrow> distinct out \<Longrightarrow> (\<forall>x \<in> set out. val L s x \<noteq> None) \<Longrightarrow> built s out \<Longrightarrow>
      \<exists>s'. close L (Some (hd out)) (Some (last out)) s = Ret () s' \<and> val L s' = val L s \<and>
        nxt L s' = (nxt L s)(last out := stop L (Some (hd out))) \<and> (\<forall>x. x \<notin> set out \<longrightarrow> cell s' x = cell s x) \<and> whole s' out"
    and stop_ok: "stop L (Some p) = None \<or> stop L (Some p) = Some p"
begin

definition out_ok :: "'s \<Rightarrow> ptr option \<Rightarrow> ptr option \<Rightarrow> ptr list \<Rightarrow> bool" where
  "out_ok s list tail out \<longleftrightarrow> list = first out \<and> tail = (if out = [] then None else Some (last out)) \<and>
     (\<exists>e. seg (nxt L s) out e) \<and> (out = [] \<or> built s out)"

lemma out_ok_Nil [simp]: "out_ok s None None []"
  by (simp add: out_ok_def)

lemma link_out:
  assumes "out_ok s list tail out" and d: "distinct (out @ [e])" and al: "\<forall>x \<in> set (out @ [e]). val L s x \<noteq> None"
  shows "\<exists>s'. link L list tail e s = Ret (first (out @ [e])) s' \<and> out_ok s' (first (out @ [e])) (Some e) (out @ [e]) \<and> val L s' = val L s \<and>
    (\<forall>x. x \<notin> set out \<longrightarrow> nxt L s' x = nxt L s x) \<and> (\<forall>x. x \<notin> set (out @ [e]) \<longrightarrow> cell s' x = cell s x)"
proof (cases "out = []")
  case True
  then show ?thesis using link_first [of s e list] assms by (auto simp: out_ok_def)
next
  case False
  then obtain ys t where o: "out = ys @ [t]" by (metis rev_exhaust)
  obtain e' where sg: "seg (nxt L s) out e'" and b: "built s (ys @ [t])" using assms(1) False by (auto simp: out_ok_def o)
  obtain s' where s': "link L list (Some t) e s = Ret list s'" "val L s' = val L s" "nxt L s' = (nxt L s)(t := Some e)"
      "\<forall>x. x \<notin> {t, e} \<longrightarrow> cell s' x = cell s x" "built s' (ys @ [t, e])"
    using link_next [of s t e ys list] al d b by (auto simp: o)
  have "\<exists>e''. seg (nxt L s') (out @ [e]) e''" using seg_extend [OF sg d False] s'(3) by (simp add: o)
  then have "out_ok s' (first (out @ [e])) (Some e) (out @ [e])" using s'(5) by (simp add: out_ok_def o)
  moreover have "list = first (out @ [e])" "tail = Some t" using assms(1) False by (auto simp: out_ok_def first_append o)
  ultimately show ?thesis using s' by (intro exI [of _ s']) (auto simp: o)
qed

lemma sort_next_seg:
  assumes "seg (nxt L s) (x # xs) e" and "val L s x \<noteq> None" and "\<forall>y \<in> set xs. Some y \<noteq> oh"
  shows "\<exists>n. sort_next L oh (Some x) s = Ret n s \<and> (xs \<noteq> [] \<or> e = oh \<longrightarrow> n = first xs)"
  using assms by (cases xs) (auto simp: sort_next_def)

lemma sort_advance_seg:
  assumes "seg (nxt L s) P oh" and "P \<noteq> []" and "\<forall>x \<in> set P. val L s x \<noteq> None" and "\<forall>x \<in> set (tl P). Some x \<noteq> oh"
  shows "sort_advance L oh k n (first P) s = Ret (n + min k (length P), first (drop k P)) s"
  using assms
proof (induction k arbitrary: n P)
  case (Suc k)
  obtain x xs where P: "P = x # xs" using Suc.prems(2) by (cases P) auto
  have nx: "sort_next L oh (Some x) s = Ret (first xs) s" using sort_next_seg [of s x xs oh oh] Suc.prems by (auto simp: P)
  show ?case
  proof (cases "xs = []")
    case False
    have tl: "\<forall>y \<in> set (tl xs). Some y \<noteq> oh" using Suc.prems(4) by (cases xs) (auto simp: P)
    show ?thesis using Suc.IH [of xs "n + 1"] Suc.prems tl False nx by (simp add: P)
  qed (simp add: P nx)
qed simp

lemma sort_merge_ok:
  assumes "out_ok s list tail out" and "distinct (out @ ps @ Q)" and "\<forall>x \<in> set (out @ ps @ Q). val L s x \<noteq> None"
    and "seg (nxt L s) ps e" and "seg (nxt L s) Q oh" and "\<forall>x \<in> set (tl ps) \<union> set Q. Some x \<noteq> oh" and "ps = [] \<or> p = first ps" and "val L s = V"
  shows "\<exists>s' list' tail'. sort_merge L cmp oh p (length ps) (first Q) k list tail s = Ret (first (drop k Q), list', tail') s' \<and>
    out_ok s' list' tail' (out @ mrg (\<lambda>x y. cmp (the (V x)) (the (V y)) \<le> 0) ps (take k Q)) \<and> val L s' = V \<and>
    (\<forall>x. x \<notin> set (out @ ps @ take k Q) \<longrightarrow> cell s' x = cell s x) \<and> (\<forall>x \<in> set (drop k Q). nxt L s' x = nxt L s x)"
  using assms
proof (induction "length ps + k" arbitrary: s list tail out ps Q e p k rule: less_induct)
  case less
  note pr = less.prems
  let ?le = "\<lambda>x y. cmp (the (V x)) (the (V y)) \<le> 0"
  consider (stop) "ps = []" "k = 0 \<or> Q = []" | (fst) x xs where "ps = x # xs" "k = 0 \<or> Q = [] \<or> ?le x (hd Q)"
    | (snd) y ys j where "Q = y # ys" "k = Suc j" "ps = [] \<or> \<not> ?le (hd ps) y"
    by (cases ps; cases Q; cases k) auto
  then show ?case
  proof cases
    case stop
    then show ?thesis using pr by (intro exI [of _ s] exI [of _ list] exI [of _ tail]) (auto simp: sort_merge.simps [of L cmp oh p])
  next
    case (fst x xs)
    have p: "p = Some x" using pr(7) fst(1) by simp
    have tp: "sort_takes_p L cmp p (length ps) (first Q) k s = Ret True s"
      using pr(3,8) fst by (cases Q) (auto simp: sort_takes_p_def p)
    obtain n where n: "sort_next L oh p s = Ret n s" "xs \<noteq> [] \<longrightarrow> n = first xs" using sort_next_seg [of s x xs e oh] pr(3,4,6) fst(1) p by auto
    obtain s1 where s1: "link L list tail x s = Ret (first (out @ [x])) s1" "out_ok s1 (first (out @ [x])) (Some x) (out @ [x])" "val L s1 = V"
        "\<forall>z. z \<notin> set out \<longrightarrow> nxt L s1 z = nxt L s z" "\<forall>z. z \<notin> set (out @ [x]) \<longrightarrow> cell s1 z = cell s z"
      using link_out [OF pr(1), of x] pr(2,3,8) fst(1) by auto
    have sg: "seg (nxt L s1) xs e" "seg (nxt L s1) Q oh" using pr(2,4,5) fst(1) by (auto intro: seg_frame [OF _ s1(4)])
    have tl: "\<forall>z \<in> set (tl xs) \<union> set Q. Some z \<noteq> oh" using pr(6) fst(1) by (cases xs) auto
    obtain s2 l2 t2 where s2: "sort_merge L cmp oh n (length xs) (first Q) k (first (out @ [x])) (Some x) s1 = Ret (first (drop k Q), l2, t2) s2"
        "out_ok s2 l2 t2 ((out @ [x]) @ mrg ?le xs (take k Q))" "val L s2 = V" "\<forall>z. z \<notin> set ((out @ [x]) @ xs @ take k Q) \<longrightarrow> cell s2 z = cell s1 z"
        "\<forall>z \<in> set (drop k Q). nxt L s2 z = nxt L s1 z"
      using less.hyps [of xs k s1 "first (out @ [x])" "Some x" "out @ [x]" Q e n] s1(2,3) sg tl n(2) pr(2,3,8) fst(1) by auto
    have "sort_merge L cmp oh p (length ps) (first Q) k list tail s = Ret (first (drop k Q), l2, t2) s2"
      using tp n(1) s1(1) s2(1) by (subst sort_merge.simps) (simp add: p fst(1))
    moreover have "mrg ?le ps (take k Q) = x # mrg ?le xs (take k Q)" using fst by (cases Q; cases k) auto
    moreover have "nxt L s2 z = nxt L s z" if "z \<in> set (drop k Q)" for z using that s2(5) s1(4) pr(2) by (auto dest: in_set_dropD)
    ultimately show ?thesis using s2(2-4) s1(5) fst(1) by (intro exI [of _ s2] exI [of _ l2] exI [of _ t2]) auto
  next
    case (snd y ys j)
    have tp: "sort_takes_p L cmp p (length ps) (first Q) k s = Ret False s"
      using pr(3,7,8) snd by (cases ps) (auto simp: sort_takes_p_def)
    have n: "sort_next L oh (Some y) s = Ret (first ys) s" using sort_next_seg [of s y ys oh oh] pr(3,5,6) snd(1) by auto
    obtain s1 where s1: "link L list tail y s = Ret (first (out @ [y])) s1" "out_ok s1 (first (out @ [y])) (Some y) (out @ [y])" "val L s1 = V"
        "\<forall>z. z \<notin> set out \<longrightarrow> nxt L s1 z = nxt L s z" "\<forall>z. z \<notin> set (out @ [y]) \<longrightarrow> cell s1 z = cell s z"
      using link_out [OF pr(1), of y] pr(2,3,8) snd(1) by auto
    have sg: "seg (nxt L s1) ps e" "seg (nxt L s1) ys oh" using pr(2,4,5) snd(1) by (auto intro: seg_frame [OF _ s1(4)])
    obtain s2 l2 t2 where s2: "sort_merge L cmp oh p (length ps) (first ys) j (first (out @ [y])) (Some y) s1 = Ret (first (drop j ys), l2, t2) s2"
        "out_ok s2 l2 t2 ((out @ [y]) @ mrg ?le ps (take j ys))" "val L s2 = V" "\<forall>z. z \<notin> set ((out @ [y]) @ ps @ take j ys) \<longrightarrow> cell s2 z = cell s1 z"
        "\<forall>z \<in> set (drop j ys). nxt L s2 z = nxt L s1 z"
      using less.hyps [of ps j s1 "first (out @ [y])" "Some y" "out @ [y]" ys e p] s1(2,3) sg pr(2,3,6,7,8) snd(1,2) by auto
    have "sort_merge L cmp oh p (length ps) (first Q) k list tail s = Ret (first (drop k Q), l2, t2) s2"
      using tp n s1(1) s2(1) by (subst sort_merge.simps) (simp add: snd(1,2))
    moreover have "mrg ?le ps (take k Q) = y # mrg ?le ps (take j ys)" using snd by (cases ps) auto
    moreover have "nxt L s2 z = nxt L s z" if "z \<in> set (drop k Q)" for z using that s2(5) s1(4) pr(2) snd(1,2) by (auto dest: in_set_dropD)
    ultimately show ?thesis using s2(2-4) s1(5) snd(1,2) by (intro exI [of _ s2] exI [of _ l2] exI [of _ t2]) auto
  qed
qed

text \<open>One merge: the elements behind the two runs are left as they are.\<close>

lemma sort_round_ok:
  fixes V cmp k and P :: "ptr list"
  defines "le \<equiv> \<lambda>x y. cmp (the (V x)) (the (V y)) \<le> (0::int)" and "R \<equiv> drop (2 * k) P"
  defines "B \<equiv> mrg le (take k P) (take k (drop k P))"
  assumes "out_ok s list tail out" and dj: "distinct (out @ P)" and al: "\<forall>x \<in> set (out @ P). val L s x \<noteq> None"
    and sg: "seg (nxt L s) P oh" and tl: "\<forall>x \<in> set (tl P). Some x \<noteq> oh" and "0 < k" and "P \<noteq> []" and V: "val L s = V"
  shows "\<exists>s' list' tail'. bind_run (sort_advance L oh k 0 (first P) s) (\<lambda>(psize, q) s. sort_merge L cmp oh (first P) psize q k list tail s) =
      Ret (first R, list', tail') s' \<and> out_ok s' list' tail' (out @ B) \<and> val L s' = V \<and> (\<forall>x. x \<notin> set (out @ P) \<longrightarrow> cell s' x = cell s x) \<and>
      seg (nxt L s') R oh"
    and "distinct ((out @ B) @ R)" and "set B \<union> set R = set P" and "\<forall>x \<in> set (tl R). Some x \<noteq> oh"
proof -
  let ?ps = "take k P" and ?Q = "drop k P"
  have P: "?ps @ ?Q = P" "?ps \<noteq> []" "drop k ?Q = R" using \<open>0 < k\<close> \<open>P \<noteq> []\<close> by (simp_all add: R_def split_drop)
  have adv: "sort_advance L oh k 0 (first P) s = Ret (length ?ps, first ?Q) s"
    using sort_advance_seg [OF sg \<open>P \<noteq> []\<close> _ tl, of k 0] al by (simp add: min.commute)
  obtain e where e: "seg (nxt L s) ?ps e" using seg_take [OF sg] by blast
  have "tl P = tl ?ps @ ?Q" using P(1,2) by (metis tl_append2)
  then have tl': "\<forall>x \<in> set (tl ?ps) \<union> set ?Q. Some x \<noteq> oh" using tl by simp
  have dj': "distinct (out @ ?ps @ ?Q)" "\<forall>x \<in> set (out @ ?ps @ ?Q). val L s x \<noteq> None" unfolding P(1) using dj al by simp_all
  have fp: "?ps = [] \<or> first P = first ?ps" using \<open>0 < k\<close> \<open>P \<noteq> []\<close> by (cases P; cases k) auto
  obtain s1 l1 t1 where s1: "sort_merge L cmp oh (first P) (length ?ps) (first ?Q) k list tail s = Ret (first R, l1, t1) s1"
      "out_ok s1 l1 t1 (out @ B)" "val L s1 = V" "\<forall>x. x \<notin> set (out @ ?ps @ take k ?Q) \<longrightarrow> cell s1 x = cell s x"
      "\<forall>x \<in> set R. nxt L s1 x = nxt L s x"
    using sort_merge_ok [OF assms(4) dj' e seg_drop [OF sg] tl' fp V, of cmp k] unfolding P(3) le_def B_def by blast
  have "mset ?ps + (mset (take k ?Q) + mset (drop k ?Q)) = mset P" by (metis append_take_drop_id mset_append)
  then have ms: "mset (B @ R) = mset P" unfolding B_def P(3) by (simp add: add.assoc)
  show "set B \<union> set R = set P" using mset_eq_setD [OF ms] by simp
  show "distinct ((out @ B) @ R)" using dj mset_eq_imp_distinct_iff [of "out @ B @ R" "out @ P"] ms by simp
  show "\<forall>x \<in> set (tl R). Some x \<noteq> oh" using tl in_set_dropD [of _ "2 * k" "tl P"] by (auto simp: R_def drop_tl)
  have "seg (nxt L s1) R oh" using seg_drop [OF sg, of "2 * k"] seg_cong [of R "nxt L s1" "nxt L s"] s1(5) by (simp add: R_def)
  moreover have "set (out @ ?ps @ take k ?Q) \<subseteq> set (out @ P)" by (auto dest: in_set_takeD in_set_dropD)
  then have "\<forall>x. x \<notin> set (out @ P) \<longrightarrow> cell s1 x = cell s x" using s1(4) by blast
  ultimately show "\<exists>s' list' tail'. bind_run (sort_advance L oh k 0 (first P) s) (\<lambda>(psize, q) s. sort_merge L cmp oh (first P) psize q k list tail s) =
      Ret (first R, list', tail') s' \<and> out_ok s' list' tail' (out @ B) \<and> val L s' = V \<and> (\<forall>x. x \<notin> set (out @ P) \<longrightarrow> cell s' x = cell s x) \<and>
      seg (nxt L s') R oh"
    using s1(1-3) adv by (intro exI [of _ s1] exI [of _ l1] exI [of _ t1]) simp
qed

lemma sort_pass_ok:
  assumes "out_ok s list tail out" and "distinct (out @ P)" and "\<forall>x \<in> set (out @ P). val L s x \<noteq> None"
    and "seg (nxt L s) P oh" and "\<forall>x \<in> set (tl P). Some x \<noteq> oh" and "0 < k" and "nm + count_runs k P < 2 ^ 31" and "val L s = V"
  shows "\<exists>s' list' tail'. sort_pass L cmp oh k (first P) nm list tail s = Some (Ret (nm + count_runs k P, list', tail') s') \<and>
    out_ok s' list' tail' (out @ runs (\<lambda>x y. cmp (the (V x)) (the (V y)) \<le> 0) k P) \<and> val L s' = V \<and>
    (\<forall>x. x \<notin> set (out @ P) \<longrightarrow> cell s' x = cell s x)"
  using assms
proof (induction "\<lambda>x y. cmp (the (V x)) (the (V y)) \<le> 0" k P arbitrary: s list tail out nm rule: runs.induct)
  case (1 k P)
  note pr = "1.prems"
  let ?le = "\<lambda>x y. cmp (the (V x)) (the (V y)) \<le> 0"
  show ?case
  proof (cases "P = []")
    case True
    then show ?thesis using pr by (subst sort_pass.simps) (auto simp: runs.simps count_runs.simps)
  next
    case False
    let ?R = "drop (2 * k) P" and ?B = "mrg ?le (take k P) (take k (drop k P))"
    note rnd = sort_round_ok [OF pr(1-6) False pr(8)]
    obtain s1 l1 t1 where s1: "bind_run (sort_advance L oh k 0 (first P) s) (\<lambda>(psize, q) s. sort_merge L cmp oh (first P) psize q k list tail s) = Ret (first ?R, l1, t1) s1"
        "out_ok s1 l1 t1 (out @ ?B)" "val L s1 = V" "\<forall>x. x \<notin> set (out @ P) \<longrightarrow> cell s1 x = cell s x" "seg (nxt L s1) ?R oh"
      using rnd(1) [of cmp] by blast
    have al: "\<forall>x \<in> set ((out @ ?B) @ ?R). val L s1 x \<noteq> None" using pr(3,8) s1(3) rnd(3) [of cmp] by auto
    have cnt: "count_runs k P = Suc (count_runs k ?R)" using False pr(6) by (simp add: count_runs.simps [of k P])
    obtain s2 l2 t2 where s2: "sort_pass L cmp oh k (first ?R) (nm + 1) l1 t1 s1 = Some (Ret (nm + 1 + count_runs k ?R, l2, t2) s2)"
        "out_ok s2 l2 t2 ((out @ ?B) @ runs ?le k ?R)" "val L s2 = V" "\<forall>x. x \<notin> set ((out @ ?B) @ ?R) \<longrightarrow> cell s2 x = cell s1 x"
      using "1.hyps" [OF _ s1(2) rnd(2) [of cmp] al s1(5) rnd(4) pr(6) _ s1(3), of "nm + 1"] False pr(6,7) cnt by auto
    have "sort_pass L cmp oh k (first P) nm list tail s = Some (Ret (nm + count_runs k P, l2, t2) s2)"
      using s1(1) s2(1) pr(7) False cnt by (subst sort_pass.simps) simp
    moreover have "runs ?le k P = ?B @ runs ?le k ?R" using False pr(6) by (simp add: runs.simps [of ?le k P])
    ultimately show ?thesis using s2(2-4) s1(4) rnd(3) [of cmp] by (intro exI [of _ s2] exI [of _ l2] exI [of _ t2]) auto
  qed
qed

text \<open>One round of the outer loop.\<close>

lemma sort_loop_round:
  fixes V cmp k and P :: "ptr list"
  defines "P' \<equiv> runs (\<lambda>x y. cmp (the (V x)) (the (V y)) \<le> (0::int)) k P"
  assumes P: "P \<noteq> []" "distinct P" and al: "\<forall>x \<in> set P. val L s x \<noteq> None" and sg: "seg (nxt L s) P (stop L (Some (hd P)))" and n: "length P \<le> 2 ^ 29"
    and k: "0 < k" "k = 1 \<or> k < length P" and V: "val L s = V"
  shows "\<exists>s'. sort_loop L cmp k (Some (hd P)) s = (if count_runs k P \<le> 1 then Some (Ret (Some (hd P'), Some (last P')) s') else sort_loop L cmp (2 * k) (Some (hd P')) s') \<and>
    seg (nxt L s') P' (stop L (Some (hd P'))) \<and> whole s' P' \<and> val L s' = V \<and> (\<forall>x. x \<notin> set P \<longrightarrow> cell s' x = cell s x)"
    and "P' \<noteq> []" and "distinct P'" and "mset P' = mset P" and "set P' = set P" and "length P' = length P"
proof -
  let ?oh = "stop L (Some (hd P))"
  show ms: "mset P' = mset P" unfolding P'_def by (rule mset_runs [OF k(1)])
  show ne: "P' \<noteq> []" using ms P(1) by auto
  show dj: "distinct P'" using ms P(2) mset_eq_imp_distinct_iff by blast
  show st: "set P' = set P" using ms mset_eq_setD by blast
  show "length P' = length P" using ms mset_eq_length by blast
  have cnt: "count_runs k P < 2 ^ 31" using count_runs_le [of k P] n by simp
  have tl: "\<forall>x \<in> set (tl P). Some x \<noteq> ?oh" using stop_ok [of "hd P"] P by (cases P) auto
  obtain s1 l1 t1 where s1: "sort_pass L cmp ?oh k (first P) 0 None None s = Some (Ret (count_runs k P, l1, t1) s1)"
      "out_ok s1 l1 t1 P'" "val L s1 = V" "\<forall>x. x \<notin> set P \<longrightarrow> cell s1 x = cell s x"
    using sort_pass_ok [OF out_ok_Nil, of P s ?oh k 0 V cmp] P(2) al sg k(1) V tl cnt by (auto simp: P'_def)
  have lt: "l1 = Some (hd P')" "t1 = Some (last P')" and bu: "built s1 P'" and sg1: "\<exists>e. seg (nxt L s1) P' e"
    using s1(2) ne by (auto simp: out_ok_def first_hd)
  obtain s2 where s2: "close L l1 t1 s1 = Ret () s2" "val L s2 = V" "nxt L s2 = (nxt L s1)(last P' := stop L (Some (hd P')))"
      "\<forall>x. x \<notin> set P \<longrightarrow> cell s2 x = cell s1 x" "whole s2 P'"
    using close_ok [OF ne dj _ bu] al V s1(3) lt st by auto
  have "2 * k < 2 ^ 31" using n k by auto
  then have "sort_loop L cmp k (Some (hd P)) s = (if count_runs k P \<le> 1 then Some (Ret (Some (hd P'), Some (last P')) s2) else sort_loop L cmp (2 * k) (Some (hd P')) s2)"
    using s1(1) s2(1) lt P(1) by (subst sort_loop.simps) (simp add: looped_def first_hd)
  moreover have "seg (nxt L s2) P' (stop L (Some (hd P')))" using sg1 seg_close [OF _ dj ne] s2(3) by auto
  ultimately show "\<exists>s'. sort_loop L cmp k (Some (hd P)) s = (if count_runs k P \<le> 1 then Some (Ret (Some (hd P'), Some (last P')) s') else sort_loop L cmp (2 * k) (Some (hd P')) s') \<and>
      seg (nxt L s') P' (stop L (Some (hd P'))) \<and> whole s' P' \<and> val L s' = V \<and> (\<forall>x. x \<notin> set P \<longrightarrow> cell s' x = cell s x)"
    using s2(2,4,5) s1(4) by auto
qed

lemma sort_loop_ok:
  assumes "P \<noteq> []" and "distinct P" and "\<forall>x \<in> set P. val L s x \<noteq> None" and "seg (nxt L s) P (stop L (Some (hd P)))" and "length P \<le> 2 ^ 29"
    and "0 < k" and "k = 1 \<or> k < length P" and "val L s = V" and cmp: "\<And>x y. cmp x y \<le> 0 \<longleftrightarrow> compare c x y \<noteq> Greater"
    and "run_sorted c k (map (\<lambda>x. the (V x)) P)"
  shows "\<exists>s' P'. sort_loop L cmp k (Some (hd P)) s = Some (Ret (Some (hd P'), Some (last P')) s') \<and> mset P' = mset P \<and> seg (nxt L s') P' (stop L (Some (hd P'))) \<and>
    whole s' P' \<and> val L s' = V \<and> (\<forall>x. x \<notin> set P \<longrightarrow> cell s' x = cell s x) \<and>
    map (\<lambda>x. the (V x)) P' = Sorting_Algorithms.sort c (map (\<lambda>x. the (V x)) P)"
  using assms(1-8,10)
proof (induction "length P - k" arbitrary: P k s rule: less_induct)
  case less
  note pr = less.prems
  let ?v = "\<lambda>x. the (V x)"
  define P' where "P' = runs (\<lambda>x y. cmp (?v x) (?v y) \<le> 0) k P"
  note rnd = sort_loop_round [OF pr(1-8), where cmp = cmp, folded P'_def]
  have mp: "map ?v P' = runs (not_greater c) k (map ?v P)" using map_runs [of ?v "\<lambda>x y. cmp x y \<le> 0" k P] cmp by (simp add: P'_def)
  have srt: "Sorting_Algorithms.sort c (map ?v P') = Sorting_Algorithms.sort c (map ?v P)"
    unfolding mp by (rule sort_cong) (simp_all add: mset_runs stable_runs pr(6,9))
  have rs: "run_sorted c (2 * k) (map ?v P')" unfolding mp by (rule run_sorted_runs [OF pr(9,6)])
  obtain s2 where s2: "sort_loop L cmp k (Some (hd P)) s = (if count_runs k P \<le> 1 then Some (Ret (Some (hd P'), Some (last P')) s2) else sort_loop L cmp (2 * k) (Some (hd P')) s2)"
      "seg (nxt L s2) P' (stop L (Some (hd P')))" "whole s2 P'" "val L s2 = V" "\<forall>x. x \<notin> set P \<longrightarrow> cell s2 x = cell s x" using rnd(1) by blast
  show ?case
  proof (cases "count_runs k P \<le> 1")
    case True
    have "length (map ?v P') \<le> 2 * k" using count_runs_1 [OF True pr(6)] rnd(6) by simp
    then have "map ?v P' = Sorting_Algorithms.sort c (map ?v P)" using run_sorted_short [OF rs] sort_sorted srt pr(6) by fastforce
    then show ?thesis using s2 True rnd(4) by (intro exI [of _ s2] exI [of _ P']) auto
  next
    case False
    have len: "2 * k < length P'" using False count_runs.simps [of k P] count_runs.simps [of k "drop (2 * k) P"] pr(6) rnd(6) by (auto split: if_splits)
    have al: "\<forall>x \<in> set P'. val L s2 x \<noteq> None" using pr(3,8) s2(4) rnd(5) by auto
    have "length P' - 2 * k < length P - k" using len rnd(6) pr(6) by linarith
    from less.hyps [OF this rnd(2,3) al s2(2) _ _ _ s2(4) rs] obtain s3 P3 where s3: "sort_loop L cmp (2 * k) (Some (hd P')) s2 = Some (Ret (Some (hd P3), Some (last P3)) s3)"
        "mset P3 = mset P'" "seg (nxt L s3) P3 (stop L (Some (hd P3)))" "whole s3 P3" "val L s3 = V" "\<forall>x. x \<notin> set P' \<longrightarrow> cell s3 x = cell s2 x"
        "map ?v P3 = Sorting_Algorithms.sort c (map ?v P')" using len rnd(6) pr(5,6) by auto
    then show ?thesis using s2(1,5) False srt rnd(4,5) by (intro exI [of _ s3] exI [of _ P3]) auto
  qed
qed

theorem SORT_ok:
  assumes "P \<noteq> []" and "distinct P" and "\<forall>x \<in> set P. val L s x \<noteq> None" and "seg (nxt L s) P (stop L (Some (hd P)))" and "length P \<le> 2 ^ 29"
    and "\<And>x y. cmp x y \<le> 0 \<longleftrightarrow> compare c x y \<noteq> Greater"
  shows "\<exists>s' P'. SORT L cmp (Some (hd P)) s = Ret (Some (hd P')) s' \<and> mset P' = mset P \<and> seg (nxt L s') P' (stop L (Some (hd P'))) \<and>
    whole s' P' \<and> val L s' = val L s \<and> (\<forall>x. x \<notin> set P \<longrightarrow> cell s' x = cell s x) \<and>
    map (\<lambda>x. the (val L s x)) P' = Sorting_Algorithms.sort c (map (\<lambda>x. the (val L s x)) P)"
proof -
  have "0 < (1::nat)" "1 = (1::nat) \<or> 1 < length P" by simp_all
  from sort_loop_ok [OF assms(1-5) this refl assms(6) run_sorted_1] show ?thesis by (auto simp: SORT_def looped_def)
qed

end

section \<open>Singly linked lists\<close>

definition ll_link :: "ptr option \<Rightarrow> ptr option \<Rightarrow> ptr \<Rightarrow> 'a cells \<Rightarrow> ('a cells, ptr option) run" where
  "ll_link list tail e m = (case tail of
       Some t \<Rightarrow> bind_run (set_next t (Some e) m) (\<lambda>_ m. Ret list m)
     | None \<Rightarrow> Ret (Some e) m)"

definition ll_close :: "ptr option \<Rightarrow> ptr option \<Rightarrow> 'a cells \<Rightarrow> ('a cells, unit) run" where
  "ll_close list tail m = (case tail of Some t \<Rightarrow> set_next t None m | None \<Rightarrow> Ret () m)"

definition ll_ops :: "('a cells, 'a) list_ops" where
  "ll_ops = \<lparr>val = \<lambda>m p. map_option content (mem m p), nxt = \<lambda>m p. Option.bind (mem m p) ll_next,
     link = ll_link, close = ll_close, stop = \<lambda>_. None\<rparr>"

definition LL_SORT :: "('a \<Rightarrow> 'a \<Rightarrow> int) \<Rightarrow> ptr option \<Rightarrow> 'a cells \<Rightarrow> ('a cells, ptr option) run" where
  "LL_SORT cmp list m = SORT ll_ops cmp list m"

lemma ll_ops_simps [simp]:
  "val ll_ops m p = map_option content (mem m p)" "nxt ll_ops m p = Option.bind (mem m p) ll_next" "link ll_ops = ll_link" "close ll_ops = ll_close" "stop ll_ops h = None"
  by (simp_all add: ll_ops_def)

lemma set_next_view:
  assumes "mem m t = Some c"
  shows "set_next t n m = Ret () (m\<lparr>mem := (mem m)(t \<mapsto> c\<lparr>ll_next := n\<rparr>)\<rparr>)"
    and "val ll_ops (m\<lparr>mem := (mem m)(t \<mapsto> c\<lparr>ll_next := n\<rparr>)\<rparr>) = val ll_ops m"
    and "nxt ll_ops (m\<lparr>mem := (mem m)(t \<mapsto> c\<lparr>ll_next := n\<rparr>)\<rparr>) = (nxt ll_ops m)(t := n)"
  using assms by (auto simp: set_next_def fun_eq_iff)

interpretation ll: sortable ll_ops mem "\<lambda>_ _. True" "\<lambda>_ _. True"
proof unfold_locales
  show "\<exists>s'. link ll_ops h None e s = Ret (Some e) s' \<and> val ll_ops s' = val ll_ops s \<and> nxt ll_ops s' = nxt ll_ops s \<and>
      (\<forall>x. x \<noteq> e \<longrightarrow> mem s' x = mem s x) \<and> True" for s :: "'a cells" and e h
    by (simp add: ll_link_def)
  show "\<exists>s'. link ll_ops h (Some t) e s = Ret h s' \<and> val ll_ops s' = val ll_ops s \<and> nxt ll_ops s' = (nxt ll_ops s)(t := Some e) \<and>
      (\<forall>x. x \<notin> {t, e} \<longrightarrow> mem s' x = mem s x) \<and> True" if "val ll_ops s t \<noteq> None" for s :: "'a cells" and t e h
  proof -
    obtain c where "mem s t = Some c" using \<open>val ll_ops s t \<noteq> None\<close> by auto
    from set_next_view [OF this] show ?thesis by (auto simp: ll_link_def)
  qed
  show "\<exists>s'. close ll_ops (Some (hd out)) (Some (last out)) s = Ret () s' \<and> val ll_ops s' = val ll_ops s \<and>
      nxt ll_ops s' = (nxt ll_ops s)(last out := stop ll_ops (Some (hd out))) \<and> (\<forall>x. x \<notin> set out \<longrightarrow> mem s' x = mem s x) \<and> True"
    if "out \<noteq> []" and al: "\<forall>x \<in> set out. val ll_ops s x \<noteq> None" for s :: "'a cells" and out
  proof -
    obtain c where "mem s (last out) = Some c" using al last_in_set [OF \<open>out \<noteq> []\<close>] by auto
    from set_next_view [OF this] show ?thesis using last_in_set [OF \<open>out \<noteq> []\<close>] by (auto simp: ll_close_def)
  qed
qed simp

lemma chain_seg: "chain (mem m) h ps \<longleftrightarrow> h = first ps \<and> seg (nxt ll_ops m) ps None \<and> (\<forall>x \<in> set ps. val ll_ops m x \<noteq> None)"
proof (induction ps arbitrary: h)
  case (Cons p ps)
  show ?case
  proof (cases "mem m p")
    case (Some c)
    then show ?thesis using Cons.IH [of "ll_next c"] by (cases ps) auto
  qed auto
qed auto

lemma contents_val: "\<forall>x \<in> set ps. val ll_ops m x \<noteq> None \<Longrightarrow> contents (mem m) ps = map (\<lambda>x. the (val ll_ops m x)) ps"
  by (auto simp: contents_def)

text \<open>
  C27. \<^verbatim>\<open>LL_SORT\<close> sorts a linked list in place: it returns, the elements are the same, their contents in order
  are those that a stable sort by the comparison function gives, and no other element changes. \<open>c\<close> is the
  order that the comparison function \<open>cmp\<close> of the caller computes; a list of eight-byte cells on the 32-bit target has
  at most \<open>2 ^ 29\<close> elements.
\<close>

theorem LL_SORT_sorts:
  assumes "chain (mem m) list ps" and "length ps \<le> 2 ^ 29" and "\<And>x y. cmp x y \<le> 0 \<longleftrightarrow> compare c x y \<noteq> Greater"
  shows "\<exists>m' list' qs. LL_SORT cmp list m = Ret list' m' \<and> chain (mem m') list' qs \<and> mset qs = mset ps \<and>
    contents (mem m') qs = Sorting_Algorithms.sort c (contents (mem m) ps) \<and> (\<forall>x. x \<notin> set ps \<longrightarrow> mem m' x = mem m x)"
proof (cases "ps = []")
  case True
  then show ?thesis using assms(1) by (auto simp: LL_SORT_def SORT_def contents_def)
next
  case False
  have h: "list = Some (hd ps)" "seg (nxt ll_ops m) ps (stop ll_ops (Some (hd ps)))" "\<forall>x \<in> set ps. val ll_ops m x \<noteq> None"
    using assms(1) False by (auto simp: chain_seg first_hd)
  obtain m' qs where m': "SORT ll_ops cmp list m = Ret (Some (hd qs)) m'" "mset qs = mset ps" "seg (nxt ll_ops m') qs None" "val ll_ops m' = val ll_ops m"
      "\<forall>x. x \<notin> set ps \<longrightarrow> mem m' x = mem m x" "map (\<lambda>x. the (val ll_ops m x)) qs = Sorting_Algorithms.sort c (map (\<lambda>x. the (val ll_ops m x)) ps)"
    using ll.SORT_ok [OF False chain_distinct [OF assms(1)] h(3,2) assms(2,3)] h(1) by auto
  have ne: "qs \<noteq> []" "set qs = set ps" using m'(2) False mset_eq_setD by auto
  have al: "\<forall>x \<in> set qs. val ll_ops m' x \<noteq> None" using h(3) ne(2) m'(4) by simp
  have "chain (mem m') (Some (hd qs)) qs" using m'(3) ne(1) al by (simp add: chain_seg first_hd)
  then show ?thesis using m'(1,2,5,6) m'(4) al h(3) by (auto simp: LL_SORT_def contents_val intro!: exI [of _ m'] exI [of _ qs])
qed

definition demo_unsorted :: "int cells" where
  "demo_unsorted = \<lparr>mem = [0 \<mapsto> \<lparr>content = 3, ll_next = Some 1\<rparr>, 1 \<mapsto> \<lparr>content = 1, ll_next = Some 2\<rparr>, 2 \<mapsto> \<lparr>content = 2, ll_next = None\<rparr>], cbrk = 3\<rparr>"

theorem LL_SORT_sorts_witness:
  "\<exists>m' list' qs. LL_SORT (-) (Some 0) demo_unsorted = Ret list' m' \<and> chain (mem m') list' qs \<and> contents (mem m') qs = [1, 2, 3]"
proof -
  have "chain (mem demo_unsorted) (Some 0) [0, 1, 2]" by (simp add: demo_unsorted_def)
  moreover have "x - y \<le> 0 \<longleftrightarrow> compare default x y \<noteq> Greater" for x y :: int by auto
  moreover have "Sorting_Algorithms.sort default (contents (mem demo_unsorted) [0, 1, 2]) = [1, 2, 3]"
    by (simp add: demo_unsorted_def contents_def)
  ultimately show ?thesis using LL_SORT_sorts [of demo_unsorted "Some 0" "[0, 1, 2]" "(-)" default] by auto
qed

end
