(* ===== verification/Utlist_DL.thy ===== *)
theory Utlist_DL
  imports Utlist_Sort
begin

text \<open>
  The doubly linked lists of \<^verbatim>\<open>utlist.h\<close>, plain (\<^verbatim>\<open>DL_\<close>) and circular (\<^verbatim>\<open>CDL_\<close>). The memory has one map
  for each field of an element; an element without a value is not allocated. In both kinds of list
  the \<^verbatim>\<open>prev\<close> of the first element is the last one, so that the back links form a ring.
\<close>

section \<open>Elements\<close>

record 'a dcells =
  dval :: "ptr \<Rightarrow> 'a option"
  dnext :: "ptr \<Rightarrow> ptr option"
  dprev :: "ptr \<Rightarrow> ptr option"

definition valid :: "ptr option \<Rightarrow> 'a dcells \<Rightarrow> bool" where
  "valid p m \<longleftrightarrow> (case p of None \<Rightarrow> False | Some q \<Rightarrow> dval m q \<noteq> None)"

definition rd_next :: "ptr option \<Rightarrow> 'a dcells \<Rightarrow> ('a dcells, ptr option) run" where
  "rd_next p m = (if valid p m then Ret (dnext m (the p)) m else Stop UB m)"

definition rd_prev :: "ptr option \<Rightarrow> 'a dcells \<Rightarrow> ('a dcells, ptr option) run" where
  "rd_prev p m = (if valid p m then Ret (dprev m (the p)) m else Stop UB m)"

definition wr_next :: "ptr option \<Rightarrow> ptr option \<Rightarrow> 'a dcells \<Rightarrow> ('a dcells, unit) run" where
  "wr_next p n m = (if valid p m then Ret () (m\<lparr>dnext := (dnext m)(the p := n)\<rparr>) else Stop UB m)"

definition wr_prev :: "ptr option \<Rightarrow> ptr option \<Rightarrow> 'a dcells \<Rightarrow> ('a dcells, unit) run" where
  "wr_prev p n m = (if valid p m then Ret () (m\<lparr>dprev := (dprev m)(the p := n)\<rparr>) else Stop UB m)"

text \<open>A failed assertion aborts the process.\<close>

definition assert_that :: "bool \<Rightarrow> 's \<Rightarrow> ('s, unit) run" where
  "assert_that b s = (if b then Ret () s else Stop (Exit 134) s)"

lemma valid_simps [simp]: "valid None m = False" "valid (Some p) m = (dval m p \<noteq> None)"
  by (simp_all add: valid_def)

lemmas field_defs = rd_next_def rd_prev_def wr_next_def wr_prev_def assert_that_def

section \<open>The macros\<close>

definition DL_PREPEND :: "ptr option \<Rightarrow> ptr option \<Rightarrow> 'a dcells \<Rightarrow> ('a dcells, ptr option) run" where
  "DL_PREPEND head add m =
     bind_run (wr_next add head m) (\<lambda>_ m.
     bind_run
       (if head \<noteq> None then
          bind_run (rd_prev head m) (\<lambda>p m.
          bind_run (wr_prev add p m) (\<lambda>_ m.
          wr_prev head add m))
        else wr_prev add add m) (\<lambda>_ m.
     Ret add m))"

definition DL_APPEND :: "ptr option \<Rightarrow> ptr option \<Rightarrow> 'a dcells \<Rightarrow> ('a dcells, ptr option) run" where
  "DL_APPEND head add m =
     (if head \<noteq> None then
        bind_run (rd_prev head m) (\<lambda>p m.
        bind_run (wr_prev add p m) (\<lambda>_ m.
        bind_run (rd_prev head m) (\<lambda>p m.
        bind_run (wr_next p add m) (\<lambda>_ m.
        bind_run (wr_prev head add m) (\<lambda>_ m.
        bind_run (wr_next add None m) (\<lambda>_ m.
        Ret head m))))))
      else
        bind_run (wr_prev add add m) (\<lambda>_ m.
        bind_run (wr_next add None m) (\<lambda>_ m.
        Ret add m)))"

definition DL_CONCAT :: "ptr option \<Rightarrow> ptr option \<Rightarrow> 'a dcells \<Rightarrow> ('a dcells, ptr option) run" where
  "DL_CONCAT head1 head2 m =
     (if head2 = None then Ret head1 m
      else if head1 = None then Ret head2 m
      else
        bind_run (rd_prev head2 m) (\<lambda>tmp m.
        bind_run (rd_prev head1 m) (\<lambda>p m.
        bind_run (wr_prev head2 p m) (\<lambda>_ m.
        bind_run (rd_prev head1 m) (\<lambda>p m.
        bind_run (wr_next p head2 m) (\<lambda>_ m.
        bind_run (wr_prev head1 tmp m) (\<lambda>_ m.
        Ret head1 m)))))))"

definition DL_DELETE :: "ptr option \<Rightarrow> ptr option \<Rightarrow> 'a dcells \<Rightarrow> ('a dcells, ptr option) run" where
  "DL_DELETE head del m =
     bind_run (rd_prev del m) (\<lambda>p m.
     bind_run (assert_that (p \<noteq> None) m) (\<lambda>_ m.
     if p = del then Ret None m
     else if del = head then
       bind_run (rd_next del m) (\<lambda>n m.
       bind_run (wr_prev n p m) (\<lambda>_ m.
       rd_next del m))
     else
       bind_run (rd_next del m) (\<lambda>n m.
       bind_run (wr_next p n m) (\<lambda>_ m.
       bind_run (rd_next del m) (\<lambda>n m.
       bind_run (rd_prev del m) (\<lambda>p m.
       bind_run (if n \<noteq> None then wr_prev n p m else wr_prev head p m) (\<lambda>_ m.
       Ret head m)))))))"

definition DL_REPLACE_ELEM :: "ptr option \<Rightarrow> ptr option \<Rightarrow> ptr option \<Rightarrow> 'a dcells \<Rightarrow> ('a dcells, ptr option) run" where
  "DL_REPLACE_ELEM head el add m =
     bind_run (assert_that (head \<noteq> None \<and> el \<noteq> None \<and> add \<noteq> None) m) (\<lambda>_ m.
     bind_run (rd_next el m) (\<lambda>n m.
     if head = el then
       bind_run (wr_next add n m) (\<lambda>_ m.
       bind_run (rd_next el m) (\<lambda>n m.
       bind_run
         (if n = None then wr_prev add add m
          else
            bind_run (rd_prev el m) (\<lambda>p m.
            bind_run (wr_prev add p m) (\<lambda>_ m.
            bind_run (rd_next add m) (\<lambda>n m.
            wr_prev n add m)))) (\<lambda>_ m.
       Ret add m)))
     else
       bind_run (wr_next add n m) (\<lambda>_ m.
       bind_run (rd_prev el m) (\<lambda>p m.
       bind_run (wr_prev add p m) (\<lambda>_ m.
       bind_run (rd_prev add m) (\<lambda>p m.
       bind_run (wr_next p add m) (\<lambda>_ m.
       bind_run (rd_next el m) (\<lambda>n m.
       bind_run
         (if n = None then wr_prev head add m
          else bind_run (rd_next add m) (\<lambda>n m. wr_prev n add m)) (\<lambda>_ m.
       Ret head m)))))))))"

definition DL_PREPEND_ELEM :: "ptr option \<Rightarrow> ptr option \<Rightarrow> ptr option \<Rightarrow> 'a dcells \<Rightarrow> ('a dcells, ptr option) run" where
  "DL_PREPEND_ELEM head el add m =
     bind_run (assert_that (head \<noteq> None \<and> el \<noteq> None \<and> add \<noteq> None) m) (\<lambda>_ m.
     bind_run (wr_next add el m) (\<lambda>_ m.
     bind_run (rd_prev el m) (\<lambda>p m.
     bind_run (wr_prev add p m) (\<lambda>_ m.
     bind_run (wr_prev el add m) (\<lambda>_ m.
     if head = el then Ret add m
     else
       bind_run (rd_prev add m) (\<lambda>p m.
       bind_run (wr_next p add m) (\<lambda>_ m.
       Ret head m)))))))"

definition CDL_PREPEND :: "ptr option \<Rightarrow> ptr option \<Rightarrow> 'a dcells \<Rightarrow> ('a dcells, ptr option) run" where
  "CDL_PREPEND head add m =
     bind_run
       (if head \<noteq> None then
          bind_run (rd_prev head m) (\<lambda>p m.
          bind_run (wr_prev add p m) (\<lambda>_ m.
          bind_run (wr_next add head m) (\<lambda>_ m.
          bind_run (wr_prev head add m) (\<lambda>_ m.
          bind_run (rd_prev add m) (\<lambda>p m.
          wr_next p add m)))))
        else
          bind_run (wr_prev add add m) (\<lambda>_ m.
          wr_next add add m)) (\<lambda>_ m.
     Ret add m)"

definition CDL_DELETE :: "ptr option \<Rightarrow> ptr option \<Rightarrow> 'a dcells \<Rightarrow> ('a dcells, ptr option) run" where
  "CDL_DELETE head del m =
     bind_run (if head = del then bind_run (rd_next head m) (\<lambda>n m. Ret (n = head) m) else Ret False m) (\<lambda>single m.
     if single then Ret None m
     else
       bind_run (rd_next del m) (\<lambda>n m.
       bind_run (rd_prev del m) (\<lambda>p m.
       bind_run (wr_prev n p m) (\<lambda>_ m.
       bind_run (rd_prev del m) (\<lambda>p m.
       bind_run (rd_next del m) (\<lambda>n m.
       bind_run (wr_next p n m) (\<lambda>_ m.
       if del = head then rd_next del m else Ret head m)))))))"

definition CDL_REPLACE_ELEM :: "ptr option \<Rightarrow> ptr option \<Rightarrow> ptr option \<Rightarrow> 'a dcells \<Rightarrow> ('a dcells, ptr option) run" where
  "CDL_REPLACE_ELEM head el add m =
     bind_run (assert_that (head \<noteq> None \<and> el \<noteq> None \<and> add \<noteq> None) m) (\<lambda>_ m.
     bind_run (rd_next el m) (\<lambda>n m.
     if n = el then
       bind_run (wr_next add add m) (\<lambda>_ m.
       bind_run (wr_prev add add m) (\<lambda>_ m.
       Ret add m))
     else
       bind_run (wr_next add n m) (\<lambda>_ m.
       bind_run (rd_prev el m) (\<lambda>p m.
       bind_run (wr_prev add p m) (\<lambda>_ m.
       bind_run (rd_next add m) (\<lambda>n m.
       bind_run (wr_prev n add m) (\<lambda>_ m.
       bind_run (rd_prev add m) (\<lambda>p m.
       bind_run (wr_next p add m) (\<lambda>_ m.
       Ret (if head = el then add else head) m)))))))))"

definition CDL_PREPEND_ELEM :: "ptr option \<Rightarrow> ptr option \<Rightarrow> ptr option \<Rightarrow> 'a dcells \<Rightarrow> ('a dcells, ptr option) run" where
  "CDL_PREPEND_ELEM head el add m =
     bind_run (assert_that (head \<noteq> None \<and> el \<noteq> None \<and> add \<noteq> None) m) (\<lambda>_ m.
     bind_run (wr_next add el m) (\<lambda>_ m.
     bind_run (rd_prev el m) (\<lambda>p m.
     bind_run (wr_prev add p m) (\<lambda>_ m.
     bind_run (wr_prev el add m) (\<lambda>_ m.
     bind_run (rd_prev add m) (\<lambda>p m.
     bind_run (wr_next p add m) (\<lambda>_ m.
     Ret (if head = el then add else head) m)))))))"

section \<open>Lists in memory\<close>

definition dl :: "bool \<Rightarrow> 'a dcells \<Rightarrow> ptr option \<Rightarrow> ptr list \<Rightarrow> bool" where
  "dl circ m h ps \<longleftrightarrow> h = first ps \<and> distinct ps \<and> (\<forall>x \<in> set ps. dval m x \<noteq> None) \<and>
     seg (dnext m) ps (if circ then first ps else None) \<and> seg (dprev m) (rev ps) (first (rev ps))"

lemma seg_last: "seg n xs e \<Longrightarrow> xs \<noteq> [] \<Longrightarrow> n (last xs) = e"
  by (induction xs) auto

lemma seg_at: "seg n (us @ x # ws) e \<Longrightarrow> n x = (if ws = [] then e else first ws)"
  by (simp add: seg_append)

lemma seg_snoc: "seg n xs e \<Longrightarrow> distinct (xs @ [x]) \<Longrightarrow> xs \<noteq> [] \<Longrightarrow> seg (n(last xs := Some x, x := e')) (xs @ [x]) e'"
  by (auto simp: seg_append intro: seg_close)

lemma seg_remove: "seg n (us @ x # ws) e \<Longrightarrow> distinct (us @ x # ws) \<Longrightarrow> us \<noteq> [] \<Longrightarrow> seg (n(last us := n x)) (us @ ws) e"
proof (cases us rule: rev_cases)
  case (snoc ys t)
  assume "seg n (us @ x # ws) e" "distinct (us @ x # ws)"
  then show ?thesis by (cases ws) (auto simp: seg_append snoc)
qed simp

lemma seg_insert: "seg n (us @ ws) e \<Longrightarrow> distinct (us @ x # ws) \<Longrightarrow> us \<noteq> [] \<Longrightarrow> ws \<noteq> [] \<Longrightarrow>
  seg (n(x := first ws, last us := Some x)) (us @ x # ws) e"
proof (cases us rule: rev_cases)
  case (snoc ys t)
  assume "seg n (us @ ws) e" "distinct (us @ x # ws)" "ws \<noteq> []"
  then show ?thesis by (auto simp: seg_append snoc)
qed simp

lemma seg_replace: "seg n (us @ x # ws) e \<Longrightarrow> distinct (us @ x # ws) \<Longrightarrow> a \<notin> set (us @ x # ws) \<Longrightarrow> us \<noteq> [] \<Longrightarrow>
  seg (n(a := n x, last us := Some a)) (us @ a # ws) e"
proof (cases us rule: rev_cases)
  case (snoc ys t)
  assume "seg n (us @ x # ws) e" "distinct (us @ x # ws)" "a \<notin> set (us @ x # ws)"
  then show ?thesis by (auto simp: seg_append snoc)
qed simp

text \<open>Rings: the back links of both kinds of list, and the forward links of a circular one.\<close>

abbreviation ring :: "(ptr \<Rightarrow> ptr option) \<Rightarrow> ptr list \<Rightarrow> bool" where
  "ring n xs \<equiv> seg n xs (first xs)"

lemma first_rev: "first (rev xs) = (if xs = [] then None else Some (last xs))"
  by (cases xs rule: rev_cases) simp_all

lemma ring_snoc: "ring n xs \<Longrightarrow> distinct (xs @ [x]) \<Longrightarrow> xs \<noteq> [] \<Longrightarrow> ring (n(last xs := Some x, x := first xs)) (xs @ [x])"
  using seg_snoc [of n xs "first xs" x "first xs"] by (simp add: first_append)

lemma ring_cons: "ring n xs \<Longrightarrow> distinct (x # xs) \<Longrightarrow> xs \<noteq> [] \<Longrightarrow> ring (n(x := first xs, last xs := Some x)) (x # xs)"
  using seg_close [of "n(x := first xs)" xs "first xs" "Some x"] by (auto simp: fun_upd_twist)

lemma ring_remove:
  assumes "ring n (us @ x # ws)" and "distinct (us @ x # ws)" and "us @ ws \<noteq> []"
  shows "ring (n((if us = [] then last ws else last us) := n x)) (us @ ws)"
proof (cases "us = []")
  case True
  then show ?thesis using assms seg_close [of n ws "first us" "first ws"] seg_close [of n ws "Some x" "first ws"] by auto
next
  case False
  then show ?thesis using seg_remove [OF assms(1,2) False] by (simp add: first_append)
qed

lemma ring_insert:
  assumes "ring n (us @ ws)" and "distinct (us @ x # ws)" and "ws \<noteq> []"
  shows "ring (n(x := first ws, (if us = [] then last ws else last us) := Some x)) (us @ x # ws)"
proof (cases "us = []")
  case True
  then show ?thesis using ring_cons [of n ws x] assms by simp
next
  case False
  then show ?thesis using seg_insert [of n us ws "first us" x] assms by (simp add: first_append)
qed

lemma ring_replace:
  assumes "ring n (us @ x # ws)" and "distinct (us @ x # ws)" and "us @ ws \<noteq> []" and "a \<notin> set (us @ x # ws)"
  shows "ring (n(a := n x, (if us = [] then last ws else last us) := Some a)) (us @ a # ws)"
proof (cases "us = []")
  case True
  have "seg (n(a := first ws)) ws (Some x)" using assms True by auto
  then show ?thesis using True assms seg_close [of "n(a := first ws)" ws "Some x" "Some a"] by auto
next
  case False
  then show ?thesis using seg_replace [OF assms(1,2,4) False] by (simp add: first_append)
qed

section \<open>The macros on lists\<close>

abbreviation kept :: "'a dcells \<Rightarrow> 'a dcells \<Rightarrow> ptr set \<Rightarrow> bool" where
  "kept m m' A \<equiv> dval m' = dval m \<and> (\<forall>x. x \<notin> A \<longrightarrow> dnext m' x = dnext m x \<and> dprev m' x = dprev m x)"

lemma dlD:
  assumes "dl circ m h ps"
  shows "h = first ps" and "distinct ps" and "x \<in> set ps \<Longrightarrow> dval m x \<noteq> None" and "seg (dnext m) ps (if circ then first ps else None)"
    and "ring (dprev m) (rev ps)"
  using assms by (auto simp: dl_def)

lemma dl_at:
  assumes "dl circ m h (us @ x # ws)"
  shows "dprev m x = Some (if us = [] then last (x # ws) else last us)" and "dnext m x = (if ws \<noteq> [] then first ws else if circ then h else None)"
proof -
  have "dprev m x = (if rev us = [] then first (rev ws @ x # rev us) else first (rev us))" using dlD(5) [OF assms] by (intro seg_at [of _ "rev ws"]) simp
  then show "dprev m x = Some (if us = [] then last (x # ws) else last us)" by (auto simp: first_rev first_append)
  show "dnext m x = (if ws \<noteq> [] then first ws else if circ then h else None)" using seg_at [OF dlD(4) [OF assms]] dlD(1) [OF assms] by simp
qed

lemma DL_PREPEND_prepends:
  assumes "dl False m h ps" and "dval m a \<noteq> None" and "a \<notin> set ps"
  shows "\<exists>m'. DL_PREPEND h (Some a) m = Ret (Some a) m' \<and> dl False m' (Some a) (a # ps) \<and> kept m m' (insert a (set ps))"
proof (cases ps)
  case Nil
  then show ?thesis using assms by (auto simp: DL_PREPEND_def field_defs dl_def)
next
  case (Cons x ws)
  note d = dlD [OF assms(1)]
  have x: "h = Some x" "dval m x \<noteq> None" "a \<noteq> x" using d(1,3) Cons assms(3) by auto
  have px: "dprev m x = first (rev ps)" using dl_at(1) [of False m h "[]" x ws] assms(1) by (simp add: Cons first_append first_rev)
  have "ring ((dprev m)(x := Some a, a := first (rev ps))) (rev ps @ [a])" using ring_snoc [OF d(5), of a] d(2) assms(3) by (simp add: Cons)
  then have "dl False (m\<lparr>dnext := (dnext m)(a := h), dprev := (dprev m)(a := first (rev ps), x := Some a)\<rparr>) (Some a) (a # ps)"
    using d assms(2,3) x(3) by (auto simp: dl_def fun_upd_twist)
  moreover have "DL_PREPEND h (Some a) m = Ret (Some a) (m\<lparr>dnext := (dnext m)(a := h), dprev := (dprev m)(a := first (rev ps), x := Some a)\<rparr>)"
    using x assms(2) px by (simp add: DL_PREPEND_def field_defs)
  ultimately show ?thesis by (auto simp: Cons)
qed

lemma DL_APPEND_appends:
  assumes "dl False m h ps" and "dval m a \<noteq> None" and "a \<notin> set ps"
  shows "\<exists>h' m'. DL_APPEND h (Some a) m = Ret h' m' \<and> dl False m' h' (ps @ [a]) \<and> kept m m' (insert a (set ps))"
proof (cases ps)
  case Nil
  then show ?thesis using assms by (auto simp: DL_APPEND_def field_defs dl_def)
next
  case (Cons x ws)
  note d = dlD [OF assms(1)]
  have x: "h = Some x" "dval m x \<noteq> None" "a \<noteq> x" "dval m (last ps) \<noteq> None" "a \<noteq> last ps" using d(1,3) Cons assms(3) last_in_set [of ps] by auto
  have px: "dprev m x = Some (last ps)" using dl_at(1) [of False m h "[]" x ws] assms(1) by (simp add: Cons)
  have "ring ((dprev m)(a := first (rev ps), x := Some a)) (a # rev ps)" using ring_cons [OF d(5), of a] d(2) assms(3) by (simp add: Cons)
  moreover have "seg ((dnext m)(last ps := Some a, a := None)) (ps @ [a]) None" using seg_snoc [of "dnext m" ps None a None] d(2,4) assms(3) by (simp add: Cons)
  ultimately have "dl False (m\<lparr>dprev := (dprev m)(a := first (rev ps), x := Some a), dnext := (dnext m)(last ps := Some a, a := None)\<rparr>) h (ps @ [a])"
    using d assms(2,3) by (auto simp: dl_def Cons)
  moreover have "DL_APPEND h (Some a) m = Ret h (m\<lparr>dprev := (dprev m)(a := first (rev ps), x := Some a), dnext := (dnext m)(last ps := Some a, a := None)\<rparr>)"
    using x assms(2) px by (simp add: DL_APPEND_def field_defs first_rev first_append Cons)
  ultimately show ?thesis using last_in_set [of ps] by (auto simp: Cons)
qed

lemma DL_DELETE_removes:
  assumes "dl False m h (us @ x # ws)"
  shows "\<exists>h' m'. DL_DELETE h (Some x) m = Ret h' m' \<and> dl False m' h' (us @ ws) \<and> kept m m' (set us \<union> set ws)"
proof -
  note d = dlD [OF assms] and at = dl_at [OF assms]
  have ring: "ring ((dprev m)((if ws = [] then hd us else hd ws) := dprev m x)) (rev (us @ ws))" if "us @ ws \<noteq> []"
    using ring_remove [of "dprev m" "rev ws" x "rev us"] d(2,5) that by (auto simp: last_rev Int_commute)
  consider "us = []" "ws = []" | "us = []" "ws \<noteq> []" | "us \<noteq> []" by blast
  then show ?thesis
  proof cases
    case 1
    then show ?thesis using d(3) at by (auto simp: DL_DELETE_def field_defs dl_def)
  next
    case 2
    have al: "dval m x \<noteq> None" "dval m (hd ws) \<noteq> None" "last ws \<noteq> x" using d(2,3) 2 hd_in_set [of ws] last_in_set [of ws] by auto
    then have "DL_DELETE h (Some x) m = Ret (first ws) (m\<lparr>dprev := (dprev m)(hd ws := Some (last ws))\<rparr>)"
      using at d(1) 2 by (simp add: DL_DELETE_def field_defs first_hd)
    moreover have "dl False (m\<lparr>dprev := (dprev m)(hd ws := Some (last ws))\<rparr>) (first ws) ws" using d ring at 2 by (auto simp: dl_def)
    ultimately show ?thesis using 2 hd_in_set [of ws] by auto
  next
    case 3
    let ?b = "if ws = [] then hd us else hd ws" and ?n = "if ws \<noteq> [] then first ws else None"
    have al: "dval m x \<noteq> None" "dval m (last us) \<noteq> None" "last us \<noteq> x" "dval m ?b \<noteq> None" "h = Some (hd us)" "hd us \<noteq> x"
      using d(1-3) 3 hd_in_set [of ws] last_in_set [of us] hd_in_set [of us] by (auto simp: first_append first_hd)
    then have "DL_DELETE h (Some x) m = Ret h (m\<lparr>dnext := (dnext m)(last us := ?n), dprev := (dprev m)(?b := Some (last us))\<rparr>)"
      using at 3 by (cases "ws = []") (auto simp: DL_DELETE_def field_defs first_hd)
    moreover have "dl False (m\<lparr>dnext := (dnext m)(last us := ?n), dprev := (dprev m)(?b := Some (last us))\<rparr>) h (us @ ws)"
      using d ring at 3 seg_remove [of "dnext m" us x ws None] by (auto simp: dl_def first_append)
    ultimately show ?thesis using 3 hd_in_set [of ws] last_in_set [of us] hd_in_set [of us] by auto
  qed
qed

lemma DL_CONCAT_concats:
  assumes "dl False m h1 ps" and "dl False m h2 qs" and "set ps \<inter> set qs = {}"
  shows "\<exists>h' m'. DL_CONCAT h1 h2 m = Ret h' m' \<and> dl False m' h' (ps @ qs) \<and> kept m m' (set ps \<union> set qs)"
proof (cases "ps = [] \<or> qs = []")
  case True
  then show ?thesis using assms by (auto simp: DL_CONCAT_def dl_def)
next
  case False
  then have ne: "ps \<noteq> []" "qs \<noteq> []" by simp_all
  note d1 = dlD [OF assms(1)] and d2 = dlD [OF assms(2)]
  have h: "h1 = Some (hd ps)" "h2 = Some (hd qs)" using d1(1) d2(1) ne by (simp_all add: first_hd)
  have pv: "dprev m (hd ps) = Some (last ps)" "dprev m (hd qs) = Some (last qs)"
    using dl_at(1) [of False m h1 "[]" "hd ps" "tl ps"] dl_at(1) [of False m h2 "[]" "hd qs" "tl qs"] assms(1,2) ne by simp_all
  have al: "dval m (hd ps) \<noteq> None" "dval m (hd qs) \<noteq> None" "dval m (last ps) \<noteq> None" using d1(3) d2(3) ne by auto
  let ?pv = "(dprev m)(hd qs := Some (last ps), hd ps := Some (last qs))" and ?nx = "(dnext m)(last ps := Some (hd qs))"
  have nin: "hd ps \<notin> set qs" "hd qs \<notin> set ps" "last ps \<notin> set qs" using ne assms(3) hd_in_set [of ps] hd_in_set [of qs] last_in_set [of ps] by blast+
  have hh: "hd ps \<noteq> hd qs" using nin(2) ne(1) by (metis hd_in_set)
  have "seg ((dprev m)(hd qs := Some (last ps))) (rev qs) (Some (last ps))" using seg_close [OF d2(5), of "Some (last ps)"] d2(2) ne by (simp add: last_rev)
  moreover have "seg ((dprev m)(hd ps := Some (last qs))) (rev ps) (Some (last qs))" using seg_close [OF d1(5), of "Some (last qs)"] d1(2) ne by (simp add: last_rev)
  ultimately have "seg ?pv (rev qs @ rev ps) (Some (last qs))"
    using nin ne seg_upd [of "hd qs" "rev ps" "(dprev m)(hd ps := Some (last qs))"] by (simp add: seg_append first_rev fun_upd_twist [OF hh])
  moreover have "seg ?nx (ps @ qs) None" using seg_close [of "dnext m" ps None "Some (hd qs)"] d1(2,4) d2(4) nin ne by (simp add: seg_append first_hd)
  ultimately have "dl False (m\<lparr>dprev := ?pv, dnext := ?nx\<rparr>) h1 (ps @ qs)"
    using d1 d2 ne assms(3) by (auto simp: dl_def first_append first_rev)
  moreover have "DL_CONCAT h1 h2 m = Ret h1 (m\<lparr>dprev := ?pv, dnext := ?nx\<rparr>)" using h pv al hh by (simp add: DL_CONCAT_def field_defs)
  ultimately show ?thesis using ne by auto
qed

lemma DL_REPLACE_ELEM_replaces:
  assumes "dl False m h (us @ x # ws)" and "dval m a \<noteq> None" and "a \<notin> set (us @ x # ws)"
  shows "\<exists>h' m'. DL_REPLACE_ELEM h (Some x) (Some a) m = Ret h' m' \<and> dl False m' h' (us @ a # ws) \<and> kept m m' (insert a (set us \<union> set ws))"
proof -
  note d = dlD [OF assms(1)] and at = dl_at [OF assms(1)]
  let ?b = "if ws = [] then hd us else hd ws" and ?n = "if ws \<noteq> [] then first ws else None"
  have ring: "ring ((dprev m)(a := dprev m x, ?b := Some a)) (rev (us @ a # ws))" if "us @ ws \<noteq> []"
    using ring_replace [of "dprev m" "rev ws" x "rev us" a] d(2,5) that assms(3) by (auto simp: last_rev Int_commute)
  have al: "dval m x \<noteq> None" "a \<noteq> x" "us \<noteq> [] \<Longrightarrow> dval m (last us) \<noteq> None \<and> last us \<noteq> a \<and> hd us \<noteq> x \<and> hd us \<noteq> a \<and> last us \<noteq> x"
      "us @ ws \<noteq> [] \<Longrightarrow> dval m ?b \<noteq> None \<and> ?b \<noteq> a \<and> ?b \<noteq> x"
    using d(2,3) assms(3) hd_in_set [of ws] last_in_set [of us] hd_in_set [of us] by auto
  consider "us = []" "ws = []" | "us = []" "ws \<noteq> []" | "us \<noteq> []" by blast
  then show ?thesis
  proof cases
    case 1
    then show ?thesis using d(1) at al(1,2) assms(2) by (auto simp: DL_REPLACE_ELEM_def field_defs dl_def)
  next
    case 2
    let ?m = "m\<lparr>dnext := (dnext m)(a := first ws), dprev := (dprev m)(a := dprev m x, hd ws := Some a)\<rparr>"
    have "DL_REPLACE_ELEM h (Some x) (Some a) m = Ret (Some a) ?m" using at al d(1) 2 assms(2) by (auto simp: DL_REPLACE_ELEM_def field_defs first_hd)
    moreover have "dl False ?m (Some a) (a # ws)" using d ring 2 assms(2,3) by (auto simp: dl_def)
    ultimately show ?thesis using 2 by auto
  next
    case 3
    let ?m = "m\<lparr>dnext := (dnext m)(a := ?n, last us := Some a), dprev := (dprev m)(a := dprev m x, ?b := Some a)\<rparr>"
    have "DL_REPLACE_ELEM h (Some x) (Some a) m = Ret h ?m"
      using at al d(1) 3 assms(2) by (cases "ws = []") (auto simp: DL_REPLACE_ELEM_def field_defs first_hd first_append)
    moreover have "dl False ?m h (us @ a # ws)"
      using d ring 3 assms(2,3) at(2) seg_replace [of "dnext m" us x ws None a] by (auto simp: dl_def first_append)
    ultimately show ?thesis using 3 hd_in_set [of ws] last_in_set [of us] hd_in_set [of us] by auto
  qed
qed

lemma DL_PREPEND_ELEM_inserts:
  assumes "dl False m h (us @ x # ws)" and "dval m a \<noteq> None" and "a \<notin> set (us @ x # ws)"
  shows "\<exists>h' m'. DL_PREPEND_ELEM h (Some x) (Some a) m = Ret h' m' \<and> dl False m' h' (us @ a # x # ws) \<and> kept m m' (set (us @ a # x # ws))"
proof -
  note d = dlD [OF assms(1)] and at = dl_at [OF assms(1)]
  have al: "dval m x \<noteq> None" "a \<noteq> x" "us \<noteq> [] \<Longrightarrow> dval m (last us) \<noteq> None \<and> last us \<noteq> a \<and> hd us \<noteq> x \<and> last us \<noteq> x"
    using d(2,3) assms(3) last_in_set [of us] hd_in_set [of us] by auto
  show ?thesis
  proof (cases "us = []")
    case True
    let ?m = "m\<lparr>dnext := (dnext m)(a := Some x), dprev := (dprev m)(a := dprev m x, x := Some a)\<rparr>"
    have "ring ((dprev m)(x := Some a, a := first (rev (x # ws)))) (rev (x # ws) @ [a])"
      using ring_snoc [of "dprev m" "rev (x # ws)" a] d(2,5) True assms(3) by (simp add: last_rev)
    then have "dl False ?m (Some a) (a # x # ws)" using d at True al(2) assms(2,3) by (auto simp: dl_def first_append first_rev fun_upd_twist)
    moreover have "DL_PREPEND_ELEM h (Some x) (Some a) m = Ret (Some a) ?m" using d(1) al at True assms(2) by (auto simp: DL_PREPEND_ELEM_def field_defs)
    ultimately show ?thesis using True by auto
  next
    case False
    let ?m = "m\<lparr>dnext := (dnext m)(a := Some x, last us := Some a), dprev := (dprev m)(a := dprev m x, x := Some a)\<rparr>"
    have "ring ((dprev m)(a := first (rev us), x := Some a)) ((rev ws @ [x]) @ a # rev us)"
      using ring_insert [of "dprev m" "rev ws @ [x]" "rev us" a] d(2,5) False assms(3) by (auto simp: last_rev Int_commute)
    moreover have "seg ((dnext m)(a := Some x, last us := Some a)) (us @ a # x # ws) None"
      using seg_insert [of "dnext m" us "x # ws" None a] d(2,4) False assms(3) by auto
    ultimately have "dl False ?m h (us @ a # x # ws)" using d at False al(2) assms(2,3) by (auto simp: dl_def first_append first_rev)
    moreover have "DL_PREPEND_ELEM h (Some x) (Some a) m = Ret h ?m" using d(1) al at False assms(2) by (auto simp: DL_PREPEND_ELEM_def field_defs first_append first_hd)
    ultimately show ?thesis using False last_in_set [of us] by auto
  qed
qed

section \<open>The macros on circular lists\<close>

lemma CDL_PREPEND_prepends:
  assumes "dl True m h ps" and "dval m a \<noteq> None" and "a \<notin> set ps"
  shows "\<exists>m'. CDL_PREPEND h (Some a) m = Ret (Some a) m' \<and> dl True m' (Some a) (a # ps) \<and> kept m m' (insert a (set ps))"
proof (cases "ps = []")
  case True
  then show ?thesis using assms by (auto simp: CDL_PREPEND_def field_defs dl_def)
next
  case False
  note d = dlD [OF assms(1)]
  have al: "h = Some (hd ps)" "dval m (hd ps) \<noteq> None" "hd ps \<noteq> a" "dval m (last ps) \<noteq> None" "last ps \<noteq> a"
    using d(1,3) False assms(3) hd_in_set [of ps] last_in_set [of ps] by (auto simp: first_hd)
  have pv: "dprev m (hd ps) = Some (last ps)" using dl_at(1) [of True m h "[]" "hd ps" "tl ps"] assms(1) False by simp
  let ?m = "m\<lparr>dprev := (dprev m)(a := Some (last ps), hd ps := Some a), dnext := (dnext m)(a := h, last ps := Some a)\<rparr>"
  have "ring ((dprev m)(hd ps := Some a, a := first (rev ps))) (rev ps @ [a])"
    using ring_snoc [OF d(5), of a] d(2) assms(3) False by (simp add: last_rev)
  moreover have "ring ((dnext m)(a := first ps, last ps := Some a)) (a # ps)" using ring_cons [of "dnext m" ps a] d(2,4) assms(3) False by simp
  ultimately have "dl True ?m (Some a) (a # ps)"
    using d assms(2,3) False al(3) by (auto simp: dl_def first_append first_rev fun_upd_twist)
  moreover have "CDL_PREPEND h (Some a) m = Ret (Some a) ?m" using al pv assms(2) by (simp add: CDL_PREPEND_def field_defs)
  ultimately show ?thesis using False by auto
qed

text \<open>The neighbours of an element in a ring.\<close>

lemma dl_neighbours:
  assumes "dl True m h (us @ x # ws)" and "us @ ws \<noteq> []"
  defines "p \<equiv> if us = [] then last ws else last us" and "n \<equiv> if ws = [] then hd us else hd ws"
  shows "dprev m x = Some p" and "dnext m x = Some n" and "p \<in> set us \<union> set ws" and "n \<in> set us \<union> set ws" and "p \<noteq> x" and "n \<noteq> x"
    and "dval m x \<noteq> None" and "dval m p \<noteq> None" and "dval m n \<noteq> None"
proof -
  note d = dlD [OF assms(1)] and at = dl_at [OF assms(1)]
  show p: "p \<in> set us \<union> set ws" and n: "n \<in> set us \<union> set ws" using assms(2) last_in_set hd_in_set by (auto simp: p_def n_def)
  show "dprev m x = Some p" "dnext m x = Some n" using at d(1) assms(2) by (auto simp: p_def n_def first_hd first_append)
  show "p \<noteq> x" "n \<noteq> x" using p n d(2) by auto
  show "dval m x \<noteq> None" "dval m p \<noteq> None" "dval m n \<noteq> None" using d(3) p n by auto
qed

lemma CDL_DELETE_removes:
  assumes "dl True m h (us @ x # ws)"
  shows "\<exists>h' m'. CDL_DELETE h (Some x) m = Ret h' m' \<and> dl True m' h' (us @ ws) \<and> kept m m' (set us \<union> set ws)"
proof (cases "us @ ws = []")
  case True
  then show ?thesis using assms dlD(3) [OF assms, of x] dl_at(2) [OF assms] dlD(1) [OF assms] by (auto simp: CDL_DELETE_def field_defs dl_def)
next
  case False
  define p where "p = (if us = [] then last ws else last us)"
  define n where "n = (if ws = [] then hd us else hd ws)"
  note d = dlD [OF assms] and nb = dl_neighbours [OF assms False, folded p_def n_def]
  let ?m = "m\<lparr>dprev := (dprev m)(n := Some p), dnext := (dnext m)(p := Some n)\<rparr>"
  have "ring ((dprev m)(n := Some p)) (rev (us @ ws))"
    using ring_remove [of "dprev m" "rev ws" x "rev us"] d(2,5) False nb(1) by (auto simp: last_rev Int_commute n_def)
  moreover have "ring ((dnext m)(p := Some n)) (us @ ws)"
    using ring_remove [of "dnext m" us x ws] d(2,4) False nb(2) by (simp add: p_def)
  moreover have hx: "us = [] \<Longrightarrow> h = Some x" "us \<noteq> [] \<Longrightarrow> h \<noteq> Some x \<and> Some x \<noteq> h" using d(1,2) by (cases us; auto)+
  have "CDL_DELETE h (Some x) m = Ret (if us = [] then Some n else h) ?m"
    using nb(1,2,5-9) by (cases "us = []") (simp_all add: CDL_DELETE_def field_defs hx)
  ultimately show ?thesis using d False nb(3,4)
    by (intro exI [of _ "if us = [] then Some n else h"] exI [of _ ?m]) (auto simp: dl_def first_append first_hd n_def)
qed

lemma CDL_REPLACE_ELEM_replaces:
  assumes "dl True m h (us @ x # ws)" and "dval m a \<noteq> None" and "a \<notin> set (us @ x # ws)"
  shows "\<exists>h' m'. CDL_REPLACE_ELEM h (Some x) (Some a) m = Ret h' m' \<and> dl True m' h' (us @ a # ws) \<and> kept m m' (insert a (set us \<union> set ws))"
proof (cases "us @ ws = []")
  case True
  then show ?thesis using assms(1,2) dlD(3) [OF assms(1), of x] dl_at(2) [OF assms(1)] dlD(1) [OF assms(1)]
    by (auto simp: CDL_REPLACE_ELEM_def field_defs dl_def)
next
  case False
  define p where "p = (if us = [] then last ws else last us)"
  define n where "n = (if ws = [] then hd us else hd ws)"
  note d = dlD [OF assms(1)] and nb = dl_neighbours [OF assms(1) False, folded p_def n_def]
  let ?m = "m\<lparr>dnext := (dnext m)(a := Some n, p := Some a), dprev := (dprev m)(a := Some p, n := Some a)\<rparr>"
  have ne: "p \<noteq> a" "n \<noteq> a" "a \<noteq> x" using nb(3,4) assms(3) by auto
  have "ring ((dprev m)(a := Some p, n := Some a)) (rev (us @ a # ws))"
    using ring_replace [of "dprev m" "rev ws" x "rev us" a] d(2,5) False nb(1) assms(3) by (auto simp: last_rev Int_commute n_def)
  moreover have "ring ((dnext m)(a := Some n, p := Some a)) (us @ a # ws)"
    using ring_replace [of "dnext m" us x ws a] d(2,4) False nb(2) assms(3) by (simp add: p_def)
  moreover have hx: "us = [] \<Longrightarrow> h = Some x" "us \<noteq> [] \<Longrightarrow> h \<noteq> Some x \<and> h \<noteq> None" using d(1,2) by (cases us; auto)+
  have "CDL_REPLACE_ELEM h (Some x) (Some a) m = Ret (if us = [] then Some a else h) ?m"
    using nb(1,2,5-9) ne assms(2) by (cases "us = []") (simp_all add: CDL_REPLACE_ELEM_def field_defs hx)
  ultimately show ?thesis using d False nb(3,4) assms(2,3)
    by (intro exI [of _ "if us = [] then Some a else h"] exI [of _ ?m]) (auto simp: dl_def first_append)
qed

lemma CDL_PREPEND_ELEM_inserts:
  assumes "dl True m h (us @ x # ws)" and "dval m a \<noteq> None" and "a \<notin> set (us @ x # ws)"
  shows "\<exists>h' m'. CDL_PREPEND_ELEM h (Some x) (Some a) m = Ret h' m' \<and> dl True m' h' (us @ a # x # ws) \<and> kept m m' (set (us @ a # x # ws))"
proof -
  note d = dlD [OF assms(1)]
  let ?p = "if us = [] then last (x # ws) else last us"
  let ?m = "m\<lparr>dnext := (dnext m)(a := Some x, ?p := Some a), dprev := (dprev m)(a := Some ?p, x := Some a)\<rparr>"
  have p: "?p \<in> set (us @ x # ws)" using last_in_set [of us] last_in_set [of "x # ws"] by auto
  then have ne: "?p \<noteq> a" "a \<noteq> x" "dval m ?p \<noteq> None" "dval m x \<noteq> None" using assms(3) d(3) by auto
  have nx: "ring ((dnext m)(a := Some x, ?p := Some a)) (us @ a # x # ws)" using ring_insert [of "dnext m" us "x # ws" a] d(2,4) assms(3) by auto
  have pv: "ring ((dprev m)(a := Some ?p, x := Some a)) (rev (us @ a # x # ws))"
  proof (cases "us = []")
    case True
    then show ?thesis using ring_snoc [of "dprev m" "rev (x # ws)" a] d(2,5) assms(3) ne(2)
      by (auto simp: last_rev first_rev first_append fun_upd_twist)
  next
    case False
    then show ?thesis using ring_insert [of "dprev m" "rev ws @ [x]" "rev us" a] d(2,5) assms(3) by (auto simp: last_rev first_rev Int_commute)
  qed
  have hx: "h = Some x \<longleftrightarrow> us = []" "h \<noteq> None" using d(1,2) by (cases us; auto)+
  then have "CDL_PREPEND_ELEM h (Some x) (Some a) m = Ret (if us = [] then Some a else h) ?m"
    using ne assms(2) dl_at(1) [OF assms(1)] by (auto simp: CDL_PREPEND_ELEM_def field_defs)
  moreover have "dl True ?m (if us = [] then Some a else h) (us @ a # x # ws)" using d nx pv assms(2,3) by (auto simp: dl_def first_append)
  ultimately show ?thesis using p by auto
qed

section \<open>Sorting\<close>

definition dl_link :: "ptr option \<Rightarrow> ptr option \<Rightarrow> ptr \<Rightarrow> 'a dcells \<Rightarrow> ('a dcells, ptr option) run" where
  "dl_link list tail e m =
     bind_run (if tail \<noteq> None then bind_run (wr_next tail (Some e) m) (\<lambda>_ m. Ret list m) else Ret (Some e) m) (\<lambda>list m.
     bind_run (wr_prev (Some e) tail m) (\<lambda>_ m.
     Ret list m))"

definition dl_close :: "ptr option \<Rightarrow> ptr option \<Rightarrow> 'a dcells \<Rightarrow> ('a dcells, unit) run" where
  "dl_close list tail m =
     bind_run (wr_prev list tail m) (\<lambda>_ m.
     wr_next tail None m)"

definition cdl_close :: "ptr option \<Rightarrow> ptr option \<Rightarrow> 'a dcells \<Rightarrow> ('a dcells, unit) run" where
  "cdl_close list tail m =
     bind_run (wr_prev list tail m) (\<lambda>_ m.
     let tmp = list in wr_next tail tmp m)"

definition dl_ops :: "('a dcells, 'a) list_ops" where
  "dl_ops = \<lparr>val = dval, nxt = dnext, link = dl_link, close = dl_close, stop = \<lambda>_. None\<rparr>"

definition cdl_ops :: "('a dcells, 'a) list_ops" where
  "cdl_ops = \<lparr>val = dval, nxt = dnext, link = dl_link, close = cdl_close, stop = \<lambda>h. h\<rparr>"

definition DL_SORT :: "('a \<Rightarrow> 'a \<Rightarrow> int) \<Rightarrow> ptr option \<Rightarrow> 'a dcells \<Rightarrow> ('a dcells, ptr option) run" where
  "DL_SORT cmp list m = SORT dl_ops cmp list m"

definition CDL_SORT :: "('a \<Rightarrow> 'a \<Rightarrow> int) \<Rightarrow> ptr option \<Rightarrow> 'a dcells \<Rightarrow> ('a dcells, ptr option) run" where
  "CDL_SORT cmp list m = SORT cdl_ops cmp list m"

lemma dl_ops_simps [simp]:
  "val dl_ops = dval" "nxt dl_ops = dnext" "link dl_ops = dl_link" "close dl_ops = dl_close" "stop dl_ops h = None"
  "val cdl_ops = dval" "nxt cdl_ops = dnext" "link cdl_ops = dl_link" "close cdl_ops = cdl_close" "stop cdl_ops h = h"
  by (simp_all add: dl_ops_def cdl_ops_def)

definition all_fields :: "'a dcells \<Rightarrow> ptr \<Rightarrow> 'a option \<times> ptr option \<times> ptr option" where
  "all_fields m x = (dval m x, dnext m x, dprev m x)"

text \<open>While a list is built, the back link of its first element is NULL.\<close>

abbreviation backs :: "'a dcells \<Rightarrow> ptr list \<Rightarrow> bool" where
  "backs m out \<equiv> seg (dprev m) (rev out) None"

lemma dl_link_laws:
  shows "dval s e \<noteq> None \<Longrightarrow> \<exists>s'. dl_link h None e s = Ret (Some e) s' \<and> dval s' = dval s \<and> dnext s' = dnext s \<and>
      (\<forall>x. x \<noteq> e \<longrightarrow> all_fields s' x = all_fields s x) \<and> backs s' [e]"
    and "dval s t \<noteq> None \<Longrightarrow> dval s e \<noteq> None \<Longrightarrow> distinct (out @ [t, e]) \<Longrightarrow> backs s (out @ [t]) \<Longrightarrow>
      \<exists>s'. dl_link h (Some t) e s = Ret h s' \<and> dval s' = dval s \<and> dnext s' = (dnext s)(t := Some e) \<and>
        (\<forall>x. x \<notin> {t, e} \<longrightarrow> all_fields s' x = all_fields s x) \<and> backs s' (out @ [t, e])"
  by (auto simp: dl_link_def field_defs all_fields_def)

lemma close_ring:
  assumes "backs s out" and "out \<noteq> []" and "distinct out"
  shows "ring ((dprev s)(hd out := Some (last out))) (rev out)"
  using seg_close [OF assms(1), of "Some (last out)"] assms(2,3) by (simp add: last_rev first_rev)

interpretation dls: sortable dl_ops all_fields backs "\<lambda>m out. ring (dprev m) (rev out)"
proof unfold_locales
  show "\<exists>s'. close dl_ops (Some (hd out)) (Some (last out)) s = Ret () s' \<and> val dl_ops s' = val dl_ops s \<and>
      nxt dl_ops s' = (nxt dl_ops s)(last out := stop dl_ops (Some (hd out))) \<and> (\<forall>x. x \<notin> set out \<longrightarrow> all_fields s' x = all_fields s x) \<and>
      ring (dprev s') (rev out)"
    if "out \<noteq> []" "distinct out" "\<forall>x \<in> set out. val dl_ops s x \<noteq> None" "backs s out" for out and s :: "'a dcells"
    using that close_ring [OF that(4,1,2)] by (auto simp: dl_close_def field_defs all_fields_def)
qed (simp only: dl_ops_simps, erule dl_link_laws(1), simp only: dl_ops_simps, erule (3) dl_link_laws(2), simp)

interpretation cdls: sortable cdl_ops all_fields backs "\<lambda>m out. ring (dprev m) (rev out)"
proof unfold_locales
  show "\<exists>s'. close cdl_ops (Some (hd out)) (Some (last out)) s = Ret () s' \<and> val cdl_ops s' = val cdl_ops s \<and>
      nxt cdl_ops s' = (nxt cdl_ops s)(last out := stop cdl_ops (Some (hd out))) \<and> (\<forall>x. x \<notin> set out \<longrightarrow> all_fields s' x = all_fields s x) \<and>
      ring (dprev s') (rev out)"
    if "out \<noteq> []" "distinct out" "\<forall>x \<in> set out. val cdl_ops s x \<noteq> None" "backs s out" for out and s :: "'a dcells"
    using that close_ring [OF that(4,1,2)] by (auto simp: cdl_close_def field_defs all_fields_def)
qed (simp only: dl_ops_simps, erule dl_link_laws(1), simp only: dl_ops_simps, erule (3) dl_link_laws(2), simp)

text \<open>
  \<^verbatim>\<open>DL_SORT\<close> and \<^verbatim>\<open>CDL_SORT\<close> sort a doubly linked list in place: they return a well-formed list of the same kind with the same
  elements, whose values in order are those that a stable sort by the comparison function gives. No other element changes.
\<close>

theorem DL_SORT_sorts:
  assumes "dl circ m h ps" and "length ps \<le> 2 ^ 29" and "\<And>x y. cmp x y \<le> 0 \<longleftrightarrow> compare c x y \<noteq> Greater"
  shows "\<exists>m' h' qs. (if circ then CDL_SORT cmp h m else DL_SORT cmp h m) = Ret h' m' \<and> dl circ m' h' qs \<and> mset qs = mset ps \<and>
    map (\<lambda>x. the (dval m' x)) qs = Sorting_Algorithms.sort c (map (\<lambda>x. the (dval m x)) ps) \<and> kept m m' (set ps)"
proof (cases "ps = []")
  case True
  then show ?thesis using assms(1) by (auto simp: CDL_SORT_def DL_SORT_def SORT_def dl_def)
next
  case False
  note d = dlD [OF assms(1)]
  have h: "h = Some (hd ps)" using d(1) False by (simp add: first_hd)
  have al: "\<forall>x \<in> set ps. dval m x \<noteq> None" using d(3) by blast
  obtain m' qs where m': "(if circ then CDL_SORT cmp h m else DL_SORT cmp h m) = Ret (Some (hd qs)) m'" "mset qs = mset ps"
      "seg (dnext m') qs (if circ then Some (hd qs) else None)" "ring (dprev m') (rev qs)" "dval m' = dval m"
      "\<forall>x. x \<notin> set ps \<longrightarrow> all_fields m' x = all_fields m x" "map (\<lambda>x. the (dval m x)) qs = Sorting_Algorithms.sort c (map (\<lambda>x. the (dval m x)) ps)"
  proof (cases circ)
    case True
    then show ?thesis using cdls.SORT_ok [OF False d(2), of m cmp c] that al d(4) assms(2,3) False h by (auto simp: CDL_SORT_def first_hd)
  next
    case noncirc: False
    then show ?thesis using dls.SORT_ok [OF False d(2), of m cmp c] that al d(4) assms(2,3) h by (auto simp: DL_SORT_def)
  qed
  have st: "qs \<noteq> []" "set qs = set ps" "distinct qs" using m'(2) False d(2) mset_eq_setD mset_eq_imp_distinct_iff by (auto, blast+)
  then have "dl circ m' (Some (hd qs)) qs" using m'(3-5) al by (auto simp: dl_def first_hd)
  then show ?thesis using m'(1,2,5,6,7) by (intro exI [of _ m'] exI [of _ "Some (hd qs)"] exI [of _ qs]) (auto simp: all_fields_def)
qed

section \<open>Properties\<close>

text \<open>
  The macros on doubly linked lists implement the operations on lists: with \<open>us @ x # ws\<close> in memory and a new element \<open>a\<close>,
  \<^verbatim>\<open>DL_PREPEND\<close> and \<^verbatim>\<open>DL_APPEND\<close> put \<open>a\<close> at the front and at the end, \<^verbatim>\<open>DL_DELETE\<close> takes \<open>x\<close> out, \<^verbatim>\<open>DL_REPLACE_ELEM\<close> puts \<open>a\<close> in the place of \<open>x\<close>
  and \<^verbatim>\<open>DL_PREPEND_ELEM\<close> before \<open>x\<close>. All return; no value and no element outside changes.
\<close>

theorem DL_operations_refine_lists:
  assumes "dl False m h (us @ x # ws)" and "dval m a \<noteq> None" and "a \<notin> set (us @ x # ws)"
  shows "(\<exists>h' m'. DL_PREPEND h (Some a) m = Ret h' m' \<and> dl False m' h' (a # us @ x # ws) \<and> kept m m' (set (a # us @ x # ws))) \<and>
    (\<exists>h' m'. DL_APPEND h (Some a) m = Ret h' m' \<and> dl False m' h' (us @ x # ws @ [a]) \<and> kept m m' (set (a # us @ x # ws))) \<and>
    (\<exists>h' m'. DL_DELETE h (Some x) m = Ret h' m' \<and> dl False m' h' (us @ ws) \<and> kept m m' (set us \<union> set ws)) \<and>
    (\<exists>h' m'. DL_REPLACE_ELEM h (Some x) (Some a) m = Ret h' m' \<and> dl False m' h' (us @ a # ws) \<and> kept m m' (insert a (set us \<union> set ws))) \<and>
    (\<exists>h' m'. DL_PREPEND_ELEM h (Some x) (Some a) m = Ret h' m' \<and> dl False m' h' (us @ a # x # ws) \<and> kept m m' (set (us @ a # x # ws)))"
proof (intro conjI)
  show "\<exists>h' m'. DL_PREPEND h (Some a) m = Ret h' m' \<and> dl False m' h' (a # us @ x # ws) \<and> kept m m' (set (a # us @ x # ws))"
    using DL_PREPEND_prepends [OF assms] by auto
  show "\<exists>h' m'. DL_APPEND h (Some a) m = Ret h' m' \<and> dl False m' h' (us @ x # ws @ [a]) \<and> kept m m' (set (a # us @ x # ws))"
    using DL_APPEND_appends [OF assms] by simp
qed (rule DL_DELETE_removes [OF assms(1)] DL_REPLACE_ELEM_replaces [OF assms] DL_PREPEND_ELEM_inserts [OF assms])+

text \<open>
  The macros on circular lists implement the operations on lists: \<^verbatim>\<open>CDL_PREPEND\<close> puts \<open>a\<close> at the front of \<open>us @ x # ws\<close>, \<^verbatim>\<open>CDL_DELETE\<close> takes \<open>x\<close> out,
  \<^verbatim>\<open>CDL_REPLACE_ELEM\<close> puts \<open>a\<close> in the place of \<open>x\<close> and \<^verbatim>\<open>CDL_PREPEND_ELEM\<close> before \<open>x\<close>; the ring is closed after each of them.
\<close>

theorem CDL_operations_refine_lists:
  assumes "dl True m h (us @ x # ws)" and "dval m a \<noteq> None" and "a \<notin> set (us @ x # ws)"
  shows "(\<exists>h' m'. CDL_PREPEND h (Some a) m = Ret h' m' \<and> dl True m' h' (a # us @ x # ws) \<and> kept m m' (set (a # us @ x # ws))) \<and>
    (\<exists>h' m'. CDL_DELETE h (Some x) m = Ret h' m' \<and> dl True m' h' (us @ ws) \<and> kept m m' (set us \<union> set ws)) \<and>
    (\<exists>h' m'. CDL_REPLACE_ELEM h (Some x) (Some a) m = Ret h' m' \<and> dl True m' h' (us @ a # ws) \<and> kept m m' (insert a (set us \<union> set ws))) \<and>
    (\<exists>h' m'. CDL_PREPEND_ELEM h (Some x) (Some a) m = Ret h' m' \<and> dl True m' h' (us @ a # x # ws) \<and> kept m m' (set (us @ a # x # ws)))"
proof (intro conjI)
  show "\<exists>h' m'. CDL_PREPEND h (Some a) m = Ret h' m' \<and> dl True m' h' (a # us @ x # ws) \<and> kept m m' (set (a # us @ x # ws))"
    using CDL_PREPEND_prepends [OF assms] by auto
qed (rule CDL_DELETE_removes [OF assms(1)] CDL_REPLACE_ELEM_replaces [OF assms] CDL_PREPEND_ELEM_inserts [OF assms])+

section \<open>Concrete lists\<close>

text \<open>The elements 1, 2 and 3 with the values 30, 10 and 20, and the element 4 that is in no list.\<close>

definition demo_dl :: "bool \<Rightarrow> int dcells" where
  "demo_dl circ = \<lparr>dval = [1 \<mapsto> 30, 2 \<mapsto> 10, 3 \<mapsto> 20, 4 \<mapsto> 40], dnext = (if circ then [1 \<mapsto> 2, 2 \<mapsto> 3, 3 \<mapsto> 1] else [1 \<mapsto> 2, 2 \<mapsto> 3]),
     dprev = [1 \<mapsto> 3, 2 \<mapsto> 1, 3 \<mapsto> 2]\<rparr>"

lemma demo_dl_ok: "dl circ (demo_dl circ) (Some 1) [1, 2, 3]" "dval (demo_dl circ) 4 \<noteq> None"
  by (auto simp: dl_def demo_dl_def)

theorem DL_SORT_sorts_witness:
  "\<exists>m' h' qs. CDL_SORT (-) (Some 1) (demo_dl True) = Ret h' m' \<and> dl True m' h' qs \<and> map (\<lambda>x. the (dval m' x)) qs = [10, 20, 30]"
proof -
  have cmp: "x - y \<le> 0 \<longleftrightarrow> compare default x y \<noteq> Greater" for x y :: int by auto
  have len: "length [1, 2, 3 :: ptr] \<le> 2 ^ 29" by simp
  have srt: "Sorting_Algorithms.sort default (map (\<lambda>x. the (dval (demo_dl True) x)) [1, 2, 3]) = [10, 20, 30]" by (simp add: demo_dl_def)
  show ?thesis using DL_SORT_sorts [OF demo_dl_ok(1) [of True] len cmp] unfolding srt if_True by (elim exE conjE) (intro exI conjI)
qed

theorem DL_operations_refine_lists_witness:
  "(\<exists>h' m'. DL_DELETE (Some 1) (Some 2) (demo_dl False) = Ret h' m' \<and> dl False m' h' [1, 3]) \<and>
   (\<exists>h' m'. DL_APPEND (Some 1) (Some 4) (demo_dl False) = Ret h' m' \<and> dl False m' h' [1, 2, 3, 4])"
  using DL_operations_refine_lists [of "demo_dl False" "Some 1" "[1]" 2 "[3]" 4] demo_dl_ok [of False] by auto

theorem CDL_operations_refine_lists_witness:
  "\<exists>h' m'. CDL_DELETE (Some 1) (Some 1) (demo_dl True) = Ret h' m' \<and> dl True m' h' [2, 3]"
  using CDL_operations_refine_lists [of "demo_dl True" "Some 1" "[]" 1 "[2, 3]" 4] demo_dl_ok [of True] by auto

end
