(* ===== verification/Utlist_More.thy ===== *)
theory Utlist_More
  imports Utlist_DL
begin

text \<open>
  The other macros of \<^verbatim>\<open>utlist.h\<close>: concatenation, replacement and insertion in singly linked lists, counting and
  searching in lists of all kinds. The locale \<open>linked_list\<close> is the contract that the singly and the doubly
  linked lists share.
\<close>

section \<open>Singly linked lists\<close>

definition LL_CONCAT :: "ptr option \<Rightarrow> ptr option \<Rightarrow> 'a cells \<Rightarrow> ('a cells, ptr option) run" where
  "LL_CONCAT head1 head2 m = (case head1 of
       Some h \<Rightarrow>
         bind_run (looped (ll_last h) m) (\<lambda>tmp m.
         bind_run (set_next tmp head2 m) (\<lambda>_ m.
         Ret head1 m))
     | None \<Rightarrow> Ret head2 m)"

definition nonnull :: "ptr option \<Rightarrow> 's \<Rightarrow> ('s, ptr) run" where
  "nonnull p s = bind_run (assert_that (p \<noteq> None) s) (\<lambda>_ s. Ret (the p) s)"

text \<open>The end of both macros below: \<open>a\<close> takes the place of \<open>e\<close> as the successor of the element before \<open>e\<close>.\<close>

definition ll_relink :: "ptr \<Rightarrow> ptr \<Rightarrow> ptr \<Rightarrow> 'a cells \<Rightarrow> ('a cells, ptr option) run" where
  "ll_relink h e a m =
     (if h = e then Ret (Some a) m
      else
        bind_run (looped (ll_before e h) m) (\<lambda>tmp m.
        bind_run (get_cell tmp m) (\<lambda>c m.
        bind_run (if ll_next c \<noteq> None then set_next tmp (Some a) m else Ret () m) (\<lambda>_ m.
        Ret (Some h) m))))"

definition LL_REPLACE_ELEM :: "ptr option \<Rightarrow> ptr option \<Rightarrow> ptr option \<Rightarrow> 'a cells \<Rightarrow> ('a cells, ptr option) run" where
  "LL_REPLACE_ELEM head el add m =
     bind_run (nonnull head m) (\<lambda>h m.
     bind_run (nonnull el m) (\<lambda>e m.
     bind_run (nonnull add m) (\<lambda>a m.
     bind_run (get_cell e m) (\<lambda>c m.
     bind_run (set_next a (ll_next c) m) (\<lambda>_ m.
     ll_relink h e a m)))))"

definition LL_PREPEND_ELEM :: "ptr option \<Rightarrow> ptr option \<Rightarrow> ptr option \<Rightarrow> 'a cells \<Rightarrow> ('a cells, ptr option) run" where
  "LL_PREPEND_ELEM head el add m =
     bind_run (nonnull head m) (\<lambda>h m.
     bind_run (nonnull el m) (\<lambda>e m.
     bind_run (nonnull add m) (\<lambda>a m.
     bind_run (set_next a (Some e) m) (\<lambda>_ m.
     ll_relink h e a m))))"

section \<open>Iteration over lists of all kinds\<close>

text \<open>
  \<^verbatim>\<open>LL_FOREACH2\<close> and \<^verbatim>\<open>DL_FOREACH2\<close> have the same text; \<^verbatim>\<open>CDL_FOREACH2\<close> stops where the next element is the head. \<open>P\<close> is the test
  after which the loop of a search breaks, \<^verbatim>\<open>(out)->field == (val)\<close> or \<^verbatim>\<open>cmp(out,elt)==0\<close>.
\<close>

partial_function (option) search_loop :: "('s, 'a) list_ops \<Rightarrow> ptr option \<Rightarrow> ('a \<Rightarrow> bool) \<Rightarrow> ptr option \<Rightarrow> 's \<Rightarrow> ('s, ptr option) run option" where
  "search_loop L oh P el s = (case el of
       None \<Rightarrow> Some (Ret None s)
     | Some p \<Rightarrow> (case val L s p of
           None \<Rightarrow> Some (Stop UB s)
         | Some x \<Rightarrow> if P x then Some (Ret el s)
             else (case sort_next L oh el s of
                 Stop h s \<Rightarrow> Some (Stop h s)
               | Ret n s \<Rightarrow> search_loop L oh P n s)))"

declare search_loop.simps [code]

definition SEARCH :: "('s, 'a) list_ops \<Rightarrow> ('a \<Rightarrow> bool) \<Rightarrow> ptr option \<Rightarrow> 's \<Rightarrow> ('s, ptr option) run" where
  "SEARCH L P head s = looped (search_loop L (stop L head) P head) s"

partial_function (option) count_loop :: "('s, 'a) list_ops \<Rightarrow> ptr option \<Rightarrow> nat \<Rightarrow> ptr option \<Rightarrow> 's \<Rightarrow> ('s, nat) run option" where
  "count_loop L oh counter el s = (case el of
       None \<Rightarrow> Some (Ret counter s)
     | Some p \<Rightarrow> (case sort_next L oh el s of
           Stop h s \<Rightarrow> Some (Stop h s)
         | Ret n s \<Rightarrow> count_loop L oh (counter + 1) n s))"

declare count_loop.simps [code]

definition COUNT :: "('s, 'a) list_ops \<Rightarrow> ptr option \<Rightarrow> 's \<Rightarrow> ('s, nat) run" where
  "COUNT L head s = looped (count_loop L (stop L head) 0 head) s"

definition LL_SEARCH_SCALAR :: "('a \<Rightarrow> 'b) \<Rightarrow> 'b \<Rightarrow> ptr option \<Rightarrow> 'a cells \<Rightarrow> ('a cells, ptr option) run" where
  "LL_SEARCH_SCALAR field v head m = SEARCH ll_ops (\<lambda>x. field x = v) head m"

definition LL_SEARCH :: "('a \<Rightarrow> 'b \<Rightarrow> int) \<Rightarrow> 'b \<Rightarrow> ptr option \<Rightarrow> 'a cells \<Rightarrow> ('a cells, ptr option) run" where
  "LL_SEARCH cmp elt head m = SEARCH ll_ops (\<lambda>x. cmp x elt = 0) head m"

definition DL_SEARCH_SCALAR :: "('a \<Rightarrow> 'b) \<Rightarrow> 'b \<Rightarrow> ptr option \<Rightarrow> 'a dcells \<Rightarrow> ('a dcells, ptr option) run" where
  "DL_SEARCH_SCALAR field v head m = SEARCH dl_ops (\<lambda>x. field x = v) head m"

definition DL_SEARCH :: "('a \<Rightarrow> 'b \<Rightarrow> int) \<Rightarrow> 'b \<Rightarrow> ptr option \<Rightarrow> 'a dcells \<Rightarrow> ('a dcells, ptr option) run" where
  "DL_SEARCH cmp elt head m = SEARCH dl_ops (\<lambda>x. cmp x elt = 0) head m"

definition CDL_SEARCH_SCALAR :: "('a \<Rightarrow> 'b) \<Rightarrow> 'b \<Rightarrow> ptr option \<Rightarrow> 'a dcells \<Rightarrow> ('a dcells, ptr option) run" where
  "CDL_SEARCH_SCALAR field v head m = SEARCH cdl_ops (\<lambda>x. field x = v) head m"

definition CDL_SEARCH :: "('a \<Rightarrow> 'b \<Rightarrow> int) \<Rightarrow> 'b \<Rightarrow> ptr option \<Rightarrow> 'a dcells \<Rightarrow> ('a dcells, ptr option) run" where
  "CDL_SEARCH cmp elt head m = SEARCH cdl_ops (\<lambda>x. cmp x elt = 0) head m"

definition LL_COUNT :: "ptr option \<Rightarrow> 'a cells \<Rightarrow> ('a cells, nat) run" where
  "LL_COUNT head m = COUNT ll_ops head m"

definition DL_COUNT :: "ptr option \<Rightarrow> 'a dcells \<Rightarrow> ('a dcells, nat) run" where
  "DL_COUNT head m = COUNT dl_ops head m"

definition CDL_COUNT :: "ptr option \<Rightarrow> 'a dcells \<Rightarrow> ('a dcells, nat) run" where
  "CDL_COUNT head m = COUNT cdl_ops head m"

section \<open>Searching and counting\<close>

lemma sort_next_first:
  assumes "seg (nxt L s) (x # xs) oh" and "val L s x \<noteq> None" and "\<forall>y \<in> set xs. Some y \<noteq> oh"
  shows "sort_next L oh (Some x) s = Ret (first xs) s"
  using assms by (cases xs) (auto simp: sort_next_def)

lemma search_loop_finds:
  assumes "seg (nxt L s) ps oh" and "\<forall>x \<in> set ps. val L s x \<noteq> None" and "\<forall>x \<in> set (tl ps). Some x \<noteq> oh"
  shows "search_loop L oh P (first ps) s = Some (Ret (List.find (\<lambda>x. P (the (val L s x))) ps) s)"
  using assms
proof (induction ps)
  case (Cons x xs)
  have "\<forall>y \<in> set (tl xs). Some y \<noteq> oh" using Cons.prems(3) by (cases xs) auto
  then show ?case using Cons sort_next_first [of L s x xs oh] by (subst search_loop.simps) auto
qed (simp add: search_loop.simps)

lemma count_loop_counts:
  assumes "seg (nxt L s) ps oh" and "\<forall>x \<in> set ps. val L s x \<noteq> None" and "\<forall>x \<in> set (tl ps). Some x \<noteq> oh"
  shows "count_loop L oh n (first ps) s = Some (Ret (n + length ps) s)"
  using assms
proof (induction ps arbitrary: n)
  case (Cons x xs)
  have "\<forall>y \<in> set (tl xs). Some y \<noteq> oh" using Cons.prems(3) by (cases xs) auto
  then show ?case using Cons sort_next_first [of L s x xs oh] by (subst count_loop.simps) auto
qed (simp add: count_loop.simps)

lemma ll_iter: "chain (mem m) h ps \<Longrightarrow> SEARCH ll_ops P h m = Ret (List.find (\<lambda>x. P (the (val ll_ops m x))) ps) m \<and> COUNT ll_ops h m = Ret (length ps) m"
  using search_loop_finds [of ll_ops m ps None P] count_loop_counts [of ll_ops m ps None 0] by (auto simp: chain_seg SEARCH_def COUNT_def looped_def)

lemma dl_iter:
  assumes "dl circ m h ps"
  shows "SEARCH (if circ then cdl_ops else dl_ops) P h m = Ret (List.find (\<lambda>x. P (the (dval m x))) ps) m"
    and "COUNT (if circ then cdl_ops else dl_ops) h m = Ret (length ps) m"
proof -
  let ?L = "if circ then cdl_ops else dl_ops"
  note d = dlD [OF assms]
  have v: "val ?L = dval" "nxt ?L = dnext" "stop ?L h = (if circ then first ps else None)" using d(1) by simp_all
  have tl: "\<forall>x \<in> set (tl ps). Some x \<noteq> stop ?L h" unfolding v(3) using d(2) by (cases ps) auto
  have sg: "seg (nxt ?L m) ps (stop ?L h)" "\<forall>x \<in> set ps. val ?L m x \<noteq> None" unfolding v using d(3,4) by auto
  show "SEARCH ?L P h m = Ret (List.find (\<lambda>x. P (the (dval m x))) ps) m"
    using search_loop_finds [OF sg tl, of P] d(1) by (cases circ) (simp_all add: SEARCH_def looped_def)
  show "COUNT ?L h m = Ret (length ps) m" using count_loop_counts [OF sg tl, of 0] d(1) by (cases circ) (simp_all add: COUNT_def looped_def)
qed

text \<open>
  The search macros return the first element in the list for which the test holds, NULL if there is none, and the
  counting macros the number of elements, in lists of all three kinds; they change nothing.
\<close>

theorem search_and_count:
  "(chain (mem l) g qs \<longrightarrow>
      LL_SEARCH_SCALAR field v g l = Ret (List.find (\<lambda>x. field (content (the (mem l x))) = v) qs) l \<and>
      LL_SEARCH cmp elt g l = Ret (List.find (\<lambda>x. cmp (content (the (mem l x))) elt = 0) qs) l \<and> LL_COUNT g l = Ret (length qs) l) \<and>
   (dl circ m h ps \<longrightarrow>
      (if circ then CDL_SEARCH_SCALAR field v h m else DL_SEARCH_SCALAR field v h m) = Ret (List.find (\<lambda>x. field (the (dval m x)) = v) ps) m \<and>
      (if circ then CDL_SEARCH cmp elt h m else DL_SEARCH cmp elt h m) = Ret (List.find (\<lambda>x. cmp (the (dval m x)) elt = 0) ps) m \<and>
      (if circ then CDL_COUNT h m else DL_COUNT h m) = Ret (length ps) m)"
proof (intro conjI impI)
  assume ch: "chain (mem l) g qs"
  have al: "\<forall>x \<in> set qs. mem l x \<noteq> None" using chain_alloc [OF ch] by blast
  have val: "List.find (\<lambda>x. P (the (val ll_ops l x))) qs = List.find (\<lambda>x. P (content (the (mem l x)))) qs" for P using al by (induction qs) auto
  show "LL_SEARCH_SCALAR field v g l = Ret (List.find (\<lambda>x. field (content (the (mem l x))) = v) qs) l"
    using ll_iter [OF ch, of "\<lambda>x. field x = v"] val [of "\<lambda>x. field x = v"] by (simp add: LL_SEARCH_SCALAR_def)
  show "LL_SEARCH cmp elt g l = Ret (List.find (\<lambda>x. cmp (content (the (mem l x))) elt = 0) qs) l"
    using ll_iter [OF ch, of "\<lambda>x. cmp x elt = 0"] val [of "\<lambda>x. cmp x elt = 0"] by (simp add: LL_SEARCH_def)
  show "LL_COUNT g l = Ret (length qs) l" using ll_iter [OF ch] by (simp add: LL_COUNT_def)
next
  assume d: "dl circ m h ps"
  show "(if circ then CDL_SEARCH_SCALAR field v h m else DL_SEARCH_SCALAR field v h m) = Ret (List.find (\<lambda>x. field (the (dval m x)) = v) ps) m"
    using dl_iter(1) [OF d, of "\<lambda>x. field x = v"] by (cases circ) (simp_all add: CDL_SEARCH_SCALAR_def DL_SEARCH_SCALAR_def)
  show "(if circ then CDL_SEARCH cmp elt h m else DL_SEARCH cmp elt h m) = Ret (List.find (\<lambda>x. cmp (the (dval m x)) elt = 0) ps) m"
    using dl_iter(1) [OF d, of "\<lambda>x. cmp x elt = 0"] by (cases circ) (simp_all add: CDL_SEARCH_def DL_SEARCH_def)
  show "(if circ then CDL_COUNT h m else DL_COUNT h m) = Ret (length ps) m" using dl_iter(2) [OF d] by (cases circ) (simp_all add: CDL_COUNT_def DL_COUNT_def)
qed

theorem search_and_count_witness:
  "CDL_SEARCH_SCALAR id 20 (Some 1) (demo_dl True) = Ret (Some 3) (demo_dl True) \<and> CDL_COUNT (Some 1) (demo_dl True) = Ret 3 (demo_dl True)"
  using search_and_count [of demo_unsorted None "[]" id 20 "(-)" 0 True "demo_dl True" "Some 1" "[1, 2, 3]"] demo_dl_ok(1) [of True]
  by (simp add: demo_dl_def)

section \<open>Singly linked lists: concatenation, replacement, insertion\<close>

lemma LL_CONCAT_concats:
  assumes "chain (mem m) h1 ps" and "chain (mem m) h2 qs" and "set ps \<inter> set qs = {}"
  shows "\<exists>h' m'. LL_CONCAT h1 h2 m = Ret h' m' \<and> chain (mem m') h' (ps @ qs) \<and> val ll_ops m' = val ll_ops m \<and>
    (\<forall>x. x \<notin> set ps \<longrightarrow> mem m' x = mem m x)"
proof (cases ps rule: rev_cases)
  case Nil
  then show ?thesis using assms by (simp add: LL_CONCAT_def)
next
  case (snoc us t)
  then obtain h where h: "h1 = Some h" using assms(1) by (cases us) auto
  obtain c where c: "mem m t = Some c" using chain_alloc [OF assms(1), of t] snoc by auto
  have "looped (ll_last h) m = Ret t m" using ll_last_chain [of m h us t] assms(1) snoc h by (simp add: looped_def)
  then have "LL_CONCAT h1 h2 m = Ret h1 (m\<lparr>mem := (mem m)(t \<mapsto> c\<lparr>ll_next := h2\<rparr>)\<rparr>)" using c by (simp add: LL_CONCAT_def h set_next_def)
  moreover have "chain ((mem m)(t \<mapsto> c\<lparr>ll_next := h2\<rparr>)) h1 (us @ t # qs)"
    by (rule chain_relink [OF _ c assms(2)]) (use assms(1,3) snoc in auto)
  ultimately show ?thesis using set_next_view(2) [OF c, of h2] snoc by auto
qed

lemma ll_relink_ok:
  assumes ch: "chain (mem m) (Some h) (us @ x # ws)" and rs: "chain (mem m) (Some a) rs" and dj: "set us \<inter> set rs = {}"
  shows "\<exists>h' m'. ll_relink h x a m = Ret h' m' \<and> chain (mem m') h' (us @ rs) \<and> val ll_ops m' = val ll_ops m \<and> (\<forall>y. y \<notin> set us \<longrightarrow> mem m' y = mem m y)"
proof (cases us rule: rev_cases)
  case Nil
  then show ?thesis using ch rs by (auto simp: ll_relink_def)
next
  case (snoc ys t)
  have d: "distinct (us @ x # ws)" using chain_distinct [OF ch] .
  have ch': "chain (mem m) (Some h) (ys @ t # x # ws)" using ch snoc by simp
  obtain c where c: "mem m t = Some c" using chain_alloc [OF ch', of t] by auto
  have n: "ll_next c = Some x" using chain_suffix [OF ch'] c by simp
  have "h \<noteq> x" using ch' d snoc by (cases ys) auto
  then have "ll_relink h x a m = Ret (Some h) (m\<lparr>mem := (mem m)(t \<mapsto> c\<lparr>ll_next := Some a\<rparr>)\<rparr>)"
    using ll_before_chain [OF ch'] c n by (simp add: ll_relink_def looped_def get_cell_def set_next_def)
  moreover have "chain ((mem m)(t \<mapsto> c\<lparr>ll_next := Some a\<rparr>)) (Some h) (ys @ t # rs)"
    by (rule chain_relink [OF ch' c rs]) (use dj snoc in auto)
  ultimately show ?thesis using set_next_view(2) [OF c, of "Some a"] snoc by auto
qed

lemma LL_place:
  assumes ch: "chain (mem m) h (us @ x # ws)" and a: "mem m a = Some c" "a \<notin> set (us @ x # ws)"
    and n: "n = Some x \<and> rs = x # ws \<or> chain (mem m) n ws \<and> rs = ws"
  shows "\<exists>h' m'. bind_run (set_next a n m) (\<lambda>_ m. ll_relink (the h) x a m) = Ret h' m' \<and> chain (mem m') h' (us @ a # rs) \<and>
    val ll_ops m' = val ll_ops m \<and> (\<forall>y. y \<notin> insert a (set us) \<longrightarrow> mem m' y = mem m y)"
proof -
  let ?m = "m\<lparr>mem := (mem m)(a \<mapsto> c\<lparr>ll_next := n\<rparr>)\<rparr>"
  have h: "h = Some (the h)" using ch by (cases us) auto
  have "chain (mem m) n rs" using n chain_suffix [OF ch] by auto
  moreover have "set rs \<subseteq> set (x # ws)" "a \<notin> set rs" using n a(2) by auto
  ultimately have "chain (mem ?m) (Some a) (a # rs)" "chain (mem ?m) (Some (the h)) (us @ x # ws)" "set us \<inter> set (a # rs) = {}"
    using a(2) ch h chain_distinct [OF ch] by auto
  from ll_relink_ok [OF this(2,1,3)] obtain h' m' where "ll_relink (the h) x a ?m = Ret h' m'" "chain (mem m') h' (us @ a # rs)"
      "val ll_ops m' = val ll_ops ?m" "\<forall>y. y \<notin> set us \<longrightarrow> mem m' y = mem ?m y" by blast
  then show ?thesis using set_next_view(1,2) [OF a(1), of n] by auto
qed

lemma LL_REPLACE_ELEM_replaces:
  assumes ch: "chain (mem m) h (us @ x # ws)" and a: "mem m a = Some c" "a \<notin> set (us @ x # ws)"
  shows "\<exists>h' m'. LL_REPLACE_ELEM h (Some x) (Some a) m = Ret h' m' \<and> chain (mem m') h' (us @ a # ws) \<and> val ll_ops m' = val ll_ops m \<and>
    (\<forall>y. y \<notin> insert a (set us) \<longrightarrow> mem m' y = mem m y)"
proof -
  obtain cx where cx: "mem m x = Some cx" using chain_alloc [OF ch, of x] by auto
  have "chain (mem m) (ll_next cx) ws" using chain_suffix [OF ch] cx by simp
  moreover have "h \<noteq> None" using ch by (cases us) auto
  ultimately show ?thesis using LL_place [OF ch a, of "ll_next cx" ws] cx by (simp add: LL_REPLACE_ELEM_def nonnull_def assert_that_def get_cell_def)
qed

lemma LL_PREPEND_ELEM_inserts:
  assumes ch: "chain (mem m) h (us @ x # ws)" and a: "mem m a = Some c" "a \<notin> set (us @ x # ws)"
  shows "\<exists>h' m'. LL_PREPEND_ELEM h (Some x) (Some a) m = Ret h' m' \<and> chain (mem m') h' (us @ a # x # ws) \<and> val ll_ops m' = val ll_ops m \<and>
    (\<forall>y. y \<notin> insert a (set us) \<longrightarrow> mem m' y = mem m y)"
proof -
  have "h \<noteq> None" using ch by (cases us) auto
  then show ?thesis using LL_place [OF ch a, of "Some x" "x # ws"] by (simp add: LL_PREPEND_ELEM_def nonnull_def assert_that_def)
qed

section \<open>The contract of a linked list\<close>

locale linked_list =
  fixes rep :: "'s \<Rightarrow> ptr option \<Rightarrow> ptr list \<Rightarrow> bool" and vals :: "'s \<Rightarrow> ptr \<Rightarrow> 'a option"
    and prepend :: "ptr option \<Rightarrow> ptr \<Rightarrow> 's \<Rightarrow> ('s, ptr option) run" and append :: "ptr option \<Rightarrow> ptr \<Rightarrow> 's \<Rightarrow> ('s, ptr option) run"
    and delete :: "ptr option \<Rightarrow> ptr \<Rightarrow> 's \<Rightarrow> ('s, ptr option) run"
  assumes rep_head: "rep s h ps \<Longrightarrow> h = first ps"
    and prepend_ok: "rep s h ps \<Longrightarrow> vals s a \<noteq> None \<Longrightarrow> a \<notin> set ps \<Longrightarrow>
      \<exists>h' s'. prepend h a s = Ret h' s' \<and> rep s' h' (a # ps) \<and> vals s' = vals s"
    and append_ok: "rep s h ps \<Longrightarrow> vals s a \<noteq> None \<Longrightarrow> a \<notin> set ps \<Longrightarrow>
      \<exists>h' s'. append h a s = Ret h' s' \<and> rep s' h' (ps @ [a]) \<and> vals s' = vals s"
    and delete_ok: "rep s h (us @ x # ws) \<Longrightarrow> \<exists>h' s'. delete h x s = Ret h' s' \<and> rep s' h' (us @ ws) \<and> vals s' = vals s"

text \<open>A client that adds elements one after the other, and one that takes elements from the front.\<close>

fun add_all :: "(ptr option \<Rightarrow> ptr \<Rightarrow> 's \<Rightarrow> ('s, ptr option) run) \<Rightarrow> ptr list \<Rightarrow> ptr option \<Rightarrow> 's \<Rightarrow> ('s, ptr option) run" where
  "add_all f [] h s = Ret h s"
| "add_all f (x # xs) h s = bind_run (f h x s) (\<lambda>h s. add_all f xs h s)"

fun take_all :: "(ptr option \<Rightarrow> ptr \<Rightarrow> 's \<Rightarrow> ('s, ptr option) run) \<Rightarrow> nat \<Rightarrow> ptr option \<Rightarrow> 's \<Rightarrow> ('s, ptr list) run" where
  "take_all f 0 h s = Ret [] s"
| "take_all f (Suc n) h s = (case h of
       None \<Rightarrow> Ret [] s
     | Some p \<Rightarrow> bind_run (f h p s) (\<lambda>h s. bind_run (take_all f n h s) (\<lambda>ps s. Ret (p # ps) s)))"

context linked_list
begin

lemma append_all:
  assumes "rep s h ps" and "distinct (ps @ xs)" and "\<forall>x \<in> set xs. vals s x \<noteq> None"
  shows "\<exists>h' s'. add_all append xs h s = Ret h' s' \<and> rep s' h' (ps @ xs) \<and> vals s' = vals s"
  using assms
proof (induction xs arbitrary: s h ps)
  case (Cons x xs)
  obtain h1 s1 where 1: "append h x s = Ret h1 s1" "rep s1 h1 (ps @ [x])" "vals s1 = vals s" using append_ok [OF Cons.prems(1), of x] Cons.prems(2,3) by auto
  then show ?case using Cons.IH [OF 1(2)] Cons.prems(2,3) by auto
qed auto

lemma prepend_all:
  assumes "rep s h ps" and "distinct (ps @ xs)" and "\<forall>x \<in> set xs. vals s x \<noteq> None"
  shows "\<exists>h' s'. add_all prepend xs h s = Ret h' s' \<and> rep s' h' (rev xs @ ps) \<and> vals s' = vals s"
  using assms
proof (induction xs arbitrary: s h ps)
  case (Cons x xs)
  obtain h1 s1 where 1: "prepend h x s = Ret h1 s1" "rep s1 h1 (x # ps)" "vals s1 = vals s" using prepend_ok [OF Cons.prems(1), of x] Cons.prems(2,3) by auto
  then show ?case using Cons.IH [OF 1(2)] Cons.prems(2,3) by auto
qed auto

lemma take_front:
  assumes "rep s h (xs @ ps)"
  shows "\<exists>s' h'. take_all delete (length xs) h s = Ret xs s' \<and> rep s' h' ps \<and> vals s' = vals s"
  using assms
proof (induction xs arbitrary: s h)
  case (Cons x xs)
  have h: "h = Some x" using rep_head [OF Cons.prems] by simp
  obtain h1 s1 where 1: "delete h x s = Ret h1 s1" "rep s1 h1 (xs @ ps)" "vals s1 = vals s" using delete_ok [of s h "[]" x "xs @ ps"] Cons.prems by auto
  then show ?case using Cons.IH [OF 1(2)] h by auto
qed auto

text \<open>Appended elements come out at the front in their order, prepended ones in the reverse order.\<close>

lemma queue_and_stack:
  assumes "rep s h []" and "distinct xs" and "\<forall>x \<in> set xs. vals s x \<noteq> None"
  shows "\<exists>s' h'. bind_run (add_all append xs h s) (\<lambda>h s. take_all delete (length xs) h s) = Ret xs s' \<and> rep s' h' [] \<and> vals s' = vals s"
    and "\<exists>s' h'. bind_run (add_all prepend xs h s) (\<lambda>h s. take_all delete (length xs) h s) = Ret (rev xs) s' \<and> rep s' h' [] \<and> vals s' = vals s"
proof -
  obtain h1 s1 where 1: "add_all append xs h s = Ret h1 s1" "rep s1 h1 (xs @ [])" "vals s1 = vals s" using append_all [OF assms(1), of xs] assms(2,3) by auto
  show "\<exists>s' h'. bind_run (add_all append xs h s) (\<lambda>h s. take_all delete (length xs) h s) = Ret xs s' \<and> rep s' h' [] \<and> vals s' = vals s"
    using take_front [OF 1(2)] 1 by auto
  obtain h2 s2 where 2: "add_all prepend xs h s = Ret h2 s2" "rep s2 h2 (rev xs @ [])" "vals s2 = vals s" using prepend_all [OF assms(1), of xs] assms(2,3) by auto
  show "\<exists>s' h'. bind_run (add_all prepend xs h s) (\<lambda>h s. take_all delete (length xs) h s) = Ret (rev xs) s' \<and> rep s' h' [] \<and> vals s' = vals s"
    using take_front [OF 2(2)] 2 by auto
qed

end

text \<open>Both kinds of list keep the contract.\<close>

interpretation lls: linked_list "\<lambda>m. chain (mem m)" "val ll_ops" LL_PREPEND LL_APPEND LL_DELETE
proof unfold_locales
  show "h = first ps" if "chain (mem s) h ps" for s :: "'a cells" and h ps using that by (simp add: chain_seg)
  show "\<exists>h' s'. LL_PREPEND h a s = Ret h' s' \<and> chain (mem s') h' (a # ps) \<and> val ll_ops s' = val ll_ops s"
    if ch: "chain (mem s) h ps" and al: "val ll_ops s a \<noteq> None" and "a \<notin> set ps" for s :: "'a cells" and h ps a
  proof -
    obtain c where c: "mem s a = Some c" using al by auto
    from LL_PREPEND_prepends [OF ch c \<open>a \<notin> set ps\<close>] show ?thesis using set_next_view(2) [OF c, of h] by auto
  qed
  show "\<exists>h' s'. LL_APPEND h a s = Ret h' s' \<and> chain (mem s') h' (ps @ [a]) \<and> val ll_ops s' = val ll_ops s"
    if ch: "chain (mem s) h ps" and al: "val ll_ops s a \<noteq> None" and "a \<notin> set ps" for s :: "'a cells" and h ps a
  proof -
    obtain c where c: "mem s a = Some c" using al by auto
    from LL_APPEND_appends [OF ch c \<open>a \<notin> set ps\<close>] show ?thesis by (auto simp: fun_eq_iff)
  qed
  show "\<exists>h' s'. LL_DELETE h x s = Ret h' s' \<and> chain (mem s') h' (us @ ws) \<and> val ll_ops s' = val ll_ops s"
    if ch: "chain (mem s) h (us @ x # ws)" for s :: "'a cells" and h us x ws
  proof -
    have "remove1 x (us @ x # ws) = us @ ws" using chain_distinct [OF ch] by (simp add: remove1_append)
    then show ?thesis using LL_DELETE_removes [OF ch, of x] by (auto simp: fun_eq_iff)
  qed
qed

interpretation dlls: linked_list "dl False" dval "\<lambda>h a. DL_PREPEND h (Some a)" "\<lambda>h a. DL_APPEND h (Some a)" "\<lambda>h x. DL_DELETE h (Some x)"
proof unfold_locales
  show "h = first ps" if "dl False s h ps" for s :: "'a dcells" and h ps using that by (rule dlD)
  show "\<exists>h' s'. DL_PREPEND h (Some a) s = Ret h' s' \<and> dl False s' h' (a # ps) \<and> dval s' = dval s"
    if "dl False s h ps" "dval s a \<noteq> None" "a \<notin> set ps" for s :: "'a dcells" and h ps a using DL_PREPEND_prepends [OF that] by blast
  show "\<exists>h' s'. DL_APPEND h (Some a) s = Ret h' s' \<and> dl False s' h' (ps @ [a]) \<and> dval s' = dval s"
    if "dl False s h ps" "dval s a \<noteq> None" "a \<notin> set ps" for s :: "'a dcells" and h ps a using DL_APPEND_appends [OF that] by blast
  show "\<exists>h' s'. DL_DELETE h (Some x) s = Ret h' s' \<and> dl False s' h' (us @ ws) \<and> dval s' = dval s"
    if "dl False s h (us @ x # ws)" for s :: "'a dcells" and h us x ws using DL_DELETE_removes [OF that] by blast
qed

text \<open>
  Both kinds of list are queues and stacks: elements put into an empty list with the append macro come out at its front
  in the same order, elements put in with the prepend macro in the reverse order, and the list is empty again.
\<close>

theorem lists_are_queues_and_stacks:
  assumes "distinct xs" and "\<forall>x \<in> set xs. mem l x \<noteq> None \<and> dval m x \<noteq> None"
  shows "(\<exists>l'. bind_run (add_all LL_APPEND xs None l) (\<lambda>h l. take_all LL_DELETE (length xs) h l) = Ret xs l') \<and>
    (\<exists>l'. bind_run (add_all LL_PREPEND xs None l) (\<lambda>h l. take_all LL_DELETE (length xs) h l) = Ret (rev xs) l') \<and>
    (\<exists>m'. bind_run (add_all (\<lambda>h a. DL_APPEND h (Some a)) xs None m) (\<lambda>h m. take_all (\<lambda>h x. DL_DELETE h (Some x)) (length xs) h m) = Ret xs m') \<and>
    (\<exists>m'. bind_run (add_all (\<lambda>h a. DL_PREPEND h (Some a)) xs None m) (\<lambda>h m. take_all (\<lambda>h x. DL_DELETE h (Some x)) (length xs) h m) = Ret (rev xs) m')"
proof -
  have e: "chain (mem l) None []" "dl False m None []" by (simp_all add: dl_def)
  have v: "\<forall>x \<in> set xs. val ll_ops l x \<noteq> None" "\<forall>x \<in> set xs. dval m x \<noteq> None" using assms(2) by auto
  show ?thesis using lls.queue_and_stack [OF e(1) assms(1) v(1)] dlls.queue_and_stack [OF e(2) assms(1) v(2)] by blast
qed

theorem lists_are_queues_and_stacks_witness:
  "\<exists>m'. bind_run (add_all (\<lambda>h a. DL_APPEND h (Some a)) [2, 1] None (demo_dl False)) (\<lambda>h m. take_all (\<lambda>h x. DL_DELETE h (Some x)) (length [2, 1 :: ptr]) h m) = Ret [2, 1] m'"
proof -
  have "distinct [2, 1 :: ptr]" "\<forall>x \<in> set [2, 1]. mem demo_unsorted x \<noteq> None \<and> dval (demo_dl False) x \<noteq> None" by (simp_all add: demo_unsorted_def demo_dl_def)
  from lists_are_queues_and_stacks [OF this] show ?thesis by (elim conjE)
qed

text \<open>
  The macros on singly linked lists that work at an element implement the operations on lists: with \<open>us @ x # ws\<close> in memory,
  a list \<open>qs\<close> apart from it and a new element \<open>a\<close>, \<^verbatim>\<open>LL_CONCAT\<close> appends \<open>qs\<close>, \<^verbatim>\<open>LL_REPLACE_ELEM\<close> puts \<open>a\<close> in the place of \<open>x\<close>,
  \<^verbatim>\<open>LL_PREPEND_ELEM\<close> before \<open>x\<close>; all contents stay.
\<close>

theorem LL_operations_refine_lists:
  assumes "chain (mem m) h (us @ x # ws)" and "mem m a \<noteq> None" and "a \<notin> set (us @ x # ws)" and "chain (mem m) g qs" and "set (us @ x # ws) \<inter> set qs = {}"
  shows "(\<exists>h' m'. LL_CONCAT h g m = Ret h' m' \<and> chain (mem m') h' (us @ x # ws @ qs) \<and> (\<forall>y. map_option content (mem m' y) = map_option content (mem m y))) \<and>
    (\<exists>h' m'. LL_REPLACE_ELEM h (Some x) (Some a) m = Ret h' m' \<and> chain (mem m') h' (us @ a # ws) \<and> (\<forall>y. map_option content (mem m' y) = map_option content (mem m y))) \<and>
    (\<exists>h' m'. LL_PREPEND_ELEM h (Some x) (Some a) m = Ret h' m' \<and> chain (mem m') h' (us @ a # x # ws) \<and> (\<forall>y. map_option content (mem m' y) = map_option content (mem m y)))"
proof -
  obtain c where c: "mem m a = Some c" using assms(2) by blast
  show ?thesis
    using LL_CONCAT_concats [OF assms(1,4,5)] LL_REPLACE_ELEM_replaces [OF assms(1) c assms(3)] LL_PREPEND_ELEM_inserts [OF assms(1) c assms(3)]
    by (fastforce simp: fun_eq_iff)
qed

theorem LL_operations_refine_lists_witness:
  "\<exists>h' m'. LL_REPLACE_ELEM (Some 0) (Some 1) (Some 7) (demo_unsorted\<lparr>mem := (mem demo_unsorted)(7 \<mapsto> \<lparr>content = 5, ll_next = None\<rparr>)\<rparr>) = Ret h' m' \<and>
    chain (mem m') h' [0, 7, 2]"
  using LL_operations_refine_lists [of "demo_unsorted\<lparr>mem := (mem demo_unsorted)(7 \<mapsto> \<lparr>content = 5, ll_next = None\<rparr>)\<rparr>" "Some 0" "[0]" 1 "[2]" 7 None "[]"]
  by (auto simp: demo_unsorted_def)

end
