(* ===== verification/Utlist_Alt.thy ===== *)
theory Utlist_Alt
  imports Utlist_More
begin

text \<open>
  The replacements in \<^verbatim>\<open>utlist.h\<close> of \<^verbatim>\<open>LL_APPEND\<close> and \<^verbatim>\<open>LL_DELETE\<close> for compilers that cannot declare a temporary of the type of the
  list: one walks with the \<^verbatim>\<open>next\<close> field of the new element, the other with the head of the list itself. They do what
  the macros do that they replace.
\<close>

section \<open>The macros\<close>

text \<open>\<^verbatim>\<open>while ((add)->next->next) { (add)->next = (add)->next->next; }\<close>\<close>

partial_function (option) ll_advance :: "ptr \<Rightarrow> 'a cells \<Rightarrow> ('a cells, unit) run option" where
  "ll_advance add m = (case mem m add of
       None \<Rightarrow> Some (Stop UB m)
     | Some c \<Rightarrow> (case ll_next c of
           None \<Rightarrow> Some (Stop UB m)
         | Some n \<Rightarrow> (case mem m n of
               None \<Rightarrow> Some (Stop UB m)
             | Some d \<Rightarrow> (case ll_next d of
                   None \<Rightarrow> Some (Ret () m)
                 | Some k \<Rightarrow> ll_advance add (m\<lparr>mem := (mem m)(add \<mapsto> c\<lparr>ll_next := Some k\<rparr>)\<rparr>)))))"

declare ll_advance.simps [code]

definition LL_APPEND_VS2008 :: "ptr option \<Rightarrow> ptr \<Rightarrow> 'a cells \<Rightarrow> ('a cells, ptr option) run" where
  "LL_APPEND_VS2008 head add m =
     bind_run (case head of
         Some h \<Rightarrow>
           bind_run (set_next add head m) (\<lambda>_ m.
           bind_run (looped (ll_advance add) m) (\<lambda>_ m.
           bind_run (get_cell add m) (\<lambda>c m.
           bind_run (nonnull (ll_next c) m) (\<lambda>n m.
           bind_run (set_next n (Some add) m) (\<lambda>_ m.
           Ret head m)))))
       | None \<Rightarrow> Ret (Some add) m) (\<lambda>head m.
     bind_run (set_next add None m) (\<lambda>_ m.
     Ret head m))"

text \<open>
  \<^verbatim>\<open>while ((head)->next && ((head)->next != (del))) { head = (head)->next; }\<close>: the head the loop leaves behind.
\<close>

partial_function (option) ll_head_before :: "ptr \<Rightarrow> ptr option \<Rightarrow> 'a cells \<Rightarrow> ('a cells, ptr option) run option" where
  "ll_head_before del head m = (case head of
       None \<Rightarrow> Some (Stop UB m)
     | Some h \<Rightarrow> (case mem m h of
           None \<Rightarrow> Some (Stop UB m)
         | Some c \<Rightarrow> if ll_next c \<noteq> None \<and> ll_next c \<noteq> Some del then ll_head_before del (ll_next c) m else Some (Ret head m)))"

declare ll_head_before.simps [code]

definition LL_DELETE_VS2008 :: "ptr option \<Rightarrow> ptr \<Rightarrow> 'a cells \<Rightarrow> ('a cells, ptr option) run" where
  "LL_DELETE_VS2008 head del m =
     (if head = Some del then bind_run (get_cell del m) (\<lambda>c m. Ret (ll_next c) m)
      else let tmp = head in
        bind_run (looped (ll_head_before del head) m) (\<lambda>head m.
        bind_run (nonnull head m) (\<lambda>h m.
        bind_run (get_cell h m) (\<lambda>c m.
        bind_run (if ll_next c \<noteq> None
            then bind_run (get_cell del m) (\<lambda>d m. set_next h (ll_next d) m)
            else Ret () m) (\<lambda>_ m.
        Ret tmp m)))))"

section \<open>What they do\<close>

text \<open>The loop of the append leaves the \<^verbatim>\<open>next\<close> field of the new element at the last element of the list.\<close>

lemma ll_advance_last:
  assumes "chain (mem m) (Some h) (ps @ [p])" and "a \<notin> set (ps @ [p])" and "mem m a = Some c" and "ll_next c = Some h"
  shows "ll_advance a m = Some (Ret () (m\<lparr>mem := (mem m)(a \<mapsto> c\<lparr>ll_next := Some p\<rparr>)\<rparr>))"
  using assms
proof (induction ps arbitrary: h m c)
  case Nil
  then have "(mem m)(a \<mapsto> c\<lparr>ll_next := Some p\<rparr>) = mem m" by (auto simp: fun_eq_iff)
  then show ?case using Nil by (subst ll_advance.simps) auto
next
  case (Cons x ps)
  then obtain d k where d: "x = h" "mem m h = Some d" "ll_next d = Some k" "chain (mem m) (Some k) (ps @ [p])" by (cases ps) auto
  let ?c = "c\<lparr>ll_next := Some k\<rparr>"
  let ?m = "m\<lparr>mem := (mem m)(a \<mapsto> ?c)\<rparr>"
  have ch: "chain (mem ?m) (Some k) (ps @ [p])" using Cons.prems(2) d by simp
  have "ll_advance a m = ll_advance a ?m" using Cons.prems d by (subst ll_advance.simps) simp
  also have "\<dots> = Some (Ret () (?m\<lparr>mem := (mem ?m)(a \<mapsto> ?c\<lparr>ll_next := Some p\<rparr>)\<rparr>))"
    using Cons.IH [OF ch, of ?c] Cons.prems(2) by (simp add: fun_upd_def cong: if_cong)
  finally show ?case by (simp add: fun_upd_def cong: if_cong)
qed

text \<open>The loop of the removal walks with the head as the loop it replaces walks with a temporary: it ends where that one ends, and not at all where that one does not.\<close>

abbreviation at_head :: "('a cells, ptr) run \<Rightarrow> ('a cells, ptr option) run" where
  "at_head r \<equiv> bind_run r (\<lambda>t m. Ret (Some t) m)"

lemma ll_head_before_ends:
  assumes "ll_before d h m = Some r"
  shows "ll_head_before d (Some h) m = Some (at_head r)"
proof -
  let ?P = "\<lambda>d h m r. ll_head_before d (Some h) m = Some (at_head r)"
  show ?thesis
  proof (rule ll_before.raw_induct [where P = ?P, OF _ assms])
    fix f :: "ptr \<Rightarrow> ptr \<Rightarrow> 'a cells \<Rightarrow> ('a cells, ptr) run option" and d h m r
    assume "\<And>d h m r. f d h m = Some r \<Longrightarrow> ?P d h m r"
      and "(case mem m h of None \<Rightarrow> Some (Stop UB m)
        | Some c \<Rightarrow> (case ll_next c of None \<Rightarrow> Some (Ret h m) | Some n \<Rightarrow> if n \<noteq> d then f d n m else Some (Ret h m))) = Some r"
    then show "?P d h m r"
      by (subst ll_head_before.simps) (auto split: option.splits if_splits)
  qed
qed

lemma ll_before_ends:
  assumes "ll_head_before d (Some h) m = Some r"
  shows "ll_before d h m \<noteq> None"
proof -
  let ?P = "\<lambda>d k m (r :: ('a cells, ptr option) run). \<forall>h. k = Some h \<longrightarrow> ll_before d h (m :: 'a cells) \<noteq> None"
  have "?P d (Some h) m r"
  proof (rule ll_head_before.raw_induct [where P = ?P, OF _ assms], intro allI impI)
    fix f :: "ptr \<Rightarrow> ptr option \<Rightarrow> 'a cells \<Rightarrow> ('a cells, ptr option) run option" and d k m r h
    assume "\<And>d k m r. f d k m = Some r \<Longrightarrow> ?P d k m r" and "k = Some h"
      and "(case k of None \<Rightarrow> Some (Stop UB m)
        | Some h \<Rightarrow> (case mem m h of None \<Rightarrow> Some (Stop UB m)
            | Some c \<Rightarrow> if ll_next c \<noteq> None \<and> ll_next c \<noteq> Some d then f d (ll_next c) m else Some (Ret k m))) = Some r"
    then show "ll_before d h m \<noteq> None"
      by (subst ll_before.simps) (auto split: option.splits if_splits)
  qed
  then show ?thesis by simp
qed

lemma looped_head_before: "looped (ll_head_before d (Some h)) m = at_head (looped (ll_before d h) m)"
proof (cases "ll_before d h m")
  case None
  then have "ll_head_before d (Some h) m = None" using ll_before_ends [of d h m] by fastforce
  then show ?thesis using None by (simp add: looped_def)
next
  case (Some r)
  then show ?thesis by (simp add: looped_def ll_head_before_ends)
qed

lemma nonnull_Some: "nonnull (Some p) m = Ret p m"
  by (simp add: nonnull_def assert_that_def)

lemma LL_DELETE_VS2008_eq: "LL_DELETE_VS2008 h d m = LL_DELETE h d m"
proof (cases h)
  case None
  have "ll_head_before d None m = Some (Stop UB m)" by (subst ll_head_before.simps) simp
  then show ?thesis using None by (simp add: LL_DELETE_VS2008_def LL_DELETE_def looped_def)
next
  case (Some k)
  have "bind_run (at_head r) (\<lambda>head m.
        bind_run (nonnull head m) (\<lambda>h m. bind_run (get_cell h m) (\<lambda>c m.
        bind_run (if ll_next c \<noteq> None then bind_run (get_cell d m) (\<lambda>d m. set_next h (ll_next d) m) else Ret () m) (\<lambda>_ m. Ret (Some k) m)))) =
      bind_run r (\<lambda>tmp m. bind_run (get_cell tmp m) (\<lambda>c m. case ll_next c of
            None \<Rightarrow> Ret (Some k) m
          | Some _ \<Rightarrow> bind_run (get_cell d m) (\<lambda>d m. bind_run (set_next tmp (ll_next d) m) (\<lambda>_ m. Ret (Some k) m))))" for r :: "('a cells, ptr) run"
    by (cases r) (auto simp: nonnull_Some get_cell_def split: option.splits)
  then show ?thesis using Some by (simp add: LL_DELETE_VS2008_def LL_DELETE_def looped_head_before Let_def)
qed

lemma LL_APPEND_VS2008_eq:
  assumes "chain (mem m) h ps" and "mem m a = Some c" and "a \<notin> set ps"
  shows "LL_APPEND_VS2008 h a m = LL_APPEND h a m"
proof (cases ps rule: rev_cases)
  case Nil
  then show ?thesis using assms by (simp add: LL_APPEND_VS2008_def LL_APPEND_def set_next_def)
next
  case (snoc qs p)
  have ch: "chain (mem m) h (qs @ [p])" using assms(1) snoc by simp
  then obtain x where x: "h = Some x" by (cases qs) auto
  have ap: "a \<noteq> p" "a \<notin> set (qs @ [p])" using assms(3) snoc by auto
  obtain d where d: "mem m p = Some d" using chain_alloc [OF ch, of p] by auto
  let ?m = "\<lambda>n. m\<lparr>mem := (mem m)(a \<mapsto> c\<lparr>ll_next := n\<rparr>)\<rparr>"
  have ch': "chain (mem (?m n)) (Some x) (qs @ [p])" for n using ch ap(2) x by simp
  have "looped (ll_last x) (?m None) = Ret p (?m None)" using ll_last_chain [OF ch'] by (simp add: looped_def)
  moreover have "looped (ll_advance a) (?m h) = Ret () (?m (Some p))"
    using ll_advance_last [OF ch' ap(2), of h "c\<lparr>ll_next := h\<rparr>"] x by (simp add: looped_def)
  ultimately show ?thesis using assms(2) x d ap(1)
    by (simp add: LL_APPEND_VS2008_def LL_APPEND_def set_next_def get_cell_def nonnull_Some fun_upd_twist)
qed

text \<open>With the replacements a list keeps the same contract.\<close>

interpretation lvs: linked_list "\<lambda>m. chain (mem m)" "val ll_ops" LL_PREPEND LL_APPEND_VS2008 LL_DELETE_VS2008
proof unfold_locales
  show "\<exists>h' s'. LL_APPEND_VS2008 h a s = Ret h' s' \<and> chain (mem s') h' (ps @ [a]) \<and> val ll_ops s' = val ll_ops s"
    if "chain (mem s) h ps" "val ll_ops s a \<noteq> None" "a \<notin> set ps" for s :: "'a cells" and h ps a
    using that lls.append_ok [OF that] LL_APPEND_VS2008_eq [OF that(1) _ that(3)] by auto
qed (unfold LL_DELETE_VS2008_eq, (rule lls.rep_head lls.prepend_ok lls.delete_ok; assumption)+)

text \<open>
  The replacements do what the macros do that they replace: on a list and an allocated element outside it \<^verbatim>\<open>LL_APPEND_VS2008\<close> leaves the same
  memory and the same head as \<^verbatim>\<open>LL_APPEND\<close>, \<^verbatim>\<open>LL_DELETE_VS2008\<close> does so on any memory, undefined and endless runs included, and
  elements appended to an empty list come out at its front in their order.
\<close>

theorem list_replacements_equivalent:
  assumes "chain (mem m) h ps" and "mem m a \<noteq> None" and "a \<notin> set ps" and "distinct xs" and "\<forall>x \<in> set xs. mem l x \<noteq> None"
  shows "LL_APPEND_VS2008 h a m = LL_APPEND h a m \<and> LL_DELETE_VS2008 h' d l = LL_DELETE h' d l \<and>
    (\<exists>l'. bind_run (add_all LL_APPEND_VS2008 xs None l) (\<lambda>h l. take_all LL_DELETE_VS2008 (length xs) h l) = Ret xs l')"
proof -
  obtain c where "mem m a = Some c" using assms(2) by blast
  moreover have "\<exists>l' h. bind_run (add_all LL_APPEND_VS2008 xs None l) (\<lambda>h l. take_all LL_DELETE_VS2008 (length xs) h l) = Ret xs l' \<and> chain (mem l') h [] \<and> val ll_ops l' = val ll_ops l"
    by (rule lvs.queue_and_stack(1)) (use assms(4,5) in auto)
  ultimately show ?thesis using LL_APPEND_VS2008_eq [OF assms(1) _ assms(3)] by (auto simp: LL_DELETE_VS2008_eq)
qed

theorem list_replacements_equivalent_witness:
  "LL_APPEND_VS2008 None 1 demo_unsorted = LL_APPEND None 1 demo_unsorted \<and>
    (\<exists>l'. bind_run (add_all LL_APPEND_VS2008 [2, 0, 1] None demo_unsorted) (\<lambda>h l. take_all LL_DELETE_VS2008 (length [2, 0, 1 :: ptr]) h l) = Ret [2, 0, 1] l')"
proof -
  have "chain (mem demo_unsorted) None []" "mem demo_unsorted 1 \<noteq> None" "(1 :: ptr) \<notin> set []" "distinct [2, 0, 1 :: ptr]"
      "\<forall>x \<in> set [2, 0, 1]. mem demo_unsorted x \<noteq> None"
    by (simp_all add: demo_unsorted_def)
  from list_replacements_equivalent [OF this] show ?thesis by blast
qed

end
