(* ===== verification/Uthash_More.thy ===== *)
theory Uthash_More
  imports Uthash_Ops
begin

text \<open>
  Two more operations of \<^verbatim>\<open>uthash.h\<close>, built on those of the contract \<open>ptr_dict\<close>: replacement of an element with the same
  key, and removal of all elements at once.
\<close>

definition HASH_REPLACE :: "uthash \<Rightarrow> ptr \<Rightarrow> bytes \<Rightarrow> (ptr option \<times> uthash) option" where
  "HASH_REPLACE t add key = do {
     replaced \<leftarrow> HASH_FIND t key;
     t \<leftarrow> (case replaced of Some r \<Rightarrow> HASH_DELETE t r | None \<Rightarrow> Some t);
     t \<leftarrow> HASH_ADD t add key;
     Some (replaced, t) }"

text \<open>The buckets and the table are freed; the elements are not.\<close>

definition HASH_CLEAR :: "uthash \<Rightarrow> uthash" where
  "HASH_CLEAR t = (if head t \<noteq> None then t\<lparr>head := None\<rparr> else t)"

context ptr_dict
begin

text \<open>Whether an element with the key is there or not, after its removal there is none.\<close>

lemma del_key:
  assumes "rep t xs" and "inj_on (key t) (set xs)" and "k = key t r" and "r \<in> set xs"
  shows "\<exists>t'. del t r = Some t' \<and> rep t' (remove1 r xs) \<and> inj_on (key t') (set (remove1 r xs)) \<and> k \<notin> key t' ` set (remove1 r xs) \<and>
    key_map (key t') (remove1 r xs) = (key_map (key t) xs)(k := None) \<and> alloc t' = alloc t"
proof -
  obtain t' where t': "del t r = Some t'" "rep t' (remove1 r xs)" "inj_on (key t') (set (remove1 r xs))"
      "key_map (key t') (remove1 r xs) = (key_map (key t) xs)(key t r := None)" "alloc t' = alloc t"
    using del_map [OF assms(1,2,4)] by blast
  have "key_map (key t') (remove1 r xs) k = None" using t'(4) assms(3) by simp
  then have "k \<notin> key t' ` set (remove1 r xs)" by (simp only: key_map_None not_False_eq_True)
  then show ?thesis using t' assms(3) by blast
qed

end

text \<open>
  C29. \<^verbatim>\<open>HASH_REPLACE\<close> implements the map update for any key: it hands back the element that had the key, or NULL, and afterwards the
  table is well-formed, its keys are distinct, every lookup sees the new element under the key and otherwise what it saw before.
\<close>

theorem HASH_REPLACE_refines_update:
  assumes "uh_rep t xs" and "inj_on (key_at t) (set xs)" and "p \<notin> set xs" and "p \<in> dom (hh t)"
  shows "\<exists>t' ys. HASH_REPLACE t p k = Some (key_map (key_at t) xs k, t') \<and> uh_rep t' ys \<and> inj_on (key_at t') (set ys) \<and>
    (\<forall>k'. HASH_FIND t' k' = Some (((key_map (key_at t) xs)(k \<mapsto> p)) k'))"
proof -
  define xs' where "xs' = (case key_map (key_at t) xs k of Some r \<Rightarrow> remove1 r xs | None \<Rightarrow> xs)"
  have "\<exists>t1. (case key_map (key_at t) xs k of Some r \<Rightarrow> HASH_DELETE t r | None \<Rightarrow> Some t) = Some t1 \<and> uh_rep t1 xs' \<and> inj_on (key_at t1) (set xs') \<and>
      k \<notin> key_at t1 ` set xs' \<and> key_map (key_at t1) xs' = (key_map (key_at t) xs)(k := None) \<and> dom (hh t1) = dom (hh t)"
  proof (cases "key_map (key_at t) xs k")
    case None
    then show ?thesis using assms(1,2) by (auto simp: xs'_def key_map_None [symmetric] fun_upd_idem)
  next
    case (Some r)
    then show ?thesis using uh.del_key [OF assms(1,2), of k r] key_map_Some [OF Some] by (simp add: xs'_def)
  qed
  then obtain t1 where t1: "(case key_map (key_at t) xs k of Some r \<Rightarrow> HASH_DELETE t r | None \<Rightarrow> Some t) = Some t1" "uh_rep t1 xs'" "inj_on (key_at t1) (set xs')"
      "k \<notin> key_at t1 ` set xs'" "key_map (key_at t1) xs' = (key_map (key_at t) xs)(k := None)" "dom (hh t1) = dom (hh t)" by blast
  have "p \<notin> set xs'" using assms(3) notin_set_remove1 by (auto simp: xs'_def split: option.splits)
  then obtain t2 where t2: "HASH_ADD t1 p k = Some t2" "uh_rep t2 (xs' @ [p])" "inj_on (key_at t2) (set (xs' @ [p]))"
      "key_map (key_at t2) (xs' @ [p]) = (key_map (key_at t1) xs')(k \<mapsto> p)"
    using uh.add_map [OF t1(2-4), of p] assms(4) t1(6) by blast
  have "HASH_REPLACE t p k = Some (key_map (key_at t) xs k, t2)" using uh.lookup_map [OF assms(1,2)] t1(1) t2(1) by (simp add: HASH_REPLACE_def)
  then show ?thesis using t2(2-4) t1(5) uh.lookup_map [OF t2(2,3)] by (intro exI [of _ t2] exI [of _ "xs' @ [p]"]) simp
qed

theorem HASH_REPLACE_refines_update_witness:
  "\<exists>t'. HASH_REPLACE demo_two 5 (demo_mac 1) = Some (Some 1, t') \<and> HASH_FIND t' (demo_mac 1) = Some (Some 5) \<and> HASH_FIND t' (demo_mac 2) = Some (Some 2)"
proof -
  have "key_map (key_at demo_two) [1, 2] (demo_mac 1) = Some 1" "key_map (key_at demo_two) [1, 2] (demo_mac 2) = Some 2"
    using demo_two_rep(2,3) by (simp_all add: key_map_def demo_mac_def)
  then show ?thesis using HASH_REPLACE_refines_update [OF demo_two_rep(1) demo_two_inj, of 5 "demo_mac 1"] demo_two_rep(4) by (auto simp: demo_mac_def)
qed

text \<open>After \<^verbatim>\<open>HASH_CLEAR\<close> the table is the empty one and can be used again.\<close>

lemma HASH_CLEAR_empties: "uh_rep t xs \<Longrightarrow> uh_rep (HASH_CLEAR t) [] \<and> HASH_FIND (HASH_CLEAR t) k = Some None \<and> HASH_COUNT (HASH_CLEAR t) = 0"
  by (auto simp: HASH_CLEAR_def uh_rep_def HASH_FIND_def HASH_COUNT_def)

end
