(* ===== verification/Uthash_Sort.thy ===== *)
theory Uthash_Sort
  imports Uthash_Ops Utlist_Sort
begin

text \<open>
  \<^verbatim>\<open>HASH_SRT\<close> of \<^verbatim>\<open>uthash.h\<close>: the merge sort of \<^verbatim>\<open>utlist.h\<close> on the application order of a hash table, with unsigned counters
  and tests for NULL of its own. Its text is modelled on its own; where the sort of \<open>Utlist_Sort\<close> returns, it does the same.
  \<open>cmpfcn\<close> compares two elements.
\<close>

section \<open>The macro\<close>

definition hs_set :: "ptr \<Rightarrow> (UT_hash_handle \<Rightarrow> UT_hash_handle) \<Rightarrow> uthash \<Rightarrow> (uthash, unit) run" where
  "hs_set p f t = (case hh t p of None \<Rightarrow> Stop UB t | Some h \<Rightarrow> Ret () (t\<lparr>hh := (hh t)(p \<mapsto> f h)\<rparr>))"

definition hs_next :: "ptr option \<Rightarrow> uthash \<Rightarrow> (uthash, ptr option) run" where
  "hs_next q t = (case Option.bind q (hh t) of None \<Rightarrow> Stop UB t | Some h \<Rightarrow> Ret (app_next h) t)"

definition hs_link :: "ptr option \<Rightarrow> ptr option \<Rightarrow> ptr option \<Rightarrow> uthash \<Rightarrow> (uthash, ptr option) run" where
  "hs_link hlist htail e t =
     bind_run (case htail of Some k \<Rightarrow> bind_run (hs_set k (\<lambda>h. h\<lparr>app_next := e\<rparr>) t) (\<lambda>_ t. Ret hlist t) | None \<Rightarrow> Ret e t) (\<lambda>hlist t.
     bind_run (case e of Some p \<Rightarrow> hs_set p (\<lambda>h. h\<lparr>app_prev := htail\<rparr>) t | None \<Rightarrow> Ret () t) (\<lambda>_ t.
     Ret hlist t))"

fun hs_advance :: "nat \<Rightarrow> nat \<Rightarrow> ptr option \<Rightarrow> uthash \<Rightarrow> (uthash, nat \<times> ptr option) run" where
  "hs_advance 0 psize q t = Ret (psize, q) t"
| "hs_advance (Suc k) psize q t =
     bind_run (hs_next q t) (\<lambda>q t. if q = None then Ret (psize + 1, q) t else hs_advance k (psize + 1) q t)"

definition hs_takes_p :: "(ptr \<Rightarrow> ptr \<Rightarrow> int) \<Rightarrow> ptr option \<Rightarrow> nat \<Rightarrow> ptr option \<Rightarrow> nat \<Rightarrow> uthash \<Rightarrow> (uthash, bool) run" where
  "hs_takes_p cmpfcn p psize q qsize t =
     (if psize = 0 then Ret False t
      else if qsize = 0 \<or> q = None then Ret True t
      else if Option.bind p (hh t) = None \<or> Option.bind q (hh t) = None then Stop UB t
      else Ret (cmpfcn (the p) (the q) \<le> 0) t)"

function hs_merge :: "(ptr \<Rightarrow> ptr \<Rightarrow> int) \<Rightarrow> ptr option \<Rightarrow> nat \<Rightarrow> ptr option \<Rightarrow> nat \<Rightarrow> ptr option \<Rightarrow> ptr option \<Rightarrow> uthash
    \<Rightarrow> (uthash, ptr option \<times> ptr option \<times> ptr option) run" where
  "hs_merge cmpfcn p psize q qsize hlist htail t =
     (if 0 < psize \<or> 0 < qsize \<and> q \<noteq> None then
        bind_run (hs_takes_p cmpfcn p psize q qsize t) (\<lambda>b t.
        if b then
          bind_run (if p \<noteq> None then hs_next p t else Ret p t) (\<lambda>n t.
          bind_run (hs_link hlist htail p t) (\<lambda>hlist t.
          hs_merge cmpfcn n (psize - 1) q qsize hlist p t))
        else
          bind_run (hs_next q t) (\<lambda>n t.
          bind_run (hs_link hlist htail q t) (\<lambda>hlist t.
          hs_merge cmpfcn p psize n (qsize - 1) hlist q t)))
      else Ret (q, hlist, htail) t)"
  by pat_completeness auto

termination
  by (relation "measure (\<lambda>(cmpfcn, p, psize, q, qsize, hlist, htail, t). psize + qsize)")
    (auto simp: hs_takes_p_def split: if_splits)

declare hs_merge.simps [simp del]

partial_function (option) hs_pass :: "(ptr \<Rightarrow> ptr \<Rightarrow> int) \<Rightarrow> nat \<Rightarrow> ptr option \<Rightarrow> nat \<Rightarrow> ptr option \<Rightarrow> ptr option \<Rightarrow> uthash
    \<Rightarrow> (uthash, nat \<times> ptr option \<times> ptr option) run option" where
  "hs_pass cmpfcn insize p nmerges hlist htail t =
     (if p = None then Some (Ret (nmerges, hlist, htail) t)
      else case bind_run (hs_advance insize 0 p t) (\<lambda>(psize, q) t. hs_merge cmpfcn p psize q insize hlist htail t) of
        Stop h t \<Rightarrow> Some (Stop h t)
      | Ret (q, hlist, htail) t \<Rightarrow> hs_pass cmpfcn insize q ((nmerges + 1) mod 2 ^ 32) hlist htail t)"

declare hs_pass.simps [code]

text \<open>After the last pass the table gets its new tail and the caller its new head, both of which are not NULL.\<close>

definition hs_finish :: "ptr option \<Rightarrow> ptr option \<Rightarrow> uthash \<Rightarrow> (uthash, unit) run" where
  "hs_finish hlist htail t = (case (hlist, htail) of
       (Some l, Some k) \<Rightarrow> Ret () (t\<lparr>tbl := (tbl t)\<lparr>tail := k\<rparr>, head := Some l\<rparr>)
     | _ \<Rightarrow> Stop UB t)"

partial_function (option) hs_loop :: "(ptr \<Rightarrow> ptr \<Rightarrow> int) \<Rightarrow> nat \<Rightarrow> ptr option \<Rightarrow> uthash \<Rightarrow> (uthash, unit) run option" where
  "hs_loop cmpfcn insize hlist t =
     (case bind_run (looped (hs_pass cmpfcn insize hlist 0 None None) t) (\<lambda>(nmerges, hlist, htail) t.
          bind_run (case htail of Some k \<Rightarrow> hs_set k (\<lambda>h. h\<lparr>app_next := None\<rparr>) t | None \<Rightarrow> Ret () t) (\<lambda>_ t.
          Ret (nmerges, hlist, htail) t)) of
        Stop h t \<Rightarrow> Some (Stop h t)
      | Ret (nmerges, hlist, htail) t \<Rightarrow>
          if nmerges \<le> 1 then Some (hs_finish hlist htail t)
          else hs_loop cmpfcn ((2 * insize) mod 2 ^ 32) hlist t)"

declare hs_loop.simps [code]

definition HASH_SRT :: "(ptr \<Rightarrow> ptr \<Rightarrow> int) \<Rightarrow> uthash \<Rightarrow> (uthash, unit) run" where
  "HASH_SRT cmpfcn t = (if head t = None then Ret () t else looped (hs_loop cmpfcn 1 (head t)) t)"

section \<open>The operations of the sort\<close>

text \<open>What the sort leaves alone: an element, its place in its bucket, its key, and the table.\<close>

definition hs_fixed :: "uthash \<Rightarrow> ptr \<Rightarrow> UT_hash_handle \<Rightarrow> ptr \<times> UT_hash_handle \<times> UT_hash_table \<times> ptr option" where
  "hs_fixed t p h = (p, h\<lparr>app_next := None, app_prev := None\<rparr>, tbl t, head t)"

definition hs_close :: "ptr option \<Rightarrow> ptr option \<Rightarrow> uthash \<Rightarrow> (uthash, unit) run" where
  "hs_close hlist htail t = (case htail of Some k \<Rightarrow> hs_set k (\<lambda>h. h\<lparr>app_next := None\<rparr>) t | None \<Rightarrow> Ret () t)"

definition hs_ops :: "(uthash, ptr \<times> UT_hash_handle \<times> UT_hash_table \<times> ptr option) list_ops" where
  "hs_ops = \<lparr>val = \<lambda>t p. map_option (hs_fixed t p) (hh t p), nxt = \<lambda>t p. Option.bind (hh t p) app_next,
     link = \<lambda>l k e. hs_link l k (Some e), close = hs_close, stop = \<lambda>_. None\<rparr>"

lemma hs_ops_simps [simp]:
  "val hs_ops t p = map_option (hs_fixed t p) (hh t p)" "nxt hs_ops t p = Option.bind (hh t p) app_next"
  "link hs_ops l k e = hs_link l k (Some e)" "close hs_ops = hs_close" "stop hs_ops h = None"
  by (simp_all add: hs_ops_def)

lemma hs_next_sort: "hs_next q t = sort_next hs_ops None q t"
  by (auto simp: hs_next_def sort_next_def split: option.splits)

lemma hs_advance_sort: "hs_advance k n q t = sort_advance hs_ops None k n q t"
  by (induction k arbitrary: n q t) (auto simp: hs_next_sort intro!: bind_run_cong)

definition by_elt :: "(ptr \<Rightarrow> ptr \<Rightarrow> int) \<Rightarrow> ptr \<times> UT_hash_handle \<times> UT_hash_table \<times> ptr option \<Rightarrow> ptr \<times> UT_hash_handle \<times> UT_hash_table \<times> ptr option \<Rightarrow> int" where
  "by_elt cmpfcn x y = cmpfcn (fst x) (fst y)"

lemma hs_takes_p_sort: "sort_takes_p hs_ops (by_elt cmpfcn) p m q n t = hs_takes_p cmpfcn p m q n t"
  by (cases "Option.bind p (hh t)"; cases "Option.bind q (hh t)"; cases p; cases q)
    (auto simp: sort_takes_p_def hs_takes_p_def hs_fixed_def by_elt_def split: option.splits)

lemma sort_next_Ret: "sort_next hs_ops None p t = Ret n t' \<Longrightarrow> p \<noteq> None \<and> hs_next p t = Ret n t'"
  by (cases p) (auto simp: hs_next_sort, simp add: sort_next_def)

section \<open>The same as the sort of lists\<close>

lemma hs_merge_sort:
  "sort_merge hs_ops (by_elt cmpfcn) None p m q n l k t = Ret x t' \<Longrightarrow> hs_merge cmpfcn p m q n l k t = Ret x t'"
proof (induction cmpfcn p m q n l k t rule: hs_merge.induct)
  case (1 cmpfcn p m q n l k t)
  show ?case
  proof (cases "0 < m \<or> 0 < n \<and> q \<noteq> None")
    case False
    then have "Ret (q, l, k) t = Ret x t'" using "1.prems" unfolding sort_merge.simps [of hs_ops "by_elt cmpfcn" None p m q n l k t] if_not_P [OF False] by simp
    then show ?thesis unfolding hs_merge.simps [of cmpfcn p m q n l k t] if_not_P [OF False] .
  next
    case True
    note run = "1.prems" [unfolded sort_merge.simps [of hs_ops "by_elt cmpfcn" None p m q n l k t] if_P [OF True] hs_takes_p_sort]
    then obtain b t1 where b: "hs_takes_p cmpfcn p m q n t = Ret b t1" and
        rest: "(if b then bind_run (sort_next hs_ops None p t1) (\<lambda>n' s. bind_run (link hs_ops l k (the p) s) (\<lambda>l' s.
            sort_merge hs_ops (by_elt cmpfcn) None n' (m - 1) q n l' p s))
          else bind_run (sort_next hs_ops None q t1) (\<lambda>n' s. bind_run (link hs_ops l k (the q) s) (\<lambda>l' s.
            sort_merge hs_ops (by_elt cmpfcn) None p m n' (n - 1) l' q s))) = Ret x t'"
      by (auto simp: bind_run_Ret_iff simp del: hs_ops_simps)
    show ?thesis
    proof (cases b)
      case bT: True
      then obtain n' t2 l' t3 where st: "sort_next hs_ops None p t1 = Ret n' t2" "hs_link l k (Some (the p)) t2 = Ret l' t3"
          "sort_merge hs_ops (by_elt cmpfcn) None n' (m - 1) q n l' p t3 = Ret x t'"
        using rest by (auto simp: bind_run_Ret_iff)
      then show ?thesis using "1.IH"(1) [OF True b bT] sort_next_Ret [OF st(1)] True b bT by (subst hs_merge.simps) auto
    next
      case bF: False
      then obtain n' t2 l' t3 where st: "sort_next hs_ops None q t1 = Ret n' t2" "hs_link l k (Some (the q)) t2 = Ret l' t3"
          "sort_merge hs_ops (by_elt cmpfcn) None p m n' (n - 1) l' q t3 = Ret x t'"
        using rest by (auto simp: bind_run_Ret_iff)
      then show ?thesis using "1.IH"(2) [OF True b bF] sort_next_Ret [OF st(1)] True b bF by (subst hs_merge.simps) auto
    qed
  qed
qed

lemma hs_pass_step:
  assumes IH: "\<And>q l e t. self q (n + 1) l e t = Some (Ret x t') \<Longrightarrow> hs_pass cmpfcn k q (n + 1) l e t = Some (Ret x t')"
    and run: "(if p = None then Some (Ret (n, l, e) t)
      else if n + 1 \<ge> 2 ^ 31 then Some (Stop UB t)
      else case bind_run (sort_advance hs_ops None k 0 p t) (\<lambda>(m, q) t. sort_merge hs_ops (by_elt cmpfcn) None p m q k l e t) of
        Stop h t \<Rightarrow> Some (Stop h t)
      | Ret (q, l, e) t \<Rightarrow> self q (n + 1) l e t) = Some (Ret x t')"
  shows "hs_pass cmpfcn k p n l e t = Some (Ret x t')"
proof (cases "p = None")
  case True
  then show ?thesis using run by (subst hs_pass.simps) simp
next
  case False
  obtain m q t1 where adv: "sort_advance hs_ops None k 0 p t = Ret (m, q) t1" using run False by (cases "sort_advance hs_ops None k 0 p t") (auto split: if_splits)
  obtain q' l' e' t2 where mg: "sort_merge hs_ops (by_elt cmpfcn) None p m q k l e t1 = Ret (q', l', e') t2"
    using run False adv by (cases "sort_merge hs_ops (by_elt cmpfcn) None p m q k l e t1") (auto split: if_splits)
  have n: "n + 1 < 2 ^ 31" and rec: "self q' (n + 1) l' e' t2 = Some (Ret x t')" using run False adv mg by (auto split: if_splits)
  have "(n + 1) mod 2 ^ 32 = n + 1" using n by simp
  then have "hs_pass cmpfcn k p n l e t = hs_pass cmpfcn k q' (n + 1) l' e' t2"
    using False adv hs_merge_sort [OF mg] by (subst hs_pass.simps) (auto simp: hs_advance_sort)
  then show ?thesis using IH [OF rec] by simp
qed

lemma hs_pass_sort:
  assumes "sort_pass hs_ops (by_elt cmpfcn) None k p n l e t = Some (Ret x t')"
  shows "hs_pass cmpfcn k p n l e t = Some (Ret x t')"
proof -
  let ?P = "\<lambda>L cmp oh k p n l e t r. L = hs_ops \<and> cmp = by_elt cmpfcn \<and> oh = (None :: ptr option) \<and> r = Ret x t' \<longrightarrow> hs_pass cmpfcn k p n l e t = Some r"
  from assms have "?P hs_ops (by_elt cmpfcn) None k p n l e t (Ret x t')"
  proof (rule sort_pass.raw_induct [where P = ?P, rotated], intro impI, elim conjE)
    fix self L cmp oh k p n l e and t :: uthash and r
    assume IH: "\<And>L cmp oh k p n l e t r. self L cmp oh k p n l e t = Some r \<Longrightarrow> ?P L cmp oh k p n l e t r"
      and run: "(if p = None then Some (Ret (n, l, e) t)
        else if 2 ^ 31 \<le> n + 1 then Some (Stop UB t)
        else case bind_run (sort_advance L oh k 0 p t) (\<lambda>(psize, q). sort_merge L cmp oh p psize q k l e) of
          Ret (q, l, e) s \<Rightarrow> self L cmp oh k q (n + 1) l e s | Stop h s \<Rightarrow> Some (Stop h s)) = Some r"
      and c: "L = hs_ops" "cmp = by_elt cmpfcn" "oh = None" "r = Ret x t'"
    show "hs_pass cmpfcn k p n l e t = Some r" unfolding c
      by (rule hs_pass_step [of "self hs_ops (by_elt cmpfcn) None k", OF _ run [unfolded c]]) (use IH in blast)
  qed
  then show ?thesis by simp
qed

lemma hs_loop_step:
  assumes IH: "\<And>l t. self (2 * k) l t = Some (Ret (l', e') t') \<Longrightarrow> hs_loop cmpfcn (2 * k) l t = Some (hs_finish l' e' t')"
    and run: "(case bind_run (looped (sort_pass hs_ops (by_elt cmpfcn) (stop hs_ops l) k l 0 None None) t) (\<lambda>(n, l, e) s.
          bind_run (close hs_ops l e s) (\<lambda>_ s. if 2 * k \<ge> 2 ^ 31 then Stop UB s else Ret (n, l, e) s)) of
        Ret (n, l, e) s \<Rightarrow> if n \<le> 1 then Some (Ret (l, e) s) else self (2 * k) l s
      | Stop h s \<Rightarrow> Some (Stop h s)) = Some (Ret (l', e') t')"
  shows "hs_loop cmpfcn k l t = Some (hs_finish l' e' t')"
proof -
  obtain n l1 e1 t1 t2 where ps: "looped (sort_pass hs_ops (by_elt cmpfcn) None k l 0 None None) t = Ret (n, l1, e1) t1"
      and cl: "hs_close l1 e1 t1 = Ret () t2" and k: "2 * k < 2 ^ 31"
      and rest: "(if n \<le> 1 then Some (Ret (l1, e1) t2) else self (2 * k) l1 t2) = Some (Ret (l', e') t')"
    using run by (auto simp: bind_run_Ret_iff split: run.splits if_splits)
  have p: "hs_pass cmpfcn k l 0 None None t = Some (Ret (n, l1, e1) t1)"
    using ps hs_pass_sort by (auto simp: looped_def split: option.splits)
  have "(2 * k) mod 2 ^ 32 = 2 * k" using k by simp
  then have "hs_loop cmpfcn k l t = (if n \<le> 1 then Some (hs_finish l1 e1 t2) else hs_loop cmpfcn (2 * k) l1 t2)"
    using p cl by (subst hs_loop.simps) (simp add: looped_def hs_close_def)
  then show ?thesis using rest IH by (auto split: if_splits)
qed

lemma hs_loop_sort:
  assumes "sort_loop hs_ops (by_elt cmpfcn) k l t = Some (Ret (l', e') t')"
  shows "hs_loop cmpfcn k l t = Some (hs_finish l' e' t')"
proof -
  let ?P = "\<lambda>L cmp k l t r. L = hs_ops \<and> cmp = by_elt cmpfcn \<and> r = Ret (l', e') t' \<longrightarrow> hs_loop cmpfcn k l t = Some (hs_finish l' e' t')"
  from assms have "?P hs_ops (by_elt cmpfcn) k l t (Ret (l', e') t')"
  proof (rule sort_loop.raw_induct [where P = ?P, rotated], intro impI, elim conjE)
    fix self L cmp k l and t :: uthash and r
    assume IH: "\<And>L cmp k l t r. self L cmp k l t = Some r \<Longrightarrow> ?P L cmp k l t r"
      and run: "(case bind_run (looped (sort_pass L cmp (stop L l) k l 0 None None) t) (\<lambda>(n, l, e) s.
          bind_run (close L l e s) (\<lambda>_ s. if 2 ^ 31 \<le> 2 * k then Stop UB s else Ret (n, l, e) s)) of
        Ret (n, l, e) s \<Rightarrow> if n \<le> 1 then Some (Ret (l, e) s) else self L cmp (2 * k) l s
      | Stop h s \<Rightarrow> Some (Stop h s)) = Some r"
      and c: "L = hs_ops" "cmp = by_elt cmpfcn" "r = Ret (l', e') t'"
    show "hs_loop cmpfcn k l t = Some (hs_finish l' e' t')"
      by (rule hs_loop_step [of "self hs_ops (by_elt cmpfcn)", OF _ run [unfolded c]]) (use IH in blast)
  qed
  then show ?thesis by simp
qed

section \<open>The sort keeps the table well-formed\<close>

abbreviation prev_of :: "uthash \<Rightarrow> ptr \<Rightarrow> ptr option" where
  "prev_of t p \<equiv> Option.bind (hh t p) app_prev"

lemma hs_fixed_hh [simp]: "hs_fixed (t\<lparr>hh := H\<rparr>) = hs_fixed t"
  by (simp add: hs_fixed_def fun_eq_iff)

text \<open>An assignment to a link of the application order.\<close>

lemma hs_set_view:
  assumes "hh t p = Some h"
  shows "hs_set p (\<lambda>h. h\<lparr>app_next := n\<rparr>) t = Ret () (t\<lparr>hh := (hh t)(p \<mapsto> h\<lparr>app_next := n\<rparr>)\<rparr>)"
    and "hs_set p (\<lambda>h. h\<lparr>app_prev := q\<rparr>) t = Ret () (t\<lparr>hh := (hh t)(p \<mapsto> h\<lparr>app_prev := q\<rparr>)\<rparr>)"
    and "val hs_ops (t\<lparr>hh := (hh t)(p \<mapsto> h\<lparr>app_next := n\<rparr>)\<rparr>) = val hs_ops t"
    and "val hs_ops (t\<lparr>hh := (hh t)(p \<mapsto> h\<lparr>app_prev := q\<rparr>)\<rparr>) = val hs_ops t"
    and "nxt hs_ops (t\<lparr>hh := (hh t)(p \<mapsto> h\<lparr>app_next := n\<rparr>)\<rparr>) = (nxt hs_ops t)(p := n)"
    and "nxt hs_ops (t\<lparr>hh := (hh t)(p \<mapsto> h\<lparr>app_prev := q\<rparr>)\<rparr>) = nxt hs_ops t"
    and "prev_of (t\<lparr>hh := (hh t)(p \<mapsto> h\<lparr>app_next := n\<rparr>)\<rparr>) = prev_of t"
    and "prev_of (t\<lparr>hh := (hh t)(p \<mapsto> h\<lparr>app_prev := q\<rparr>)\<rparr>) = (prev_of t)(p := q)"
  using assms by (auto simp: hs_set_def fun_eq_iff) (simp_all add: hs_fixed_def)

lemma hs_set_next:
  assumes "val hs_ops t p \<noteq> None"
  shows "\<exists>t'. hs_set p (\<lambda>h. h\<lparr>app_next := n\<rparr>) t = Ret () t' \<and> val hs_ops t' = val hs_ops t \<and> nxt hs_ops t' = (nxt hs_ops t)(p := n) \<and>
    prev_of t' = prev_of t \<and> (\<forall>x. x \<noteq> p \<longrightarrow> hh t' x = hh t x)"
proof -
  obtain h where h: "hh t p = Some h" using assms by auto
  show ?thesis by (rule exI, intro conjI, rule hs_set_view(1) [OF h]) (simp_all only: hs_set_view [OF h], simp)
qed

lemma hs_set_prev:
  assumes "val hs_ops t p \<noteq> None"
  shows "\<exists>t'. hs_set p (\<lambda>h. h\<lparr>app_prev := q\<rparr>) t = Ret () t' \<and> val hs_ops t' = val hs_ops t \<and> nxt hs_ops t' = nxt hs_ops t \<and>
    prev_of t' = (prev_of t)(p := q) \<and> (\<forall>x. x \<noteq> p \<longrightarrow> hh t' x = hh t x)"
proof -
  obtain h where h: "hh t p = Some h" using assms by auto
  show ?thesis by (rule exI, intro conjI, rule hs_set_view(2) [OF h]) (simp_all only: hs_set_view [OF h], simp)
qed

interpretation hs: sortable hs_ops hh "\<lambda>t out. seg (prev_of t) (rev out) None" "\<lambda>t out. seg (prev_of t) (rev out) None"
proof unfold_locales
  show "\<exists>t'. link hs_ops l None e t = Ret (Some e) t' \<and> val hs_ops t' = val hs_ops t \<and> nxt hs_ops t' = nxt hs_ops t \<and>
      (\<forall>x. x \<noteq> e \<longrightarrow> hh t' x = hh t x) \<and> seg (prev_of t') (rev [e]) None" if al: "val hs_ops t e \<noteq> None" for t l e
  proof -
    from hs_set_prev [OF al, of None] obtain t' where "hs_set e (\<lambda>h. h\<lparr>app_prev := None\<rparr>) t = Ret () t'" "val hs_ops t' = val hs_ops t"
      "nxt hs_ops t' = nxt hs_ops t" "prev_of t' = (prev_of t)(e := None)" "\<forall>x. x \<noteq> e \<longrightarrow> hh t' x = hh t x" by blast
    then show ?thesis by (intro exI [of _ t']) (simp add: hs_link_def del: hs_ops_simps(1,2))
  qed
  show "\<exists>t'. link hs_ops l (Some k) e t = Ret l t' \<and> val hs_ops t' = val hs_ops t \<and> nxt hs_ops t' = (nxt hs_ops t)(k := Some e) \<and>
      (\<forall>x. x \<notin> {k, e} \<longrightarrow> hh t' x = hh t x) \<and> seg (prev_of t') (rev (out @ [k, e])) None"
    if k: "val hs_ops t k \<noteq> None" and e: "val hs_ops t e \<noteq> None" and d: "distinct (out @ [k, e])" and b: "seg (prev_of t) (rev (out @ [k])) None" for t k e out l
  proof -
    from hs_set_next [OF k, of "Some e"] obtain t1 where t1: "hs_set k (\<lambda>h. h\<lparr>app_next := Some e\<rparr>) t = Ret () t1" "val hs_ops t1 = val hs_ops t"
      "nxt hs_ops t1 = (nxt hs_ops t)(k := Some e)" "prev_of t1 = prev_of t" "\<forall>x. x \<noteq> k \<longrightarrow> hh t1 x = hh t x" by blast
    have "val hs_ops t1 e \<noteq> None" using e t1(2) by simp
    from hs_set_prev [OF this, of "Some k"] obtain t2 where t2: "hs_set e (\<lambda>h. h\<lparr>app_prev := Some k\<rparr>) t1 = Ret () t2" "val hs_ops t2 = val hs_ops t1"
      "nxt hs_ops t2 = nxt hs_ops t1" "prev_of t2 = (prev_of t1)(e := Some k)" "\<forall>x. x \<noteq> e \<longrightarrow> hh t2 x = hh t1 x" by blast
    have "seg (prev_of t2) (rev (out @ [k, e])) None" using b d unfolding t2(4) t1(4) by simp
    then show ?thesis using t1 t2 by (intro exI [of _ t2]) (simp add: hs_link_def del: hs_ops_simps(1,2))
  qed
  show "\<exists>t'. close hs_ops (Some (hd out)) (Some (last out)) t = Ret () t' \<and> val hs_ops t' = val hs_ops t \<and>
      nxt hs_ops t' = (nxt hs_ops t)(last out := stop hs_ops (Some (hd out))) \<and> (\<forall>x. x \<notin> set out \<longrightarrow> hh t' x = hh t x) \<and> seg (prev_of t') (rev out) None"
    if "out \<noteq> []" and al: "\<forall>x \<in> set out. val hs_ops t x \<noteq> None" and b: "seg (prev_of t) (rev out) None" for t out
  proof -
    have l: "last out \<in> set out" using \<open>out \<noteq> []\<close> by simp
    from hs_set_next [OF bspec [OF al l], of None] obtain t' where "hs_set (last out) (\<lambda>h. h\<lparr>app_next := None\<rparr>) t = Ret () t'" "val hs_ops t' = val hs_ops t"
      "nxt hs_ops t' = (nxt hs_ops t)(last out := None)" "prev_of t' = prev_of t" "\<forall>x. x \<noteq> last out \<longrightarrow> hh t' x = hh t x" by blast
    moreover from this(5) have "\<forall>x. x \<notin> set out \<longrightarrow> hh t' x = hh t x" using l by metis
    ultimately show ?thesis using b by (intro exI [of _ t']) (simp add: hs_close_def del: hs_ops_simps(1,2))
  qed
qed simp

text \<open>The application order, told by its links in both directions.\<close>

lemma dseg_seg:
  "dseg (hh t) app_next app_prev q p xs r None \<longleftrightarrow> p = first xs \<and> r = (if xs = [] then q else Some (last xs)) \<and>
     seg (nxt hs_ops t) xs None \<and> seg (prev_of t) (rev xs) q \<and> (\<forall>x \<in> set xs. hh t x \<noteq> None)"
proof (induction xs arbitrary: q p)
  case (Cons x xs)
  show ?case
  proof (cases "hh t x")
    case (Some h)
    then show ?thesis using Cons.IH [of "Some x" "app_next h"] by (auto simp: seg_append)
  qed simp
qed auto

section \<open>Sorting\<close>

lemma sorted_key: "Sorting_Algorithms.sorted (key f c) xs \<longleftrightarrow> Sorting_Algorithms.sorted c (map f xs)"
  by (induction xs rule: induct_list012) simp_all

lemma map_sort_key: "map f (Sorting_Algorithms.sort (key f c) xs) = Sorting_Algorithms.sort c (map f xs)"
proof (rule sort_eqI [symmetric])
  show "Sorting_Algorithms.sorted c (map f (Sorting_Algorithms.sort (key f c) xs))" by (simp flip: sorted_key)
  show "stable_segment c y (map f xs) = stable_segment c y (map f (Sorting_Algorithms.sort (key f c) xs))" if "y \<in> set (map f xs)" for y
  proof -
    obtain x where "y = f x" using \<open>y \<in> set (map f xs)\<close> by auto
    then show ?thesis using stable_sort [of "key f c" x xs] by (simp add: filter_map o_def)
  qed
qed simp

text \<open>What the table keeps when only the application order changes.\<close>

lemma val_eqD:
  assumes "val hs_ops t' = val hs_ops t"
  shows "same_proj (\<lambda>h. (hh_next h, hh_prev h)) (hh t) (hh t')" and "same_proj hashv (hh t) (hh t')" and "same_proj hh_key (hh t) (hh t')"
    and "hh t p \<noteq> None \<Longrightarrow> tbl t' = tbl t"
proof -
  have v: "map_option (hs_fixed t' p) (hh t' p) = map_option (hs_fixed t p) (hh t p)" for p using fun_cong [OF assms, of p] by simp
  have f: "hs_fixed t' p h' = hs_fixed t p h \<Longrightarrow> tbl t' = tbl t \<and> hh_next h' = hh_next h \<and> hh_prev h' = hh_prev h \<and> hashv h' = hashv h \<and> hh_key h' = hh_key h" for p h h'
    by (cases h; cases h') (simp add: hs_fixed_def)
  have s: "same_proj P (hh t) (hh t')" if P: "\<And>p h h'. hs_fixed t' p h' = hs_fixed t p h \<Longrightarrow> P h' = P h" for P :: "UT_hash_handle \<Rightarrow> 'b"
    unfolding same_proj_def
  proof
    show "map_option P (hh t' y) = map_option P (hh t y)" for y using v [of y] P [of y] by (cases "hh t y"; cases "hh t' y") auto
  qed
  show "same_proj (\<lambda>h. (hh_next h, hh_prev h)) (hh t) (hh t')" "same_proj hashv (hh t) (hh t')" "same_proj hh_key (hh t) (hh t')"
    using f by (auto intro!: s)
  show "hh t p \<noteq> None \<Longrightarrow> tbl t' = tbl t" using v [of p] f by (cases "hh t p"; cases "hh t' p") auto
qed

lemma reorder_rep:
  assumes rep: "uh_rep t xs" and ne: "xs \<noteq> []" and ys: "mset ys = mset xs" and v: "val hs_ops t' = val hs_ops t"
    and sg: "seg (nxt hs_ops t') ys None" "seg (prev_of t') (rev ys) None"
  shows "uh_rep (t'\<lparr>tbl := (tbl t')\<lparr>tail := last ys\<rparr>, head := Some (hd ys)\<rparr>) ys" (is "uh_rep ?t ys")
proof -
  have st: "set ys = set xs" "distinct ys" "ys \<noteq> []" "length ys = length xs"
    using ys ne rep mset_eq_setD mset_eq_imp_distinct_iff mset_eq_length by (auto simp: uh_rep_def, blast+)
  obtain x where x: "x \<in> set xs" using ne by (cases xs) auto
  note m = uh_rep_memD [OF rep x] and k = val_eqD [OF v]
  have T: "tbl t' = tbl t" using k(4) m(1) by auto
  have al: "hh t' y \<noteq> None" if "y \<in> set ys" for y using that st(1) uh_rep_memD(1) [OF rep, of y] fun_cong [OF v, of y] by (cases "hh t' y") auto
  have "dseg (hh t') app_next app_prev None (Some (hd ys)) ys (Some (last ys)) None"
    using sg st(3) al by (auto simp: dseg_seg first_hd)
  moreover obtain cs where "chains_ok (num_buckets (tbl t)) (buckets (tbl t)) (hh t) (set xs) cs" using m(8) by blast
  then have "chains_ok (num_buckets (tbl t)) (buckets (tbl t)) (hh t') (set ys) cs"
    unfolding st(1) by (rule chains_ok_keep [OF _ k(1)]) (rule same_proj_the [OF k(2)])
  moreover have "\<forall>y \<in> set ys. hashv (the (hh t' y)) = HASH_JEN (hh_key (the (hh t' y)))"
    using m(7) st(1) same_proj_the [OF k(2)] same_proj_the [OF k(3)] by auto
  ultimately show ?thesis using st m(5,6) T by (auto simp: uh_rep_def)
qed

lemma key_map_set:
  assumes "inj_on f (set xs)" and "set ys = set xs"
  shows "key_map f ys = key_map f xs"
  by (rule key_map_eqI) (use assms in \<open>simp_all add: key_map_mem key_map_None\<close>)

text \<open>
  C28. \<^verbatim>\<open>HASH_SORT\<close> sorts the application order of a hash table in place: it returns, the table is well-formed again, its elements
  now stand in the order that a stable sort by the comparison function gives, they keep their keys, every lookup has the same result as before, and no other
  memory changes. \<open>c\<close> is the order that the comparison function \<open>cmpfcn\<close> of the caller computes.
\<close>

theorem HASH_SRT_sorts:
  assumes "uh_rep t xs" and "inj_on (key_at t) (set xs)" and "length xs \<le> 2 ^ 29" and "\<And>x y. cmpfcn x y \<le> 0 \<longleftrightarrow> compare c x y \<noteq> Greater"
  shows "\<exists>t'. HASH_SRT cmpfcn t = Ret () t' \<and> uh_rep t' (Sorting_Algorithms.sort c xs) \<and> key_at t' = key_at t \<and>
    (\<forall>k. HASH_FIND t' k = HASH_FIND t k) \<and> (\<forall>x. x \<notin> set xs \<longrightarrow> hh t' x = hh t x)"
proof (cases "xs = []")
  case True
  then show ?thesis using assms(1) by (auto simp: HASH_SRT_def uh_rep_def)
next
  case False
  let ?v = "\<lambda>x. the (val hs_ops t x)"
  have d: "distinct xs" "dseg (hh t) app_next app_prev None (head t) xs (Some (tail (tbl t))) None" using assms(1) False by (auto simp: uh_rep_def)
  then have o: "head t = Some (hd xs)" "seg (nxt hs_ops t) xs (stop hs_ops (Some (hd xs)))" and al: "\<forall>x \<in> set xs. val hs_ops t x \<noteq> None"
    using False unfolding dseg_seg by (auto simp: first_hd)
  have "(1::nat) = 1 \<or> 1 < length xs" by simp
  moreover have "by_elt cmpfcn x y \<le> 0 \<longleftrightarrow> compare (key fst c) x y \<noteq> Greater" for x y using assms(4) by (simp add: by_elt_def)
  ultimately obtain t1 ys where t1: "sort_loop hs_ops (by_elt cmpfcn) 1 (Some (hd xs)) t = Some (Ret (Some (hd ys), Some (last ys)) t1)" "mset ys = mset xs"
      "seg (nxt hs_ops t1) ys None" "seg (prev_of t1) (rev ys) None" "val hs_ops t1 = val hs_ops t" "\<forall>x. x \<notin> set xs \<longrightarrow> hh t1 x = hh t x"
      "map ?v ys = Sorting_Algorithms.sort (key fst c) (map ?v xs)"
    using hs.sort_loop_ok [OF False d(1) al o(2) assms(3) zero_less_one _ refl _ run_sorted_1] by (simp only: hs_ops_simps(5)) blast
  have st: "set ys = set xs" using t1(2) mset_eq_setD by blast
  have "map (fst \<circ> ?v) zs = zs" if "set zs = set xs" for zs using that al by (intro map_idI) (auto simp: hs_fixed_def)
  then have ys: "ys = Sorting_Algorithms.sort c xs" using arg_cong [OF t1(7), of "map fst"] st by (simp add: map_sort_key del: hs_ops_simps)
  define t' where "t' = t1\<lparr>tbl := (tbl t1)\<lparr>tail := last ys\<rparr>, head := Some (hd ys)\<rparr>"
  have run: "HASH_SRT cmpfcn t = Ret () t'" using hs_loop_sort [OF t1(1)] o(1) by (simp add: HASH_SRT_def looped_def hs_finish_def t'_def)
  have rep: "uh_rep t' ys" unfolding t'_def by (rule reorder_rep [OF assms(1) False t1(2,5,3,4)])
  have key: "key_at t' = key_at t" using same_proj_the [OF val_eqD(3) [OF t1(5)]] by (auto simp: key_at_def t'_def)
  have "HASH_FIND t' k = HASH_FIND t k" for k
    using uh.lookup_map [OF rep, of k] uh.lookup_map [OF assms(1,2), of k] assms(2) st key key_map_set [OF assms(2) st] by simp
  then show ?thesis using run rep key t1(6) ys by (intro exI [of _ t']) (auto simp: t'_def)
qed

theorem HASH_SRT_sorts_witness:
  "\<exists>t'. HASH_SRT (\<lambda>p q. int q - int p) demo_two = Ret () t' \<and> uh_rep t' [2, 1] \<and> HASH_FIND t' (demo_mac 1) = Some (Some 1)"
proof -
  have "int q - int p \<le> 0 \<longleftrightarrow> compare (reversed default) p q \<noteq> Greater" for p q by (auto simp: compare_reversed_apply)
  moreover have "Sorting_Algorithms.sort (reversed default) [1, 2 :: nat] = [2, 1]" by (simp add: compare_reversed_apply)
  moreover have "HASH_FIND demo_two (demo_mac 1) = Some (Some 1)"
    using uh.lookup_map [OF demo_two_rep(1) demo_two_inj] demo_two_rep(2) by (simp add: key_map_def)
  ultimately show ?thesis
    using HASH_SRT_sorts [OF demo_two_rep(1) demo_two_inj, of "\<lambda>p q. int q - int p" "reversed default"] by auto
qed

end
