(* ===== verification/Uthash_Select.thy ===== *)
theory Uthash_Select
  imports Uthash_Ops
begin

text \<open>
  \<^verbatim>\<open>HASH_SELECT\<close> of \<^verbatim>\<open>uthash.h\<close>: the elements of one table that satisfy a condition are entered into a second table as well, through
  a second hash handle in each element. The handles of the two tables are two memories: \<open>hh src\<close> holds the handles \<^verbatim>\<open>hh_src\<close>, \<open>hh dst\<close> the handles \<^verbatim>\<open>hh_dst\<close>.
\<close>

section \<open>The macro\<close>

text \<open>What is done with an element that satisfies the condition; \<open>h\<close> is its handle in the source.\<close>

definition select_elt :: "ptr \<Rightarrow> UT_hash_handle \<Rightarrow> ptr option \<times> uthash \<Rightarrow> (ptr option \<times> uthash) option" where
  "select_elt e h = (\<lambda>(last_elt, dst). do {
     H \<leftarrow> upd_at e (\<lambda>d. d\<lparr>hh_key := hh_key h, hashv := hashv h, app_prev := last_elt, app_next := None\<rparr>) (hh dst);
     H \<leftarrow> upd_opt last_elt (\<lambda>d. d\<lparr>app_next := Some e\<rparr>) H;
     let (first_elt, T) = (case head dst of None \<Rightarrow> (e, HASH_MAKE_TABLE e) | Some a \<Rightarrow> (a, tbl dst));
     (T, H) \<leftarrow> HASH_ADD_TO_BKT (HASH_TO_BKT (hashv h) (num_buckets T)) e (T, H);
     Some (Some e, \<lparr>head = Some first_elt, tbl = T\<lparr>num_items := Suc (num_items T)\<rparr>, hh = H\<rparr>) })"

partial_function (option) select_chain :: "(ptr \<Rightarrow> bool) \<Rightarrow> uthash \<Rightarrow> ptr option \<Rightarrow> ptr option \<times> uthash \<Rightarrow> (ptr option \<times> uthash) option" where
  "select_chain cond src src_hh s = (case src_hh of
       None \<Rightarrow> Some s
     | Some e \<Rightarrow> (case hh src e of
           None \<Rightarrow> None
         | Some h \<Rightarrow> Option.bind (if cond e then select_elt e h s else Some s) (select_chain cond src (hh_next h))))"

declare select_chain.simps [code]

text \<open>The loop over the \<open>k\<close> buckets from \<open>i\<close> on.\<close>

fun select_buckets :: "(ptr \<Rightarrow> bool) \<Rightarrow> uthash \<Rightarrow> nat \<Rightarrow> nat \<Rightarrow> ptr option \<times> uthash \<Rightarrow> (ptr option \<times> uthash) option" where
  "select_buckets cond src 0 i s = Some s"
| "select_buckets cond src (Suc k) i s =
     (if i \<ge> length (buckets (tbl src)) then None
      else Option.bind (select_chain cond src (hh_head (buckets (tbl src) ! i)) s) (select_buckets cond src k (i + 1)))"

definition HASH_SELECT :: "(ptr \<Rightarrow> bool) \<Rightarrow> uthash \<Rightarrow> uthash \<Rightarrow> uthash option" where
  "HASH_SELECT cond src dst = (if head src = None then Some dst
     else map_option snd (select_buckets cond src (num_buckets (tbl src)) 0 (None, dst)))"

section \<open>What it builds\<close>

text \<open>
  The state after the elements \<open>ys\<close> have been entered into an empty table: all is as it should be, except that the table takes the first element for the last one.
\<close>

definition selected :: "uthash \<Rightarrow> ptr list \<Rightarrow> ptr option \<Rightarrow> uthash \<Rightarrow> bool" where
  "selected src ys l dst \<longleftrightarrow> l = (if ys = [] then None else Some (last ys)) \<and>
     uh_rep (dst\<lparr>tbl := (tbl dst)\<lparr>tail := last ys\<rparr>\<rparr>) ys \<and> (ys \<noteq> [] \<longrightarrow> tail (tbl dst) = hd ys) \<and> (\<forall>y \<in> set ys. key_at dst y = key_at src y)"

text \<open>The links of an element entered, before it goes into its bucket.\<close>

lemma select_link:
  assumes sel: "selected src ys l dst" and e: "e \<notin> set ys" and d: "hh dst e = Some d"
    and d': "d' = d\<lparr>hh_key := k, hashv := v, app_prev := l, app_next := None\<rparr>"
  shows "\<exists>H. upd_opt l (\<lambda>d. d\<lparr>app_next := Some e\<rparr>) ((hh dst)(e \<mapsto> d')) = Some H \<and> H e = Some d' \<and>
    dseg H app_next app_prev None (if ys = [] then Some e else head dst) (ys @ [e]) (Some e) None \<and>
    same_proj (\<lambda>h. (hh_next h, hh_prev h)) (hh dst) H \<and> dom H = dom (hh dst) \<and>
    (\<forall>y. y \<noteq> e \<longrightarrow> hh_key (the (H y)) = hh_key (the (hh dst y)) \<and> hashv (the (H y)) = hashv (the (hh dst y)))"
proof (cases "ys = []")
  case True
  then show ?thesis using sel d d' by (auto simp: selected_def same_proj_def dom_def)
next
  case False
  let ?z = "last ys"
  have l: "l = Some ?z" and rep: "uh_rep (dst\<lparr>tbl := (tbl dst)\<lparr>tail := ?z\<rparr>\<rparr>) ys" (is "uh_rep ?t ys") using sel False by (auto simp: selected_def)
  have z: "?z \<in> set ys" using False by simp
  note m = uh_rep_memD [OF rep z, simplified]
  obtain k where k: "hh dst ?z = Some k" using m(1) by blast
  have ze: "?z \<noteq> e" using z e by auto
  let ?H = "(hh dst)(?z \<mapsto> k\<lparr>app_next := Some e\<rparr>, e \<mapsto> d')"
  have "dseg ?H app_next app_prev None (head dst) (ys @ [e]) (Some e) None"
    by (rule dseg_snoc [OF m(4) False _ k e]) (use rep d' l in \<open>auto simp: uh_rep_def\<close>)
  moreover have "upd_opt l (\<lambda>d. d\<lparr>app_next := Some e\<rparr>) ((hh dst)(e \<mapsto> d')) = Some ?H" using l k ze by (simp add: upd_opt_def fun_upd_twist)
  ultimately show ?thesis using False k d d' ze by (intro exI [of _ ?H]) (auto simp: same_proj_def dom_def)
qed

lemma select_elt_ok:
  assumes sel: "selected src ys l dst" and e: "e \<notin> set ys" "hh dst e \<noteq> None" and h: "hh src e = Some h" "hashv h = HASH_JEN (hh_key h)"
  shows "\<exists>dst'. select_elt e h (l, dst) = Some (Some e, dst') \<and> selected src (ys @ [e]) (Some e) dst' \<and> dom (hh dst') = dom (hh dst)"
proof -
  obtain d where d: "hh dst e = Some d" using e(2) by blast
  define d' where "d' = d\<lparr>hh_key := hh_key h, hashv := hashv h, app_prev := l, app_next := None\<rparr>"
  define T where "T = (if ys = [] then HASH_MAKE_TABLE e else tbl dst)"
  have rep: "uh_rep (dst\<lparr>tbl := (tbl dst)\<lparr>tail := last ys\<rparr>\<rparr>) ys" using sel by (simp add: selected_def)
  obtain H where H: "upd_opt l (\<lambda>d. d\<lparr>app_next := Some e\<rparr>) ((hh dst)(e \<mapsto> d')) = Some H" "H e = Some d'"
      "dseg H app_next app_prev None (if ys = [] then Some e else head dst) (ys @ [e]) (Some e) None"
      "same_proj (\<lambda>h. (hh_next h, hh_prev h)) (hh dst) H" "dom H = dom (hh dst)"
      "\<And>y. y \<noteq> e \<Longrightarrow> hh_key (the (H y)) = hh_key (the (hh dst y)) \<and> hashv (the (H y)) = hashv (the (hh dst y))"
    using select_link [OF sel e(1) d d'_def] by blast
  have "\<exists>cs. chains_ok (num_buckets T) (buckets T) (hh dst) (set ys) cs"
    using rep chains_ok_empty [of HASH_INITIAL_NUM_BUCKETS] by (auto simp: T_def uh_rep_def HASH_MAKE_TABLE_def)
  then obtain cs where "chains_ok (num_buckets T) (buckets T) (hh dst) (set ys) cs" by blast
  then have cs: "chains_ok (num_buckets T) (buckets T) H (set ys) cs" by (rule chains_ok_keep [OF _ H(4)]) (metis H(6) e(1))
  have nb: "num_buckets T = 2 ^ log2_num_buckets T" "num_items T = length ys" using rep by (auto simp: T_def uh_rep_def HASH_MAKE_TABLE_def hash_const_defs)
  obtain T' H' cs' where add: "HASH_ADD_TO_BKT (HASH_TO_BKT (hashv d') (num_buckets T)) e (T, H) = Some (T', H')"
      "chains_ok (num_buckets T') (buckets T') H' (insert e (set ys)) cs'" "num_buckets T' = 2 ^ log2_num_buckets T'" "num_items T' = num_items T" "tail T' = tail T" "keep H H'"
    using HASH_ADD_TO_BKT_ok [OF cs nb(1) _ e(1) H(2)] nb(2) by (cases "ys = []") auto
  let ?a = "if ys = [] then Some e else head dst"
  define dst' where "dst' = \<lparr>head = ?a, tbl = T'\<lparr>num_items := Suc (num_items T')\<rparr>, hh = H'\<rparr>"
  have kv: "hh_key (the (H' y)) = hh_key (the (H y))" "hashv (the (H' y)) = hashv (the (H y))" for y using add(6) by (auto intro: same_proj_the)
  have "dseg H' app_next app_prev None ?a (ys @ [e]) (Some e) None" using dseg_same_proj [OF _ H(3), of H'] add(6) by blast
  moreover have "\<forall>y \<in> set (ys @ [e]). hashv (the (H' y)) = HASH_JEN (hh_key (the (H' y)))"
    unfolding kv
  proof
    fix y assume "y \<in> set (ys @ [e])"
    then show "hashv (the (H y)) = HASH_JEN (hh_key (the (H y)))" using rep H(2) H(6) [of y] h(2) by (cases "y = e") (auto simp: uh_rep_def d'_def)
  qed
  moreover have "?a \<noteq> None" "distinct (ys @ [e])" using rep e(1) by (auto simp: uh_rep_def)
  ultimately have "uh_rep (dst'\<lparr>tbl := (tbl dst')\<lparr>tail := last (ys @ [e])\<rparr>\<rparr>) (ys @ [e])" using add(2-4) nb(2) by (simp add: uh_rep_def dst'_def) blast
  moreover have "tail (tbl dst') = hd (ys @ [e])" using sel add(5) by (auto simp: dst'_def T_def selected_def HASH_MAKE_TABLE_def)
  moreover have "\<forall>y \<in> set (ys @ [e]). key_at dst' y = key_at src y"
  proof
    fix y assume "y \<in> set (ys @ [e])"
    then show "key_at dst' y = key_at src y" using sel H(2) H(6) [of y] h(1) by (cases "y = e") (auto simp: dst'_def key_at_def kv selected_def d'_def)
  qed
  ultimately have "selected src (ys @ [e]) (Some e) dst'" by (simp add: selected_def)
  moreover have "select_elt e h (l, dst) = Some (Some e, dst')"
  proof (cases "ys = []")
    case True
    then have "head dst = None" using rep by (simp add: uh_rep_def)
    then show ?thesis using True d H(1) add(1) by (simp add: select_elt_def T_def dst'_def d'_def)
  next
    case False
    then obtain a where "head dst = Some a" using rep by (auto simp: uh_rep_def)
    then show ?thesis using False d H(1) add(1) by (simp add: select_elt_def T_def dst'_def d'_def)
  qed
  moreover have "dom (hh dst') = dom (hh dst)" using same_proj_alloc [of hashv H H'] add(6) H(5) by (auto simp: dom_def dst'_def)
  ultimately show ?thesis by blast
qed

text \<open>One chain, and all chains.\<close>

lemma select_chain_ok:
  assumes "dseg (hh src) hh_next hh_prev q p zs r None" and "selected src ys l dst" and "distinct (ys @ zs)"
    and "\<forall>z \<in> set zs. hh dst z \<noteq> None \<and> hashv (the (hh src z)) = HASH_JEN (hh_key (the (hh src z)))"
  shows "\<exists>l' dst'. select_chain cond src p (l, dst) = Some (l', dst') \<and> selected src (ys @ filter cond zs) l' dst' \<and> dom (hh dst') = dom (hh dst)"
  using assms
proof (induction zs arbitrary: q p ys l dst)
  case Nil
  then show ?case by (auto simp: select_chain.simps)
next
  case (Cons z zs)
  obtain h where h: "p = Some z" "hh src z = Some h" "dseg (hh src) hh_next hh_prev (Some z) (hh_next h) zs r None" using Cons.prems(1) by auto
  define ys1 where "ys1 = (if cond z then ys @ [z] else ys)"
  obtain l1 dst1 where s1: "(if cond z then select_elt z h (l, dst) else Some (l, dst)) = Some (l1, dst1)" "selected src ys1 l1 dst1" "dom (hh dst1) = dom (hh dst)"
    using select_elt_ok [OF Cons.prems(2), of z h] Cons.prems(2-4) h(2) by (cases "cond z") (auto simp: ys1_def)
  have "distinct (ys1 @ zs)" using Cons.prems(3) by (auto simp: ys1_def)
  moreover have "\<forall>z \<in> set zs. hh dst1 z \<noteq> None \<and> hashv (the (hh src z)) = HASH_JEN (hh_key (the (hh src z)))" using Cons.prems(4) s1(3) by (auto simp: dom_def set_eq_iff)
  ultimately obtain l' dst' where s': "select_chain cond src (hh_next h) (l1, dst1) = Some (l', dst')" "selected src (ys1 @ filter cond zs) l' dst'" "dom (hh dst') = dom (hh dst1)"
    using Cons.IH [OF h(3) s1(2)] by blast
  have "select_chain cond src p (l, dst) = Some (l', dst')" using h(1,2) s1(1) s'(1) by (subst select_chain.simps) simp
  then show ?case using s'(2,3) s1(3) by (auto simp: ys1_def split: if_splits)
qed

lemma select_buckets_ok:
  assumes "\<forall>b < k. i + b < length (buckets (tbl src)) \<and> dll (hh src) hh_next hh_prev (hh_head (buckets (tbl src) ! (i + b))) (cs ! b)"
    and "selected src ys l dst" and "distinct (ys @ concat cs)" and "length cs = k"
    and "\<forall>z \<in> set (concat cs). hh dst z \<noteq> None \<and> hashv (the (hh src z)) = HASH_JEN (hh_key (the (hh src z)))"
  shows "\<exists>l' dst'. select_buckets cond src k i (l, dst) = Some (l', dst') \<and> selected src (ys @ filter cond (concat cs)) l' dst' \<and> dom (hh dst') = dom (hh dst)"
  using assms
proof (induction k arbitrary: i cs ys l dst)
  case 0
  then show ?case by simp
next
  case (Suc k)
  obtain zs cs' where cs: "cs = zs # cs'" "length cs' = k" using Suc.prems(4) by (cases cs) auto
  have b: "i < length (buckets (tbl src))" and "dll (hh src) hh_next hh_prev (hh_head (buckets (tbl src) ! i)) zs"
    using spec [OF Suc.prems(1), of 0] by (simp_all add: cs)
  then obtain r where seg: "dseg (hh src) hh_next hh_prev None (hh_head (buckets (tbl src) ! i)) zs r None" by (auto simp: dll_def)
  obtain l1 dst1 where s1: "select_chain cond src (hh_head (buckets (tbl src) ! i)) (l, dst) = Some (l1, dst1)" "selected src (ys @ filter cond zs) l1 dst1" "dom (hh dst1) = dom (hh dst)"
  proof -
    have "distinct (ys @ zs)" "\<forall>z \<in> set zs. hh dst z \<noteq> None \<and> hashv (the (hh src z)) = HASH_JEN (hh_key (the (hh src z)))"
      using Suc.prems(3,5) unfolding cs(1) by auto
    from select_chain_ok [OF seg Suc.prems(2) this, of cond] show ?thesis using that by blast
  qed
  have "\<forall>b < k. i + 1 + b < length (buckets (tbl src)) \<and> dll (hh src) hh_next hh_prev (hh_head (buckets (tbl src) ! (i + 1 + b))) (cs' ! b)"
    using Suc.prems(1) by (auto simp: cs All_less_Suc2)
  moreover have "distinct ((ys @ filter cond zs) @ concat cs')" using Suc.prems(3) by (auto simp: cs)
  moreover have "\<forall>z \<in> set (concat cs'). hh dst1 z \<noteq> None \<and> hashv (the (hh src z)) = HASH_JEN (hh_key (the (hh src z)))"
    using Suc.prems(5) s1(3) by (auto simp: cs dom_def set_eq_iff)
  ultimately obtain l' dst' where "select_buckets cond src k (i + 1) (l1, dst1) = Some (l', dst')"
      "selected src ((ys @ filter cond zs) @ filter cond (concat cs')) l' dst'" "dom (hh dst') = dom (hh dst1)"
    using Suc.IH [OF _ s1(2) _ cs(2)] by blast
  then show ?case using s1 b by (auto simp: cs)
qed

lemma find_ignores_tail: "HASH_FIND (t\<lparr>tbl := (tbl t)\<lparr>tail := p\<rparr>\<rparr>) = HASH_FIND t"
  by (rule ext) (cases "head t"; simp add: HASH_FIND_def Let_def)

section \<open>Properties\<close>

text \<open>
  \<^verbatim>\<open>HASH_SELECT\<close> from a well-formed table into an empty one enters exactly the elements that satisfy the condition, under the
  keys they have in the source, and lookups in the new table find them. But it leaves the field \<^verbatim>\<open>tail\<close> of the new table at the first element entered: with two or more
  elements the table is not well-formed, and becomes so only by setting that field to the last one.
\<close>

theorem HASH_SELECT_wrong_tail:
  assumes rep: "uh_rep src xs" and inj: "inj_on (key_at src) (set xs)" and dst: "head dst = None" "set xs \<subseteq> dom (hh dst)"
  shows "\<exists>dst' ys. HASH_SELECT cond src dst = Some dst' \<and> set ys = {x \<in> set xs. cond x} \<and>
    uh_rep (dst'\<lparr>tbl := (tbl dst')\<lparr>tail := last ys\<rparr>\<rparr>) ys \<and> (\<forall>y \<in> set ys. key_at dst' y = key_at src y) \<and>
    (\<forall>k. HASH_FIND dst' k = Some (key_map (key_at src) ys k)) \<and> (2 \<le> length ys \<longrightarrow> tail (tbl dst') = hd ys \<and> \<not> uh_rep dst' ys)"
proof (cases "xs = []")
  case True
  then show ?thesis using rep dst(1) by (intro exI [of _ dst] exI [of _ "[]"]) (auto simp: HASH_SELECT_def uh_rep_def HASH_FIND_def key_map_def)
next
  case False
  then obtain cs where u: "num_buckets (tbl src) = 2 ^ log2_num_buckets (tbl src)" "\<forall>x \<in> set xs. hashv (the (hh src x)) = HASH_JEN (hh_key (the (hh src x)))"
      "chains_ok (num_buckets (tbl src)) (buckets (tbl src)) (hh src) (set xs) cs" "head src \<noteq> None"
    using rep unfolding uh_rep_def by blast
  note el = chains_elements [OF u(3) _ u(1), simplified]
  let ?ys = "filter cond (concat cs)"
  have al: "\<forall>z \<in> set (concat cs). hh dst z \<noteq> None \<and> hashv (the (hh src z)) = HASH_JEN (hh_key (the (hh src z)))"
    using chains_elements(1) [OF u(3) _ u(1)] u(2) dst(2) by blast
  have "selected src [] None dst" using dst(1) by (simp add: selected_def uh_rep_def)
  moreover have "\<forall>b < num_buckets (tbl src). 0 + b < length (buckets (tbl src)) \<and> dll (hh src) hh_next hh_prev (hh_head (buckets (tbl src) ! (0 + b))) (cs ! b)"
      "length cs = num_buckets (tbl src)" using u(3) by (auto simp: chains_ok_def)
  ultimately obtain l' dst' where s: "select_buckets cond src (num_buckets (tbl src)) 0 (None, dst) = Some (l', dst')" "selected src ?ys l' dst'"
    using select_buckets_ok [of "num_buckets (tbl src)" 0 src cs "[]" None dst cond] el(2) al by auto
  let ?t = "dst'\<lparr>tbl := (tbl dst')\<lparr>tail := last ?ys\<rparr>\<rparr>"
  have t: "uh_rep ?t ?ys" "\<forall>y \<in> set ?ys. key_at dst' y = key_at src y" and tl: "?ys \<noteq> [] \<longrightarrow> tail (tbl dst') = hd ?ys" using s(2) by (auto simp: selected_def)
  have st: "set ?ys = {x \<in> set xs. cond x}" using el by auto
  have k: "key_at ?t y = key_at src y" if "y \<in> set ?ys" for y using that t(2) by (simp add: key_at_def)
  have "inj_on (key_at ?t) (set ?ys) = inj_on (key_at src) (set ?ys)" using k by (rule inj_on_cong)
  moreover have "inj_on (key_at src) (set ?ys)" by (rule inj_on_subset [OF inj]) (use st in blast)
  ultimately have "inj_on (key_at ?t) (set ?ys)" by blast
  moreover have "key_map (key_at ?t) ?ys = key_map (key_at src) ?ys" unfolding key_map_def by (rule arg_cong [OF map_cong [OF refl]]) (simp only: k)
  ultimately have "HASH_FIND dst' q = Some (key_map (key_at src) ?ys q)" for q using uh.lookup_map [OF t(1), of q] by (simp only: find_ignores_tail)
  moreover have "tail (tbl dst') = hd ?ys \<and> \<not> uh_rep dst' ?ys" if n: "2 \<le> length ?ys"
  proof -
    have ne: "?ys \<noteq> []" and d: "distinct ?ys" using n el(2) by auto
    have hl: "hd ?ys \<noteq> last ?ys" using n d by (cases ?ys) (auto split: if_splits)
    moreover have "tail (tbl dst') = last ?ys" if "uh_rep dst' ?ys" by (rule uh_rep_memD(3) [OF that hd_in_set [OF ne]])
    ultimately show ?thesis using tl ne by auto
  qed
  moreover have "HASH_SELECT cond src dst = Some dst'" using s(1) u(4) by (auto simp: HASH_SELECT_def)
  ultimately show ?thesis using t st by blast
qed

theorem HASH_SELECT_wrong_tail_witness:
  "\<exists>dst' ys. HASH_SELECT (\<lambda>_. True) demo_two demo_empty = Some dst' \<and> set ys = {1, 2} \<and> tail (tbl dst') = hd ys \<and> \<not> uh_rep dst' ys"
proof -
  have "set [1, 2] \<subseteq> dom (hh demo_empty)" "head demo_empty = None" using demo_empty_rep(2) by (simp_all add: demo_empty_def)
  from HASH_SELECT_wrong_tail [OF demo_two_rep(1) demo_two_inj this(2,1), of "\<lambda>_. True"] obtain dst' ys where
    r: "HASH_SELECT (\<lambda>_. True) demo_two demo_empty = Some dst'" "set ys = {x \<in> set [1, 2]. True}" "2 \<le> length ys \<longrightarrow> tail (tbl dst') = hd ys \<and> \<not> uh_rep dst' ys" by blast
  have st: "set ys = {1, 2}" using r(2) by auto
  moreover have "2 \<le> length ys" using st card_length [of ys] by simp
  ultimately show ?thesis using st r by blast
qed

end
