(* ===== verification/Uthash_Check.thy ===== *)
theory Uthash_Check
  imports Uthash_Ops Utlist
begin

text \<open>
  Two parts of \<^verbatim>\<open>uthash.h\<close> that a build selects by a preprocessor flag: the integrity check \<^verbatim>\<open>HASH_FSCK\<close>, which runs after every addition and deletion
  when \<^verbatim>\<open>HASH_DEBUG\<close> is defined, and the Bloom filter in front of the buckets of \<^verbatim>\<open>HASH_BLOOM\<close>.
\<close>

section \<open>The integrity check\<close>

text \<open>Both loops over a list follow it, compare each back link with the element before and count; \<^verbatim>\<open>HASH_OOPS\<close> ends the program.\<close>

partial_function (option) fsck_walk :: "(UT_hash_handle \<Rightarrow> ptr option) \<Rightarrow> (UT_hash_handle \<Rightarrow> ptr option) \<Rightarrow> ptr option \<Rightarrow> ptr option \<Rightarrow> nat \<Rightarrow> uthash
    \<Rightarrow> (uthash, nat) run option" where
  "fsck_walk nx pv prv thh count t = (case thh of
       None \<Rightarrow> Some (Ret count t)
     | Some p \<Rightarrow> (case hh t p of
           None \<Rightarrow> Some (Stop UB t)
         | Some h \<Rightarrow> if prv \<noteq> pv h then Some (Stop (Exit (-1)) t)
             else fsck_walk nx pv (Some p) (nx h) ((count + 1) mod 2 ^ 32) t))"

declare fsck_walk.simps [code]

text \<open>The loop over the buckets \<open>i\<close>, \<open>i + 1\<close> to \<open>i + k - 1\<close>.\<close>

fun fsck_buckets :: "nat \<Rightarrow> nat \<Rightarrow> nat \<Rightarrow> uthash \<Rightarrow> (uthash, nat) run" where
  "fsck_buckets 0 i count t = Ret count t"
| "fsck_buckets (Suc k) i count t =
     (if i \<ge> length (buckets (tbl t)) then Stop UB t
      else bind_run (looped (fsck_walk hh_next hh_prev None (hh_head (buckets (tbl t) ! i)) 0) t) (\<lambda>n t.
        if bkt_count (buckets (tbl t) ! i) \<noteq> n then Stop (Exit (-1)) t
        else fsck_buckets k (i + 1) ((count + n) mod 2 ^ 32) t))"

definition HASH_FSCK :: "uthash \<Rightarrow> (uthash, unit) run" where
  "HASH_FSCK t = (if head t = None then Ret () t else
     bind_run (fsck_buckets (num_buckets (tbl t)) 0 0 t) (\<lambda>count t.
     if count \<noteq> num_items (tbl t) then Stop (Exit (-1)) t else
     bind_run (looped (fsck_walk app_next app_prev None (head t) 0) t) (\<lambda>count t.
     if count \<noteq> num_items (tbl t) then Stop (Exit (-1)) t else Ret () t)))"

text \<open>A walk that returns has followed a doubly linked list to its end.\<close>

lemma fsck_walk_follows:
  "dseg (hh t) nx pv q p ps r None \<Longrightarrow> fsck_walk nx pv q p c t = Some (Ret (if ps = [] then c else (c + length ps) mod 2 ^ 32) t)"
proof (induction ps arbitrary: q p c)
  case Nil
  then show ?case by (simp add: fsck_walk.simps)
next
  case (Cons x ps)
  then obtain h where h: "p = Some x" "hh t x = Some h" "pv h = q" "dseg (hh t) nx pv (Some x) (nx h) ps r None" by auto
  from Cons.IH [OF h(4), of "(c + 1) mod 2 ^ 32"] h(1-3) show ?case by (subst fsck_walk.simps) (simp add: mod_simps)
qed

lemma fsck_walk_found:
  assumes "fsck_walk nx pv q p c t = Some (Ret n t')"
  shows "t' = t \<and> (\<exists>ps r. dseg (hh t) nx pv q p ps r None \<and> n = (if ps = [] then c else (c + length ps) mod 2 ^ 32))"
proof -
  let ?P = "\<lambda>nx pv q p c t y. \<forall>n t'. y = Ret n t' \<longrightarrow> t' = t \<and> (\<exists>ps r. dseg (hh t) nx pv q p ps r None \<and> n = (if ps = [] then c else (c + length ps) mod 2 ^ 32))"
  from assms have "?P nx pv q p c t (Ret n t')"
  proof (rule fsck_walk.raw_induct [where P = ?P, rotated], intro allI impI)
    fix self nx pv q p c and t :: uthash and y n t'
    assume IH: "\<And>nx pv q p c t y. self nx pv q p c t = Some y \<Longrightarrow> ?P nx pv q p c t y"
      and run: "(case p of None \<Rightarrow> Some (Ret c t)
        | Some p \<Rightarrow> case hh t p of None \<Rightarrow> Some (Stop UB t)
          | Some h \<Rightarrow> if q \<noteq> pv h then Some (Stop (Exit (-1)) t) else self nx pv (Some p) (nx h) ((c + 1) mod 2 ^ 32) t) = Some y"
      and y: "y = Ret n t'"
    show "t' = t \<and> (\<exists>ps r. dseg (hh t) nx pv q p ps r None \<and> n = (if ps = [] then c else (c + length ps) mod 2 ^ 32))"
    proof (cases p)
      case None
      then show ?thesis using run y by (intro conjI exI [of _ "[]"] exI [of _ q]) auto
    next
      case (Some x)
      then obtain h where h: "hh t x = Some h" "pv h = q" and rec: "self nx pv (Some x) (nx h) ((c + 1) mod 2 ^ 32) t = Some (Ret n t')"
        using run y by (auto split: option.splits if_splits)
      from IH [OF rec] obtain ps r where ps: "dseg (hh t) nx pv (Some x) (nx h) ps r None" "t' = t"
          "n = (if ps = [] then (c + 1) mod 2 ^ 32 else ((c + 1) mod 2 ^ 32 + length ps) mod 2 ^ 32)" by blast
      have "dseg (hh t) nx pv q p (x # ps) r None" using Some h ps(1) by simp
      moreover have "n = (c + length (x # ps)) mod 2 ^ 32" using ps(3) by (simp add: mod_simps split: if_splits)
      ultimately show ?thesis using ps(2) by (intro conjI exI [of _ "x # ps"] exI [of _ r]) auto
    qed
  qed
  then show ?thesis by blast
qed

lemma fsck_walk_iff:
  "looped (fsck_walk nx pv None p 0) t = Ret n t' \<longleftrightarrow> t' = t \<and> (\<exists>ps. dll (hh t) nx pv p ps \<and> n = length ps mod 2 ^ 32)"
proof
  assume "looped (fsck_walk nx pv None p 0) t = Ret n t'"
  then have "fsck_walk nx pv None p 0 t = Some (Ret n t')" by (auto simp: looped_def split: option.splits)
  from fsck_walk_found [OF this] obtain ps r where "t' = t" "dseg (hh t) nx pv None p ps r None" "n = (if ps = [] then 0 else length ps mod 2 ^ 32)" by auto
  then show "t' = t \<and> (\<exists>ps. dll (hh t) nx pv p ps \<and> n = length ps mod 2 ^ 32)" by (intro conjI exI [of _ ps]) (auto simp: dll_def)
next
  assume "t' = t \<and> (\<exists>ps. dll (hh t) nx pv p ps \<and> n = length ps mod 2 ^ 32)"
  then obtain ps r where "dseg (hh t) nx pv None p ps r None" "n = length ps mod 2 ^ 32" "t' = t" by (auto simp: dll_def)
  from fsck_walk_follows [OF this(1), of 0] this(2,3) show "looped (fsck_walk nx pv None p 0) t = Ret n t'" by (auto simp: looped_def)
qed

text \<open>One bucket as the check sees it: its chain is a doubly linked list of the length it states.\<close>

abbreviation bucket_ok :: "uthash \<Rightarrow> nat \<Rightarrow> ptr list \<Rightarrow> bool" where
  "bucket_ok t b ps \<equiv> b < length (buckets (tbl t)) \<and> dll (hh t) hh_next hh_prev (hh_head (buckets (tbl t) ! b)) ps \<and>
     bkt_count (buckets (tbl t) ! b) = length ps mod 2 ^ 32"

lemma ex_list: "(\<And>x xs. A (x # xs) \<longleftrightarrow> B x xs) \<Longrightarrow> \<not> A [] \<Longrightarrow> (\<exists>xs. A xs) \<longleftrightarrow> (\<exists>x xs. B x xs)"
  by (metis list.exhaust)

lemma fsck_buckets_iff:
  "c < 2 ^ 32 \<Longrightarrow> fsck_buckets k i c t = Ret n t' \<longleftrightarrow> t' = t \<and>
    (\<exists>cs. length cs = k \<and> (\<forall>b < k. bucket_ok t (i + b) (cs ! b)) \<and> n = (c + length (concat cs)) mod 2 ^ 32)"
proof (induction k arbitrary: i c)
  case 0
  then show ?case by auto
next
  case (Suc k)
  have split: "(\<exists>cs. length cs = Suc k \<and> (\<forall>b < Suc k. bucket_ok t (i + b) (cs ! b)) \<and> n = (c + length (concat cs)) mod 2 ^ 32) \<longleftrightarrow>
      (\<exists>ps cs. length cs = k \<and> bucket_ok t i ps \<and> (\<forall>b < k. bucket_ok t (i + 1 + b) (cs ! b)) \<and> n = (c + length ps + length (concat cs)) mod 2 ^ 32)"
    (is "(\<exists>cs. ?A cs) \<longleftrightarrow> _") by (rule ex_list) (auto simp: All_less_Suc2 add.assoc)
  have IH: "fsck_buckets k (i + 1) ((c + m mod 2 ^ 32) mod 2 ^ 32) t = Ret n t' \<longleftrightarrow> t' = t \<and>
      (\<exists>cs. length cs = k \<and> (\<forall>b < k. bucket_ok t (i + 1 + b) (cs ! b)) \<and> n = (c + m + length (concat cs)) mod 2 ^ 32)" for m
    using Suc.IH [of "(c + m mod 2 ^ 32) mod 2 ^ 32" "i + 1"] by (simp add: mod_simps)
  have "fsck_buckets (Suc k) i c t = Ret n t' \<longleftrightarrow> i < length (buckets (tbl t)) \<and>
      (\<exists>ps. dll (hh t) hh_next hh_prev (hh_head (buckets (tbl t) ! i)) ps \<and> bkt_count (buckets (tbl t) ! i) = length ps mod 2 ^ 32 \<and>
         fsck_buckets k (i + 1) ((c + length ps mod 2 ^ 32) mod 2 ^ 32) t = Ret n t')"
    by (auto simp: bind_run_Ret_iff fsck_walk_iff split: if_splits)
  also have "\<dots> \<longleftrightarrow> t' = t \<and> (\<exists>cs. ?A cs)"
    unfolding split IH by blast
  finally show ?case .
qed

text \<open>
  What \<^verbatim>\<open>HASH_FSCK\<close> checks, and so what it does not: neither that an element is in the bucket of its hash value nor that
  the table knows its last element.
\<close>

theorem HASH_FSCK_iff:
  "HASH_FSCK t = Ret () t \<longleftrightarrow> head t = None \<or>
    (\<exists>cs xs. length cs = num_buckets (tbl t) \<and> (\<forall>b < num_buckets (tbl t). bucket_ok t b (cs ! b)) \<and>
       dll (hh t) app_next app_prev (head t) xs \<and>
       num_items (tbl t) = length (concat cs) mod 2 ^ 32 \<and> num_items (tbl t) = length xs mod 2 ^ 32)"
proof (cases "head t = None")
  case False
  have "HASH_FSCK t = Ret () t \<longleftrightarrow> fsck_buckets (num_buckets (tbl t)) 0 0 t = Ret (num_items (tbl t)) t \<and>
      looped (fsck_walk app_next app_prev None (head t) 0) t = Ret (num_items (tbl t)) t"
    using False by (auto simp: HASH_FSCK_def bind_run_Ret_iff fsck_buckets_iff fsck_walk_iff split: if_splits)
  moreover have "fsck_buckets (num_buckets (tbl t)) 0 0 t = Ret (num_items (tbl t)) t \<longleftrightarrow>
      (\<exists>cs. length cs = num_buckets (tbl t) \<and> (\<forall>b < num_buckets (tbl t). bucket_ok t b (cs ! b)) \<and> num_items (tbl t) = length (concat cs) mod 2 ^ 32)"
    by (simp add: fsck_buckets_iff)
  ultimately show ?thesis unfolding fsck_walk_iff using False by blast
qed (simp add: HASH_FSCK_def)

lemma HASH_FSCK_ok:
  assumes rep: "uh_rep t xs" and n: "length xs < 2 ^ 32"
  shows "HASH_FSCK t = Ret () t"
proof (cases "xs = []")
  case True
  then show ?thesis using rep by (simp add: HASH_FSCK_def uh_rep_def)
next
  case False
  then obtain cs where u: "distinct xs" "dll (hh t) app_next app_prev (head t) xs" "num_items (tbl t) = length xs" "num_buckets (tbl t) = 2 ^ log2_num_buckets (tbl t)"
      "chains_ok (num_buckets (tbl t)) (buckets (tbl t)) (hh t) (set xs) cs"
    using rep unfolding uh_rep_def dll_def by blast
  have len: "length (concat cs) = length xs" using chains_length [OF u(5) _ u(4)] distinct_card [OF u(1)] by simp
  have "length (cs ! b) < 2 ^ 32" if "b < num_buckets (tbl t)" for b
    using that u(5) len n member_le_sum_list [of "length (cs ! b)" "map length cs"] by (auto simp: chains_ok_def length_concat)
  then show ?thesis unfolding HASH_FSCK_iff
    using u len n by (intro disjI2 exI [of _ cs] exI [of _ xs]) (auto simp: chains_ok_def)
qed

section \<open>The Bloom filter\<close>

text \<open>\<open>n\<close> stands for the value that the build gives to \<^verbatim>\<open>HASH_BLOOM\<close>.\<close>

record bloom =
  bloom_nbits :: nat
  bloom_bv :: bytes

definition HASH_BLOOM_BYTELEN :: "nat \<Rightarrow> nat" where
  "HASH_BLOOM_BYTELEN n = 2 ^ n div 8 + (if 2 ^ n mod 8 \<noteq> (0::nat) then 1 else 0)"

definition HASH_BLOOM_MAKE :: "nat \<Rightarrow> bloom" where
  "HASH_BLOOM_MAKE n = \<lparr>bloom_nbits = n, bloom_bv = replicate (HASH_BLOOM_BYTELEN n) 0\<rparr>"

text \<open>An access past the end of the bit vector is undefined.\<close>

definition HASH_BLOOM_BITSET :: "bytes \<Rightarrow> nat \<Rightarrow> bytes option" where
  "HASH_BLOOM_BITSET bv idx = (if idx div 8 < length bv then Some (bv[idx div 8 := bv ! (idx div 8) OR push_bit (idx mod 8) 1]) else None)"

definition HASH_BLOOM_BITTEST :: "bytes \<Rightarrow> nat \<Rightarrow> bool option" where
  "HASH_BLOOM_BITTEST bv idx = (if idx div 8 < length bv then Some (bv ! (idx div 8) AND push_bit (idx mod 8) 1 \<noteq> 0) else None)"

definition bloom_idx :: "bloom \<Rightarrow> u32 \<Rightarrow> nat" where
  "bloom_idx b h = unat (h AND of_nat (2 ^ bloom_nbits b - 1))"

definition HASH_BLOOM_ADD :: "bloom \<Rightarrow> u32 \<Rightarrow> bloom option" where
  "HASH_BLOOM_ADD b h = map_option (\<lambda>bv. b\<lparr>bloom_bv := bv\<rparr>) (HASH_BLOOM_BITSET (bloom_bv b) (bloom_idx b h))"

definition HASH_BLOOM_TEST :: "bloom \<Rightarrow> u32 \<Rightarrow> bool option" where
  "HASH_BLOOM_TEST b h = HASH_BLOOM_BITTEST (bloom_bv b) (bloom_idx b h)"

text \<open>\<^verbatim>\<open>HASH_FIND\<close> in a build with the filter.\<close>

definition bloom_find :: "bloom \<Rightarrow> uthash \<Rightarrow> bytes \<Rightarrow> ptr option option" where
  "bloom_find b t key =
     (case head t of
        None \<Rightarrow> Some None
      | Some _ \<Rightarrow> (case HASH_BLOOM_TEST b (HASH_JEN key) of
            None \<Rightarrow> None
          | Some False \<Rightarrow> Some None
          | Some True \<Rightarrow>
              let k = HASH_TO_BKT (HASH_JEN key) (num_buckets (tbl t)) in
              if k < length (buckets (tbl t))
              then HASH_FIND_IN_BKT (hh t) key (hh_head (buckets (tbl t) ! k)) else None))"

text \<open>
  \<^verbatim>\<open>HASH_ADD\<close> and \<^verbatim>\<open>HASH_DELETE\<close> in a build with the filter and the check: the filter is created with the table, when the first element is added
  (what \<open>b\<close> held before is of no matter then), the hash value is added to it, and the check runs at the end.
\<close>

definition HASH_ADD_checked :: "nat \<Rightarrow> ptr \<Rightarrow> bytes \<Rightarrow> bloom \<times> uthash \<Rightarrow> (bloom \<times> uthash, unit) run" where
  "HASH_ADD_checked n p key = (\<lambda>(b, t). case HASH_ADD t p key of
       None \<Rightarrow> Stop UB (b, t)
     | Some t' \<Rightarrow>
         let b = (if head t = None then HASH_BLOOM_MAKE n else b) in
         (case HASH_BLOOM_ADD b (HASH_JEN key) of
            None \<Rightarrow> Stop UB (b, t')
          | Some b \<Rightarrow> lift_run (Pair b) (HASH_FSCK t')))"

definition HASH_DELETE_checked :: "ptr \<Rightarrow> bloom \<times> uthash \<Rightarrow> (bloom \<times> uthash, unit) run" where
  "HASH_DELETE_checked p = (\<lambda>(b, t). case HASH_DELETE t p of
       None \<Rightarrow> Stop UB (b, t)
     | Some t' \<Rightarrow> lift_run (Pair b) (HASH_FSCK t'))"

definition bloom_ok :: "nat \<Rightarrow> bloom \<Rightarrow> bool" where
  "bloom_ok n b \<longleftrightarrow> bloom_nbits b = n \<and> n \<le> 32 \<and> length (bloom_bv b) = HASH_BLOOM_BYTELEN n"

lemma bloom_MAKE_ok: "n \<le> 32 \<Longrightarrow> bloom_ok n (HASH_BLOOM_MAKE n)"
  by (simp add: bloom_ok_def HASH_BLOOM_MAKE_def)

lemma bloom_idx_less:
  assumes "bloom_ok n b"
  shows "bloom_idx b h div 8 < length (bloom_bv b)"
proof -
  have n: "n \<le> 32" "bloom_nbits b = n" "length (bloom_bv b) = HASH_BLOOM_BYTELEN n" using assms by (simp_all add: bloom_ok_def)
  have "of_nat (2 ^ n - 1) = (mask n :: u32)" by (simp add: mask_eq_exp_minus_1 of_nat_diff)
  then have "bloom_idx b h = take_bit n (unat h)" using n(2) by (simp add: bloom_idx_def unsigned_take_bit_eq flip: take_bit_eq_mask)
  then have "bloom_idx b h < 2 ^ n" by simp
  moreover have "i div 8 < m div 8 + (if m mod 8 \<noteq> 0 then 1 else 0)" if "i < m" for i m :: nat
  proof -
    have "8 * (i div 8) \<le> i" "m = 8 * (m div 8) + m mod 8" "m mod 8 < 8" by simp_all
    then show ?thesis using that by (split if_split, intro conjI impI) linarith+
  qed
  ultimately show ?thesis using n(3) by (simp only: HASH_BLOOM_BYTELEN_def)
qed

lemma bloom_idx_bv [simp]: "bloom_idx (b\<lparr>bloom_bv := v\<rparr>) h = bloom_idx b h"
  by (simp add: bloom_idx_def)

lemma byte_or_bit: "i < 8 \<Longrightarrow> bit ((x :: byte) OR 2 ^ i) j \<longleftrightarrow> bit x j \<or> j = i"
  by (auto simp: bit_or_iff bit_exp_iff)

text \<open>Adding a hash value sets its bit and clears none.\<close>

lemma bloom_ADD_ok:
  assumes ok: "bloom_ok n b"
  shows "\<exists>b'. HASH_BLOOM_ADD b h = Some b' \<and> bloom_ok n b' \<and> HASH_BLOOM_TEST b' h = Some True \<and>
    (\<forall>h'. HASH_BLOOM_TEST b' h' = Some (bloom_idx b h' = bloom_idx b h \<or> HASH_BLOOM_TEST b h' = Some True))"
proof -
  let ?i = "bloom_idx b h" and ?bv = "bloom_bv b"
  let ?b = "b\<lparr>bloom_bv := ?bv[?i div 8 := ?bv ! (?i div 8) OR push_bit (?i mod 8) 1]\<rparr>"
  note l = bloom_idx_less [OF ok]
  have "HASH_BLOOM_TEST ?b h' = Some (bloom_idx b h' = ?i \<or> HASH_BLOOM_TEST b h' = Some True)" for h'
  proof (cases "bloom_idx b h' div 8 = ?i div 8")
    case True
    then have "bloom_idx b h' = ?i \<longleftrightarrow> bloom_idx b h' mod 8 = ?i mod 8" by (metis div_mult_mod_eq)
    then show ?thesis using l True by (auto simp: HASH_BLOOM_TEST_def HASH_BLOOM_BITTEST_def and_exp_eq_0_iff_not_bit byte_or_bit)
  next
    case False
    then show ?thesis using l by (auto simp: HASH_BLOOM_TEST_def HASH_BLOOM_BITTEST_def)
  qed
  then show ?thesis using l ok by (intro exI [of _ ?b]) (simp add: HASH_BLOOM_ADD_def HASH_BLOOM_BITSET_def bloom_ok_def)
qed

text \<open>The filter as the table needs it: it lets every element through. It does so for the empty table, and adding an element keeps it so.\<close>

definition bloom_covers :: "nat \<Rightarrow> bloom \<Rightarrow> uthash \<Rightarrow> ptr list \<Rightarrow> bool" where
  "bloom_covers n b t xs \<longleftrightarrow> bloom_ok n b \<and> (\<forall>x \<in> set xs. HASH_BLOOM_TEST b (HASH_JEN (key_at t x)) = Some True)"

lemma bloom_covers_add:
  assumes "bloom_covers n b t xs" and "\<forall>x \<in> set xs. key_at t' x = key_at t x" and "key_at t' p = key"
  shows "\<exists>b'. HASH_BLOOM_ADD b (HASH_JEN key) = Some b' \<and> bloom_covers n b' t' (xs @ [p])"
  using assms bloom_ADD_ok [of n b "HASH_JEN key"] by (auto simp: bloom_covers_def)

lemma bloom_find_eq:
  assumes rep: "uh_rep t xs" and cov: "bloom_covers n b t xs"
  shows "bloom_find b t key = HASH_FIND t key"
proof (cases "head t")
  case (Some p)
  obtain r where r: "HASH_FIND t key = Some r" "r = None \<Longrightarrow> \<forall>x \<in> set xs. key_at t x \<noteq> key" "\<And>p. r = Some p \<Longrightarrow> p \<in> set xs \<and> key_at t p = key"
    using HASH_FIND_ok [OF rep, of key] by (auto split: option.splits)
  obtain q where q: "HASH_BLOOM_TEST b (HASH_JEN key) = Some q" "r \<noteq> None \<Longrightarrow> q"
    using cov r(3) bloom_idx_less [of n b] by (cases r) (auto simp: bloom_covers_def HASH_BLOOM_TEST_def HASH_BLOOM_BITTEST_def)
  show ?thesis
  proof (cases q)
    case True
    then show ?thesis using Some q(1) by (simp add: bloom_find_def HASH_FIND_def)
  next
    case False
    then show ?thesis using Some q r(1) by (cases r) (simp_all add: bloom_find_def)
  qed
qed (simp add: bloom_find_def HASH_FIND_def)

section \<open>Sequences of operations\<close>

datatype table_op = Add ptr bytes | Del ptr

text \<open>The same operations in a build with the filter and the check and in one without.\<close>

fun checked_run :: "nat \<Rightarrow> table_op list \<Rightarrow> bloom \<times> uthash \<Rightarrow> (bloom \<times> uthash, unit) run" where
  "checked_run n [] bt = Ret () bt"
| "checked_run n (Add p k # os) bt = bind_run (HASH_ADD_checked n p k bt) (\<lambda>_ bt. checked_run n os bt)"
| "checked_run n (Del p # os) bt = bind_run (HASH_DELETE_checked p bt) (\<lambda>_ bt. checked_run n os bt)"

fun plain_run :: "table_op list \<Rightarrow> uthash \<Rightarrow> uthash option" where
  "plain_run [] t = Some t"
| "plain_run (Add p k # os) t = Option.bind (HASH_ADD t p k) (plain_run os)"
| "plain_run (Del p # os) t = Option.bind (HASH_DELETE t p) (plain_run os)"

text \<open>Only allocated elements (\<open>D\<close>) that are not in the table are added, and fewer than fit an \<^verbatim>\<open>unsigned\<close>; only elements of the table are deleted.\<close>

fun legal :: "ptr set \<Rightarrow> ptr list \<Rightarrow> table_op list \<Rightarrow> bool" where
  "legal D xs [] \<longleftrightarrow> True"
| "legal D xs (Add p k # os) \<longleftrightarrow> p \<in> D \<and> p \<notin> set xs \<and> length xs < 2 ^ 32 - 1 \<and> legal D (xs @ [p]) os"
| "legal D xs (Del p # os) \<longleftrightarrow> p \<in> set xs \<and> legal D (remove1 p xs) os"

text \<open>The filter of an empty table may be anything.\<close>

definition screened :: "nat \<Rightarrow> bloom \<Rightarrow> uthash \<Rightarrow> ptr list \<Rightarrow> bool" where
  "screened n b t xs \<longleftrightarrow> uh_rep t xs \<and> length xs < 2 ^ 32 \<and> (xs \<noteq> [] \<longrightarrow> bloom_covers n b t xs)"

lemma screened_find:
  assumes "screened n b t xs"
  shows "bloom_find b t k = HASH_FIND t k"
proof (cases "xs = []")
  case True
  then show ?thesis using assms by (simp add: screened_def uh_rep_def bloom_find_def HASH_FIND_def)
qed (use assms bloom_find_eq in \<open>auto simp: screened_def\<close>)

lemma screened_add:
  assumes "screened n b t xs" and "n \<le> 32" and "p \<notin> set xs" and "p \<in> dom (hh t)" and "length xs < 2 ^ 32 - 1"
  shows "\<exists>b' t'. HASH_ADD_checked n p k (b, t) = Ret () (b', t') \<and> HASH_ADD t p k = Some t' \<and> screened n b' t' (xs @ [p]) \<and> dom (hh t') = dom (hh t)"
proof -
  have rep: "uh_rep t xs" and cov: "xs \<noteq> [] \<longrightarrow> bloom_covers n b t xs" using assms(1) by (auto simp: screened_def)
  obtain h where "hh t p = Some h" using assms(4) by blast
  then obtain t' where t': "HASH_ADD t p k = Some t'" "uh_rep t' (xs @ [p])" "key_at t' = (key_at t)(p := k)" "dom (hh t') = dom (hh t)"
    using HASH_ADD_ok [OF rep assms(3)] by blast
  have hd: "head t = None \<longleftrightarrow> xs = []" using rep by (cases xs) (auto simp: uh_rep_def)
  let ?b = "if head t = None then HASH_BLOOM_MAKE n else b"
  have "bloom_covers n ?b t xs" using cov hd bloom_MAKE_ok [OF assms(2)] by (auto simp: bloom_covers_def)
  moreover have "\<forall>x \<in> set xs. key_at t' x = key_at t x" "key_at t' p = k" using t'(3) assms(3) by auto
  ultimately obtain b' where b': "HASH_BLOOM_ADD ?b (HASH_JEN k) = Some b'" "bloom_covers n b' t' (xs @ [p])" using bloom_covers_add by blast
  have "HASH_FSCK t' = Ret () t'" using HASH_FSCK_ok [OF t'(2)] assms(5) by simp
  then have "HASH_ADD_checked n p k (b, t) = Ret () (b', t')" using t'(1) b'(1) by (simp add: HASH_ADD_checked_def Let_def)
  moreover have "screened n b' t' (xs @ [p])" using t'(2) b'(2) assms(5) by (simp add: screened_def)
  ultimately show ?thesis using t'(1,4) by blast
qed

lemma screened_delete:
  assumes "screened n b t xs" and "p \<in> set xs"
  shows "\<exists>t'. HASH_DELETE_checked p (b, t) = Ret () (b, t') \<and> HASH_DELETE t p = Some t' \<and> screened n b t' (remove1 p xs) \<and> dom (hh t') = dom (hh t)"
proof -
  have rep: "uh_rep t xs" and cov: "bloom_covers n b t xs" and len: "length xs < 2 ^ 32" using assms by (auto simp: screened_def)
  obtain t' where t': "HASH_DELETE t p = Some t'" "uh_rep t' (remove1 p xs)" "key_at t' = key_at t" "dom (hh t') = dom (hh t)"
    using HASH_DELETE_ok [OF rep assms(2)] by blast
  have l: "length (remove1 p xs) < 2 ^ 32" using len length_remove1 [of p xs] by (auto split: if_splits)
  have "bloom_covers n b t' (remove1 p xs)" using cov t'(3) notin_set_remove1 by (fastforce simp: bloom_covers_def)
  then have "screened n b t' (remove1 p xs)" using t'(2) l by (simp add: screened_def)
  then show ?thesis using t'(1,4) HASH_FSCK_ok [OF t'(2) l] by (simp add: HASH_DELETE_checked_def)
qed

lemma checked_run_ok:
  "screened n b t xs \<Longrightarrow> n \<le> 32 \<Longrightarrow> legal (dom (hh t)) xs os \<Longrightarrow>
    \<exists>b' t' ys. checked_run n os (b, t) = Ret () (b', t') \<and> plain_run os t = Some t' \<and> screened n b' t' ys"
proof (induction n os "(b, t)" arbitrary: b t xs rule: checked_run.induct)
  case (2 n p k os)
  have "p \<notin> set xs" "p \<in> dom (hh t)" "length xs < 2 ^ 32 - 1" using "2.prems"(3) by simp_all
  from screened_add [OF "2.prems"(1,2) this, of k] obtain b1 t1 where 1: "HASH_ADD_checked n p k (b, t) = Ret () (b1, t1)" "HASH_ADD t p k = Some t1"
      "screened n b1 t1 (xs @ [p])" "dom (hh t1) = dom (hh t)" by blast
  from "2.hyps" [OF 1(1,3) "2.prems"(2)] show ?case using 1 "2.prems"(3) by simp
next
  case (3 n p os)
  have "p \<in> set xs" using "3.prems"(3) by simp
  from screened_delete [OF "3.prems"(1) this] obtain t1 where 1: "HASH_DELETE_checked p (b, t) = Ret () (b, t1)" "HASH_DELETE t p = Some t1"
      "screened n b t1 (remove1 p xs)" "dom (hh t1) = dom (hh t)" by blast
  from "3.hyps" [OF 1(1,3) "3.prems"(2)] show ?case using 1 "3.prems"(3) by simp
qed auto

section \<open>Properties\<close>

text \<open>
  C30. A build with the integrity check and the Bloom filter works as one without them. From an empty table, whatever is in the variables
  of the filter, every sequence of additions of new elements and deletions of elements of the table, in which the table may become empty and be created again,
  runs to its end without a failed check and without an access outside the filter; it leaves the same table as in the build without, and a lookup through the filter has the same result
  as one without, for every key.
\<close>

theorem checked_operations_pass:
  assumes "head t = None" and "n \<le> 32" and "legal (dom (hh t)) [] os"
  shows "\<exists>b' t'. checked_run n os (b, t) = Ret () (b', t') \<and> plain_run os t = Some t' \<and> (\<forall>k. bloom_find b' t' k = HASH_FIND t' k)"
proof -
  have "screened n b t []" using assms(1) by (simp add: screened_def uh_rep_empty)
  from checked_run_ok [OF this assms(2,3)] show ?thesis using screened_find by blast
qed

text \<open>Two elements are added, the first addition creates the table and the filter; a deletion follows, and the other element is still found.\<close>

abbreviation demo_ops :: "table_op list" where
  "demo_ops \<equiv> [Add 1 (demo_mac 1), Add 2 (demo_mac 2), Del 1]"

lemma demo_plain: "\<exists>t'. plain_run demo_ops demo_empty = Some t' \<and> HASH_FIND t' (demo_mac 2) = Some (Some 2) \<and> HASH_FIND t' (demo_mac 1) = Some None"
proof -
  obtain t1 t2 where t2: "HASH_ADD demo_empty 1 (demo_mac 1) = Some t1" "HASH_ADD t1 2 (demo_mac 2) = Some t2" "uh_rep t2 [1, 2]"
      "key_at t2 = (key_at demo_empty)(1 := demo_mac 1, 2 := demo_mac 2)"
  proof -
    obtain t1 where t1: "HASH_ADD demo_empty 1 (demo_mac 1) = Some t1" "uh_rep t1 [1]" "key_at t1 = (key_at demo_empty)(1 := demo_mac 1)" "dom (hh t1) = {..<8}"
      using HASH_ADD_ok [OF demo_empty_rep(1), of 1 zero_handle "demo_mac 1"] demo_empty_rep(2) by (auto simp: demo_empty_def demo_mem_def)
    have "2 \<in> dom (hh t1)" using t1(4) by simp
    then obtain h2 where "hh t1 2 = Some h2" by blast
    then obtain t2 where "HASH_ADD t1 2 (demo_mac 2) = Some t2" "uh_rep t2 ([1] @ [2])" "key_at t2 = (key_at t1)(2 := demo_mac 2)"
      using HASH_ADD_ok [OF t1(2), of 2 h2 "demo_mac 2"] by auto
    then show ?thesis using that [OF t1(1)] t1(3) by simp
  qed
  from HASH_DELETE_ok [OF t2(3), of 1] obtain t3 where t3: "HASH_DELETE t2 1 = Some t3" "uh_rep t3 [2]" "key_at t3 = key_at t2" by auto
  have "HASH_FIND t3 k = Some (key_map (key_at t3) [2] k)" for k by (rule uh.lookup_map [OF t3(2)]) simp
  then show ?thesis using t2(1,2,4) t3(1,3) by (simp add: key_map_def demo_mac_def)
qed

theorem checked_operations_pass_witness:
  "\<exists>b' t'. checked_run 5 demo_ops (\<lparr>bloom_nbits = 0, bloom_bv = []\<rparr>, demo_empty) = Ret () (b', t') \<and>
    bloom_find b' t' (demo_mac 2) = Some (Some 2) \<and> bloom_find b' t' (demo_mac 1) = Some None"
proof -
  have "head demo_empty = None" "legal (dom (hh demo_empty)) [] demo_ops" by (simp_all add: demo_empty_rep(2), simp add: demo_empty_def)
  from checked_operations_pass [OF this(1) _ this(2), of 5 "\<lparr>bloom_nbits = 0, bloom_bv = []\<rparr>"] demo_plain
  show ?thesis by auto
qed

end
