(* ===== verification/Uthash_Hashes.thy ===== *)
theory Uthash_Hashes
  imports Uthash_Rep
begin

text \<open>
  The other hash functions of \<^verbatim>\<open>uthash.h\<close>, of which a build may choose one instead of that of Jenkins by defining \<^verbatim>\<open>HASH_FUNCTION\<close>. Each sets
  \<^verbatim>\<open>hashv\<close> to the values below and \<^verbatim>\<open>bkt\<close> to \<^verbatim>\<open>hashv & (num_bkts-1)\<close>, that is, \<open>HASH_TO_BKT\<close>. On the target a \<^verbatim>\<open>char\<close> is signed and integers
  are little-endian. The mixing steps of the functions, that of Jenkins included, are shown to be reversible.
\<close>

section \<open>Functions that read one character at a time\<close>

text \<open>A \<^verbatim>\<open>char\<close> converted to \<^verbatim>\<open>unsigned\<close>.\<close>

abbreviation schar :: "byte \<Rightarrow> u32" where
  "schar \<equiv> scast"

definition HASH_BER :: "bytes \<Rightarrow> u32" where
  "HASH_BER key = foldl (\<lambda>hv c. hv * 33 + schar c) 0 key"

definition HASH_SAX :: "bytes \<Rightarrow> u32" where
  "HASH_SAX key = foldl (\<lambda>hv c. hv XOR (push_bit 5 hv + drop_bit 2 hv + schar c)) 0 key"

definition HASH_FNV :: "bytes \<Rightarrow> u32" where
  "HASH_FNV key = foldl (\<lambda>hv c. (hv * 16777619) XOR schar c) 2166136261 key"

definition oat_step :: "u32 \<Rightarrow> byte \<Rightarrow> u32" where
  "oat_step hv c =
     (let hv = hv + schar c; hv = hv + push_bit 10 hv in hv XOR drop_bit 6 hv)"

definition HASH_OAT :: "bytes \<Rightarrow> u32" where
  "HASH_OAT key =
     (let hv = foldl oat_step 0 key;
          hv = hv + push_bit 3 hv;
          hv = hv XOR drop_bit 11 hv
      in hv + push_bit 15 hv)"

section \<open>Functions that read blocks\<close>

definition get16bits :: "bytes \<Rightarrow> nat \<Rightarrow> u32" where
  "get16bits key i = kb key (i + 1) 8 + kb key i 0"

text \<open>The main loop of \<^verbatim>\<open>HASH_SFH\<close>; the rest of the key is left for the \<^verbatim>\<open>switch\<close>.\<close>

fun sfh_blocks :: "bytes \<Rightarrow> u32 \<Rightarrow> bytes \<times> u32" where
  "sfh_blocks (a # b # c # d # key) hv =
     (let hv = hv + get16bits [a, b, c, d] 0;
          tmp = push_bit 11 (get16bits [a, b, c, d] 2) XOR hv;
          hv = push_bit 16 hv XOR tmp
      in sfh_blocks key (hv + drop_bit 11 hv))"
| "sfh_blocks key hv = (key, hv)"

definition HASH_SFH :: "bytes \<Rightarrow> u32" where
  "HASH_SFH key =
     (case sfh_blocks key 0xcafebabe of (r, hv) \<Rightarrow>
        let hv =
              (if length r = 3 then
                 let hv = hv + get16bits r 0; hv = hv XOR push_bit 16 hv; hv = hv XOR kb r 2 18
                 in hv + drop_bit 11 hv
               else if length r = 2 then
                 let hv = hv + get16bits r 0; hv = hv XOR push_bit 11 hv
                 in hv + drop_bit 17 hv
               else if length r = 1 then
                 let hv = hv + kb r 0 0; hv = hv XOR push_bit 10 hv
                 in hv + drop_bit 1 hv
               else hv);
            hv = hv XOR push_bit 3 hv; hv = hv + drop_bit 5 hv;
            hv = hv XOR push_bit 4 hv; hv = hv + drop_bit 17 hv;
            hv = hv XOR push_bit 25 hv
        in hv + drop_bit 6 hv)"

definition MUR_ROTL32 :: "u32 \<Rightarrow> nat \<Rightarrow> u32" where
  "MUR_ROTL32 x r = push_bit r x OR drop_bit (32 - r) x"

definition MUR_FMIX :: "u32 \<Rightarrow> u32" where
  "MUR_FMIX h =
     (let h = h XOR drop_bit 16 h; h = h * 0x85ebca6b;
          h = h XOR drop_bit 13 h; h = h * 0xc2b2ae35
      in h XOR drop_bit 16 h)"

text \<open>\<^verbatim>\<open>MUR_GETBLOCK\<close> on a little-endian machine that allows unaligned reads.\<close>

definition MUR_GETBLOCK :: "bytes \<Rightarrow> u32" where
  "MUR_GETBLOCK p = kb p 0 0 OR kb p 1 8 OR kb p 2 16 OR kb p 3 24"

definition mur_k1 :: "u32 \<Rightarrow> u32" where
  "mur_k1 k1 = MUR_ROTL32 (k1 * 0xcc9e2d51) 15 * 0x1b873593"

fun mur_blocks :: "bytes \<Rightarrow> u32 \<Rightarrow> bytes \<times> u32" where
  "mur_blocks (a # b # c # d # key) h1 =
     mur_blocks key (MUR_ROTL32 (h1 XOR mur_k1 (MUR_GETBLOCK [a, b, c, d])) 13 * 5 + 0xe6546b64)"
| "mur_blocks key h1 = (key, h1)"

text \<open>The \<^verbatim>\<open>switch\<close> has no breaks.\<close>

definition HASH_MUR :: "bytes \<Rightarrow> u32" where
  "HASH_MUR key =
     (case mur_blocks key 0xf88D5353 of (r, h1) \<Rightarrow>
        let k1 = 0;
            k1 = (if length r \<ge> 3 then k1 XOR kb r 2 16 else k1);
            k1 = (if length r \<ge> 2 then k1 XOR kb r 1 8 else k1);
            k1 = (if length r \<ge> 1 then k1 XOR kb r 0 0 else k1);
            h1 = (if length r \<ge> 1 then h1 XOR mur_k1 k1 else h1)
        in MUR_FMIX (h1 XOR of_nat (length key)))"

section \<open>Reversible steps\<close>

lemma drop_bit_fixed: "z = drop_bit k z \<Longrightarrow> 0 < k \<Longrightarrow> z = (0 :: u32)"
proof -
  assume z: "z = drop_bit k z" and k: "0 < k"
  have "unat (drop_bit k z) = unat z div 2 ^ k" unfolding unat_drop_bit_eq by (rule drop_bit_eq_div)
  then have "unat z = unat z div 2 ^ k" using z by simp
  moreover have "unat z div 2 ^ k < unat z" if "unat z \<noteq> 0" using that k by (intro div_less_dividend) (use one_less_power [of "2 :: nat" k] in simp_all)
  ultimately have "unat z = 0" by (metis less_irrefl)
  then show ?thesis by (simp add: unat_eq_zero)
qed

lemma xor_0_iff: "x XOR y = 0 \<longleftrightarrow> x = (y :: u32)"
  by (auto simp: bit_eq_iff bit_xor_iff)

lemma xor_inj [simp]: "x XOR c = y XOR c \<longleftrightarrow> x = (y :: u32)" "c XOR x = c XOR y \<longleftrightarrow> x = y"
  by (auto simp: bit_eq_iff bit_xor_iff)

lemma xor_shift_inj:
  fixes x y :: u32
  assumes "x XOR drop_bit k x = y XOR drop_bit k y" and "0 < k"
  shows "x = y"
proof -
  have "(x XOR y) XOR drop_bit k (x XOR y) = (x XOR drop_bit k x) XOR (y XOR drop_bit k y)" by (auto simp: bit_eq_iff bit_xor_iff bit_drop_bit_eq)
  then have "(x XOR y) XOR drop_bit k (x XOR y) = 0" unfolding assms(1) by simp
  then have "x XOR y = drop_bit k (x XOR y)" by (simp only: xor_0_iff)
  from drop_bit_fixed [OF this assms(2)] show ?thesis by (simp only: xor_0_iff)
qed

lemma mult_inj: "c * d = 1 \<Longrightarrow> x * c = y * c \<Longrightarrow> x = (y :: u32)"
proof -
  assume cd: "c * d = 1" and "x * c = y * c"
  then have "x * c * d = y * c * d" by simp
  then show ?thesis by (simp only: mult.assoc cd mult_1_right)
qed

lemma bit_ROTL32: "0 < r \<Longrightarrow> r < 32 \<Longrightarrow> n < 32 \<Longrightarrow> bit (MUR_ROTL32 x r) ((n + r) mod 32) = bit x n"
  by (cases "n + r < 32") (auto simp: MUR_ROTL32_def bit_simps mod_if dest: bit_imp_le_length)

lemma ROTL32_inj: "MUR_ROTL32 x r = MUR_ROTL32 y r \<Longrightarrow> 0 < r \<Longrightarrow> r < 32 \<Longrightarrow> x = y"
proof (rule bit_word_eqI)
  show "bit x n = bit y n" if "MUR_ROTL32 x r = MUR_ROTL32 y r" "0 < r" "r < 32" "n < LENGTH(32)" for n
    using bit_ROTL32 [of r n x] bit_ROTL32 [of r n y] that by simp
qed

lemma JEN_MIX_inj: "inj HASH_JEN_MIX"
proof -
  let ?A = "\<lambda>f (a, b, c). ((a - b - c) XOR f c, b, c :: u32)" and ?B = "\<lambda>f (a, b, c). (a, (b - c - a) XOR f a, c :: u32)"
    and ?C = "\<lambda>f (a, b, c). (a, b, (c - a - b) XOR f b :: u32)"
  have eq: "HASH_JEN_MIX = ?C (drop_bit 15) \<circ> ?B (push_bit 10) \<circ> ?A (drop_bit 3) \<circ> ?C (drop_bit 5) \<circ> ?B (push_bit 16) \<circ> ?A (drop_bit 12) \<circ>
      ?C (drop_bit 13) \<circ> ?B (push_bit 8) \<circ> ?A (drop_bit 13)"
    by (rule ext) (simp only: HASH_JEN_MIX_def Let_def o_apply split_paired_all prod.case)
  have "inj (?A f)" "inj (?B f)" "inj (?C f)" for f by (auto intro!: injI)
  then show ?thesis unfolding eq by (intro inj_compose)
qed

lemma MUR_FMIX_inj: "inj MUR_FMIX"
proof (rule injI)
  fix x y assume e: "MUR_FMIX x = MUR_FMIX y"
  let ?a = "\<lambda>x :: u32. x XOR drop_bit 16 x" and ?b = "\<lambda>x :: u32. x XOR drop_bit 13 x"
  have "?a (?b (?a x * 0x85ebca6b) * 0xc2b2ae35) = ?a (?b (?a y * 0x85ebca6b) * 0xc2b2ae35)" using e by (simp only: MUR_FMIX_def Let_def)
  from xor_shift_inj [OF this] have "?b (?a x * 0x85ebca6b) * 0xc2b2ae35 = ?b (?a y * 0x85ebca6b) * 0xc2b2ae35" by simp
  from mult_inj [OF _ this, of 2127672349] have "?b (?a x * 0x85ebca6b) = ?b (?a y * 0x85ebca6b)" by simp
  from xor_shift_inj [OF this] have "?a x * 0x85ebca6b = ?a y * 0x85ebca6b" by simp
  from mult_inj [OF _ this, of 2781581891] have "?a x = ?a y" by simp
  from xor_shift_inj [OF this] show "x = y" by simp
qed

lemma mur_k1_inj: "mur_k1 x = mur_k1 y \<Longrightarrow> x = y"
proof -
  assume "mur_k1 x = mur_k1 y"
  then have "MUR_ROTL32 (x * 0xcc9e2d51) 15 * 0x1b873593 = MUR_ROTL32 (y * 0xcc9e2d51) 15 * 0x1b873593" by (simp only: mur_k1_def)
  from mult_inj [OF _ this, of 1458385051] have "MUR_ROTL32 (x * 0xcc9e2d51) 15 = MUR_ROTL32 (y * 0xcc9e2d51) 15" by simp
  from ROTL32_inj [OF this] have "x * 0xcc9e2d51 = y * 0xcc9e2d51" by simp
  from mult_inj [OF _ this, of 3739302833] show ?thesis by simp
qed

text \<open>Four bytes and the block they form determine each other.\<close>

lemma GETBLOCK_bit: "i < 4 \<Longrightarrow> j < 8 \<Longrightarrow> bit (MUR_GETBLOCK [a, b, c, d]) (8 * i + j) = bit ([a, b, c, d] ! i) j"
proof -
  assume "i < 4" and j: "j < 8"
  then consider "i = 0" | "i = 1" | "i = 2" | "i = 3" by linarith
  then show ?thesis using j by cases (auto simp: MUR_GETBLOCK_def kb_def bit_simps nth_Cons' dest: bit_imp_le_length)
qed

lemma GETBLOCK_inj:
  assumes "MUR_GETBLOCK [a, b, c, d] = MUR_GETBLOCK [a', b', c', d']"
  shows "[a, b, c, d] = [a', b', c', d']"
proof (rule nth_equalityI)
  fix i assume "i < length [a, b, c, d]"
  then have i: "i < 4" by simp
  show "[a, b, c, d] ! i = [a', b', c', d'] ! i"
    by (rule bit_word_eqI) (use GETBLOCK_bit [OF i, of _ a b c d] GETBLOCK_bit [OF i, of _ a' b' c' d'] assms in simp)
qed simp

section \<open>Properties\<close>

text \<open>
  The mixing steps of Jenkins' and of Murmur's hash lose nothing: they are bijections on their words.
\<close>

theorem hash_mixing_reversible: "bij HASH_JEN_MIX \<and> bij MUR_FMIX"
  using JEN_MIX_inj MUR_FMIX_inj by (simp add: bij_def finite_UNIV_inj_surj)

text \<open>
  \<^verbatim>\<open>HASH_MUR\<close> has no collision between keys of four bytes, such as the integers of \<^verbatim>\<open>HASH_ADD_INT\<close>.
\<close>

theorem HASH_MUR_distinct_on_words: "inj_on HASH_MUR {key. length key = 4}"
proof (rule inj_onI, simp)
  fix x y :: bytes
  assume "HASH_MUR x = HASH_MUR y" "length x = 4" "length y = 4"
  then obtain a b c d a' b' c' d' where xy: "x = [a, b, c, d]" "y = [a', b', c', d']" by (auto simp: length_Suc_conv numeral_eq_Suc)
  let ?f = "\<lambda>k. MUR_ROTL32 (0xf88D5353 XOR mur_k1 k) 13" and ?k = "MUR_GETBLOCK x" and ?l = "MUR_GETBLOCK y"
  have "MUR_FMIX ((?f ?k * 5 + 0xe6546b64) XOR 4) = MUR_FMIX ((?f ?l * 5 + 0xe6546b64) XOR 4)"
    using \<open>HASH_MUR x = HASH_MUR y\<close> by (simp add: HASH_MUR_def xy)
  then have "?f ?k * 5 = ?f ?l * 5" using MUR_FMIX_inj by (simp add: inj_eq)
  from mult_inj [OF _ this, of 3435973837] have "?f ?k = ?f ?l" by simp
  from ROTL32_inj [OF this] have "mur_k1 ?k = mur_k1 ?l" by simp
  from mur_k1_inj [OF this] show "x = y" using GETBLOCK_inj by (simp add: xy)
qed

text \<open>
  \<^verbatim>\<open>HASH_BER\<close> is the value of the key as a polynomial in 33, modulo the word size.
\<close>

theorem HASH_BER_polynomial: "HASH_BER key = (\<Sum>i < length key. schar (key ! i) * 33 ^ (length key - 1 - i))"
proof (induction key rule: rev_induct)
  case (snoc c key)
  have "(\<Sum>i < length key. schar (key ! i) * 33 ^ (length key - i)) = (\<Sum>i < length key. schar (key ! i) * 33 ^ (length key - 1 - i)) * 33"
    unfolding sum_distrib_right
  proof (rule sum.cong)
    show "schar (key ! i) * 33 ^ (length key - i) = schar (key ! i) * 33 ^ (length key - 1 - i) * 33" if "i \<in> {..<length key}" for i
      using that power_Suc2 [of "33 :: u32" "length key - 1 - i"] by (simp only: Suc_diff_Suc mult.assoc lessThan_iff diff_diff_left plus_1_eq_Suc)
  qed simp
  then show ?case using snoc by (simp add: HASH_BER_def nth_append cong: sum.cong_simp)
qed (simp add: HASH_BER_def)

end
