(* ===== verification/Scan.thy ===== *)
theory Scan
  imports Wire
begin

text \<open>
  What the start-up code uses of the C library to read text: \<^verbatim>\<open>fgets\<close>, \<^verbatim>\<open>strtoul\<close> and the
  conversions of \<^verbatim>\<open>sscanf\<close>; and the two functions of \<^verbatim>\<open>proxy.c\<close> that only parse, \<^verbatim>\<open>get_port\<close>
  and \<^verbatim>\<open>getMAC\<close>. A conversion whose result does not fit its variable is undefined.
\<close>

section \<open>Characters and lines\<close>

definition isspace :: "char \<Rightarrow> bool" where
  "isspace c \<longleftrightarrow> c \<in> set [CHR '' '', CHR 0x09, CHR 0x0A, CHR 0x0B, CHR 0x0C, CHR 0x0D]"

definition newline :: char where "newline = CHR 0x0A"

text \<open>The string in a buffer ends at the first NUL.\<close>

definition c_str :: "string \<Rightarrow> string" where
  "c_str s = takeWhile (\<lambda>c. c \<noteq> CHR 0x00) s"

definition skip_space :: "string \<Rightarrow> string" where
  "skip_space s = dropWhile isspace s"

fun to_newline :: "string \<Rightarrow> string" where
  "to_newline [] = []"
| "to_newline (c # cs) = (if c = newline then [c] else c # to_newline cs)"

text \<open>\<^verbatim>\<open>fgets(buf, n, f)\<close> on the rest of a file: the characters stored and what is left.\<close>

definition fgets :: "nat \<Rightarrow> string \<Rightarrow> (string \<times> string) option" where
  "fgets n s = (if s = [] then None else let l = take (n - 1) (to_newline s) in Some (l, drop (length l) s))"

section \<open>Numbers\<close>

definition digit_val :: "nat \<Rightarrow> char \<Rightarrow> nat option" where
  "digit_val base c =
     (let k = of_char c :: nat;
          d = (if 48 \<le> k \<and> k \<le> 57 then k - 48 else if 65 \<le> k \<and> k \<le> 90 then k - 55
               else if 97 \<le> k \<and> k \<le> 122 then k - 87 else base) in
      if d < base then Some d else None)"

definition is_digit :: "nat \<Rightarrow> char \<Rightarrow> bool" where
  "is_digit base c \<longleftrightarrow> digit_val base c \<noteq> None"

definition digits_val :: "nat \<Rightarrow> string \<Rightarrow> nat" where
  "digits_val base ds = foldl (\<lambda>a c. a * base + the (digit_val base c)) 0 ds"

text \<open>
  The input item of \<^verbatim>\<open>%u\<close> and \<^verbatim>\<open>%X\<close>: white space, a sign, for base 16 the prefix 0x, digits.
  The result is the number and the rest of the input.
\<close>

definition scan_num :: "nat \<Rightarrow> string \<Rightarrow> (int \<times> string) option" where
  "scan_num base s =
     (let s = skip_space s;
          neg = (s \<noteq> [] \<and> hd s = CHR ''-'');
          s = (if s \<noteq> [] \<and> (hd s = CHR ''-'' \<or> hd s = CHR ''+'') then tl s else s);
          s = (if base = 16 \<and> (take 2 s = ''0x'' \<or> take 2 s = ''0X'') then drop 2 s else s);
          ds = takeWhile (is_digit base) s in
      if ds = [] then None
      else Some (if neg then - int (digits_val base ds) else int (digits_val base ds), dropWhile (is_digit base) s))"

text \<open>The number in an unsigned variable of \<open>w\<close> bits; negative numbers are those of \<^verbatim>\<open>unsigned long\<close>.\<close>

definition store_uint :: "nat \<Rightarrow> int \<Rightarrow> int option" where
  "store_uint w v = (let x = v mod 2 ^ 32 in if \<bar>v\<bar> < 2 ^ 32 \<and> x < 2 ^ w then Some x else None)"

text \<open>\<^verbatim>\<open>strtoul(s, NULL, 10)\<close>: the value, and whether \<^verbatim>\<open>errno\<close> is set to \<^verbatim>\<open>ERANGE\<close>.\<close>

definition strtoul :: "string \<Rightarrow> u32 \<times> bool" where
  "strtoul s = (case scan_num 10 s of
       None \<Rightarrow> (0, False)
     | Some (v, _) \<Rightarrow> if \<bar>v\<bar> < 2 ^ 32 then (word_of_int v, False) else (-1, True))"

section \<open>get\_port\<close>

text \<open>\<open>e\<close> says whether \<^verbatim>\<open>errno\<close> is \<^verbatim>\<open>ERANGE\<close> before the call.\<close>

definition get_port :: "string \<Rightarrow> bool \<Rightarrow> (bool, u16) run" where
  "get_port s e =
     (let (x, range) = strtoul (c_str s); e = (range \<or> e) in
      if x = -1 \<and> e \<or> x < 1024 \<or> x > 65535 then Stop (Exit 1) e
      else Ret (ucast x) e)"

section \<open>getMAC\<close>

text \<open>The six conversions \<^verbatim>\<open>%hhX\<close> separated by colons; the bytes stored before the first mismatch.\<close>

fun scan_mac :: "nat \<Rightarrow> string \<Rightarrow> bytes option" where
  "scan_mac 0 s = Some []"
| "scan_mac (Suc k) s = (case scan_num 16 s of
       None \<Rightarrow> Some []
     | Some (v, r) \<Rightarrow> (case store_uint 8 v of
           None \<Rightarrow> None
         | Some x \<Rightarrow> if k > 0 \<and> r \<noteq> [] \<and> hd r = CHR '':''
             then map_option (\<lambda>bs. word_of_int x # bs) (scan_mac k (tl r))
             else Some [word_of_int x]))"

definition mac_path :: "string \<Rightarrow> string" where
  "mac_path dev = ''/sys/class/net/'' @ dev @ ''/address''"

text \<open>
  \<open>files\<close> is the content of the file system. The path is printed into 64 characters, a
  missing file is not noticed, an empty one leaves the path in the buffer. \<open>old\<close> is what the
  address holds before.
\<close>

definition getMAC :: "(string \<Rightarrow> string option) \<Rightarrow> string \<Rightarrow> bytes \<Rightarrow> bytes option" where
  "getMAC files dev old =
     (if length (mac_path dev) \<ge> 64 then None
      else case files (mac_path dev) of
        None \<Rightarrow> None
      | Some text \<Rightarrow>
          let buffer = (case fgets 64 text of None \<Rightarrow> mac_path dev | Some (l, _) \<Rightarrow> l) in
          map_option (\<lambda>bs. bs @ drop (length bs) old) (scan_mac 6 (c_str buffer)))"

section \<open>Printed numbers\<close>

text \<open>Decimal numbers, and two lower-case hexadecimal digits per byte as the kernel prints addresses.\<close>

definition digit_char :: "nat \<Rightarrow> char" where
  "digit_char d = (if d < 10 then char_of (48 + d) else char_of (87 + d))"

fun dec_text :: "nat \<Rightarrow> string" where
  "dec_text n = (if n < 10 then [digit_char n] else dec_text (n div 10) @ [digit_char (n mod 10)])"

declare dec_text.simps [simp del]

definition byte_text :: "byte \<Rightarrow> string" where
  "byte_text b = [digit_char (unat b div 16), digit_char (unat b mod 16)]"

fun mac_text :: "bytes \<Rightarrow> string" where
  "mac_text [] = []"
| "mac_text [b] = byte_text b"
| "mac_text (b # bs) = byte_text b @ CHR '':'' # mac_text bs"

lemma digit_char_val:
  assumes "d < base" and "base \<le> 16"
  shows "digit_val base (digit_char d) = Some d"
proof -
  have "of_char (digit_char d) = (if d < 10 then 48 + d else 87 + d)"
    using assms by (simp add: digit_char_def)
  then show ?thesis using assms by (auto simp: digit_val_def Let_def)
qed

lemma digit_char_is_digit [simp]: "d < base \<Longrightarrow> base \<le> 16 \<Longrightarrow> is_digit base (digit_char d)"
  by (simp add: is_digit_def digit_char_val)

lemma digits_val_snoc: "digits_val base (ds @ [c]) = digits_val base ds * base + the (digit_val base c)"
  by (simp add: digits_val_def)

lemma digits_val_Nil [simp]: "digits_val base [] = 0"
  by (simp add: digits_val_def)

lemma not_digit:
  assumes "is_digit base c" and "base \<le> 16"
  shows "\<not> isspace c" and "c \<noteq> CHR ''-''" and "c \<noteq> CHR ''+''" and "c \<noteq> CHR ''x''" and "c \<noteq> CHR ''X''" and "c \<noteq> CHR 0x00"
    and "c \<noteq> newline"
  using assms by (auto simp: is_digit_def digit_val_def isspace_def newline_def Let_def split: if_splits)

lemma dec_text_ne [simp]: "dec_text n \<noteq> []"
  by (subst dec_text.simps) simp

lemma dec_text_digits: "list_all (is_digit 10) (dec_text n)"
proof (induction n rule: dec_text.induct)
  case (1 n)
  then show ?case by (subst dec_text.simps) simp
qed

lemma dec_text_val: "digits_val 10 (dec_text n) = n"
proof (induction n rule: dec_text.induct)
  case (1 n)
  show ?case
  proof (cases "n < 10")
    case True
    then show ?thesis using digits_val_snoc [of 10 "[]"] by (subst dec_text.simps) (simp add: digit_char_val)
  next
    case False
    then show ?thesis using 1 by (subst dec_text.simps) (simp add: digits_val_snoc digit_char_val)
  qed
qed

text \<open>A number made of digits is read up to the first character that is not a digit.\<close>

lemma scan_digits:
  assumes "list_all (is_digit base) ds" and "ds \<noteq> []" and "base \<le> 16" and "rest = [] \<or> \<not> is_digit base (hd rest)"
    and "base \<noteq> 16 \<or> 2 \<le> length ds" and "list_all isspace sp"
  shows "scan_num base (sp @ ds @ rest) = Some (int (digits_val base ds), rest)"
proof -
  obtain c cs where ds: "ds = c # cs" using assms(2) by (cases ds) auto
  have c: "is_digit base c" "\<not> isspace c" "c \<noteq> CHR ''-''" "c \<noteq> CHR ''+''" using assms(1,3) ds not_digit [of base c] by auto
  have "dropWhile isspace (sp @ c # cs @ rest) = c # cs @ rest"
    using assms(6) c(2) by (induction sp) auto
  then have sk: "skip_space (sp @ ds @ rest) = ds @ rest" by (simp add: skip_space_def ds)
  have px: "\<not> (base = 16 \<and> (take 2 (ds @ rest) = ''0x'' \<or> take 2 (ds @ rest) = ''0X''))"
  proof
    assume px: "base = 16 \<and> (take 2 (ds @ rest) = ''0x'' \<or> take 2 (ds @ rest) = ''0X'')"
    then obtain d es where "cs = d # es" using assms(5) ds by (cases cs) auto
    then show False using px assms(1,3) ds not_digit(4,5) [of base d] by auto
  qed
  have tw: "takeWhile (is_digit base) (ds @ rest) = ds" "dropWhile (is_digit base) (ds @ rest) = rest"
    using assms(1,4) by (auto simp: takeWhile_append dropWhile_append list_all_iff takeWhile_eq_Nil_iff intro: dropWhile_eq_self_iff [THEN iffD2])
  show ?thesis
    unfolding scan_num_def sk Let_def using c ds px tw by auto
qed

lemma scan_dec:
  assumes "list_all isspace sp" and "rest = [] \<or> \<not> is_digit 10 (hd rest)"
  shows "scan_num 10 (sp @ dec_text n @ rest) = Some (int n, rest)"
  using scan_digits [OF dec_text_digits dec_text_ne _ assms(2) _ assms(1)] by (simp add: dec_text_val)

lemma scan_byte:
  assumes "rest = [] \<or> \<not> is_digit 16 (hd rest)"
  shows "scan_num 16 (byte_text b @ rest) = Some (int (unat b), rest)"
proof -
  have lt: "unat b div 16 < 16" "unat b mod 16 < 16" using unsigned_less [of b, where 'a = nat] by auto
  have "digits_val 16 (byte_text b) = unat b div 16 * 16 + unat b mod 16"
    using lt by (simp add: byte_text_def digits_val_def digit_char_val)
  moreover have "list_all (is_digit 16) (byte_text b)" using lt by (simp add: byte_text_def)
  ultimately show ?thesis
    using scan_digits [of 16 "byte_text b" rest "[]"] assms by (simp add: byte_text_def)
qed

section \<open>What is printed is read back\<close>

lemma store_byte [simp]: "store_uint 8 (uint (b :: byte)) = Some (uint b)"
proof -
  have "uint b < 256" "0 \<le> uint b" using unsigned_less [of b, where 'a = int] by auto
  then show ?thesis by (simp add: store_uint_def Let_def)
qed

lemma scan_mac_text:
  assumes "rest = [] \<or> \<not> is_digit 16 (hd rest)"
  shows "scan_mac (length bs) (mac_text bs @ rest) = Some bs"
  using assms
proof (induction bs rule: mac_text.induct)
  case (2 b)
  then show ?case by (simp add: scan_byte)
next
  case (3 b c bs)
  have "\<not> is_digit 16 (CHR '':'')" by (simp add: is_digit_def digit_val_def)
  then have "scan_num 16 (byte_text b @ CHR '':'' # mac_text (c # bs) @ rest) = Some (int (unat b), CHR '':'' # mac_text (c # bs) @ rest)"
    by (intro scan_byte) simp
  then show ?case using 3 by simp
qed simp

lemma getMAC_reads:
  assumes "length mac = 6" and "length old = 6" and "length dev \<le> 40" and "files (mac_path dev) = Some (mac_text mac @ [newline])"
  shows "getMAC files dev old = Some mac"
proof -
  have len: "length (mac_text bs) = 3 * length bs - 1" for bs
    by (induction bs rule: mac_text.induct) (auto simp: byte_text_def)
  have ch: "list_all (\<lambda>c. is_digit 16 c \<or> c = CHR '':'') (mac_text bs)" for bs
  proof (induction bs rule: mac_text.induct)
    case (2 b)
    have "unat b div 16 < 16" "unat b mod 16 < 16" using unsigned_less [of b, where 'a = nat] by auto
    then show ?case by (simp add: byte_text_def)
  next
    case (3 b c bs)
    have "unat b div 16 < 16" "unat b mod 16 < 16" using unsigned_less [of b, where 'a = nat] by auto
    then show ?case using 3 by (simp add: byte_text_def)
  qed simp
  have tn: "to_newline (cs @ [newline]) = cs @ [newline]" if "list_all (\<lambda>c. c \<noteq> newline) cs" for cs
    using that by (induction cs) (auto simp: newline_def)
  have nz: "list_all (\<lambda>c. c \<noteq> newline \<and> c \<noteq> CHR 0x00) (mac_text mac)"
    using ch [of mac] not_digit(6,7) [of 16] by (auto simp: list_all_iff newline_def)
  have "fgets 64 (mac_text mac @ [newline]) = Some (mac_text mac @ [newline], [])"
    using len [of mac] assms(1) nz tn [of "mac_text mac"] by (simp add: fgets_def Let_def list_all_iff)
  moreover have "c_str (mac_text mac @ [newline]) = mac_text mac @ [newline]"
    using nz by (auto simp: c_str_def list_all_iff newline_def takeWhile_eq_all_conv)
  moreover have "scan_mac 6 (mac_text mac @ [newline]) = Some mac"
    using scan_mac_text [of "[newline]" mac] assms(1) by (simp add: newline_def is_digit_def digit_val_def)
  ultimately show ?thesis using assms by (simp add: getMAC_def mac_path_def)
qed

text \<open>
  The address that the kernel prints for a device is the address that \<^verbatim>\<open>getMAC\<close> stores,
  for every device name that fits its buffer and every address.
\<close>

theorem getMAC_reads_address:
  assumes "length mac = 6" and "length old = 6" and "length dev \<le> 40" and "files (mac_path dev) = Some (mac_text mac @ [newline])"
  shows "getMAC files dev old = Some mac"
  using assms by (rule getMAC_reads)

text \<open>
  \<^verbatim>\<open>get_port\<close> returns only registered ports, from 1024 to 65535, whatever the argument and
  \<^verbatim>\<open>errno\<close> are, and otherwise ends the process; on the decimal text of such a port it returns
  that port.
\<close>

theorem get_port_valid:
  shows "(case get_port s e of Ret p e' \<Rightarrow> 1024 \<le> unat p | Stop h e' \<Rightarrow> h = Exit 1) \<and>
    (1024 \<le> n \<and> n \<le> 65535 \<longrightarrow> get_port (dec_text n) e = Ret (of_nat n) e)"
proof
  let ?x = "fst (strtoul (c_str s))"
  show "case get_port s e of Ret p e' \<Rightarrow> 1024 \<le> unat p | Stop h e' \<Rightarrow> h = Exit 1"
  proof (cases "get_port s e")
    case (Ret p e')
    then have x: "1024 \<le> ?x" "?x \<le> 65535" "p = ucast ?x"
      by (auto simp: get_port_def Let_def split: prod.splits if_splits)
    then have "unat (ucast ?x :: u16) = unat ?x" by (simp add: unsigned_ucast_eq take_bit_nat_eq_self word_le_nat_alt)
    then show ?thesis using Ret x by (simp add: word_le_nat_alt)
  next
    case (Stop h e')
    then show ?thesis by (auto simp: get_port_def Let_def split: prod.splits if_splits)
  qed
  show "1024 \<le> n \<and> n \<le> 65535 \<longrightarrow> get_port (dec_text n) e = Ret (of_nat n) e"
  proof
    assume n: "1024 \<le> n \<and> n \<le> 65535"
    have "c_str (dec_text n) = dec_text n"
      using dec_text_digits [of n] not_digit(6) [of 10] by (auto simp: c_str_def list_all_iff takeWhile_eq_all_conv)
    then have st: "strtoul (c_str (dec_text n)) = (of_nat n, False)"
      using scan_dec [of "[]" "[]" n] n by (simp add: strtoul_def)
    have "unat (of_nat n :: u32) = n" using n by (simp add: unat_of_nat)
    moreover have "ucast (of_nat n :: u32) = (of_nat n :: u16)" using n by (simp add: word_unat_eq_iff unsigned_ucast_eq unsigned_of_nat take_bit_nat_eq_self)
    moreover have "(of_nat n :: u32) \<noteq> -1" using n \<open>unat (of_nat n :: u32) = n\<close> by (auto simp: unsigned_minus_1_eq_mask mask_eq_exp_minus_1)
    ultimately show "get_port (dec_text n) e = Ret (of_nat n) e"
      using n st by (simp add: get_port_def word_less_nat_alt)
  qed
qed

theorem getMAC_reads_address_witness:
  "getMAC [mac_path ''tap2'' \<mapsto> mac_text [2, 0x1F, 0xAB, 0, 255, 7] @ [newline]] ''tap2'' (replicate 6 0) = Some [2, 0x1F, 0xAB, 0, 255, 7]"
  using getMAC_reads_address [of "[2, 0x1F, 0xAB, 0, 255, 7]" "replicate 6 0" "''tap2''" "[mac_path ''tap2'' \<mapsto> mac_text [2, 0x1F, 0xAB, 0, 255, 7] @ [newline]]"]
  by simp

theorem get_port_valid_witness: "get_port (dec_text 2000) True = Ret 2000 True"
  using get_port_valid [of "[]" True 2000] by simp

end
