(* ===== verification/Startup.thy ===== *)
theory Startup
  imports Join Scan Utlist
begin

text \<open>
  \<^verbatim>\<open>main\<close> and the functions it uses to set the proxy up (\<^verbatim>\<open>main.c\<close>, \<^verbatim>\<open>proxy.c\<close>, \<^verbatim>\<open>handlers.c\<close>):
  the configuration file is read line by line, the peers named in it are connected, and
  connections are accepted. \<open>boot\<close> is the state of the proxy together with what only the
  start-up uses; the answers of the kernel come from lists, as in the other theories. Files
  and the names the kernel gives to tunnel devices are parameters. Signals are numbered as
  on Linux.
\<close>

section \<open>State\<close>

text \<open>A field that was not written since \<^verbatim>\<open>malloc\<close> is \<open>None\<close>.\<close>

record llnode =
  hostname :: "string option"
  port :: "string option"

datatype sighandler = SIG_DFL | SIG_IGN | Leave_handler | Broadcast_handler

record listen_answers =
  l_socket :: fd
  l_setsockopt :: bool
  l_bind :: bool
  l_listen :: bool

record tun_answers =
  t_open :: fd
  t_ioctl :: int
  t_name :: "string \<Rightarrow> string"  \<comment> \<open>the name of the device for the requested name\<close>

record accept_answers =
  a_accept :: fd
  a_getsockname :: "u32 option"

record boot =
  net :: world
  tapfd :: fd
  listenfd :: "fd option"
  llhead :: "ptr option"
  lls :: "llnode cells"
  sigs :: "nat \<Rightarrow> sighandler"
  sigactions :: "bool list"
  listens :: "listen_answers list"
  tuns :: "tun_answers list"
  accepts :: "accept_answers list"
  bound :: "(fd \<times> u16) list"          \<comment> \<open>listening sockets and their ports\<close>
  dialled :: "(string \<times> string) list"  \<comment> \<open>the names given to \<^verbatim>\<open>connectbyname\<close>\<close>

definition in_net :: "(world \<Rightarrow> (world, 'a) run) \<Rightarrow> boot \<Rightarrow> (boot, 'a) run" where
  "in_net f b = lift_run (\<lambda>w. b\<lparr>net := w\<rparr>) (f (net b))"

definition in_lls :: "(llnode cells \<Rightarrow> (llnode cells, 'a) run) \<Rightarrow> boot \<Rightarrow> (boot, 'a) run" where
  "in_lls f b = lift_run (\<lambda>m. b\<lparr>lls := m\<rparr>) (f (lls b))"

section \<open>Signals and devices\<close>

definition SIGINT :: nat where "SIGINT = 2"
definition SIGPIPE :: nat where "SIGPIPE = 13"
definition SIGALRM :: nat where "SIGALRM = 14"
definition SIGTERM :: nat where "SIGTERM = 15"

text \<open>\<open>None\<close> is \<^verbatim>\<open>SIG_ERR\<close>.\<close>

definition Signal :: "nat \<Rightarrow> sighandler \<Rightarrow> boot \<Rightarrow> (boot, sighandler option) run" where
  "Signal signo h b = (case sigactions b of
       [] \<Rightarrow> Stop Waiting b
     | ok # as \<Rightarrow>
         let b' = b\<lparr>sigactions := as\<rparr> in
         if \<not> ok then Ret None b'
         else Ret (Some (sigs b signo)) (b'\<lparr>sigs := (sigs b)(signo := h)\<rparr>))"

definition open_listenfd :: "u16 \<Rightarrow> boot \<Rightarrow> (boot, int) run" where
  "open_listenfd p b = (case listens b of
       [] \<Rightarrow> Stop Waiting b
     | a # as \<Rightarrow>
         let b = b\<lparr>listens := as\<rparr> in
         if l_socket a < 0 then Ret (-1) b
         else if \<not> l_setsockopt a
         then bind_run (in_net (close_fd (l_socket a)) b) (\<lambda>_ b. Stop (Exit (-1)) b)
         else if \<not> l_bind a then bind_run (in_net (close_fd (l_socket a)) b) (\<lambda>_ b. Ret (-1) b)
         else if \<not> l_listen a then bind_run (in_net (close_fd (l_socket a)) b) (\<lambda>_ b. Ret (-1) b)
         else Ret (l_socket a) (b\<lparr>bound := bound b @ [(l_socket a, p)]\<rparr>))"

text \<open>
  The device name is copied to and from a field of 16 characters; the result holds the new
  content of the name buffer of 64 characters, which is only written on success.
\<close>

definition allocate_tunnel :: "string \<Rightarrow> boot \<Rightarrow> (boot, int \<times> string) run" where
  "allocate_tunnel dev b = (case tuns b of
       [] \<Rightarrow> Stop Waiting b
     | a # as \<Rightarrow>
         let b = b\<lparr>tuns := as\<rparr> in
         if t_open a < 0 then Ret (t_open a, dev) b
         else if t_ioctl a < 0
         then bind_run (in_net (close_fd (t_open a)) b) (\<lambda>_ b. Ret (t_ioctl a, dev) b)
         else let name = t_name a (take 16 dev) in
           if length name \<ge> 64 then Stop UB b else Ret (t_open a, name) b)"

section \<open>The configuration file\<close>

text \<open>\<^verbatim>\<open>strncmp(buf, "...", n)\<close> with the length of the keyword.\<close>

definition starts_with :: "string \<Rightarrow> string \<Rightarrow> bool" where
  "starts_with key line \<longleftrightarrow> take (length key) (c_str line) = key"

text \<open>The input behind \<^verbatim>\<open>%*s\<close>, when there is a word.\<close>

definition after_word :: "string \<Rightarrow> string option" where
  "after_word s = (let s = skip_space s in if s = [] then None else Some (dropWhile (\<lambda>c. \<not> isspace c) s))"

definition scan_word :: "string \<Rightarrow> (string \<times> string) option" where
  "scan_word s = (let s = skip_space s in
     if s = [] then None else Some (takeWhile (\<lambda>c. \<not> isspace c) s, dropWhile (\<lambda>c. \<not> isspace c) s))"

text \<open>
  \<^verbatim>\<open>sscanf(buf, "%*s %u\n", &x)\<close> for a variable of \<open>n\<close> bits: \<open>None\<close> when the number does not
  fit, \<open>Some None\<close> when there is none and the variable keeps its value.
\<close>

definition conf_num :: "nat \<Rightarrow> string \<Rightarrow> int option option" where
  "conf_num n line = (case after_word (c_str line) of
       None \<Rightarrow> Some None
     | Some r \<Rightarrow> (case scan_num 10 r of
           None \<Rightarrow> Some None
         | Some (v, _) \<Rightarrow> map_option Some (store_uint n v)))"

definition set_config :: "(Config \<Rightarrow> Config) \<Rightarrow> boot \<Rightarrow> boot" where
  "set_config f b = b\<lparr>net := (net b)\<lparr>config := f (config (net b))\<rparr>\<rparr>"

definition set_linkState :: "(link_state \<Rightarrow> link_state) \<Rightarrow> boot \<Rightarrow> boot" where
  "set_linkState f b = b\<lparr>net := (net b)\<lparr>linkState := f (linkState (net b))\<rparr>\<rparr>"

definition conf_uint :: "nat \<Rightarrow> string \<Rightarrow> (int \<Rightarrow> Config \<Rightarrow> Config) \<Rightarrow> boot \<Rightarrow> (boot, unit) run" where
  "conf_uint n line f b = (case conf_num n line of
       None \<Rightarrow> Stop UB b
     | Some None \<Rightarrow> Ret () b
     | Some (Some x) \<Rightarrow> Ret () (set_config (f x) b))"

definition conf_listenPort :: "string \<Rightarrow> boot \<Rightarrow> (boot, unit) run" where
  "conf_listenPort line b =
     bind_run (conf_uint 16 line (\<lambda>x c. c\<lparr>listen_port := word_of_int x\<rparr>) b) (\<lambda>_ b.
     bind_run (open_listenfd (listen_port (config (net b))) b) (\<lambda>r b.
     let b = b\<lparr>listenfd := Some r\<rparr> in
     if r < 0 then Stop (Exit (-1)) b
     else Ret () (set_linkState (\<lambda>ls. ls\<lparr>listenPort := htons (listen_port (config (net b)))\<rparr>) b)))"

text \<open>The host name has room for 64 characters, the port for 8.\<close>

definition conf_peer :: "string \<Rightarrow> boot \<Rightarrow> (boot, unit) run" where
  "conf_peer line b =
     (let host = Option.bind (after_word (c_str line)) scan_word;
          serv = Option.bind host (\<lambda>(_, r). scan_word r) in
      if (\<exists>h\<in>set_option host. length (fst h) \<ge> 64) \<or> (\<exists>s\<in>set_option serv. length (fst s) \<ge> 8) then Stop UB b
      else
      bind_run (in_lls (new_cell \<lparr>hostname = map_option fst host, port = map_option fst serv\<rparr>) b) (\<lambda>add b.
      bind_run (in_lls (LL_PREPEND (llhead b) add) b) (\<lambda>h b.
      Ret () (b\<lparr>llhead := h\<rparr>))))"

definition conf_tapDevice :: "(string \<Rightarrow> string option) \<Rightarrow> string \<Rightarrow> boot \<Rightarrow> (boot, unit) run" where
  "conf_tapDevice files line b = (case Option.bind (after_word (c_str line)) scan_word of
       None \<Rightarrow> Stop UB b
     | Some (buf1, _) \<Rightarrow>
         if length buf1 \<ge> 64 then Stop UB b
         else bind_run (allocate_tunnel buf1 b) (\<lambda>(r, buf1) b.
         let b = b\<lparr>tapfd := r\<rparr> in
         if r < 0 then Stop (Exit (-1)) b
         else bind_run (in_net (in_kern (rio_readinit r)) b) (\<lambda>rp b.
         let b = b\<lparr>net := (net b)\<lparr>rio_tap := rp\<rparr>\<rparr> in
         case getMAC files buf1 (tapMAC (linkState (net b))) of
           None \<Rightarrow> Stop UB b
         | Some mac \<Rightarrow>
             let b = set_linkState (\<lambda>ls. ls\<lparr>tapMAC := mac\<rparr>) b in
             case getMAC files ''eth0'' (ethMAC (linkState (net b))) of
               None \<Rightarrow> Stop UB b
             | Some mac \<Rightarrow> Ret () (set_linkState (\<lambda>ls. ls\<lparr>ethMAC := mac\<rparr>) b))))"

definition conf_line :: "(string \<Rightarrow> string option) \<Rightarrow> string \<Rightarrow> boot \<Rightarrow> (boot, unit) run" where
  "conf_line files line b =
     (if starts_with ''listenPort'' line then conf_listenPort line b
      else if starts_with ''linkPeriod'' line then conf_uint 32 line (\<lambda>x c. c\<lparr>link_period := word_of_int x\<rparr>) b
      else if starts_with ''linkTimeout'' line then conf_uint 32 line (\<lambda>x c. c\<lparr>link_timeout := word_of_int x\<rparr>) b
      else if starts_with ''peer'' line then conf_peer line b
      else if starts_with ''quitAfter'' line then conf_uint 32 line (\<lambda>x c. c\<lparr>quit_timer := word_of_int x\<rparr>) b
      else if starts_with ''tapDevice'' line then conf_tapDevice files line b
      else Ret () b)"

lemma fgets_shorter: "fgets n s = Some (l, r) \<Longrightarrow> 2 \<le> n \<Longrightarrow> length r < length s"
  by (cases s) (auto simp: fgets_def Let_def split: if_splits)

function conf_loop :: "(string \<Rightarrow> string option) \<Rightarrow> string \<Rightarrow> boot \<Rightarrow> (boot, unit) run" where
  "conf_loop files text b = (case fgets 256 text of
       None \<Rightarrow> Ret () b
     | Some (line, rest) \<Rightarrow> bind_run (conf_line files line b) (\<lambda>_ b. conf_loop files rest b))"
  by pat_completeness auto
termination
  by (relation "measure (\<lambda>(files, text, b). length text)") (auto dest: fgets_shorter)

declare conf_loop.simps [simp del]

section \<open>Connecting and accepting\<close>

text \<open>One turn of the loop over the peers of the configuration file.\<close>

definition dial :: "tid \<Rightarrow> ptr \<Rightarrow> boot \<Rightarrow> (boot, unit) run" where
  "dial me add b =
     bind_run (in_lls (get_cell add) b) (\<lambda>c b. case (hostname (content c), port (content c)) of
       (Some h, Some s) \<Rightarrow>
         bind_run (in_net (connectbyname me) (b\<lparr>dialled := dialled b @ [(h, s)]\<rparr>)) (\<lambda>r b. case r of
           None \<Rightarrow> Stop (Exit (-1)) b
         | Some _ \<Rightarrow>
             bind_run (in_lls (LL_DELETE (llhead b) add) b) (\<lambda>h b.
             in_lls (free_cell add) (b\<lparr>llhead := h\<rparr>)))
     | _ \<Rightarrow> Stop UB b)"

text \<open>\<open>junk\<close> is what the packet variable of \<^verbatim>\<open>initial_join_server\<close> holds.\<close>

definition accept_step :: "bytes \<Rightarrow> tid \<Rightarrow> boot \<Rightarrow> (boot, unit) run" where
  "accept_step junk me b = (case listenfd b of
       None \<Rightarrow> Stop UB b
     | Some lfd \<Rightarrow> (case accepts b of
           [] \<Rightarrow> Stop Waiting b
         | a # as \<Rightarrow>
             let b = b\<lparr>accepts := as\<rparr> in
             if a_accept a < 0
             then bind_run (in_net (close_fd lfd) b) (\<lambda>_ b. Stop (Exit (-1)) b)
             else
             bind_run (if IPaddr (linkState (net b)) = -1
                 then (case a_getsockname a of
                     None \<Rightarrow> Stop (Exit (-1)) b
                   | Some ip \<Rightarrow> Ret () (set_linkState (\<lambda>ls. ls\<lparr>IPaddr := ip\<rparr>) b))
                 else Ret () b) (\<lambda>_ b.
             bind_run (in_net new_peer b) (\<lambda>pp b.
             bind_run (in_net (in_kern (rio_readinit (a_accept a))) b) (\<lambda>rp b.
             bind_run (in_net (set_peer pp (\<lambda>q. q\<lparr>p_rio := rp\<rparr>)) b) (\<lambda>_ b.
             bind_run (in_net (initial_join_server junk me pp) b) (\<lambda>_ b.
             in_net (add_member me pp) b)))))))"

text \<open>The first \<open>n\<close> rounds of the accept loop.\<close>

fun accept_loop :: "nat \<Rightarrow> bytes \<Rightarrow> tid \<Rightarrow> boot \<Rightarrow> (boot, unit) run" where
  "accept_loop 0 junk me b = Ret () b"
| "accept_loop (Suc n) junk me b = bind_run (accept_step junk me b) (\<lambda>_ b. accept_loop n junk me b)"

section \<open>main\<close>

definition main_signals :: "boot \<Rightarrow> (boot, unit) run" where
  "main_signals b =
     bind_run (Signal SIGINT Leave_handler b) (\<lambda>_ b.
     bind_run (Signal SIGPIPE SIG_IGN b) (\<lambda>_ b.
     bind_run (Signal SIGALRM Broadcast_handler b) (\<lambda>_ b.
     bind_run (Signal SIGTERM Leave_handler b) (\<lambda>_ b. Ret () b))))"

text \<open>\<^verbatim>\<open>memset(&linkState, -1, sizeof(linkState))\<close> and the same for \<^verbatim>\<open>config\<close>.\<close>

definition main_clear :: "boot \<Rightarrow> boot" where
  "main_clear b = b\<lparr>net := (net b)\<lparr>linkState := dec_link_state (replicate 18 (-1)),
     config := \<lparr>listen_port = -1, link_period = -1, link_timeout = -1, quit_timer = -1\<rparr>\<rparr>\<rparr>"

lemma clear_link_state:
  "dec_link_state (replicate 18 (-1)) = \<lparr>IPaddr = -1, listenPort = -1, tapMAC = replicate 6 (-1), ethMAC = replicate 6 (-1)\<rparr>"
  by code_simp

definition main_start :: "(string \<Rightarrow> string option) \<Rightarrow> string \<Rightarrow> tid \<Rightarrow> boot \<Rightarrow> (boot, unit) run" where
  "main_start files text me b =
     bind_run (main_signals b) (\<lambda>_ b.
     bind_run (conf_loop files text (main_clear b)) (\<lambda>_ b.
     bind_run (LL_FOREACH_SAFE lls (dial me) (llhead b) b) (\<lambda>_ b.
     bind_run (in_net (pthread_create Tap_handler 0) b) (\<lambda>t b.
     let b = b\<lparr>net := (net b)\<lparr>tap_tid := t\<rparr>\<rparr> in
     bind_run (in_net clock_gettime b) (\<lambda>t b.
     let w = net b in
     Ret () (b\<lparr>net := w\<lparr>now := t, alarm := link_period (config w)\<rparr>\<rparr>))))))"

text \<open>\<open>argv\<close> are the arguments with the name of the program, \<open>n\<close> the number of connections accepted.\<close>

definition main :: "(string \<Rightarrow> string option) \<Rightarrow> bytes \<Rightarrow> nat \<Rightarrow> string list \<Rightarrow> tid \<Rightarrow> boot \<Rightarrow> (boot, unit) run" where
  "main files junk n argv me b =
     (if length argv \<noteq> 2 then Stop (Exit (-1)) b
      else case files (argv ! 1) of
        None \<Rightarrow> Stop (Exit (-1)) b
      | Some text \<Rightarrow>
          bind_run (main_start files text me b) (\<lambda>_ b. accept_loop n junk me b))"

section \<open>Reading a configuration file\<close>

text \<open>The text of a configuration, one line per setting.\<close>

definition num_line :: "string \<Rightarrow> nat \<Rightarrow> string" where
  "num_line key n = key @ CHR '' '' # dec_text n"

definition peer_line :: "string \<times> string \<Rightarrow> string" where
  "peer_line p = ''peer '' @ fst p @ CHR '' '' # snd p"

definition conf_lines :: "Config \<Rightarrow> string \<Rightarrow> (string \<times> string) list \<Rightarrow> string list" where
  "conf_lines c dev ps = [num_line ''listenPort'' (unat (listen_port c)), num_line ''linkPeriod'' (unat (link_period c)),
     num_line ''linkTimeout'' (unat (link_timeout c)), num_line ''quitAfter'' (unat (quit_timer c)), ''tapDevice '' @ dev] @ map peer_line ps"

definition conf_text :: "Config \<Rightarrow> string \<Rightarrow> (string \<times> string) list \<Rightarrow> string" where
  "conf_text c dev ps = concat (map (\<lambda>l. l @ [newline]) (conf_lines c dev ps))"

text \<open>A word of at most \<open>n\<close> characters.\<close>

definition word_ok :: "nat \<Rightarrow> string \<Rightarrow> bool" where
  "word_ok n s \<longleftrightarrow> s \<noteq> [] \<and> length s \<le> n \<and> list_all (\<lambda>c. \<not> isspace c \<and> c \<noteq> CHR 0x00) s"

definition line_ok :: "string \<Rightarrow> bool" where
  "line_ok l \<longleftrightarrow> length l < 255 \<and> list_all (\<lambda>c. c \<noteq> newline \<and> c \<noteq> CHR 0x00) l"

lemma to_newline_line: "list_all (\<lambda>c. c \<noteq> newline) l \<Longrightarrow> to_newline (l @ newline # rest) = l @ [newline]"
  by (induction l) auto

lemma c_str_line: "line_ok l \<Longrightarrow> c_str (l @ [newline]) = l @ [newline]"
  by (auto simp: c_str_def line_ok_def list_all_iff newline_def takeWhile_eq_all_conv)

lemma conf_loop_line:
  assumes "line_ok l"
  shows "conf_loop files (l @ newline # rest) b = bind_run (conf_line files (l @ [newline]) b) (\<lambda>_ b. conf_loop files rest b)"
proof -
  have "to_newline (l @ newline # rest) = l @ [newline]" using assms by (intro to_newline_line) (auto simp: line_ok_def list_all_iff)
  moreover have "take 255 (l @ [newline]) = l @ [newline]" using assms by (intro take_all) (simp add: line_ok_def)
  ultimately have "fgets 256 (l @ newline # rest) = Some (l @ [newline], rest)" by (simp add: fgets_def Let_def)
  then show ?thesis by (subst conf_loop.simps) simp
qed

lemma isspace_simps [simp]: "isspace (CHR '' '')" "isspace newline" "\<not> is_digit 10 newline" "CHR '' '' \<noteq> newline"
  by (simp_all add: isspace_def newline_def is_digit_def digit_val_def)

lemma skip_word:
  assumes "word_ok n s"
  shows "after_word (s @ CHR '' '' # r) = Some (CHR '' '' # r)" and "scan_word (CHR '' '' # s @ CHR '' '' # r) = Some (s, CHR '' '' # r)"
    and "scan_word (CHR '' '' # s @ [newline]) = Some (s, [newline])"
proof -
  obtain c cs where s: "s = c # cs" "\<not> isspace c" "list_all (\<lambda>c. \<not> isspace c) cs"
    using assms by (cases s) (auto simp: word_ok_def list_all_iff)
  have tw: "takeWhile (\<lambda>c. \<not> isspace c) (cs @ d # r) = cs" "dropWhile (\<lambda>c. \<not> isspace c) (cs @ d # r) = d # r" if "isspace d" for d r
    using s(3) that by (induction cs) auto
  show "after_word (s @ CHR '' '' # r) = Some (CHR '' '' # r)" "scan_word (CHR '' '' # s @ CHR '' '' # r) = Some (s, CHR '' '' # r)"
      "scan_word (CHR '' '' # s @ [newline]) = Some (s, [newline])"
    using s(2) tw by (simp_all add: s(1) after_word_def scan_word_def skip_space_def)
qed

lemma dec_text_length: "n < 10 ^ Suc k \<Longrightarrow> length (dec_text n) \<le> Suc k"
proof (induction k arbitrary: n)
  case 0
  then show ?case by (subst dec_text.simps) simp
next
  case (Suc k)
  then have "n div 10 < 10 ^ Suc k" by (simp add: div_less_iff_less_mult mult.commute)
  then show ?case using Suc.IH [of "n div 10"] by (subst dec_text.simps) simp
qed

lemma num_line_ok:
  assumes "word_ok 20 key" and "n < 2 ^ 32"
  shows "line_ok (num_line key n)"
proof -
  have "length (dec_text n) \<le> Suc 9" by (rule dec_text_length) (use assms(2) in simp)
  moreover have "list_all (\<lambda>c. c \<noteq> newline \<and> c \<noteq> CHR 0x00) (dec_text n)"
    using dec_text_digits [of n] not_digit(6,7) [of 10] by (auto simp: list_all_iff)
  ultimately show ?thesis
    using assms(1) by (auto simp: line_ok_def num_line_def word_ok_def list_all_iff newline_def isspace_def)
qed

lemma conf_num_line:
  assumes "word_ok 20 key" and "n < 2 ^ k" and "k \<le> 32"
  shows "conf_num k (num_line key n @ [newline]) = Some (Some (int n))"
proof -
  have "(2 :: nat) ^ k \<le> 2 ^ 32" using assms(3) by (rule power_increasing) simp
  then have n: "n < 2 ^ 32" using assms(2) by linarith
  have "int n < 2 ^ k" using assms(2) by (metis of_nat_less_iff of_nat_numeral of_nat_power)
  then have st: "store_uint k (int n) = Some (int n)" using n by (simp add: store_uint_def Let_def)
  have "after_word (num_line key n @ [newline]) = Some (CHR '' '' # dec_text n @ [newline])"
    using skip_word(1) [OF assms(1), of "dec_text n @ [newline]"] by (simp add: num_line_def)
  moreover have "scan_num 10 (CHR '' '' # dec_text n @ [newline]) = Some (int n, [newline])"
    using scan_dec [of "[CHR '' '']" "[newline]" n] by simp
  ultimately show ?thesis
    using st by (simp add: conf_num_def c_str_line [OF num_line_ok [OF assms(1) n]])
qed

text \<open>Which branch a line selects.\<close>

lemma starts_with_num:
  assumes "word_ok 20 key" and "n < 2 ^ 32" and "length k' \<le> length key"
  shows "starts_with k' (num_line key n @ [newline]) \<longleftrightarrow> take (length k') key = k'"
  using assms(3) by (simp add: starts_with_def c_str_line [OF num_line_ok [OF assms(1,2)]]) (simp add: num_line_def)

lemma keys_ok: "word_ok 20 ''listenPort''" "word_ok 20 ''linkPeriod''" "word_ok 20 ''linkTimeout''" "word_ok 20 ''quitAfter''"
  by (simp_all add: word_ok_def isspace_def)

lemma conf_line_num:
  assumes "n < 2 ^ 32"
  shows "conf_line files (num_line ''linkPeriod'' n @ [newline]) b = Ret () (set_config (\<lambda>c. c\<lparr>link_period := of_nat n\<rparr>) b)"
    and "conf_line files (num_line ''linkTimeout'' n @ [newline]) b = Ret () (set_config (\<lambda>c. c\<lparr>link_timeout := of_nat n\<rparr>) b)"
    and "conf_line files (num_line ''quitAfter'' n @ [newline]) b = Ret () (set_config (\<lambda>c. c\<lparr>quit_timer := of_nat n\<rparr>) b)"
proof -
  note sw = starts_with_num [OF keys_ok(2) assms] starts_with_num [OF keys_ok(3) assms] starts_with_num [OF keys_ok(4) assms]
  note nm = conf_num_line [OF keys_ok(2) assms] conf_num_line [OF keys_ok(3) assms] conf_num_line [OF keys_ok(4) assms]
  have lt: "\<not> starts_with ''listenPort'' (num_line ''quitAfter'' n @ [newline])" "\<not> starts_with ''linkPeriod'' (num_line ''quitAfter'' n @ [newline])"
      "\<not> starts_with ''linkTimeout'' (num_line ''quitAfter'' n @ [newline])" "\<not> starts_with ''linkTimeout'' (num_line ''linkPeriod'' n @ [newline])"
    by (simp_all add: starts_with_def c_str_line [OF num_line_ok [OF keys_ok(4) assms]] c_str_line [OF num_line_ok [OF keys_ok(2) assms]])
      (simp_all add: num_line_def)
  show "conf_line files (num_line ''linkPeriod'' n @ [newline]) b = Ret () (set_config (\<lambda>c. c\<lparr>link_period := of_nat n\<rparr>) b)"
    "conf_line files (num_line ''linkTimeout'' n @ [newline]) b = Ret () (set_config (\<lambda>c. c\<lparr>link_timeout := of_nat n\<rparr>) b)"
    "conf_line files (num_line ''quitAfter'' n @ [newline]) b = Ret () (set_config (\<lambda>c. c\<lparr>quit_timer := of_nat n\<rparr>) b)"
    by (simp_all add: conf_line_def sw lt conf_uint_def nm)
qed

lemma conf_line_listenPort:
  assumes "listens b = a # as" and "0 \<le> l_socket a" and "l_setsockopt a" and "l_bind a" and "l_listen a"
  shows "conf_line files (num_line ''listenPort'' (unat p) @ [newline]) b = Ret () (set_linkState (\<lambda>ls. ls\<lparr>listenPort := htons p\<rparr>)
    ((set_config (\<lambda>c. c\<lparr>listen_port := p\<rparr>) b)\<lparr>listens := as, bound := bound b @ [(l_socket a, p)], listenfd := Some (l_socket a)\<rparr>))"
proof -
  have p: "unat p < 2 ^ 16" "unat p < 2 ^ 32" using unsigned_less [of p, where 'a = nat] by simp_all
  show ?thesis
    using assms starts_with_num [OF keys_ok(1) p(2), of "''listenPort''"] conf_num_line [OF keys_ok(1) p(1)]
    by (simp add: conf_line_def conf_listenPort_def conf_uint_def open_listenfd_def set_config_def set_linkState_def Let_def)
qed

lemma conf_line_tapDevice:
  assumes "word_ok 15 dev" and "tuns b = a # as" and "0 \<le> t_open a" and "0 \<le> t_ioctl a" and "t_name a dev = dev"
    and "fcntls (kern (net b)) = None # None # fs"
    and "getMAC files dev (tapMAC (linkState (net b))) = Some m" and "getMAC files ''eth0'' (ethMAC (linkState (net b))) = Some m'"
  shows "conf_line files (''tapDevice '' @ dev @ [newline]) b = Ret () (set_linkState (\<lambda>ls. ls\<lparr>tapMAC := m, ethMAC := m'\<rparr>)
    (b\<lparr>tuns := as, tapfd := t_open a,
      net := (net b)\<lparr>kern := (kern (net b))\<lparr>fcntls := fs, fd_flags := (fd_flags (kern (net b)))(t_open a := O_NONBLOCK)\<rparr>,
        rio_tap := \<lparr>rfd = t_open a, cnt = 0, bufp = 0, buf = replicate RIO_BUFSZ 0\<rparr>\<rparr>\<rparr>))"
proof -
  have l: "line_ok (''tapDevice '' @ dev)"
    using assms(1) by (auto simp: line_ok_def word_ok_def list_all_iff newline_def isspace_def)
  define inp where "inp = ''tapDevice '' @ dev @ [newline]"
  have cs: "c_str inp = inp" using c_str_line [OF l] by (simp add: inp_def)
  have w: "word_ok 20 ''tapDevice''" by (simp add: word_ok_def isspace_def)
  have aw: "after_word inp = Some (CHR '' '' # dev @ [newline])"
    using skip_word(1) [OF w, of "dev @ [newline]"] by (simp add: inp_def)
  have tk: "take 16 dev = dev" "length dev < 64" using assms(1) by (simp_all add: word_ok_def)
  have sw: "starts_with ''tapDevice'' inp" "\<not> starts_with ''listenPort'' inp" "\<not> starts_with ''linkPeriod'' inp"
      "\<not> starts_with ''linkTimeout'' inp" "\<not> starts_with ''peer'' inp" "\<not> starts_with ''quitAfter'' inp"
    unfolding starts_with_def cs by (simp_all add: inp_def)
  show ?thesis
    unfolding inp_def [symmetric] conf_line_def
    using assms(2-8) tk
    by (simp add: sw conf_tapDevice_def cs aw skip_word(3) [OF assms(1)] allocate_tunnel_def Let_def in_net_def in_kern_def
        rio_readinit_def do_fcntl_def set_linkState_def)
qed

text \<open>The peers \<open>ps\<close> are listed, in this order.\<close>

definition node_of :: "string \<times> string \<Rightarrow> llnode" where
  "node_of p = \<lparr>hostname = Some (fst p), port = Some (snd p)\<rparr>"

definition listed :: "boot \<Rightarrow> (string \<times> string) list \<Rightarrow> bool" where
  "listed b ps \<longleftrightarrow> (\<exists>qs. chain (mem (lls b)) (llhead b) qs \<and> contents (mem (lls b)) qs = map node_of ps) \<and>
     (\<forall>p\<ge>cbrk (lls b). mem (lls b) p = None)"

lemma conf_line_peer:
  assumes "listed b ps" and "word_ok 63 h" and "word_ok 7 s"
  shows "\<exists>m d. conf_line files (peer_line (h, s) @ [newline]) b = Ret () (b\<lparr>lls := m, llhead := d\<rparr>) \<and> listed (b\<lparr>lls := m, llhead := d\<rparr>) ((h, s) # ps)"
proof -
  obtain qs where qs: "chain (mem (lls b)) (llhead b) qs" "contents (mem (lls b)) qs = map node_of ps" "\<forall>p\<ge>cbrk (lls b). mem (lls b) p = None"
    using assms(1) by (auto simp: listed_def)
  have l: "line_ok (peer_line (h, s))"
    using assms(2,3) by (auto simp: line_ok_def word_ok_def list_all_iff newline_def isspace_def peer_line_def)
  define inp where "inp = peer_line (h, s) @ [newline]"
  have cs: "c_str inp = inp" using c_str_line [OF l] by (simp add: inp_def)
  have w: "word_ok 20 ''peer''" by (simp add: word_ok_def isspace_def)
  have aw: "after_word inp = Some (CHR '' '' # h @ CHR '' '' # s @ [newline])"
    using skip_word(1) [OF w, of "h @ CHR '' '' # s @ [newline]"] by (simp add: inp_def peer_line_def)
  have sw: "starts_with ''peer'' inp" "\<not> starts_with ''listenPort'' inp" "\<not> starts_with ''linkPeriod'' inp" "\<not> starts_with ''linkTimeout'' inp"
    unfolding starts_with_def cs by (simp_all add: inp_def peer_line_def)
  let ?a = "cbrk (lls b)" and ?n = "node_of (h, s)"
  let ?m = "(lls b)\<lparr>mem := (mem (lls b))(?a \<mapsto> \<lparr>content = ?n, ll_next = llhead b\<rparr>), cbrk := ?a + 1\<rparr>"
  have new: "?a \<notin> set qs" using chain_alloc [OF qs(1)] qs(3) by blast
  have "length h < 64" "length s < 8" using assms(2,3) by (simp_all add: word_ok_def)
  then have "conf_line files inp b = Ret () (b\<lparr>lls := ?m, llhead := Some ?a\<rparr>)"
    by (simp add: conf_line_def sw conf_peer_def cs aw skip_word(2) [OF assms(2)] skip_word(3) [OF assms(3)] in_lls_def new_cell_def
        LL_PREPEND_def set_next_def node_of_def Let_def)
  moreover have "chain (mem ?m) (Some ?a) (?a # qs)" using qs(1) new by simp
  moreover have "contents (mem ?m) (?a # qs) = ?n # contents (mem ?m) qs" by (simp add: contents_def)
  then have "contents (mem ?m) (?a # qs) = map node_of ((h, s) # ps)" using qs(2) new by simp
  ultimately have "listed (b\<lparr>lls := ?m, llhead := Some ?a\<rparr>) ((h, s) # ps)" "conf_line files inp b = Ret () (b\<lparr>lls := ?m, llhead := Some ?a\<rparr>)"
    unfolding listed_def using qs(3) by (auto intro!: exI [of _ "?a # qs"])
  then show ?thesis unfolding inp_def by blast
qed

lemma conf_peers:
  assumes "list_all (\<lambda>p. word_ok 63 (fst p) \<and> word_ok 7 (snd p)) ps" and "listed b ps0"
  shows "\<exists>m d. conf_loop files (concat (map (\<lambda>p. peer_line p @ [newline]) ps)) b = Ret () (b\<lparr>lls := m, llhead := d\<rparr>) \<and>
    listed (b\<lparr>lls := m, llhead := d\<rparr>) (rev ps @ ps0)"
  using assms
proof (induction ps arbitrary: b ps0)
  case Nil
  have "conf_loop files [] b = Ret () b" by (subst conf_loop.simps) (simp add: fgets_def)
  then show ?case using Nil by (intro exI [of _ "lls b"] exI [of _ "llhead b"]) simp
next
  case (Cons p ps)
  obtain h s where p: "p = (h, s)" by (cases p)
  have ok: "word_ok 63 h" "word_ok 7 s" using Cons.prems(1) p by auto
  have l: "line_ok (peer_line p)"
    using ok by (auto simp: line_ok_def word_ok_def list_all_iff newline_def isspace_def peer_line_def p)
  obtain m d where 1: "conf_line files (peer_line p @ [newline]) b = Ret () (b\<lparr>lls := m, llhead := d\<rparr>)" "listed (b\<lparr>lls := m, llhead := d\<rparr>) (p # ps0)"
    using conf_line_peer [OF Cons.prems(2) ok] p by blast
  obtain m' d' where 2: "conf_loop files (concat (map (\<lambda>p. peer_line p @ [newline]) ps)) (b\<lparr>lls := m, llhead := d\<rparr>) = Ret () (b\<lparr>lls := m', llhead := d'\<rparr>)"
      "listed (b\<lparr>lls := m', llhead := d'\<rparr>) (rev ps @ p # ps0)"
    using Cons.IH [OF _ 1(2)] Cons.prems(1) by auto
  have "conf_loop files (concat (map (\<lambda>p. peer_line p @ [newline]) (p # ps))) b = Ret () (b\<lparr>lls := m', llhead := d'\<rparr>)"
    using conf_loop_line [OF l] 1(1) 2(1) by simp
  then show ?case using 2(2) by auto
qed

text \<open>The state of the proxy after the file: \<open>f\<close> is the tap device with the answers \<open>fs\<close> left, \<open>m\<close> and \<open>m'\<close> the addresses of the devices.\<close>

definition configured :: "Config \<Rightarrow> fd \<Rightarrow> errno_t option list \<Rightarrow> bytes \<Rightarrow> bytes \<Rightarrow> world \<Rightarrow> world" where
  "configured c f fs m m' w = w\<lparr>config := c, linkState := (linkState w)\<lparr>listenPort := htons (listen_port c), tapMAC := m, ethMAC := m'\<rparr>,
     rio_tap := \<lparr>rfd = f, cnt = 0, bufp = 0, buf = replicate RIO_BUFSZ 0\<rparr>,
     kern := (kern w)\<lparr>fcntls := fs, fd_flags := (fd_flags (kern w))(f := O_NONBLOCK)\<rparr>\<rparr>"

lemma conf_file:
  assumes "listens b = l # ls" and "0 \<le> l_socket l" and "l_setsockopt l" and "l_bind l" and "l_listen l"
    and "word_ok 15 dev" and "tuns b = a # as" and "0 \<le> t_open a" and "0 \<le> t_ioctl a" and "t_name a dev = dev"
    and "fcntls (kern (net b)) = None # None # fs" and "length (tapMAC (linkState (net b))) = 6" and "length (ethMAC (linkState (net b))) = 6"
    and "files (mac_path dev) = Some (mac_text mac @ [newline])" and "length mac = 6"
    and "files (mac_path ''eth0'') = Some (mac_text mac' @ [newline])" and "length mac' = 6"
    and "list_all (\<lambda>p. word_ok 63 (fst p) \<and> word_ok 7 (snd p)) ps" and "listed b []"
  shows "\<exists>b'. conf_loop files (conf_text c dev ps) b = Ret () b' \<and> config (net b') = c \<and> bound b' = bound b @ [(l_socket l, listen_port c)] \<and>
    listenfd b' = Some (l_socket l) \<and> tapfd b' = t_open a \<and> rfd (rio_tap (net b')) = t_open a \<and>
    linkState (net b') = (linkState (net b))\<lparr>listenPort := htons (listen_port c), tapMAC := mac, ethMAC := mac'\<rparr> \<and> listed b' (rev ps) \<and>
    sigs b' = sigs b \<and> dialled b' = dialled b \<and> net b' = configured c (t_open a) fs mac mac' (net b)"
proof -
  let ?b1 = "set_linkState (\<lambda>ls. ls\<lparr>listenPort := htons (listen_port c)\<rparr>)
    ((set_config (\<lambda>k. k\<lparr>listen_port := listen_port c\<rparr>) b)\<lparr>listens := ls, bound := bound b @ [(l_socket l, listen_port c)], listenfd := Some (l_socket l)\<rparr>)"
  let ?b2 = "set_config (\<lambda>k. k\<lparr>link_period := link_period c\<rparr>) ?b1"
  let ?b3 = "set_config (\<lambda>k. k\<lparr>link_timeout := link_timeout c\<rparr>) ?b2"
  let ?b4 = "set_config (\<lambda>k. k\<lparr>quit_timer := quit_timer c\<rparr>) ?b3"
  let ?b5 = "set_linkState (\<lambda>ls. ls\<lparr>tapMAC := mac, ethMAC := mac'\<rparr>) (?b4\<lparr>tuns := as, tapfd := t_open a,
      net := (net ?b4)\<lparr>kern := (kern (net ?b4))\<lparr>fcntls := fs, fd_flags := (fd_flags (kern (net ?b4)))(t_open a := O_NONBLOCK)\<rparr>,
        rio_tap := \<lparr>rfd = t_open a, cnt = 0, bufp = 0, buf = replicate RIO_BUFSZ 0\<rparr>\<rparr>\<rparr>)"
  have lt: "unat x < 2 ^ 32" for x :: u32 using unsigned_less [of x, where 'a = nat] by simp
  have pt: "unat (listen_port c) < 2 ^ 32" using unsigned_less [of "listen_port c", where 'a = nat] by simp
  have dv: "line_ok (''tapDevice '' @ dev)"
    using assms(6) by (auto simp: line_ok_def word_ok_def list_all_iff newline_def isspace_def)
  have len: "length dev \<le> 40" using assms(6) by (simp add: word_ok_def)
  have macs: "getMAC files dev (tapMAC (linkState (net ?b4))) = Some mac" "getMAC files ''eth0'' (ethMAC (linkState (net ?b4))) = Some mac'"
    using assms(12-17) len by (simp_all add: getMAC_reads set_config_def set_linkState_def)
  have tap: "conf_line files (''tapDevice '' @ dev @ [newline]) ?b4 = Ret () ?b5"
    by (rule conf_line_tapDevice [OF assms(6) _ assms(8-10) _ macs]) (use assms(7,11) in \<open>simp_all add: set_config_def set_linkState_def\<close>)
  have "listed ?b5 []" using assms(19) by (simp add: listed_def set_config_def set_linkState_def)
  then obtain m d where ps: "conf_loop files (concat (map (\<lambda>p. peer_line p @ [newline]) ps)) ?b5 = Ret () (?b5\<lparr>lls := m, llhead := d\<rparr>)"
      "listed (?b5\<lparr>lls := m, llhead := d\<rparr>) (rev ps)"
    using conf_peers [OF assms(18), of ?b5 "[]" files] unfolding append_Nil2 by blast
  have run: "conf_loop files (conf_text c dev ps) b = Ret () (?b5\<lparr>lls := m, llhead := d\<rparr>)"
    unfolding conf_text_def conf_lines_def
    using ps(1) tap
    by (simp add: conf_loop_line [OF num_line_ok [OF keys_ok(1) pt]] conf_loop_line [OF num_line_ok [OF keys_ok(2) lt]]
        conf_loop_line [OF num_line_ok [OF keys_ok(3) lt]] conf_loop_line [OF num_line_ok [OF keys_ok(4) lt]]
        conf_loop_line [OF dv, simplified] conf_line_listenPort [OF assms(1-5)] conf_line_num [OF lt] comp_def)
  show ?thesis
    by (rule exI [of _ "?b5\<lparr>lls := m, llhead := d\<rparr>"], intro conjI, rule run)
      (use ps(2) in \<open>simp_all add: set_config_def set_linkState_def configured_def\<close>)
qed

text \<open>
  C20. A configuration file is read back: for every configuration, a file with one line per
  setting and any list of peers leaves exactly these settings in \<^verbatim>\<open>config\<close>, a socket that
  listens on the configured port, the port in network byte order and the addresses of the two
  devices in \<^verbatim>\<open>linkState\<close>, and the peers in the list to be connected, the last one first.
\<close>

theorem conf_file_read_back:
  assumes "listens b = l # ls" and "0 \<le> l_socket l" and "l_setsockopt l" and "l_bind l" and "l_listen l"
    and "word_ok 15 dev" and "tuns b = a # as" and "0 \<le> t_open a" and "0 \<le> t_ioctl a" and "t_name a dev = dev"
    and "fcntls (kern (net b)) = None # None # fs" and "length (tapMAC (linkState (net b))) = 6" and "length (ethMAC (linkState (net b))) = 6"
    and "files (mac_path dev) = Some (mac_text mac @ [newline])" and "length mac = 6"
    and "files (mac_path ''eth0'') = Some (mac_text mac' @ [newline])" and "length mac' = 6"
    and "list_all (\<lambda>p. word_ok 63 (fst p) \<and> word_ok 7 (snd p)) ps" and "listed b []"
  shows "\<exists>b'. conf_loop files (conf_text c dev ps) b = Ret () b' \<and> config (net b') = c \<and> bound b' = bound b @ [(l_socket l, listen_port c)] \<and>
    listenfd b' = Some (l_socket l) \<and> tapfd b' = t_open a \<and> rfd (rio_tap (net b')) = t_open a \<and>
    linkState (net b') = (linkState (net b))\<lparr>listenPort := htons (listen_port c), tapMAC := mac, ethMAC := mac'\<rparr> \<and> listed b' (rev ps)"
  using conf_file [OF assms, of c] by blast

section \<open>A concrete start\<close>

definition demo_files :: "string \<Rightarrow> string option" where
  "demo_files = [mac_path ''eth0'' \<mapsto> mac_text [2, 0, 0, 0, 0, 9] @ [newline], mac_path ''tap2'' \<mapsto> mac_text [2, 0x1F, 0xAB, 0, 255, 7] @ [newline]]"

definition demo_config :: Config where
  "demo_config = \<lparr>listen_port = 2000, link_period = 5, link_timeout = 25, quit_timer = 60\<rparr>"

text \<open>The descriptor 3 is the tap device, 4 the listening socket.\<close>

definition demo_boot :: boot where
  "demo_boot = \<lparr>net = demo_world, tapfd = -1, listenfd = None, llhead = None, lls = \<lparr>mem = Map.empty, cbrk = 0\<rparr>, sigs = (\<lambda>_. SIG_DFL),
     sigactions = [True, True, True, True], listens = [\<lparr>l_socket = 4, l_setsockopt = True, l_bind = True, l_listen = True\<rparr>],
     tuns = [\<lparr>t_open = 3, t_ioctl = 0, t_name = id\<rparr>], accepts = [\<lparr>a_accept = 3, a_getsockname = None\<rparr>], bound = [], dialled = []\<rparr>"

lemma demo_boot_simps:
  "sigactions demo_boot = [True, True, True, True]" "listens demo_boot = [\<lparr>l_socket = 4, l_setsockopt = True, l_bind = True, l_listen = True\<rparr>]"
  "tuns demo_boot = [\<lparr>t_open = 3, t_ioctl = 0, t_name = id\<rparr>]" "fcntls (kern (net demo_boot)) = [None, None]" "listed demo_boot []"
  "length (tapMAC (linkState (net demo_boot))) = 6" "length (ethMAC (linkState (net demo_boot))) = 6" "dialled demo_boot = []" "bound demo_boot = []"
  by (simp_all add: demo_boot_def demo_world_def demo_os_def listed_def contents_def demo_ls_def demo_mac_def)

lemma demo_files_simps:
  "demo_files (mac_path ''tap2'') = Some (mac_text [2, 0x1F, 0xAB, 0, 255, 7] @ [newline])"
  "demo_files (mac_path ''eth0'') = Some (mac_text [2, 0, 0, 0, 0, 9] @ [newline])"
  by (simp_all add: demo_files_def mac_path_def)

lemma demo_words: "word_ok 15 ''tap2''" "word_ok 63 ''cs352-5''" "word_ok 63 ''cs352-6''" "word_ok 7 ''2000''"
  by (simp_all add: word_ok_def isspace_def)

theorem conf_file_read_back_witness:
  "\<exists>b'. conf_loop demo_files (conf_text demo_config ''tap2'' [(''cs352-5'', ''2000''), (''cs352-6'', ''2000'')]) demo_boot = Ret () b' \<and>
     config (net b') = demo_config \<and> bound b' = [(4, 2000)] \<and> tapMAC (linkState (net b')) = [2, 0x1F, 0xAB, 0, 255, 7] \<and>
     listed b' [(''cs352-6'', ''2000''), (''cs352-5'', ''2000'')]"
  using conf_file_read_back [OF demo_boot_simps(2) _ _ _ _ demo_words(1) demo_boot_simps(3) _ _ _ demo_boot_simps(4,6,7) demo_files_simps(1) _ demo_files_simps(2) _ _
      demo_boot_simps(5), of "[(''cs352-5'', ''2000''), (''cs352-6'', ''2000'')]" demo_config]
  by (simp add: demo_words demo_boot_simps(9)) (auto simp: demo_config_def)

end
