(* ===== verification/Startup_Run.thy ===== *)
theory Startup_Run
  imports Startup
begin

text \<open>
  Runs of \<^verbatim>\<open>main\<close>: what connecting leaves unchanged, the loop over the configured peers, the
  whole start-up, and the connections accepted afterwards.
\<close>

section \<open>What connecting leaves unchanged\<close>

text \<open>A call keeps \<open>f\<close> when it does so whether it returns or stops.\<close>

definition keeps :: "('s \<Rightarrow> 'x) \<Rightarrow> 's \<Rightarrow> ('s, 'a) run \<Rightarrow> bool" where
  "keeps f s r \<longleftrightarrow> (case r of Ret _ s' \<Rightarrow> f s' = f s | Stop _ s' \<Rightarrow> f s' = f s)"

named_theorems keeps_intros \<open>calls that keep the settings\<close>

lemma keeps_Ret [keeps_intros]: "f s' = f s \<Longrightarrow> keeps f s (Ret x s')"
  by (simp add: keeps_def)

lemma keeps_Stop [keeps_intros]: "f s' = f s \<Longrightarrow> keeps f s (Stop h s')"
  by (simp add: keeps_def)

lemma keeps_bind [keeps_intros]:
  assumes "keeps f s m" and "\<And>x s'. f s' = f s \<Longrightarrow> keeps f s' (g x s')"
  shows "keeps f s (bind_run m g)"
proof (cases m)
  case (Ret x s')
  then have e: "f s' = f s" using assms(1) by (simp add: keeps_def)
  have "keeps f s' (g x s')" by (rule assms(2) [OF e])
  then show ?thesis using Ret unfolding keeps_def e by simp
qed (use assms(1) in \<open>simp add: keeps_def\<close>)

lemma keeps_if [keeps_intros]: "(P \<Longrightarrow> keeps f s x) \<Longrightarrow> (\<not> P \<Longrightarrow> keeps f s y) \<Longrightarrow> keeps f s (if P then x else y)"
  by simp

lemma keeps_prod [keeps_intros]: "(\<And>x y. p = (x, y) \<Longrightarrow> keeps f s (g x y)) \<Longrightarrow> keeps f s (case p of (x, y) \<Rightarrow> g x y)"
  by (cases p) simp

text \<open>The settings that the configuration file determines.\<close>

definition settings :: "world \<Rightarrow> Config \<times> rio_t \<times> u16 \<times> bytes \<times> bytes" where
  "settings w = (config w, rio_tap w, listenPort (linkState w), tapMAC (linkState w), ethMAC (linkState w))"

lemma keeps_lift: "(\<And>t. f (g t) = f s) \<Longrightarrow> keeps f s (lift_run g m)"
  by (cases m) (simp_all add: keeps_def)

lemma keeps_primitives [keeps_intros]:
  "keeps settings w (in_lock a w)" "keeps settings w (in_kern b w)" "keeps settings w (in_table c w)" "keeps settings w (find_member k w)"
  "keeps settings w (get_peer p w)" "keeps settings w (set_peer p g w)" "keeps settings w (clock_gettime w)" "keeps settings w (close_fd f w)"
  "keeps settings w (pthread_create h p w)" "keeps settings w (new_peer w)" "keeps settings w (next_conn w)"
  by (auto simp: keeps_def settings_def in_lock_def in_kern_def in_table_def find_member_def get_peer_def set_peer_def clock_gettime_def close_fd_def
      pthread_create_def new_peer_def next_conn_def split: run.splits option.splits list.splits elim!: lift_run.elims)

lemma keeps_add_member [keeps_intros]: "keeps settings w (add_member me pp w)"
  unfolding add_member_def by (intro keeps_intros refl)

lemma keeps_initial_join_client [keeps_intros]: "keeps settings w (initial_join_client me pp w)"
  unfolding initial_join_client_def peer_write_def peer_readnb_def accept_packet_def Let_def by (intro keeps_intros refl)

lemma keeps_connectbyname: "keeps settings w (connectbyname me w)"
  unfolding connectbyname_def adopt_def
  by (intro keeps_intros refl) (auto simp: keeps_def settings_def split: option.splits)

section \<open>The configured peers\<close>

text \<open>\<open>n\<close> connections one after the other, as far as each of them succeeds.\<close>

fun connect_all :: "nat \<Rightarrow> tid \<Rightarrow> world \<Rightarrow> (world, unit) run" where
  "connect_all 0 me w = Ret () w"
| "connect_all (Suc n) me w =
     bind_run (connectbyname me w) (\<lambda>r w. case r of None \<Rightarrow> Stop (Exit (-1)) w | Some _ \<Rightarrow> connect_all n me w)"

lemma keeps_option [keeps_intros]: "(r = None \<Longrightarrow> keeps f s x) \<Longrightarrow> (\<And>y. r = Some y \<Longrightarrow> keeps f s (g y)) \<Longrightarrow> keeps f s (case r of None \<Rightarrow> x | Some y \<Rightarrow> g y)"
  by (cases r) simp_all

lemma keeps_connect_all: "keeps settings w (connect_all n me w)"
proof (induction n arbitrary: w)
  case (Suc n)
  show ?case unfolding connect_all.simps by (intro keeps_intros keeps_connectbyname Suc.IH refl)
qed (simp add: keeps_def)

text \<open>The loop over the list of peers is these connections; it empties the list and records whom it called.\<close>

lemma dial_loop:
  assumes "chain (mem (lls b)) (llhead b) qs" and "contents (mem (lls b)) qs = map node_of ps"
  shows "case connect_all (length ps) me (net b) of
      Stop h w \<Rightarrow> \<exists>b'. ll_foreach_loop lls (dial me) (llhead b) b = Some (Stop h b') \<and> net b' = w
    | Ret _ w \<Rightarrow> \<exists>m. ll_foreach_loop lls (dial me) (llhead b) b = Some (Ret () (b\<lparr>net := w, dialled := dialled b @ ps, lls := m, llhead := None\<rparr>))"
  using assms
proof (induction qs arbitrary: b ps)
  case Nil
  then show ?case by (subst ll_foreach_loop.simps) (auto simp: contents_def intro!: exI [of _ "lls b"])
next
  case (Cons q qs)
  obtain c where c: "llhead b = Some q" "mem (lls b) q = Some c" "chain (mem (lls b)) (ll_next c) qs" using Cons.prems(1) by auto
  obtain p ps' where ps: "ps = p # ps'" "content c = node_of p" "contents (mem (lls b)) qs = map node_of ps'"
    using Cons.prems(2) c(2) by (cases ps) (auto simp: contents_def)
  have q: "q \<notin> set qs" using chain_distinct [OF Cons.prems(1)] by simp
  let ?b = "b\<lparr>dialled := dialled b @ [p]\<rparr>"
  show ?case
  proof (cases "connectbyname me (net b)")
    case (Stop h w)
    then have "dial me q b = Stop h (?b\<lparr>net := w\<rparr>)" using c ps by (simp add: dial_def in_lls_def get_cell_def in_net_def node_of_def)
    then have "ll_foreach_loop lls (dial me) (llhead b) b = Some (Stop h (?b\<lparr>net := w\<rparr>))" using c by (subst ll_foreach_loop.simps) simp
    then show ?thesis using Stop ps(1) by simp
  next
    case (Ret r w)
    show ?thesis
    proof (cases r)
      case None
      then have "dial me q b = Stop (Exit (-1)) (?b\<lparr>net := w\<rparr>)"
        using c ps Ret by (simp add: dial_def in_lls_def get_cell_def in_net_def node_of_def)
      then have "ll_foreach_loop lls (dial me) (llhead b) b = Some (Stop (Exit (-1)) (?b\<lparr>net := w\<rparr>))" using c by (subst ll_foreach_loop.simps) simp
      then show ?thesis using Ret None ps(1) by simp
    next
      case (Some pp)
      let ?m = "(lls b)\<lparr>mem := (mem (lls b))(q := None)\<rparr>"
      let ?b' = "b\<lparr>dialled := dialled b @ [p], net := w, llhead := ll_next c, lls := ?m\<rparr>"
      have "dial me q b = Ret () ?b'"
        using c ps Ret Some by (simp add: dial_def in_lls_def get_cell_def in_net_def node_of_def LL_DELETE_def free_cell_def)
      then have run: "ll_foreach_loop lls (dial me) (llhead b) b = ll_foreach_loop lls (dial me) (llhead ?b') ?b'"
        using c by (subst ll_foreach_loop.simps) simp
      have all: "connect_all (length ps) me (net b) = connect_all (length ps') me (net ?b')" using Ret Some ps(1) by simp
      have "chain (mem (lls ?b')) (llhead ?b') qs" "contents (mem (lls ?b')) qs = map node_of ps'" using c(3) ps(3) q by simp_all
      from Cons.IH [OF this] show ?thesis unfolding run all using ps(1) by (auto split: run.splits)
    qed
  qed
qed

text \<open>
  C19. Start-up from a configuration file. When the sockets, devices and signal handlers can be
  set up, \<^verbatim>\<open>main\<close> comes to the state that the file describes (\<open>configured\<close>: the settings, the port in network
  order, the addresses of the two devices, the own address not known yet), and from there connects the peers of the file, from the last to the first.
  When these connections succeed and the clock answers, the start-up is complete: the list of peers to connect is empty, the settings and the
  addresses are those of the files, the membership list is the one the connections have made, the tap thread is started,
  and the alarm of the periodic broadcast is set. When one of them stops or fails, the start-up stops there in the same way.
\<close>

theorem main_start_configures:
  assumes "sigactions b = [True, True, True, True]"
    and "listens b = l # ls" and "0 \<le> l_socket l" and "l_setsockopt l" and "l_bind l" and "l_listen l"
    and "word_ok 15 dev" and "tuns b = a # as" and "0 \<le> t_open a" and "0 \<le> t_ioctl a" and "t_name a dev = dev"
    and "fcntls (kern (net b)) = None # None # fs"
    and "files (mac_path dev) = Some (mac_text mac @ [newline])" and "length mac = 6"
    and "files (mac_path ''eth0'') = Some (mac_text mac' @ [newline])" and "length mac' = 6"
    and "list_all (\<lambda>p. word_ok 63 (fst p) \<and> word_ok 7 (snd p)) ps" and "listed b []"
    and "w0 = configured c (t_open a) fs mac mac' ((net b)\<lparr>linkState := \<lparr>IPaddr = -1, listenPort = -1, tapMAC = replicate 6 (-1), ethMAC = replicate 6 (-1)\<rparr>\<rparr>)"
  shows "case connect_all (length ps) me w0 of
      Stop h w \<Rightarrow> \<exists>b'. main_start files (conf_text c dev ps) me b = Stop h b' \<and> net b' = w
    | Ret _ w \<Rightarrow> (case clocks (kern w) of
          [] \<Rightarrow> \<exists>b'. main_start files (conf_text c dev ps) me b = Stop Waiting b'
        | t # ts \<Rightarrow> \<exists>b'. main_start files (conf_text c dev ps) me b = Ret () b' \<and> config (net b') = c \<and> rfd (rio_tap (net b')) = t_open a \<and>
            tapMAC (linkState (net b')) = mac \<and> ethMAC (linkState (net b')) = mac' \<and> listenPort (linkState (net b')) = htons (listen_port c) \<and>
            members (net b') = members w \<and> peers (net b') = peers w \<and> started (net b') = started w @ [(tap_tid (net b'), Tap_handler, 0)] \<and>
            alarm (net b') = link_period c \<and> now (net b') = t \<and> dialled b' = dialled b @ rev ps \<and> llhead b' = None \<and> listenfd b' = Some (l_socket l) \<and>
            sigs b' = (sigs b)(SIGINT := Leave_handler, SIGPIPE := SIG_IGN, SIGALRM := Broadcast_handler, SIGTERM := Leave_handler))"
proof -
  let ?sg = "(sigs b)(SIGINT := Leave_handler, SIGPIPE := SIG_IGN, SIGALRM := Broadcast_handler, SIGTERM := Leave_handler)"
  let ?b0 = "b\<lparr>sigactions := [], sigs := ?sg\<rparr>"
  let ?b1 = "main_clear ?b0"
  have sig: "main_signals b = Ret () ?b0" using assms(1) by (simp add: main_signals_def Signal_def)
  have mac: "length (tapMAC (linkState (net ?b1))) = 6" "length (ethMAC (linkState (net ?b1))) = 6"
    by (simp_all add: main_clear_def dec_link_state_def)
  have "listed ?b1 []" using assms(18) by (simp add: listed_def main_clear_def)
  then obtain b2 where b2: "conf_loop files (conf_text c dev ps) ?b1 = Ret () b2" "listenfd b2 = Some (l_socket l)"
      "listed b2 (rev ps)" "sigs b2 = ?sg" "dialled b2 = dialled b" "net b2 = configured c (t_open a) fs mac mac' (net ?b1)"
    using conf_file [of ?b1 l ls dev a as fs files mac mac' ps c] assms(2-17) mac
    by (auto simp: main_clear_def)
  have "dec_link_state (replicate 18 (-1)) = \<lparr>IPaddr = -1, listenPort = -1, tapMAC = replicate 6 (-1), ethMAC = replicate 6 (-1)\<rparr>"
    by (simp add: clear_link_state)
  then have w0: "net b2 = w0" using b2(6) by (simp add: assms(19) main_clear_def configured_def)
  obtain qs where qs: "chain (mem (lls b2)) (llhead b2) qs" "contents (mem (lls b2)) qs = map node_of (rev ps)"
    using b2(3) by (auto simp: listed_def)
  note run = dial_loop [OF qs, of me, unfolded w0 length_rev]
  show ?thesis
  proof (cases "connect_all (length ps) me w0")
    case (Stop h w)
    then show ?thesis using run sig b2(1) by (auto simp: main_start_def LL_FOREACH_SAFE_def looped_def)
  next
    case (Ret u w)
    have "settings w = settings w0" using keeps_connect_all [of w0 "length ps" me] Ret by (simp add: keeps_def)
    then have st: "config w = c" "rfd (rio_tap w) = t_open a" "tapMAC (linkState w) = mac" "ethMAC (linkState w) = mac'" "listenPort (linkState w) = htons (listen_port c)"
      by (simp_all add: settings_def assms(19) configured_def)
    then show ?thesis
      using Ret run sig b2(1,2,4,5)
      by (cases "clocks (kern w)") (auto simp: main_start_def LL_FOREACH_SAFE_def looped_def in_net_def pthread_create_def clock_gettime_def Let_def)
  qed
qed

section \<open>Accepted connections\<close>

text \<open>
  C18. A proxy that connects and sends its packet becomes a member: after one round of the
  accept loop the new peer holds its link state, is found under its tap address and under
  no other, every other member keeps its entry, and the two threads of the peer are started.
  A proxy that does not know its own address yet takes that of the new socket and keeps it. The joining
  proxy is sent the packet with the link state of this one: the whole of it when the kernel takes what is
  written, a part of it when the write fails. Only a kernel that does not answer the write can hold the round up.
\<close>

theorem accept_adds_member:
  assumes "wf_world (net b) xs" and "lock (net b) = rw_init" and "listenfd b = Some lfd" and "accepts b = a # as" and "0 \<le> a_accept a"
    and "IPaddr (linkState (net b)) = -1 \<longrightarrow> a_getsockname a \<noteq> None" and "fcntls (kern (net b)) = None # None # fs"
    and "k = (kern (net b))\<lparr>fcntls := fs, fd_flags := (fd_flags (kern (net b)))(a_accept a := O_NONBLOCK)\<rparr>"
    and "rp0 = \<lparr>rfd = a_accept a, cnt = 0, bufp = 0, buf = replicate RIO_BUFSZ 0\<rparr>"
    and "wf_link_state (linkState (net b))" and "wf_link_state ls" and "answering k" and "clocks (kern (net b)) = t # ts"
    and "stream rp0 k = enc_initial_join_packet (join_packet ls n) @ rest" and "roster (net b) xs (tapMAC ls) = None"
    and "own = with_address (linkState (net b)) (a_getsockname a)"
    and "pkt = enc_initial_join_packet (join_packet (own\<lparr>listenPort := htons (listenPort own)\<rparr>) (member_count (net b)))"
  defines "pp \<equiv> brk (net b)"
  shows "case accept_step junk me b of
      Stop h b' \<Rightarrow> h = Waiting \<and> \<not> taking 1 k
    | Ret _ b' \<Rightarrow> wf_world (net b') (xs @ [pp]) \<and> lock (net b') = rw_init \<and>
        roster (net b') (xs @ [pp]) = (roster (net b) xs)(tapMAC ls \<mapsto> pp) \<and> linkState (net b') = own \<and>
        (\<exists>q. peers (net b') = (peers (net b))(pp \<mapsto> q) \<and> p_ls q = ls\<lparr>listenPort := ntohs (listenPort ls)\<rparr> \<and> timestamp q = t \<and>
           stream (p_rio q) (kern (net b')) = rest \<and>
           started (net b') = started (net b) @ [(timeout_tid q, Timeout_handler, pp), (p_tid q, Eth_handler, pp)]) \<and>
        (\<exists>m. sent (kern (net b')) = (sent (kern (net b)))(a_accept a := sent (kern (net b)) (a_accept a) @ take m pkt) \<and>
           (taking 1 k \<longrightarrow> m = join_size))"
proof -
  let ?w = "net b"
  let ?w1 = "?w\<lparr>linkState := own, brk := pp + 1, members := (members ?w)\<lparr>hh := (hh (members ?w))(pp \<mapsto> zero_handle)\<rparr>, kern := k,
    peers := (peers ?w)(pp \<mapsto> zero_peer\<lparr>p_rio := rp0\<rparr>)\<rparr>"
  let ?b = "b\<lparr>accepts := as, net := ?w1\<rparr>"
  have run: "accept_step junk me b = bind_run (in_net (initial_join_server junk me pp) ?b) (\<lambda>_ b. in_net (add_member me pp) b)"
    using assms(3-9) by (auto simp: accept_step_def in_net_def [abs_def] new_peer_def in_kern_def rio_readinit_def do_fcntl_def set_peer_def Let_def pp_def
        assms(16) with_address_def set_linkState_def split: option.splits)
  note new = wf_world_new(1) [OF assms(1), folded pp_def] wf_world_new(3,4) [OF assms(1), where h = zero_handle and s = k and q = "zero_peer\<lparr>p_rio := rp0\<rparr>", folded pp_def]
  have mc: "member_count ?w1 = member_count ?w" by (simp add: member_count_def HASH_COUNT_def split: option.split)
  have w1: "lock ?w1 = rw_init" "peers ?w1 pp = Some (zero_peer\<lparr>p_rio := rp0\<rparr>)" "wf_rio (p_rio (zero_peer\<lparr>p_rio := rp0\<rparr>))" "wf_link_state (linkState ?w1)"
      "stream (p_rio (zero_peer\<lparr>p_rio := rp0\<rparr>)) (kern ?w1) = enc_initial_join_packet (join_packet ls n) @ rest" "answering (kern ?w1)"
    using assms(2,10,12,14) by (simp_all add: assms(9,16) wf_rio_def)
  have pk: "pkt = enc_initial_join_packet (join_packet ((linkState ?w1)\<lparr>listenPort := htons (listenPort (linkState ?w1))\<rparr>) (member_count ?w1))"
    unfolding mc by (simp add: assms(17))
  from server_run [OF w1(1-3,6,4) assms(11) w1(5) pk, of junk me] show ?thesis
  proof (elim disjE exE conjE)
    fix w2 assume "initial_join_server junk me pp ?w1 = Stop Waiting w2" "\<not> taking 1 (kern ?w1)"
    then show ?thesis unfolding run by (simp add: in_net_def)
  next
    fix rp s m
    let ?q = "zero_peer\<lparr>p_rio := rp0, p_rio := rp, p_ls := ls\<lparr>listenPort := ntohs (listenPort ls)\<rparr>\<rparr>"
    let ?w2 = "?w1\<lparr>peers := (peers ?w1)(pp \<mapsto> ?q), kern := s\<rparr>"
    assume jn: "initial_join_server junk me pp ?w1 = Ret (Some pp) ?w2" and st: "stream rp s = rest" and clk: "clocks s = clocks (kern ?w1)"
      and m: "taking 1 (kern ?w1) \<longrightarrow> m = join_size"
      and snt: "sent s = (sent (kern ?w1))(rfd (p_rio (zero_peer\<lparr>p_rio := rp0\<rparr>)) := sent (kern ?w1) (rfd (p_rio (zero_peer\<lparr>p_rio := rp0\<rparr>))) @ take m pkt)"
    have wf2: "wf_world ?w2 xs" using wf_world_peer [OF new(2), of pp "zero_peer\<lparr>p_rio := rp0\<rparr>" ?q] new(1) by (simp add: wf_world_def)
    have ro2: "roster ?w2 xs = roster ?w xs" using new(3) by (simp add: roster_def)
    let ?q' = "?q\<lparr>timestamp := t, timeout_mutex := None, timeout_tid := next_tid ?w2, p_tid := next_tid ?w2 + 1\<rparr>"
    obtain w' where w': "add_member me pp ?w2 = Ret () w'" "wf_world w' (xs @ [pp])" "lock w' = rw_init"
        "roster w' (xs @ [pp]) = (roster ?w xs)(tapMAC ls \<mapsto> pp)" "peers w' = (peers ?w2)(pp \<mapsto> ?q')" "kern w' = s\<lparr>clocks := ts\<rparr>" "linkState w' = own"
        "started w' = started ?w2 @ [(next_tid ?w2, Timeout_handler, pp), (next_tid ?w2 + 1, Eth_handler, pp)]"
      using add_member_result [OF wf2, of pp ?q t ts me] new(1) assms(2,13,15) clk ro2 by (auto simp: assms(8))
    have "accept_step junk me b = Ret () (b\<lparr>accepts := as, net := w'\<rparr>)"
      unfolding run using jn w'(1) by (simp add: in_net_def)
    moreover have "peers w' = (peers ?w)(pp \<mapsto> ?q')" "started w' = started ?w @ [(timeout_tid ?q', Timeout_handler, pp), (p_tid ?q', Eth_handler, pp)]"
      using w'(5,8) by simp_all
    moreover have "sent (kern w') = (sent (kern ?w))(a_accept a := sent (kern ?w) (a_accept a) @ take m pkt)" "stream (p_rio ?q') (kern w') = rest"
      using w'(6) snt st by (simp_all add: assms(8,9) stream_def)
    ultimately show ?thesis
      using w'(2-4,7) m by (auto intro!: exI [of _ ?q'] exI [of _ m])
  qed
qed

section \<open>Concrete runs\<close>

text \<open>A file with one peer, which answers with the link state of peer 5. The descriptor 5 is the socket to it.\<close>

definition start_os :: os where
  "start_os = (demo_join_os (demo_ls 5\<lparr>listenPort := htons 2000\<rparr>))\<lparr>fcntls := [None, None, None, None, None, None], clocks := [zero_ts, zero_ts]\<rparr>"

definition start_boot :: boot where
  "start_boot = demo_boot\<lparr>net := demo_world\<lparr>kern := start_os,
     conns := [\<lparr>sockfd = 5, setsockopt_ok = True, resolve_ok = True, connect_ok = True, local_addr = Some 77\<rparr>]\<rparr>\<rparr>"

definition start_world :: world where
  "start_world = configured demo_config 3 [None, None, None, None] [2, 0x1F, 0xAB, 0, 255, 7] [2, 0, 0, 0, 0, 9] ((net start_boot)\<lparr>linkState :=
     \<lparr>IPaddr = -1, listenPort = -1, tapMAC = replicate 6 (-1), ethMAC = replicate 6 (-1)\<rparr>\<rparr>)"

lemma start_connects:
  "\<exists>w' q. connect_all 1 7 start_world = Ret () w' \<and> roster w' [1, 2, 8] (demo_mac 5) = Some 8 \<and> peers w' 8 = Some q \<and> p_ls q = demo_ls 5 \<and> clocks (kern w') = [zero_ts]"
proof -
  let ?own = "\<lparr>IPaddr = 77, listenPort = htons 2000, tapMAC = [2, 0x1F, 0xAB, 0, 255, 7], ethMAC = [2, 0, 0, 0, 0, 9]\<rparr>"
  let ?os = "start_os\<lparr>fcntls := [None, None], fd_flags := (fd_flags (kern start_world))(5 := O_NONBLOCK)\<rparr>"
  let ?pkt = "enc_initial_join_packet (join_packet ?own (member_count start_world))" and ?rp = "\<lparr>rfd = 5, cnt = 0, bufp = 0, buf = replicate RIO_BUFSZ 0\<rparr>"
  have sim: "lock start_world = rw_init" "linkState start_world = \<lparr>IPaddr = -1, listenPort = htons 2000, tapMAC = [2, 0x1F, 0xAB, 0, 255, 7], ethMAC = [2, 0, 0, 0, 0, 9]\<rparr>" "brk start_world = 8" "fcntls (kern start_world) = [None, None, None, None]"
      "conns start_world = [\<lparr>sockfd = 5, setsockopt_ok = True, resolve_ok = True, connect_ok = True, local_addr = Some 77\<rparr>]"
      "(kern start_world)\<lparr>fcntls := [None, None], fd_flags := (fd_flags (kern start_world))(5 := O_NONBLOCK)\<rparr> = ?os"
    by (simp_all add: start_world_def configured_def start_boot_def demo_world_def demo_config_def)
  have wf: "wf_world start_world [1, 2]" and ro: "roster start_world [1, 2] = roster demo_world [1, 2]"
    using demo_world_wf by (simp_all add: wf_world_def roster_def start_world_def configured_def start_boot_def)
  have wfl: "wf_link_state ?own" "wf_link_state \<lparr>IPaddr = -1, listenPort = htons 2000, tapMAC = [2, 0x1F, 0xAB, 0, 255, 7], ethMAC = [2, 0, 0, 0, 0, 9]\<rparr>" by (simp_all add: wf_link_state_def size_defs)
  have wa: "with_address \<lparr>IPaddr = -1, listenPort = htons 2000, tapMAC = [2, 0x1F, 0xAB, 0, 255, 7], ethMAC = [2, 0, 0, 0, 0, 9]\<rparr> (Some 77) = ?own" by (simp add: with_address_def)
  obtain s1 where wr: "rio_write ?rp ?pkt ?os = Ret 26 s1" and s1: "errno s1 = E_NONE" "polls s1 = [None, None, None]" "reads s1 = reads start_os" "clocks s1 = [zero_ts, zero_ts]"
    using join_packet_length [OF wfl(1), of "member_count start_world"]
    by (subst (asm) rio_write_one) (auto simp: start_os_def demo_join_os_def demo_os_def join_size_def)
  have st: "stream ?rp s1 = enc_initial_join_packet (join_packet (demo_ls 5\<lparr>listenPort := htons 2000\<rparr>) 2) @ []"
    using demo_join_stream [of "demo_ls 5\<lparr>listenPort := htons 2000\<rparr>" 5] s1(3) by (simp add: stream_def start_os_def demo_rio_def)
  have an: "answering s1"
    using demo_join_answering(1) [of "demo_ls 5\<lparr>listenPort := htons 2000\<rparr>"] s1 by (simp add: answering_def start_os_def demo_join_os_def demo_os_def)
  have none: "roster start_world [1, 2] (tapMAC (demo_ls 5)) = None" and mac: "tapMAC (demo_ls 5) = demo_mac 5"
    unfolding ro using demo_two_rep(2,3) by (simp_all add: roster_def key_map_def demo_world_def demo_mac_def demo_ls_def)
  obtain w' q' where w': "connectbyname 7 start_world = Ret (Some 8) w'" "roster w' ([1, 2] @ [8]) = (roster start_world [1, 2])(tapMAC (demo_ls 5) \<mapsto> 8)"
      "peers w' = (peers start_world)(8 \<mapsto> q')" "p_ls q' = demo_ls 5" "clocks (kern w') = [zero_ts]"
    using connectbyname_run [OF wf sim(1,5), of "[None, None]" ?rp "demo_ls 5" ?pkt 26 s1 zero_ts "[zero_ts]" 2 "[]" 7]
      wfl wr an s1(4) st none by (auto simp: sim wa)
  have "connect_all 1 7 start_world = Ret () w'" using w'(1) by simp
  then show ?thesis using w'(2-5) mac by (intro exI [of _ w'] exI [of _ q']) simp
qed

theorem main_start_configures_witness:
  "\<exists>b' q. main_start demo_files (conf_text demo_config ''tap2'' [(''cs352-5'', ''2000'')]) 7 start_boot = Ret () b' \<and> config (net b') = demo_config \<and>
     tapMAC (linkState (net b')) = [2, 0x1F, 0xAB, 0, 255, 7] \<and> dialled b' = [(''cs352-5'', ''2000'')] \<and> alarm (net b') = 5 \<and>
     peers (net b') 8 = Some q \<and> p_ls q = demo_ls 5"
proof -
  obtain w' q where w': "connect_all (length [(''cs352-5'', ''2000'')]) 7 start_world = Ret () w'" "peers w' 8 = Some q" "p_ls q = demo_ls 5" "clocks (kern w') = [zero_ts]"
    using start_connects by auto
  have b: "sigactions start_boot = [True, True, True, True]" "listens start_boot = [\<lparr>l_socket = 4, l_setsockopt = True, l_bind = True, l_listen = True\<rparr>]"
      "tuns start_boot = [\<lparr>t_open = 3, t_ioctl = 0, t_name = id\<rparr>]" "fcntls (kern (net start_boot)) = None # None # [None, None, None, None]"
      "listed start_boot []" "dialled start_boot = []"
    using demo_boot_simps by (simp_all add: start_boot_def start_os_def listed_def)
  show ?thesis
    using main_start_configures [OF b(1,2) _ _ _ _ demo_words(1) b(3) _ _ _ b(4) demo_files_simps(1) _ demo_files_simps(2) _ _ b(5),
        of "[(''cs352-5'', ''2000'')]" start_world demo_config 7] w' demo_words b(6)
    by (auto simp: start_world_def demo_config_def)
qed

text \<open>A proxy with the address of peer 5 connects to one that does not know its own address.\<close>

definition visited_boot :: boot where
  "visited_boot = demo_boot\<lparr>net := demo_first_world, listenfd := Some 4, accepts := [\<lparr>a_accept = 3, a_getsockname = Some 77\<rparr>]\<rparr>"

theorem accept_adds_member_witness:
  "\<exists>b'. accept_step [] 7 visited_boot = Ret () b' \<and> wf_world (net b') [1, 2, 8] \<and> roster (net b') [1, 2, 8] (demo_mac 5) = Some 8 \<and>
     linkState (net b') = demo_ls 9\<lparr>IPaddr := 77\<rparr> \<and>
     sent (kern (net b')) 3 = enc_initial_join_packet (join_packet (demo_ls 9\<lparr>IPaddr := 77, listenPort := htons 2000\<rparr>) (member_count demo_first_world))"
proof -
  let ?ls = "demo_ls 5\<lparr>listenPort := htons 2000\<rparr>" and ?own = "demo_ls 9\<lparr>IPaddr := 77\<rparr>"
  let ?k = "(demo_join_os ?ls)\<lparr>fcntls := [None, None], fd_flags := (fd_flags (demo_join_os ?ls))(3 := O_NONBLOCK)\<rparr>"
  let ?pkt = "enc_initial_join_packet (join_packet (?own\<lparr>listenPort := htons 2000\<rparr>) (member_count demo_first_world))"
  have kn: "kern (net visited_boot) = (demo_join_os ?ls)\<lparr>fcntls := [None, None, None, None]\<rparr>" and
      sim: "lock (net visited_boot) = rw_init" "linkState (net visited_boot) = demo_ls 9\<lparr>IPaddr := -1\<rparr>" "brk (net visited_boot) = 8" "listenfd visited_boot = Some 4"
        "accepts visited_boot = [\<lparr>a_accept = 3, a_getsockname = Some 77\<rparr>]" "member_count (net visited_boot) = member_count demo_first_world"
    by (simp_all add: visited_boot_def demo_first_world_def demo_conn_world_def demo_world_def demo_boot_def)
  have wf: "wf_world (net visited_boot) [1, 2]" and ro: "roster (net visited_boot) [1, 2] = roster demo_world [1, 2]"
    using demo_world_wf by (simp_all add: wf_world_def demo_conn_world_def demo_first_world_def roster_def visited_boot_def)
  have an: "answering ?k" using demo_join_answering(1) [of ?ls] by (simp add: answering_def)
  have tk: "taking 1 ?k" using demo_join_taking [of ?ls] by (auto simp: taking_def spare_def numeral_2_eq_2)
  have st: "stream \<lparr>rfd = 3, cnt = 0, bufp = 0, buf = replicate RIO_BUFSZ 0\<rparr> ?k = enc_initial_join_packet (join_packet ?ls 2) @ []"
    using demo_join_stream [of ?ls 3] by (simp add: stream_def demo_rio_def)
  have no: "roster (net visited_boot) [1, 2] (tapMAC ?ls) = None" "tapMAC ?ls = demo_mac 5"
    unfolding ro using demo_two_rep(2,3) by (simp_all add: roster_def key_map_def demo_world_def demo_mac_def demo_ls_def)
  have own: "with_address (linkState (net visited_boot)) (Some 77) = ?own" "listenPort ?own = 2000" "wf_link_state (demo_ls 9\<lparr>IPaddr := x\<rparr>)" for x
    using demo_ls_wf(1) [of 9] by (simp_all add: sim(2) with_address_def wf_link_state_def)
  have clk: "clocks (kern (net visited_boot)) = [zero_ts]" "fcntls (kern (net visited_boot)) = [None, None, None, None]" "sent (kern (net visited_boot)) = (\<lambda>_. [])"
    by (simp_all add: kn demo_join_os_def demo_os_def)
  have "length ?pkt = join_size" by (rule join_packet_length) (use own(3) [of 77] in \<open>simp add: wf_link_state_def\<close>)
  then show ?thesis
    using accept_adds_member [OF wf sim(1,4,5) _ _ clk(2) _ refl _ _ _ clk(1), of ?k ?ls 2 "[]" ?own ?pkt "[]" 7] an tk st no own clk(3)
    by (auto simp: sim(2,3,6) kn split: run.splits)
qed

end
