(* ===== verification/System.thy ===== *)
theory System
  imports Broadcast Timers Startup_Run
begin

text \<open>
  The threads of a proxy together. A step of the system is one round of one of the threads of
  \<^verbatim>\<open>handlers.c\<close>, one delivery of the alarm signal, one connection made or accepted by
  \<^verbatim>\<open>main\<close>, or a change of the answers that the kernel will give; rounds do not interrupt
  each other. The invariant is that of the membership list, extended to the threads: a
  thread of a peer that was neither cancelled nor has ended serves a member of the list. It is proved
  of the runs in which no peer joins with the address of a member (\<open>new_addresses\<close>).
\<close>

section \<open>Runs and what holds at their end\<close>

text \<open>
  \<open>P\<close> holds when the call returns, \<open>C\<close> when the thread is cancelled in it. The other ways to
  stop either wait or end the process.
\<close>

definition ends :: "('s, 'a) run \<Rightarrow> ('a \<Rightarrow> 's \<Rightarrow> bool) \<Rightarrow> ('s \<Rightarrow> bool) \<Rightarrow> bool" where
  "ends r P C \<longleftrightarrow> (case r of Ret x s \<Rightarrow> P x s | Stop h s \<Rightarrow> h = Cancelled \<longrightarrow> C s)"

lemma ends_simps [simp]: "ends (Ret x s) P C = P x s" "ends (Stop h s) P C = (h = Cancelled \<longrightarrow> C s)"
  "ends (bind_run m f) P C = ends m (\<lambda>x s. ends (f x s) P C) C"
  by (cases m; simp add: ends_def)+

lemma ends_bind: "ends m (\<lambda>x s. ends (f x s) P C) C \<Longrightarrow> ends (bind_run m f) P C"
  by simp

lemma ends_weaken: "ends r P C \<Longrightarrow> (\<And>x s. P x s \<Longrightarrow> Q x s) \<Longrightarrow> (\<And>s. C s \<Longrightarrow> D s) \<Longrightarrow> ends r Q D"
  by (cases r) (auto simp: ends_def)

lemma endsD: "ends r P C \<Longrightarrow> r = Ret x s \<Longrightarrow> P x s" "ends r P C \<Longrightarrow> r = Stop Cancelled s \<Longrightarrow> C s"
  by (auto simp: ends_def)

section \<open>The invariant\<close>

definition threads_ok :: "world \<Rightarrow> ptr list \<Rightarrow> tid set \<Rightarrow> bool" where
  "threads_ok w xs E \<longleftrightarrow> (\<forall>(t, h, p) \<in> set (started w). h = Tap_handler \<or> t \<in> set (cancelled w) \<or> t \<in> E \<or>
     p \<in> set xs \<and> (\<exists>q. peers w p = Some q \<and> (h = Eth_handler \<longrightarrow> p_tid q = t) \<and> (h = Timeout_handler \<longrightarrow> timeout_tid q = t)))"

definition safe :: "rwlock \<Rightarrow> tid set \<Rightarrow> ptr list \<Rightarrow> world \<Rightarrow> bool" where
  "safe l E xs w \<longleftrightarrow> wf_world w xs \<and> lock w = l \<and> threads_ok w xs E"

lemma safe_other [simp]:
  "safe l E xs (w\<lparr>kern := s\<rparr>) = safe l E xs w" "safe l E xs (w\<lparr>rio_tap := r\<rparr>) = safe l E xs w" "safe l E xs (w\<lparr>linkState := ls\<rparr>) = safe l E xs w"
  "safe l E xs (w\<lparr>conns := cs\<rparr>) = safe l E xs w" "safe l E xs (w\<lparr>timedwaits := ts\<rparr>) = safe l E xs w" "safe l E xs (w\<lparr>now := t\<rparr>) = safe l E xs w"
  "safe l E xs (w\<lparr>alarm := a\<rparr>) = safe l E xs w" "safe l E xs (w\<lparr>block := b\<rparr>) = safe l E xs w"
  by (simp_all add: safe_def wf_world_def threads_ok_def)

lemma safe_lock: "safe l E xs w \<Longrightarrow> safe l' E xs (w\<lparr>lock := l'\<rparr>)"
  by (simp add: safe_def threads_ok_def)

lemma safe_mono: "safe l E xs w \<Longrightarrow> E \<subseteq> E' \<Longrightarrow> safe l E' xs w"
  unfolding safe_def threads_ok_def by blast

lemma safe_cancel: "safe l E xs w \<Longrightarrow> safe l E xs (w\<lparr>cancelled := cancelled w @ ts\<rparr>)"
  unfolding safe_def threads_ok_def by (auto simp: wf_world_def)

text \<open>A thread that still runs serves a listed peer.\<close>

lemma safe_thread:
  assumes "safe l E xs w" and "(t, h, p) \<in> set (started w)" and "t \<notin> set (cancelled w)" and "t \<notin> E" and "h \<noteq> Tap_handler"
  shows "p \<in> set xs" and "\<exists>q. peers w p = Some q \<and> (h = Eth_handler \<longrightarrow> p_tid q = t) \<and> (h = Timeout_handler \<longrightarrow> timeout_tid q = t)"
  using assms unfolding safe_def threads_ok_def by blast+

lemma safe_peer:
  assumes "safe l E xs w" and "peers w p = Some q"
    and "tapMAC (p_ls q') = tapMAC (p_ls q) \<and> p_tid q' = p_tid q \<and> timeout_tid q' = timeout_tid q \<or> p \<notin> set xs"
  shows "safe l E xs (w\<lparr>peers := (peers w)(p \<mapsto> q')\<rparr>)"
proof -
  have "wf_world (w\<lparr>peers := (peers w)(p \<mapsto> q')\<rparr>) xs"
    by (rule wf_world_peer [of _ _ _ q]) (use assms in \<open>auto simp: safe_def\<close>)
  then show ?thesis using assms unfolding safe_def threads_ok_def by fastforce
qed

section \<open>Basic operations\<close>

lemma ends_set_peer:
  assumes "safe l E xs w" and "\<And>q. tapMAC (p_ls (f q)) = tapMAC (p_ls q) \<and> p_tid (f q) = p_tid q \<and> timeout_tid (f q) = timeout_tid q \<or> p \<notin> set xs"
    and "\<And>q. peers w p = Some q \<Longrightarrow> safe l E xs (w\<lparr>peers := (peers w)(p \<mapsto> f q)\<rparr>) \<Longrightarrow> P () (w\<lparr>peers := (peers w)(p \<mapsto> f q)\<rparr>)"
  shows "ends (set_peer p f w) P C"
  using safe_peer [OF assms(1)] assms(2,3) by (auto simp: set_peer_def split: option.splits)

lemma ends_get_peer: "(\<And>q. peers w p = Some q \<Longrightarrow> P q w) \<Longrightarrow> ends (get_peer p w) P C"
  by (auto simp: get_peer_def split: option.splits)

lemma ends_kern:
  assumes "safe l E xs w" and "\<And>s'. f (kern w) \<noteq> Stop Cancelled s'" and "\<And>r s. f (kern w) = Ret r s \<Longrightarrow> safe l E xs (w\<lparr>kern := s\<rparr>) \<Longrightarrow> P r (w\<lparr>kern := s\<rparr>)"
  shows "ends (in_kern f w) P C"
  using assms by (cases "f (kern w)") (auto simp: in_kern_def)

lemma ends_clock:
  assumes "safe l E xs w" and "\<And>t s. safe l E xs (w\<lparr>kern := s\<rparr>) \<Longrightarrow> P t (w\<lparr>kern := s\<rparr>)"
  shows "ends (clock_gettime w) P C"
  using assms by (auto simp: clock_gettime_def split: list.splits)

lemma rio_read_never_cancelled: "rio_read rp n s \<noteq> Stop Cancelled s'"
proof (cases "rio_fill (reads s) rp s")
  case (Ret x s1)
  then show ?thesis by (cases x) (auto simp: rio_read_def Let_def split: option.splits if_splits)
next
  case (Stop h s1)
  then show ?thesis using rio_fill_Stop [OF Stop] by (simp add: rio_read_def)
qed

lemma rio_readnb_never_cancelled: "rio_readnb_loop n k acc rp s \<noteq> Stop Cancelled s'"
proof (induction n k acc rp s rule: rio_readnb_loop.induct)
  case (1 n k acc rp s)
  show ?case
  proof (cases "k = 0")
    case False
    show ?thesis
    proof (cases "rio_read rp k s")
      case (Ret x s1)
      obtain r d rp1 where x: "x = (r, d, rp1)" by (cases x)
      show ?thesis
        using "1.IH" [OF False Ret x [symmetric] refl] False by (auto simp: rio_readnb_loop.simps [of n k acc rp s] Ret x split: if_splits)
    next
      case (Stop h s1)
      then show ?thesis using rio_read_never_cancelled [of rp k s] False by (simp add: rio_readnb_loop.simps [of n k acc rp s])
    qed
  qed (simp add: rio_readnb_loop.simps [of n 0 acc rp s])
qed

lemma rio_never_cancelled [simp]:
  "rio_write rp d s \<noteq> Stop Cancelled s'" "rio_read rp n s \<noteq> Stop Cancelled s'" "rio_readnb rp n s \<noteq> Stop Cancelled s'" "rio_readinit f s \<noteq> Stop Cancelled s'"
  using rio_write_Stop [of rp d s Cancelled s'] rio_read_never_cancelled [of rp n s s'] rio_readnb_never_cancelled [of n n "[]" rp s s']
  by (auto simp: rio_readnb_def rio_readinit_def do_fcntl_def Let_def split: list.splits option.splits)

lemma ends_peer_readnb:
  assumes "safe l E xs w" and "\<And>q rp s x. peers w p = Some q \<Longrightarrow> safe l E xs (w\<lparr>kern := s, peers := (peers w)(p \<mapsto> q\<lparr>p_rio := rp\<rparr>)\<rparr>) \<Longrightarrow>
      P x (w\<lparr>kern := s, peers := (peers w)(p \<mapsto> q\<lparr>p_rio := rp\<rparr>)\<rparr>)"
  shows "ends (peer_readnb p n w) P C"
  unfolding peer_readnb_def ends_simps
proof (rule ends_get_peer, rule ends_kern [OF assms(1)])
  fix q s and x :: "int \<times> bytes \<times> rio_t" assume q: "peers w p = Some q" and sf: "safe l E xs (w\<lparr>kern := s\<rparr>)"
  obtain r d rp where x: "x = (r, d, rp)" by (cases x)
  show "ends (case x of (r, d, rp) \<Rightarrow> bind_run (set_peer p (\<lambda>q. q\<lparr>p_rio := rp\<rparr>) (w\<lparr>kern := s\<rparr>)) (\<lambda>_ w. Ret (r, d) w)) P C"
    unfolding x prod.case ends_simps using assms(2) q by (intro ends_set_peer [OF sf]) auto
qed simp

lemma ends_peer_write:
  assumes "safe l E xs w" and "\<And>q s r. peers w p = Some q \<Longrightarrow> safe l E xs (w\<lparr>kern := s\<rparr>) \<Longrightarrow> P r (w\<lparr>kern := s\<rparr>)"
  shows "ends (peer_write p d w) P C"
  unfolding peer_write_def ends_simps by (rule ends_get_peer, rule ends_kern [OF assms(1)]) (simp_all add: assms(2))

lemma ends_testcancel: "(me \<notin> set (cancelled w) \<Longrightarrow> P () w) \<Longrightarrow> C w \<Longrightarrow> ends (pthread_testcancel me w) P C"
  by (simp add: pthread_testcancel_def)

lemma ends_writeBegin: "safe rw_init E xs w \<Longrightarrow> (safe (write_locked me) E xs (w\<lparr>lock := write_locked me\<rparr>) \<Longrightarrow> P () (w\<lparr>lock := write_locked me\<rparr>)) \<Longrightarrow>
    ends (in_lock (writeBegin me) w) P C"
  using safe_lock [of rw_init E xs w "write_locked me"] by (simp add: in_lock_def safe_def)

lemma ends_writeEnd: "safe (write_locked me) E xs w \<Longrightarrow> (safe rw_init E xs (w\<lparr>lock := rw_init\<rparr>) \<Longrightarrow> P () (w\<lparr>lock := rw_init\<rparr>)) \<Longrightarrow>
    ends (in_lock (writeEnd me) w) P C"
  using safe_lock [of "write_locked me" E xs w rw_init] by (simp add: in_lock_def safe_def)

lemma ends_readBegin: "safe rw_init E xs w \<Longrightarrow> (safe (read_locked me) E xs (w\<lparr>lock := read_locked me\<rparr>) \<Longrightarrow> P () (w\<lparr>lock := read_locked me\<rparr>)) \<Longrightarrow>
    ends (in_lock (readBegin me) w) P C"
  using safe_lock [of rw_init E xs w "read_locked me"] by (simp add: in_lock_def safe_def)

lemma ends_readEnd: "safe (read_locked me) E xs w \<Longrightarrow> (safe rw_init E xs (w\<lparr>lock := rw_init\<rparr>) \<Longrightarrow> P () (w\<lparr>lock := rw_init\<rparr>)) \<Longrightarrow>
    ends (in_lock (readEnd me) w) P C"
  using safe_lock [of "read_locked me" E xs w rw_init] by (simp add: in_lock_def safe_def)

lemma ends_load: "(\<And>x. P x w) \<Longrightarrow> ends (load dec n off data w) P C"
  by (auto simp: load_def split: option.splits)

lemma ends_find_at:
  assumes "safe l E xs w" and "P None w" and "\<And>p. p \<in> set xs \<Longrightarrow> P (Some p) w"
  shows "ends (find_at off data w) P C"
proof -
  have "P (roster w xs k) w" for k using assms roster_SomeD(1) [of w xs k] by (cases "roster w xs k") (auto simp: safe_def)
  then show ?thesis using assms find_member_ok [of w xs] by (auto simp: find_at_def safe_def intro!: ends_load)
qed

section \<open>Giving peers up\<close>

lemma threads_ok_drop:
  assumes "threads_ok w xs E" and "peers w p = Some q" and "p_tid q \<in> set (cancelled w') \<union> E" and "timeout_tid q \<in> set (cancelled w') \<union> E"
    and "started w' = started w" and "set (cancelled w) \<subseteq> set (cancelled w')" and "peers w' = (peers w)(p := None)" and "distinct xs"
  shows "threads_ok w' (remove1 p xs) E"
proof -
  have "x \<in> set (remove1 p xs) \<and> (\<exists>q. peers w' x = Some q \<and> (h = Eth_handler \<longrightarrow> p_tid q = t) \<and> (h = Timeout_handler \<longrightarrow> timeout_tid q = t))"
    if m: "(t, h, x) \<in> set (started w')" and n: "h \<noteq> Tap_handler" "t \<notin> set (cancelled w')" "t \<notin> E" for t h x
  proof -
  have "x \<in> set xs \<and> (\<exists>q. peers w x = Some q \<and> (h = Eth_handler \<longrightarrow> p_tid q = t) \<and> (h = Timeout_handler \<longrightarrow> timeout_tid q = t))"
    using assms(1,5,6) m n unfolding threads_ok_def by fastforce
  moreover have "x \<noteq> p" using calculation assms(2-4) n by (cases h) auto
  ultimately show ?thesis using assms(7,8) by (simp add: in_set_remove1)
  qed
  then show ?thesis unfolding threads_ok_def by blast
qed

lemma ends_unlink_peer:
  assumes sf: "safe l E xs w" and p: "p \<in> set xs" and ts: "\<And>q. peers w p = Some q \<Longrightarrow> {p_tid q, timeout_tid q} \<subseteq> set (ts q) \<union> set (cancelled w) \<union> E"
    and P: "\<And>w'. safe l E (remove1 p xs) w' \<Longrightarrow> P () w'"
  shows "ends (unlink_peer ts p w) P C"
proof -
  have wf: "wf_world w xs" "threads_ok w xs E" "lock w = l" using sf by (auto simp: safe_def)
  obtain q where q: "peers w p = Some q" using wf_worldD(5) [OF wf(1) p] by blast
  obtain w' where w': "unlink_peer ts p w = Ret () w'" "wf_world w' (remove1 p xs)" and
      eq: "w' = w\<lparr>members := members w', kern := (kern w)\<lparr>closed := closed (kern w) @ [rfd (p_rio q)]\<rparr>,
        cancelled := cancelled w @ ts q, peers := (peers w)(p := None)\<rparr>"
    using unlink_peer_result [OF wf(1) q p, of ts] by blast
  have f: "lock w' = l" "started w' = started w" "cancelled w' = cancelled w @ ts q" "peers w' = (peers w)(p := None)"
    by (subst eq, simp add: wf(3))+
  have "threads_ok w' (remove1 p xs) E"
    by (rule threads_ok_drop [OF wf(2) q]) (use ts [OF q] f wf_worldD(3) [OF wf(1)] in auto)
  then show ?thesis using w' f(1) P by (simp add: safe_def)
qed

lemma ends_remove_member:
  assumes sf: "safe rw_init E xs w" and p: "p \<in> set xs"
    and P: "\<And>w' q. safe rw_init E (remove1 p xs) w' \<Longrightarrow> peers w p = Some q \<Longrightarrow> cancelled w' = cancelled w @ [timeout_tid q, p_tid q] \<Longrightarrow> P () w'"
  shows "ends (remove_member me (Some p) w) P C"
proof -
  have wf: "wf_world w xs" "threads_ok w xs E" "lock w = rw_init" using sf by (auto simp: safe_def)
  obtain q where q: "peers w p = Some q" using wf_worldD(5) [OF wf(1) p] by blast
  obtain w' where w': "remove_member me (Some p) w = Ret () w'" "wf_world w' (remove1 p xs)" "lock w' = rw_init" "peers w' = (peers w)(p := None)"
      "cancelled w' = cancelled w @ [timeout_tid q, p_tid q]" "started w' = started w"
    using remove_member_result [OF wf(1,3) q p, of me] by blast
  have "threads_ok w' (remove1 p xs) E"
    by (rule threads_ok_drop [OF wf(2) q]) (use w' wf_worldD(3) [OF wf(1)] in auto)
  then show ?thesis using w' P q by (simp add: safe_def)
qed

section \<open>Loops over the members\<close>

lemma ends_HASH_ITER:
  assumes sf: "safe l E xs w"
    and body: "\<And>xs w p. safe l E xs w \<Longrightarrow> p \<in> set xs \<Longrightarrow> ends (body p w) (\<lambda>_ w'. safe l E xs w' \<or> safe l E (remove1 p xs) w') (\<lambda>_. False)"
    and P: "\<And>ys w'. safe l E ys w' \<Longrightarrow> P () w'"
  shows "ends (HASH_ITER body w) P C"
proof -
  have "case HASH_ITER body w of Ret _ w' \<Rightarrow> \<exists>ys. safe l E (ys @ []) w' | Stop h w' \<Rightarrow> h \<noteq> Cancelled"
  proof (rule HASH_ITER_rule [where Q = "\<lambda>zs w. \<exists>ys. safe l E (ys @ zs) w"])
    show "uh_rep (members w) xs" using sf wf_worldD(1) by (auto simp: safe_def)
    show "\<exists>ys. safe l E (ys @ xs) w" using sf by (intro exI [of _ "[]"]) simp
    show "\<exists>ys. uh_rep (members w) (ys @ zs)" if "\<exists>ys. safe l E (ys @ zs) w" for zs w
      using that wf_worldD(1) by (auto simp: safe_def)
  next
    fix p zs w assume "\<exists>ys. safe l E (ys @ p # zs) w"
    then obtain ys where ys: "safe l E (ys @ p # zs) w" ..
    have "distinct (ys @ p # zs)" using ys wf_worldD(3) [of w "ys @ p # zs"] by (simp add: safe_def)
    then have r1: "remove1 p (ys @ p # zs) = ys @ zs" by (simp add: remove1_append)
    show "(\<exists>w'. body p w = Ret () w' \<and> (\<exists>ys. safe l E (ys @ zs) w')) \<or> (\<exists>h w'. body p w = Stop h w' \<and> h \<noteq> Cancelled)"
      using body [OF ys, of p] r1
      by (cases "body p w") (auto intro: exI [of _ "ys @ [p]"])
  qed
  then show ?thesis using P by (cases "HASH_ITER body w") auto
qed

lemma ends_cancel: "safe l E xs w \<Longrightarrow> (safe l E xs (w\<lparr>cancelled := cancelled w @ [t]\<rparr>) \<Longrightarrow> P () (w\<lparr>cancelled := cancelled w @ [t]\<rparr>)) \<Longrightarrow> ends (pthread_cancel t w) P C"
  using safe_cancel [of l E xs w "[t]"] by (simp add: pthread_cancel_def)

text \<open>The bodies of the sending loops.\<close>

lemma ends_drop_peer:
  assumes "safe l E xs w" and "p \<in> set xs" and "\<And>w'. safe l E (remove1 p xs) w' \<Longrightarrow> P () w'"
  shows "ends (drop_peer p w) P C"
  unfolding drop_peer_def ends_simps
  by (intro ends_get_peer ends_cancel [OF assms(1)], rule ends_unlink_peer [OF _ assms(2)]) (use assms(3) in auto)

lemma ends_send_or_drop: "safe l E xs w \<Longrightarrow> p \<in> set xs \<Longrightarrow>
    ends (send_or_drop pkt p w) (\<lambda>_ w'. safe l E xs w' \<or> safe l E (remove1 p xs) w') (\<lambda>_. False)"
  unfolding send_or_drop_def ends_simps by (rule ends_peer_write, assumption) (auto intro: ends_drop_peer)

lemma ends_broadcast_send: "safe l E xs w \<Longrightarrow> p \<in> set xs \<Longrightarrow>
    ends (broadcast_send n p w) (\<lambda>_ w'. safe l E xs w' \<or> safe l E (remove1 p xs) w') (\<lambda>_. False)"
  unfolding broadcast_send_def ends_simps by (intro ends_load, rule ends_peer_write, assumption) (auto intro: ends_unlink_peer)

lemma ends_probe_send:
  assumes "safe l E xs w" and "p \<in> set xs"
  shows "ends (probe_send p w) (\<lambda>_ w'. safe l E xs w' \<or> safe l E (remove1 p xs) w') (\<lambda>_. False)"
  unfolding probe_send_def ends_simps
proof (rule ends_clock [OF assms(1)])
  fix t s assume "safe l E xs (w\<lparr>kern := s\<rparr>)"
  then show "ends (set_peer p (\<lambda>q. q\<lparr>probe_ts := t\<rparr>) (w\<lparr>kern := s\<rparr>)) (\<lambda>_ w. ends (peer_write p (enc_probe_req (probe_packet t)) w)
      (\<lambda>r w. ends (if r < 0 then unlink_peer (\<lambda>q. [timeout_tid q, p_tid q]) p w else Ret () w)
        (\<lambda>_ w'. safe l E xs w' \<or> safe l E (remove1 p xs) w') (\<lambda>_. False)) (\<lambda>_. False)) (\<lambda>_. False)"
    by (rule ends_set_peer) (auto intro!: ends_peer_write intro: ends_unlink_peer [OF _ assms(2)])
qed

lemma ends_send_one:
  assumes "safe l E xs w" and "p \<in> set xs" and "\<And>ys w'. safe l E ys w' \<Longrightarrow> P () w'"
  shows "ends (send_or_drop pkt p w) P C"
  by (rule ends_weaken [OF ends_send_or_drop [OF assms(1,2)]]) (use assms(3) in auto)

section \<open>Rounds of the tap thread\<close>

definition sound :: "tid set \<Rightarrow> world \<Rightarrow> bool" where
  "sound E w \<longleftrightarrow> (\<exists>xs. safe rw_init E xs w)"

lemma sound_other [simp]:
  "sound E (w\<lparr>kern := s\<rparr>) = sound E w" "sound E (w\<lparr>block := b\<rparr>) = sound E w" "sound E (w\<lparr>conns := cs\<rparr>) = sound E w"
  "sound E (w\<lparr>timedwaits := ts\<rparr>) = sound E w" "sound E (w\<lparr>now := t\<rparr>) = sound E w" "sound E (w\<lparr>alarm := a\<rparr>) = sound E w"
  "sound E (w\<lparr>linkState := ls\<rparr>) = sound E w"
  by (simp_all add: sound_def)

lemma safe_sound: "safe rw_init E xs w \<Longrightarrow> sound E w"
  by (auto simp: sound_def)

lemma ends_tap_step:
  assumes "sound E w"
  shows "ends (tap_step me w) (\<lambda>_. sound E) C"
proof -
  obtain xs where sf: "safe rw_init E xs w" using assms by (auto simp: sound_def)
  have fin: "ends (in_lock (writeEnd me) v) (\<lambda>_. sound E) C" if "safe (write_locked me) E ys v" for ys v
    by (rule ends_writeEnd [OF that]) (auto simp: sound_def)
  show ?thesis
    unfolding tap_step_def ends_simps
  proof (rule ends_kern [OF sf])
    fix x s assume "safe rw_init E xs (w\<lparr>kern := s\<rparr>)"
    then have sf1: "safe rw_init E xs (w\<lparr>kern := s, rio_tap := rp\<rparr>)" for rp by simp
    show "ends (case x of (sz, d, rp) \<Rightarrow> let w = w\<lparr>kern := s, rio_tap := rp\<rparr> in
       if length d > ETH_FRAME_LEN then Stop UB w else if sz \<le> 0 then Stop (Exit (-1)) w else
       let prxyhdr = \<lparr>ph_type = htons DATA, ph_length = htons (word_of_int sz)\<rparr>;
           buffer = enc_proxy_header prxyhdr @ d @ replicate (ETH_FRAME_LEN - length d) 0;
           pkt = take (PROXY_HLEN + unat (ntohs (ph_length prxyhdr))) buffer in
       bind_run (in_lock (writeBegin me) w) (\<lambda>_ w.
       bind_run (if take ETH_ALEN (drop PROXY_HLEN buffer) = BROADCAST_ADDR then HASH_ITER (send_or_drop pkt) w
         else bind_run (find_at 6 buffer w) (\<lambda>pp w. case pp of None \<Rightarrow> Ret () w | Some pp \<Rightarrow> send_or_drop pkt pp w)) (\<lambda>_ w.
       in_lock (writeEnd me) w))) (\<lambda>_. sound E) C"
      by (auto split: prod.split simp: Let_def intro!: ends_writeBegin [OF sf1] ends_HASH_ITER [OF _ ends_send_or_drop] ends_find_at ends_send_one fin)
  qed simp
qed

section \<open>Packet handlers\<close>

lemma nested_lock: "\<exists>s. readBegin me (write_locked me) = Stop SelfDeadlock s" "\<exists>s. writeBegin me (write_locked me) = Stop SelfDeadlock s"
  by (simp_all add: readBegin_def writeBegin_def mutex_lock_def mutex_unlock_def rw_init_def write_locked_def)

lemma ends_nested:
  assumes "lock w = write_locked me"
  shows "ends (in_lock (readBegin me) w) P C" and "ends (in_lock (writeBegin me) w) P C"
  using nested_lock [of me] assms by (auto simp: in_lock_def)

text \<open>\<^verbatim>\<open>connectbyaddr\<close> under the write lock: a connection waits for the lock forever, otherwise nothing happens.\<close>

lemma ends_adopt_locked:
  assumes "lock w = write_locked me"
  shows "ends (adopt me f w) P C"
proof -
  let ?w = "w\<lparr>brk := brk w + 1, peers := (peers w)(brk w \<mapsto> zero_peer), members := (members w)\<lparr>hh := (hh (members w))(brk w \<mapsto> zero_handle)\<rparr>\<rparr>"
  have "ends (in_kern (rio_readinit f) ?w) (\<lambda>rp w. ends (set_peer (brk v) (\<lambda>q. q\<lparr>p_rio := rp\<rparr>) w) (\<lambda>_ w. ends (initial_join_client me (brk v) w) Q C) C) C" for Q v
  proof (cases "rio_readinit f (kern ?w)")
    case (Ret rp s)
    have "ends (initial_join_client me p (?w\<lparr>kern := s, peers := ps\<rparr>)) Q C" for p ps
      unfolding initial_join_client_def ends_simps by (rule ends_nested(1)) (use assms in simp)
    then show ?thesis using Ret by (auto simp: in_kern_def set_peer_def split: option.splits)
  next
    case (Stop h s)
    then show ?thesis using rio_never_cancelled(4) [of f "kern ?w" s] by (auto simp: in_kern_def)
  qed
  then show ?thesis by (simp add: adopt_def new_peer_def)
qed

lemma ends_connectbyaddr:
  assumes sf: "safe (write_locked me) E xs w" and P: "\<And>w'. safe (write_locked me) E xs w' \<Longrightarrow> P None w'"
  shows "ends (connectbyaddr me addr pt w) P C"
proof -
  have l: "lock w = write_locked me" using sf by (simp add: safe_def)
  show ?thesis
    using sf l by (auto simp: connectbyaddr_def next_conn_def close_fd_def split: list.splits option.splits intro!: P ends_adopt_locked)
qed

lemma ends_peer_mutex_lock:
  assumes "safe l E xs w" and "\<And>w'. safe l E xs w' \<Longrightarrow> P () w'"
  shows "ends (peer_mutex_lock me p w) P C"
  unfolding peer_mutex_lock_def ends_simps
  by (rule ends_get_peer) (auto split: option.splits intro!: ends_set_peer [OF assms(1)] assms(2))

lemma ends_peer_mutex_unlock:
  assumes "safe l E xs w" and "\<And>w'. safe l E xs w' \<Longrightarrow> P () w'"
  shows "ends (peer_mutex_unlock p w) P C"
  unfolding peer_mutex_unlock_def by (rule ends_set_peer [OF assms(1)]) (auto intro: assms(2))

lemma ends_link_state_body:
  assumes sf: "safe (write_locked me) E xs w" and P: "\<And>w'. safe (write_locked me) E xs w' \<Longrightarrow> P () w'"
  shows "ends (link_state_body me data off w) P C"
  unfolding link_state_body_def
  by (auto intro!: ends_load ends_find_at [OF sf] ends_connectbyaddr [OF sf] ends_peer_mutex_lock [OF sf] P ends_set_peer ends_peer_mutex_unlock sf
      simp del: safe_other)

lemma ends_link_state_loop:
  "safe (write_locked me) E xs w \<Longrightarrow> (\<And>w'. safe (write_locked me) E xs w' \<Longrightarrow> P () w') \<Longrightarrow> ends (link_state_loop me data n off w) P C"
proof (induction n arbitrary: off w)
  case (Suc n)
  show ?case unfolding link_state_loop.simps ends_simps
    by (rule ends_link_state_body [OF Suc.prems(1)], rule Suc.IH) (use Suc.prems(2) in auto)
qed simp

text \<open>The state between the rounds of the thread \<open>me\<close> that serves \<open>pp\<close>.\<close>

definition serves :: "tid set \<Rightarrow> tid \<Rightarrow> ptr \<Rightarrow> world \<Rightarrow> bool" where
  "serves E me pp w \<longleftrightarrow> (\<exists>xs q. safe rw_init E xs w \<and> pp \<in> set xs \<and> peers w pp = Some q \<and> p_tid q = me)"

lemma serves_sound: "serves E me pp w \<Longrightarrow> sound E w"
  by (auto simp: serves_def sound_def)

lemma serves_other [simp]: "serves E me pp (w\<lparr>kern := s\<rparr>) = serves E me pp w"
  by (simp add: serves_def)

text \<open>What a packet handler may do: when it reports an error, its thread still serves the peer.\<close>

abbreviation handled :: "tid set \<Rightarrow> tid \<Rightarrow> ptr \<Rightarrow> (world, int) run \<Rightarrow> bool" where
  "handled E me pp r \<equiv> ends r (\<lambda>n w. sound E w \<and> (n < 0 \<longrightarrow> serves E me pp w)) (sound E)"

lemma handled_Data:
  assumes "serves E me pp w"
  shows "handled E me pp (Data data len w)"
proof -
  obtain xs where sf: "safe rw_init E xs w" using assms by (auto simp: serves_def)
  show ?thesis unfolding Data_def ends_simps
    by (intro ends_load ends_kern [OF sf]) (use assms serves_sound [OF assms] in \<open>auto simp: sound_def\<close>)
qed

lemma handled_Leave:
  assumes "serves E me pp w"
  shows "handled E me pp (Leave me data len w)"
proof -
  obtain xs where sf: "safe rw_init E xs w" using assms by (auto simp: serves_def)
  show ?thesis unfolding Leave_def ends_simps
    by (rule ends_readBegin [OF sf], rule ends_find_at, assumption)
      (auto simp: sound_def intro!: ends_readEnd ends_remove_member)
qed

lemma handled_Quit:
  assumes "serves E me pp w"
  shows "handled E me pp (Quit me data len w)"
proof -
  obtain xs where sf: "safe rw_init E xs w" using assms by (auto simp: serves_def)
  have body: "ends (bind_run (peer_write p b v) (\<lambda>_ w. remove_member me (Some p) w)) Q C" if "safe (write_locked me) E ys v" for p b v ys Q C
    unfolding ends_simps remove_member_def by (rule ends_peer_write [OF that], rule ends_nested(2)) (use that in \<open>simp add: safe_def\<close>)
  show ?thesis
  proof (cases "len = of_nat QUIT_LEN")
    case True
    have "ends (in_lock (writeBegin me) w) (\<lambda>_ w. ends (HASH_ITER (\<lambda>pp w. bind_run (peer_write pp b w) (\<lambda>_ w. remove_member me (Some pp) w)) w)
        (\<lambda>_ w. ends (in_lock (writeEnd me) w) (\<lambda>_ w. ends (pthread_cancel (tap_tid w) w) (\<lambda>_ w. True) C) C) C) C" for b C
      by (rule ends_writeBegin [OF sf], rule ends_HASH_ITER, assumption, rule body, assumption, rule ends_writeEnd) (auto simp: pthread_cancel_def)
    then show ?thesis using True unfolding Quit_def by (auto simp: Let_def intro!: ends_load)
  qed (use assms serves_sound [OF assms] in \<open>simp add: Quit_def\<close>)
qed

lemma handled_Link_State:
  assumes "serves E me pp w"
  shows "handled E me pp (Link_State me data len w)"
proof -
  obtain xs where sf: "safe rw_init E xs w" using assms by (auto simp: serves_def)
  have fin: "ends (link_state_loop me data n off v) (\<lambda>_ w. ends (in_lock (writeEnd me) w) (\<lambda>_ w. sound E w) C) C" if "safe (write_locked me) E xs v" for n off v C
    by (rule ends_link_state_loop [OF that], rule ends_writeEnd) (auto simp: sound_def)
  show ?thesis unfolding Link_State_def Let_def
    by (auto intro!: ends_load ends_writeBegin [OF sf] ends_find_at ends_connectbyaddr fin simp: serves_sound [OF assms] assms)
qed

lemma handled_probes:
  assumes "serves E me pp w"
  shows "handled E me pp (Bandwidth_Probe_Request data len pp w)" and "handled E me pp (Bandwidth_Probe_Response fl data len pp w)"
proof -
  obtain xs where sf: "safe rw_init E xs w" using assms by (auto simp: serves_def)
  show "handled E me pp (Bandwidth_Probe_Request data len pp w)" unfolding Bandwidth_Probe_Request_def Let_def ends_simps
    by (rule ends_load, rule ends_peer_write [OF sf]) (use assms serves_sound [OF assms] in \<open>auto simp: sound_def\<close>)
  show "handled E me pp (Bandwidth_Probe_Response fl data len pp w)" unfolding Bandwidth_Probe_Response_def Let_def ends_simps
    by (rule ends_clock [OF sf], rule ends_load, rule ends_get_peer) (auto simp: sound_def split: option.splits intro!: ends_set_peer)
qed

section \<open>Rounds of the threads of a peer\<close>

lemma ends_call: "handled E me pp (h w) \<Longrightarrow> ends (bind_run (h w) (\<lambda>r w. Ret (Some r) w))
    (\<lambda>r w. sound E w \<and> ((case r of None \<Rightarrow> True | Some n \<Rightarrow> n < 0) \<longrightarrow> serves E me pp w)) (sound E)"
  by simp

lemma ends_dispatch:
  assumes "serves E me pp w"
  shows "ends (dispatch fl me pp type data len w) (\<lambda>r w. sound E w \<and> ((case r of None \<Rightarrow> True | Some n \<Rightarrow> n < 0) \<longrightarrow> serves E me pp w)) (sound E)"
proof -
  have "handled E me pp (Ret 0 w)" using serves_sound [OF assms] by simp
  then show ?thesis
    using handled_Data [OF assms] handled_Leave [OF assms] handled_Quit [OF assms] handled_Link_State [OF assms] handled_probes [OF assms] assms serves_sound [OF assms]
    by (simp add: dispatch_def Let_def RTT_Probe_Request_def RTT_Probe_Response_def Proxy_Public_Key_def Signed_Data_def Proxy_Secret_Key_def
        Encrypted_Data_def Encrypted_Link_State_def Signed_Link_State_def)
qed

lemma ends_remove_own:
  assumes "serves E me pp w" and "\<And>w'. sound E w' \<Longrightarrow> me \<in> set (cancelled w') \<Longrightarrow> P () w'"
  shows "ends (remove_member me (Some pp) w) P C"
proof -
  obtain xs q where s: "safe rw_init E xs w" "pp \<in> set xs" "peers w pp = Some q" "p_tid q = me" using assms(1) by (auto simp: serves_def)
  show ?thesis by (rule ends_remove_member [OF s(1,2)]) (rule assms(2), use s in \<open>auto simp: sound_def\<close>)
qed

lemma ends_give_up: "serves E me pp w \<Longrightarrow> ends (give_up me pp w) P (sound E)"
  unfolding give_up_def by (auto intro!: ends_remove_own ends_testcancel)

lemma ends_read_own:
  assumes "serves E me pp w" and "\<And>x w'. serves E me pp w' \<Longrightarrow> cancelled w' = cancelled w \<Longrightarrow> P x w'"
  shows "ends (peer_readnb pp n w) P C"
proof -
  obtain xs q where s: "safe rw_init E xs w" "pp \<in> set xs" "peers w pp = Some q" "p_tid q = me" using assms(1) by (auto simp: serves_def)
  show ?thesis by (rule ends_peer_readnb [OF s(1)], rule assms(2)) (use s in \<open>auto simp: serves_def\<close>)
qed

lemma ends_eth_step:
  assumes "serves E me pp w"
  shows "ends (eth_step fl junk me pp hdr w) (\<lambda>_. sound E) (sound E)"
proof -
  have fin: "ends (dispatch fl me pp type data len v) (\<lambda>r w. ends (case r of None \<Rightarrow> give_up me pp w
      | Some r \<Rightarrow> if r < 0 then give_up me pp w else bind_run (pthread_testcancel me w) (\<lambda>_ w. Ret h w)) (\<lambda>_. sound E) (sound E)) (sound E)"
    if "serves E me pp v" for type data len v and h :: proxy_header
    by (rule ends_weaken [OF ends_dispatch [OF that]]) (auto split: option.splits intro!: ends_give_up ends_testcancel)
  have body: "ends (bind_run (peer_readnb pp n v) (\<lambda>x w. case x of (sz, d) \<Rightarrow> if sz \<le> 0 then give_up me pp w
      else bind_run (dispatch fl me pp type (over d (junk n)) len w) (\<lambda>r w. case r of None \<Rightarrow> give_up me pp w
      | Some r \<Rightarrow> if r < 0 then give_up me pp w else bind_run (pthread_testcancel me w) (\<lambda>_ w. Ret h w)))) (\<lambda>_. sound E) (sound E)"
    if "serves E me pp v" for n type len v and h :: proxy_header
    by (rule ends_bind, rule ends_read_own [OF that]) (auto split: prod.splits intro!: ends_give_up fin)
  show ?thesis
    unfolding eth_step_def ends_simps
  proof (rule ends_read_own [OF assms])
    fix v and x :: "int \<times> bytes" assume sv: "serves E me pp v"
    obtain sz d where x: "x = (sz, d)" by (cases x)
    have tc: "ends (pthread_testcancel me v) P (sound E)" if "P () v" for P
      using that serves_sound [OF sv] by (auto intro: ends_testcancel)
    have lost: "ends (remove_member me (Some pp) v) (\<lambda>_ w. ends (bind_run (pthread_testcancel me w) K) Q (sound E)) (sound E)"
      for K :: "unit \<Rightarrow> world \<Rightarrow> (world, proxy_header) run" and Q
      by (rule ends_remove_own [OF sv], rule ends_bind, rule ends_testcancel) auto
    show "ends (case x of (sz, d) \<Rightarrow> bind_run (if sz \<le> 0 then bind_run (pthread_testcancel me v) (\<lambda>_ w. remove_member me (Some pp) w) else Ret () v)
        (\<lambda>_ w. bind_run (pthread_testcancel me w) (\<lambda>_ w. let prxyhdr = dec_proxy_header (over d (enc_proxy_header hdr));
           prxyhdr = \<lparr>ph_type = ntohs (ph_type prxyhdr), ph_length = ntohs (ph_length prxyhdr)\<rparr>; len = ph_length prxyhdr in
         bind_run (peer_readnb pp (unat len) w) (\<lambda>x w. case x of (sz, d) \<Rightarrow> if sz \<le> 0 then give_up me pp w
           else bind_run (dispatch fl me pp (ph_type prxyhdr) (over d (junk (unat len))) len w) (\<lambda>r w. case r of None \<Rightarrow> give_up me pp w
             | Some r \<Rightarrow> if r < 0 then give_up me pp w else bind_run (pthread_testcancel me w) (\<lambda>_ w. Ret prxyhdr w)))))) (\<lambda>_. sound E) (sound E)"
      unfolding x prod.case Let_def
    proof (rule ends_bind, cases "sz \<le> 0", goal_cases)
      case 1
      then show ?case unfolding if_P [OF 1] by (intro ends_bind [of _ _ _ "sound E"] tc lost)
    next
      case 2
      show ?case unfolding if_not_P [OF 2] ends_simps(1) by (rule ends_bind, rule tc, rule body [OF sv])
    qed
  qed
qed

text \<open>The timeout thread counts as ended from the start: it removes the peer itself.\<close>

definition timed :: "tid set \<Rightarrow> ptr \<Rightarrow> world \<Rightarrow> bool" where
  "timed E pp w \<longleftrightarrow> (\<exists>xs q. safe rw_init E xs w \<and> pp \<in> set xs \<and> peers w pp = Some q \<and> timeout_tid q \<in> E)"

lemma timed_sound: "timed E pp w \<Longrightarrow> sound E w"
  by (auto simp: timed_def sound_def)

lemma timed_other [simp]: "timed E pp (w\<lparr>kern := s\<rparr>) = timed E pp w" "timed E pp (w\<lparr>timedwaits := ts\<rparr>) = timed E pp w"
  by (simp_all add: timed_def)

lemma ends_set_timed:
  assumes "timed E pp w" and "\<And>q. tapMAC (p_ls (f q)) = tapMAC (p_ls q) \<and> p_tid (f q) = p_tid q \<and> timeout_tid (f q) = timeout_tid q"
    and "\<And>w'. timed E pp w' \<Longrightarrow> P () w'"
  shows "ends (set_peer pp f w) P C"
proof -
  obtain xs q where s: "safe rw_init E xs w" "pp \<in> set xs" "peers w pp = Some q" "timeout_tid q \<in> E" using assms(1) by (auto simp: timed_def)
  show ?thesis
    by (rule ends_set_peer [OF s(1)], use assms(2) in blast, rule assms(3)) (use s assms(2) in \<open>auto simp: timed_def\<close>)
qed

lemma ends_timed_clock: "timed E pp w \<Longrightarrow> (\<And>t w'. timed E pp w' \<Longrightarrow> P t w') \<Longrightarrow> ends (clock_gettime w) P C"
  by (auto simp: clock_gettime_def split: list.splits)

lemma ends_timeout_loop:
  assumes "timed E pp w" and "\<And>x w'. timed E pp w' \<Longrightarrow> P x w'" and "\<And>w'. sound E w' \<Longrightarrow> C w'"
  shows "ends (timeout_loop as me pp ts dls w) P C"
  using assms(1)
proof (induction as arbitrary: ts dls w)
  case (Cons a as)
  obtain sg st where a: "a = (sg, st)" by (cases a)
  have body: "ends (if sg then Ret (dls @ [ts]) v else bind_run (pthread_testcancel me v) (\<lambda>_ w. bind_run (clock_gettime w) (\<lambda>tscmp w.
      bind_run (get_peer pp w) (\<lambda>q w. case link_age tscmp (timestamp q) of None \<Rightarrow> Stop UB w
      | Some age \<Rightarrow> if expired (link_timeout (config w)) age then Ret (dls @ [ts]) w
          else timeout_loop as me pp (deadline (link_timeout (config w)) (timestamp q)) (dls @ [ts]) w)))) P C"
    if v: "timed E pp v" for v
    using Cons.IH v timed_sound [OF v]
    by (auto intro!: ends_testcancel ends_timed_clock ends_get_peer assms(2,3) split: option.splits)
  have "timed E pp (w\<lparr>timedwaits := as\<rparr>)" using Cons.prems by simp
  then have "ends (case st of None \<Rightarrow> Ret () (w\<lparr>timedwaits := as\<rparr>) | Some t \<Rightarrow> set_peer pp (\<lambda>q. q\<lparr>timestamp := t\<rparr>) (w\<lparr>timedwaits := as\<rparr>)) Q C"
    if "\<And>w'. timed E pp w' \<Longrightarrow> Q () w'" for Q
    using that by (auto split: option.splits intro!: ends_set_timed)
  from this [OF body] show ?case unfolding a timeout_loop.simps Let_def by (rule ends_bind)
qed (simp add: timeout_loop.simps)

lemma ends_timeout_handler:
  assumes tm: "timed E pp w"
  shows "ends (timeout_handler me pp w) (\<lambda>_. sound E) (sound E)"
proof -
  have lock: "ends (peer_mutex_lock me pp v) P C" if "timed E pp v" "\<And>w'. timed E pp w' \<Longrightarrow> P () w'" for v P C
    unfolding peer_mutex_lock_def using that by (auto split: option.splits intro!: ends_get_peer ends_set_timed)
  have fin: "ends (in_lock (writeBegin me) v) (\<lambda>_ w. ends (unlink_peer (\<lambda>q. [p_tid q]) pp w) (\<lambda>_ w. ends (in_lock (writeEnd me) w) (\<lambda>_ w. sound E w) C) C) C"
    if "timed E pp v" for v C
  proof -
    obtain xs q where s: "safe rw_init E xs v" "pp \<in> set xs" "peers v pp = Some q" "timeout_tid q \<in> E" using \<open>timed E pp v\<close> by (auto simp: timed_def)
    show ?thesis
      by (rule ends_writeBegin [OF s(1)], rule ends_unlink_peer [OF _ s(2)], assumption)
        (use s in \<open>auto simp: sound_def intro!: ends_writeEnd\<close>)
  qed
  show ?thesis
    unfolding timeout_handler_def ends_simps peer_mutex_unlock_def
    by (rule ends_timed_clock [OF tm], rule lock, assumption, rule ends_timeout_loop, assumption, rule ends_set_timed, assumption)
      (auto intro!: ends_testcancel fin dest: timed_sound)
qed

section \<open>The alarm handler\<close>

lemma ends_for_members:
  assumes sf: "safe l E xs w" and body: "\<And>w p. safe l E xs w \<Longrightarrow> ends (body p w) (\<lambda>_ w'. safe l E xs w') (\<lambda>_. False)"
    and P: "\<And>w'. safe l E xs w' \<Longrightarrow> P () w'"
  shows "ends (for_members body w) P C"
proof -
  have loop: "\<exists>r. for_loop body (case zs of [] \<Rightarrow> None | z # _ \<Rightarrow> Some z) v = Some r \<and> ends r (\<lambda>_ w'. safe l E xs w') (\<lambda>_. False)"
    if "safe l E xs v" "xs = us @ zs" for us zs v
    using that
  proof (induction zs arbitrary: us v)
    case Nil
    then show ?case by (subst for_loop.simps) simp
  next
    case (Cons p zs)
    show ?case
    proof (cases "body p v")
      case (Ret u v')
      then have sv: "safe l E xs v'" using body [OF Cons.prems(1), of p] by simp
      have nx: "next_of (Some p) v' = Some (case zs of [] \<Rightarrow> None | z # _ \<Rightarrow> Some z)"
        using next_of_rep [of v' us p zs] wf_worldD(1) [of v' xs] sv Cons.prems(2) by (simp add: safe_def)
      show ?thesis using Cons.IH [OF sv, of "us @ [p]"] Cons.prems(2) Ret nx by (subst for_loop.simps) simp
    next
      case (Stop h v')
      then show ?thesis using body [OF Cons.prems(1), of p] by (subst for_loop.simps) simp
    qed
  qed
  have hd: "head (members w) = (case xs of [] \<Rightarrow> None | z # _ \<Rightarrow> Some z)"
    using sf wf_worldD(1) [of w xs] by (cases xs) (auto simp: safe_def uh_rep_def)
  obtain r where "for_loop body (head (members w)) w = Some r" "ends r (\<lambda>_ w'. safe l E xs w') (\<lambda>_. False)"
    unfolding hd using loop [OF sf, of "[]" xs] by auto
  then show ?thesis using P by (cases r) (auto simp: for_members_def)
qed

lemma ends_put_bytes: "safe l E xs w \<Longrightarrow> (\<And>w'. safe l E xs w' \<Longrightarrow> P () w') \<Longrightarrow> ends (put_bytes cap bs w) P C"
  by (simp add: put_bytes_def)

lemma ends_read_stamp:
  assumes "safe l E xs w" and "\<And>t w'. safe l E xs w' \<Longrightarrow> P t w'"
  shows "ends (read_stamp me p w) P C"
  unfolding read_stamp_def ends_simps
  by (rule ends_peer_mutex_lock [OF assms(1)], rule ends_get_peer, rule ends_peer_mutex_unlock, assumption) (auto intro: assms(2))

lemma ends_broadcast_row:
  assumes "safe l E xs w"
  shows "ends (broadcast_row me cap p w) (\<lambda>_ w'. safe l E xs w') (\<lambda>_. False)"
  unfolding broadcast_row_def put_record_def ends_simps
  by (auto intro!: ends_read_stamp [OF assms] ends_get_peer ends_put_bytes ends_for_members ends_read_stamp)

lemma ends_broadcast_build:
  assumes "safe l E xs w" and "\<And>ys w'. safe l E ys w' \<Longrightarrow> P () w'"
  shows "ends (broadcast_build me N len w) P C"
proof -
  have "safe l E xs (w\<lparr>block := []\<rparr>)" using assms(1) by simp
  then show ?thesis
    unfolding broadcast_build_def Let_def ends_simps put_record_def
    by (intro ends_put_bytes ends_HASH_ITER ends_for_members ends_broadcast_row) 
      (auto intro!: ends_get_peer ends_put_bytes assms(2) ends_for_members ends_broadcast_row)
qed

lemma ends_broadcast:
  assumes "sound E w"
  shows "ends (Link_State_Broadcast me w) (\<lambda>_. sound E) C"
proof -
  obtain xs where "safe rw_init E xs w" using assms by (auto simp: sound_def)
  then have sf: "safe rw_init E xs (w\<lparr>alarm := a\<rparr>)" for a by simp
  have fin: "ends (HASH_ITER (broadcast_send n) v) (\<lambda>_ w. ends (HASH_ITER probe_send w) (\<lambda>_ w. sound E w) C) C" if "safe rw_init E ys v" for n v ys
    by (rule ends_HASH_ITER [OF that ends_broadcast_send], assumption+, rule ends_HASH_ITER [OF _ ends_probe_send], assumption+) (rule safe_sound)
  show ?thesis
    unfolding Link_State_Broadcast_def Let_def ends_simps
    by (rule ends_clock [OF sf]) (auto intro!: ends_broadcast_build fin intro: safe_sound)
qed

section \<open>New peers\<close>

text \<open>A peer that is not in the list yet, while nothing has changed for the members since the state \<open>w0\<close>.\<close>

definition joining :: "tid set \<Rightarrow> world \<Rightarrow> ptr \<Rightarrow> world \<Rightarrow> bool" where
  "joining E w0 p w \<longleftrightarrow> HASH_FIND (members w) = HASH_FIND (members w0) \<and> started w = started w0 \<and>
     (\<exists>xs q. safe rw_init E xs w \<and> p \<notin> set xs \<and> peers w p = Some q)"

lemma joining_other [simp]: "joining E w0 p (w\<lparr>kern := s\<rparr>) = joining E w0 p w"
  by (simp add: joining_def)

lemma ends_new_peer:
  assumes "sound E w" and "members w = members w0" and "started w = started w0" and "\<And>w'. joining E w0 (brk w) w' \<Longrightarrow> P (brk w) w'"
  shows "ends (new_peer w) P C"
proof -
  obtain xs where sf: "wf_world w xs" "threads_ok w xs E" "lock w = rw_init" using assms(1) by (auto simp: sound_def safe_def)
  let ?w = "w\<lparr>brk := brk w + 1, peers := (peers w)(brk w \<mapsto> zero_peer), members := (members w)\<lparr>hh := (hh (members w))(brk w \<mapsto> zero_handle)\<rparr>\<rparr>"
  note new = wf_world_new(1,2) [OF sf(1)] wf_world_new(3,4) [OF sf(1), where h = zero_handle and s = "kern w" and q = zero_peer]
  have wf: "wf_world ?w xs" using new(3) by (simp add: wf_world_def)
  have "roster ?w xs = roster w xs" using new(4) by (simp add: roster_def)
  then have "HASH_FIND (members ?w) = HASH_FIND (members w0)"
    unfolding fun_eq_iff using wf_worldD(6) [OF wf] wf_worldD(6) [OF sf(1)] assms(2) by simp
  moreover have "threads_ok ?w xs E" using sf(2) new(1) unfolding threads_ok_def by fastforce
  ultimately have "joining E w0 (brk w) ?w" using wf sf(3) new(1) assms(3) unfolding joining_def safe_def by auto
  then show ?thesis using assms(4) by (simp add: new_peer_def)
qed

lemma ends_set_joining:
  assumes "joining E w0 p w" and "\<And>w'. joining E w0 p w' \<Longrightarrow> P () w'"
  shows "ends (set_peer p f w) P C"
proof -
  obtain xs q where s: "safe rw_init E xs w" "p \<notin> set xs" "peers w p = Some q" "HASH_FIND (members w) = HASH_FIND (members w0)" "started w = started w0"
      using assms(1) by (auto simp: joining_def)
  show ?thesis by (rule ends_set_peer [OF s(1)], use s(2) in blast, rule assms(2)) (use s in \<open>auto simp: joining_def\<close>)
qed

lemma ends_joining_kern:
  assumes "joining E w0 p w" and "\<And>s'. f (kern w) \<noteq> Stop Cancelled s'" and "\<And>r s. joining E w0 p (w\<lparr>kern := s\<rparr>) \<Longrightarrow> P r (w\<lparr>kern := s\<rparr>)"
  shows "ends (in_kern f w) P C"
  using assms by (cases "f (kern w)") (auto simp: in_kern_def)

lemma ends_joining_read:
  assumes "joining E w0 p w" and "\<And>x w'. joining E w0 p w' \<Longrightarrow> P x w'"
  shows "ends (peer_readnb p n w) P C"
  unfolding peer_readnb_def ends_simps
  by (rule ends_get_peer, rule ends_joining_kern [OF assms(1)]) (auto split: prod.splits intro!: ends_set_joining assms(2))

lemma ends_joining_write:
  assumes "joining E w0 p w" and "\<And>r w'. joining E w0 p w' \<Longrightarrow> P r w'"
  shows "ends (peer_write p d w) P C"
  unfolding peer_write_def ends_simps by (rule ends_get_peer, rule ends_joining_kern [OF assms(1)]) (auto intro: assms(2))

lemma ends_accept_packet:
  assumes "joining E w0 p w" and "\<And>x w'. joining E w0 p w' \<Longrightarrow> P x w'"
  shows "ends (accept_packet p pkt w) P C"
  using assms by (auto simp: accept_packet_def Let_def intro!: ends_set_joining)

lemma ends_join_client:
  assumes "joining E w0 p w" and "\<And>x w'. joining E w0 p w' \<Longrightarrow> P x w'"
  shows "ends (initial_join_client me p w) P C"
proof -
  have "ends (in_lock (readBegin me) w) (\<lambda>_ v. ends (in_lock (readEnd me) v) (\<lambda>_ w. ends (peer_write p (pkt v) w) (\<lambda>r w.
      ends (if size_le_0 r then Ret None w else bind_run (peer_readnb p join_size w) (\<lambda>x w. case x of (r, d) \<Rightarrow>
       if size_le_0 r then Ret None w else bind_run (accept_packet p (dec_initial_join_packet (over d (pkt v))) w) (\<lambda>ok w. Ret (if ok then Some p else None) w))) P C) C) C) C" for pkt
  proof -
    have rest: "ends (peer_write p b w) (\<lambda>r w.
      ends (if size_le_0 r then Ret None w else bind_run (peer_readnb p join_size w) (\<lambda>x w. case x of (r, d) \<Rightarrow>
       if size_le_0 r then Ret None w else bind_run (accept_packet p (dec_initial_join_packet (over d b)) w) (\<lambda>ok w. Ret (if ok then Some p else None) w))) P C) C"
      if "joining E w0 p w" for b w
      by (rule ends_joining_write [OF that]) (auto split: prod.splits intro!: ends_joining_read ends_accept_packet assms(2))
    obtain xs q where s: "safe rw_init E xs w" "p \<notin> set xs" "peers w p = Some q" "HASH_FIND (members w) = HASH_FIND (members w0)" "started w = started w0"
      using assms(1) by (auto simp: joining_def)
    show ?thesis by (rule ends_readBegin [OF s(1)], rule ends_readEnd, assumption, rule rest) (use s in \<open>auto simp: joining_def\<close>)
  qed
  then show ?thesis unfolding initial_join_client_def Let_def ends_simps .
qed

lemma ends_join_server:
  assumes "joining E w0 p w" and "\<And>x w'. joining E w0 p w' \<Longrightarrow> P x w'"
  shows "ends (initial_join_server junk me p w) P C"
proof -
  have rest: "ends (in_lock (readBegin me) v) (\<lambda>_ v. ends (in_lock (readEnd me) v) (\<lambda>_ w. ends (peer_write p (b (member_count v)) w)
      (\<lambda>r w. P (if size_le_0 r then None else Some p) w) C) C) C" if "joining E w0 p v" for b v
  proof -
    obtain xs q where s: "safe rw_init E xs v" "p \<notin> set xs" "peers v p = Some q" "HASH_FIND (members v) = HASH_FIND (members w0)" "started v = started w0"
      using \<open>joining E w0 p v\<close> by (auto simp: joining_def)
    show ?thesis by (rule ends_readBegin [OF s(1)], rule ends_readEnd, assumption, rule ends_joining_write [where ?w0.0 = w0])
      (use s in \<open>auto simp: joining_def [of _ _ _ "v\<lparr>lock := rw_init\<rparr>"] intro!: assms(2)\<close>)
  qed
  show ?thesis unfolding initial_join_server_def Let_def ends_simps
    by (rule ends_joining_read [OF assms(1)]) (auto split: prod.splits intro!: ends_accept_packet rest assms(2))
qed

text \<open>
  What is assumed of the peers that join in a step from \<open>w\<close> to \<open>w'\<close>: the address under which a new peer is to be
  entered is not that of a member. A new peer is one for which threads were started.
\<close>

definition new_addresses :: "world \<Rightarrow> world \<Rightarrow> bool" where
  "new_addresses w w' \<longleftrightarrow> (\<forall>(t, h, p) \<in> set (drop (length (started w)) (started w')). h = Tap_handler \<or>
     (\<exists>q. peers w' p = Some q \<and> HASH_FIND (members w) (tapMAC (p_ls q)) = Some None))"

definition list_ok :: "world \<Rightarrow> bool" where
  "list_ok w \<longleftrightarrow> (\<exists>xs. wf_world w xs) \<and> lock w = rw_init"

lemma sound_list_ok: "sound E w \<Longrightarrow> list_ok w"
  by (auto simp: sound_def safe_def list_ok_def)

text \<open>After a connection was made or accepted: without the assumption the list is in order, with it the threads are as well.\<close>

definition joined :: "tid set \<Rightarrow> world \<Rightarrow> world \<Rightarrow> bool" where
  "joined E w0 w \<longleftrightarrow> list_ok w \<and> (new_addresses w0 w \<longrightarrow> sound E w)"

lemma sound_joined: "sound E w \<Longrightarrow> joined E w0 w"
  using sound_list_ok by (auto simp: joined_def)

lemma ends_add_member:
  assumes "joining E w0 p w"
  shows "ends (add_member me p w) (\<lambda>_. joined E w0) C"
proof -
  obtain xs q where sf: "wf_world w xs" "threads_ok w xs E" "lock w = rw_init" and p: "p \<notin> set xs" "peers w p = Some q"
    and old: "HASH_FIND (members w0) = HASH_FIND (members w)" "started w0 = started w"
    using assms by (auto simp: joining_def safe_def)
  show ?thesis
  proof (cases "clocks (kern w)")
    case Nil
    have "find_member k (w\<lparr>lock := write_locked me\<rparr>) = Ret (roster w xs k) (w\<lparr>lock := write_locked me\<rparr>)" for k
      using find_member_ok [of "w\<lparr>lock := write_locked me\<rparr>" xs k] sf(1) by simp
    then show ?thesis using Nil p sf(3) by (auto simp: add_member_def world_ops split: option.splits)
  next
    case (Cons t ts)
    let ?k = "tapMAC (p_ls q)" and ?xs = "if roster w xs (tapMAC (p_ls q)) = None then xs @ [p] else xs"
    let ?q = "q\<lparr>timestamp := t, timeout_mutex := None, timeout_tid := next_tid w, p_tid := next_tid w + 1\<rparr>"
    obtain w' where w': "add_member me p w = Ret () w'" "wf_world w' ?xs" "lock w' = rw_init" "peers w' = (peers w)(p \<mapsto> ?q)" "cancelled w' = cancelled w"
        "started w' = started w @ [(next_tid w, Timeout_handler, p), (next_tid w + 1, Eth_handler, p)]"
      using add_member_result [OF sf(1,3) p(2,1) Cons, of me] by blast
    have "sound E w'" if n: "new_addresses w0 w'"
    proof -
      have "roster w xs ?k = None" using n w'(4,6) old wf_worldD(6) [OF sf(1)] by (simp add: new_addresses_def)
      then have xs: "?xs = xs @ [p]" by simp
      have "threads_ok w' (xs @ [p]) E" using sf(2) p w'(4-6) unfolding threads_ok_def by fastforce
      then show ?thesis using w'(2,3) unfolding sound_def safe_def xs by blast
    qed
    then show ?thesis using w'(1-3) by (auto simp: joined_def list_ok_def)
  qed
qed

lemma ends_adopt:
  assumes "sound E w" and "members w = members w0" and "started w = started w0"
  shows "ends (adopt me f w) (\<lambda>_. joined E w0) C"
  unfolding adopt_def ends_simps
  by (rule ends_new_peer [OF assms], rule ends_joining_kern, assumption, simp, rule ends_set_joining, assumption, rule ends_join_client, assumption, rule ends_add_member)

lemma ends_lift [simp]: "ends (lift_run g m) P C = ends m (\<lambda>x t. P x (g t)) (\<lambda>t. C (g t))"
  by (cases m) simp_all

lemma ends_connectbyname:
  assumes "sound E w" and "members w = members w0" and "started w = started w0"
  shows "ends (connectbyname me w) (\<lambda>_. joined E w0) C"
  using assms
  by (auto simp: connectbyname_def next_conn_def close_fd_def split: list.splits option.splits intro!: ends_adopt sound_joined)

section \<open>Steps of the system\<close>

text \<open>
  A state is the state of the program and the set of the threads that have ended. \<open>fl\<close>, \<open>junk\<close> and
  \<open>jn\<close> are the parameters of the packet handlers and of the join exchange, \<open>me\<close> is the main thread.
  A round that waits for the kernel or for a lock is no step, a round that ends the process or
  is undefined has no successor. A cancelled thread does no further round: between its rounds it waits
  in \<^verbatim>\<open>read\<close> or \<^verbatim>\<open>pthread_cond_timedwait\<close>, where a cancellation takes effect. The timeout thread is one step from its
  start to its end; what happens during its waits is in the answers of the waits. Connections are made and accepted whatever
  address the other side gives.
\<close>

inductive sys_step :: "(int \<Rightarrow> int \<Rightarrow> u32 \<times> u32) \<Rightarrow> (nat \<Rightarrow> bytes) \<Rightarrow> bytes \<Rightarrow> tid \<Rightarrow> boot \<times> tid set \<Rightarrow> boot \<times> tid set \<Rightarrow> bool"
  for fl junk jn me where
  kernel: "sys_step fl junk jn me (b, E) (b\<lparr>net := (net b)\<lparr>kern := s, conns := cs, timedwaits := tw\<rparr>, accepts := as\<rparr>, E)"
| dial: "dial me add b = Ret u b' \<Longrightarrow> sys_step fl junk jn me (b, E) (b', E)"
| tap_start: "pthread_create Tap_handler 0 (net b) = Ret t w \<Longrightarrow> sys_step fl junk jn me (b, E) (b\<lparr>net := w\<lparr>tap_tid := t\<rparr>\<rparr>, E)"
| accept: "accept_step jn me b = Ret u b' \<Longrightarrow> sys_step fl junk jn me (b, E) (b', E)"
| alarm: "Link_State_Broadcast me (net b) = Ret u w \<Longrightarrow> sys_step fl junk jn me (b, E) (b\<lparr>net := w\<rparr>, E)"
| tap: "tap_step (tap_tid (net b)) (net b) = Ret u w \<Longrightarrow> sys_step fl junk jn me (b, E) (b\<lparr>net := w\<rparr>, E)"
| eth: "(t, Eth_handler, pp) \<in> set (started (net b)) \<Longrightarrow> t \<notin> set (cancelled (net b)) \<Longrightarrow> t \<notin> E \<Longrightarrow>
    eth_step fl junk t pp hdr (net b) = Ret hdr' w \<Longrightarrow> sys_step fl junk jn me (b, E) (b\<lparr>net := w\<rparr>, E)"
| eth_end: "(t, Eth_handler, pp) \<in> set (started (net b)) \<Longrightarrow> t \<notin> set (cancelled (net b)) \<Longrightarrow> t \<notin> E \<Longrightarrow>
    eth_step fl junk t pp hdr (net b) = Stop Cancelled w \<Longrightarrow> sys_step fl junk jn me (b, E) (b\<lparr>net := w\<rparr>, insert t E)"
| timeout: "(t, Timeout_handler, pp) \<in> set (started (net b)) \<Longrightarrow> t \<notin> set (cancelled (net b)) \<Longrightarrow> t \<notin> E \<Longrightarrow>
    timeout_handler t pp (net b) = Ret dls w \<Longrightarrow> sys_step fl junk jn me (b, E) (b\<lparr>net := w\<rparr>, insert t E)"
| timeout_end: "(t, Timeout_handler, pp) \<in> set (started (net b)) \<Longrightarrow> t \<notin> set (cancelled (net b)) \<Longrightarrow> t \<notin> E \<Longrightarrow>
    timeout_handler t pp (net b) = Stop Cancelled w \<Longrightarrow> sys_step fl junk jn me (b, E) (b\<lparr>net := w\<rparr>, insert t E)"

text \<open>Before the first peer is connected.\<close>

definition fresh :: "boot \<Rightarrow> bool" where
  "fresh b \<longleftrightarrow> head (members (net b)) = None \<and> hh (members (net b)) = Map.empty \<and> peers (net b) = Map.empty \<and>
     lock (net b) = rw_init \<and> started (net b) = []"

text \<open>The states that are reached by steps of which \<open>A\<close> holds.\<close>

inductive sys_reachable :: "(world \<Rightarrow> world \<Rightarrow> bool) \<Rightarrow> (int \<Rightarrow> int \<Rightarrow> u32 \<times> u32) \<Rightarrow> (nat \<Rightarrow> bytes) \<Rightarrow> bytes \<Rightarrow> tid \<Rightarrow> boot \<times> tid set \<Rightarrow> bool"
  for A fl junk jn me where
  init: "fresh b \<Longrightarrow> sys_reachable A fl junk jn me (b, {})"
| step: "sys_reachable A fl junk jn me s \<Longrightarrow> sys_step fl junk jn me s s' \<Longrightarrow> A (net (fst s)) (net (fst s')) \<Longrightarrow> sys_reachable A fl junk jn me s'"

lemma fresh_sound: "fresh b \<Longrightarrow> sound E (net b)"
  by (auto simp: fresh_def sound_def safe_def wf_world_def uh_rep_empty threads_ok_def intro!: exI [of _ "[]"])

lemma ends_in_lls: "(\<And>x m. P x (b\<lparr>lls := m\<rparr>)) \<Longrightarrow> ends (in_lls f b) P (\<lambda>_. True)"
  by (cases "f (lls b)") (auto simp: in_lls_def)

lemma ends_dial:
  assumes "sound E (net b)"
  shows "ends (dial me add b) (\<lambda>_ b'. joined E (net b) (net b')) (\<lambda>_. True)"
proof -
  have c: "ends (in_net (connectbyname me) (b\<lparr>lls := m, dialled := d\<rparr>)) Q (\<lambda>_. True)"
    if "\<And>r w'. joined E (net b) w' \<Longrightarrow> Q r (b\<lparr>lls := m, dialled := d, net := w'\<rparr>)" for m d Q
    unfolding in_net_def ends_lift by (rule ends_weaken [OF ends_connectbyname [of E _ "net b"]]) (use assms that in auto)
  show ?thesis
    unfolding dial_def ends_simps
    by (rule ends_in_lls) (auto split: option.splits intro!: c ends_in_lls)
qed

lemma ends_accept_step:
  assumes "sound E (net b)"
  shows "ends (accept_step jn me b) (\<lambda>_ b'. joined E (net b) (net b')) (\<lambda>_. True)"
proof -
  have new: "ends (new_peer w) (\<lambda>pp w. ends (in_kern (rio_readinit f) w) (\<lambda>rp w. ends (set_peer pp (\<lambda>q. q\<lparr>p_rio := rp\<rparr>) w) (\<lambda>_ w.
      ends (initial_join_server jn me pp w) (\<lambda>_ w. ends (add_member me pp w) (\<lambda>_. joined E (net b))
        (\<lambda>_. True)) (\<lambda>_. True)) (\<lambda>_. True)) (\<lambda>_. True)) (\<lambda>_. True)"
    if "sound E w" "members w = members (net b)" "started w = started (net b)" for w f
    by (rule ends_new_peer [OF that], rule ends_joining_kern, assumption, simp, rule ends_set_joining, assumption,
        rule ends_join_server, assumption, rule ends_add_member)
  show ?thesis
    using assms unfolding accept_step_def
    by (auto simp: Let_def set_linkState_def in_net_def close_fd_def split: option.splits list.splits intro!: new sound_joined)
qed

section \<open>The invariant of the system\<close>

lemma sys_step_joined:
  assumes "sys_step fl junk jn me s s'" and "sound (snd s) (net (fst s))"
  shows "joined (snd s') (net (fst s)) (net (fst s'))"
  using assms
proof (induction rule: sys_step.induct)
  case (dial add b u b' E)
  then show ?case using endsD(1) [OF ends_dial [of E b me add]] by simp
next
  case (tap_start b t w E)
  then have "sound E w" by (auto simp: pthread_create_def sound_def safe_def wf_world_def threads_ok_def)
  then show ?case by (intro sound_joined) (auto simp: sound_def safe_def wf_world_def threads_ok_def)
next
  case (accept b u b' E)
  then show ?case using endsD(1) [OF ends_accept_step [of E b jn me]] by simp
next
  case (alarm b u w E)
  then show ?case using endsD(1) [OF ends_broadcast [of E "net b" me]] by (simp add: sound_joined)
next
  case (tap b u w E)
  then show ?case using endsD(1) [OF ends_tap_step [of E "net b"]] by (simp add: sound_joined)
next
  case (eth t pp b E hdr hdr' w)
  then have "serves E t pp (net b)" using safe_thread by (fastforce simp: serves_def sound_def)
  then show ?case using endsD(1) [OF ends_eth_step eth(4)] by (simp add: sound_joined)
next
  case (eth_end t pp b E hdr w)
  then have "serves E t pp (net b)" using safe_thread by (fastforce simp: serves_def sound_def)
  then have "sound E w" using endsD(2) [OF ends_eth_step eth_end(4)] by simp
  then have "sound (insert t E) w" using safe_mono [of rw_init E _ w "insert t E"] by (auto simp: sound_def)
  then show ?case by (simp add: sound_joined)
next
  case (timeout t pp b E dls w)
  then have "timed (insert t E) pp (net b)"
    using safe_thread safe_mono [of rw_init E _ "net b" "insert t E"] by (fastforce simp: timed_def sound_def)
  then show ?case using endsD(1) [OF ends_timeout_handler timeout(4)] by (simp add: sound_joined)
next
  case (timeout_end t pp b E w)
  then have "timed (insert t E) pp (net b)"
    using safe_thread safe_mono [of rw_init E _ "net b" "insert t E"] by (fastforce simp: timed_def sound_def)
  then show ?case using endsD(2) [OF ends_timeout_handler timeout_end(4)] by (simp add: sound_joined)
qed (simp add: sound_joined)

lemma sys_reachable_sound: "sys_reachable new_addresses fl junk jn me s \<Longrightarrow> sound (snd s) (net (fst s))"
proof (induction rule: sys_reachable.induct)
  case (step s s')
  then show ?case using sys_step_joined [OF step(2,4)] by (simp add: joined_def)
qed (simp add: fresh_sound)

text \<open>
  C4. While no peer joins with the address of a member, the membership list stays well-formed: its table represents a list
  of allocated peers, each stored under its own address and no two under the same, and the
  lock is free. This holds of every state that is reached from the start by steps that respect the assumption, and after one more step of any kind:
  it includes the first join with an address that is taken. The steps are the connections made and accepted, those whose join failed included,
  the rounds of the threads that return or end their thread, in any order, whatever packets
  the peers send and whatever calls of the kernel fail. (Without the assumption the claim does not hold of the program: a
  peer with the address of a member has threads but is not in the list, and its removal takes every member off the list.)
\<close>

theorem membership_list_stays_well_formed:
  assumes "sys_reachable new_addresses fl junk jn me (b, E)" and "(b', E') = (b, E) \<or> sys_step fl junk jn me (b, E) (b', E')"
  shows "\<exists>xs. wf_world (net b') xs \<and> lock (net b') = rw_init"
proof -
  have sd: "sound E (net b)" using sys_reachable_sound [OF assms(1)] by simp
  then have "list_ok (net b')" using assms(2) sound_list_ok sys_step_joined [of fl junk jn me "(b, E)" "(b', E')"] by (auto simp: joined_def)
  then show ?thesis by (auto simp: list_ok_def)
qed

text \<open>
  C5. While no peer joins with the address of a member, no thread outlives its peer. In every state that is reached by steps that respect this assumption,
  the peer of a thread that was
  neither cancelled nor has ended is allocated and listed under its address, and the thread
  is the one the peer names: such a thread does not use freed memory. (Of a peer with the address of a member the claim does not hold: its threads run
  although it is not in the list.)
\<close>

theorem running_threads_serve_members:
  assumes "sys_reachable new_addresses fl junk jn me (b, E)" and "(t, h, p) \<in> set (started (net b))" and "h \<noteq> Tap_handler"
    and "t \<notin> set (cancelled (net b))" and "t \<notin> E"
  shows "\<exists>q. peers (net b) p = Some q \<and> HASH_FIND (members (net b)) (tapMAC (p_ls q)) = Some (Some p) \<and>
    t = (if h = Eth_handler then p_tid q else timeout_tid q)"
proof -
  obtain xs where sf: "safe rw_init E xs (net b)" using sys_reachable_sound [OF assms(1)] by (auto simp: sound_def)
  then have wf: "wf_world (net b) xs" by (simp add: safe_def)
  obtain q where q: "peers (net b) p = Some q" "h = Eth_handler \<longrightarrow> p_tid q = t" "h = Timeout_handler \<longrightarrow> timeout_tid q = t"
    and p: "p \<in> set xs" using safe_thread [OF sf assms(2,4,5,3)] by blast
  have "roster (net b) xs (tapMAC (p_ls q)) = Some p"
    using wf_worldD(5) [OF wf p] q(1) key_map_mem [OF wf_worldD(2) [OF wf] p] by (auto simp: roster_def)
  then show ?thesis using q wf_worldD(6) [OF wf, of "tapMAC (p_ls q)"] assms(3) by (cases h) auto
qed

section \<open>A concrete run\<close>

text \<open>A proxy without members that is about to connect to its first peer.\<close>

definition bare_world :: world where
  "bare_world = demo_conn_world\<lparr>peers := Map.empty, members := demo_empty\<lparr>hh := Map.empty\<rparr>, started := [], cancelled := []\<rparr>"

definition bare_boot :: boot where
  "bare_boot = demo_boot\<lparr>net := bare_world, llhead := Some 0,
     lls := \<lparr>mem = [0 \<mapsto> \<lparr>content = \<lparr>hostname = Some ''cs352-5'', port = Some ''2000''\<rparr>, ll_next = None\<rparr>], cbrk = 1\<rparr>\<rparr>"

lemma bare_fresh: "fresh bare_boot"
  by (simp add: fresh_def bare_boot_def bare_world_def demo_conn_world_def demo_world_def demo_empty_def)

lemma bare_connect:
  "\<exists>w' (q' :: Peer). connectbyname 7 bare_world = Ret (Some 8) w' \<and> peers w' 8 = Some q' \<and>
    started w' = [(timeout_tid q', Timeout_handler, 8), (p_tid q', Eth_handler, 8)] \<and> cancelled w' = []"
proof -
  let ?os = "demo_join_os (demo_ls 5\<lparr>listenPort := htons 2000\<rparr>)" and ?w = "bare_world\<lparr>conns := []\<rparr>"
  let ?os' = "?os\<lparr>fcntls := [None, None], fd_flags := (fd_flags ?os)(3 := O_NONBLOCK)\<rparr>"
  have sim: "lock ?w = rw_init" "linkState ?w = demo_ls 9" "kern ?w = ?os\<lparr>fcntls := [None, None, None, None]\<rparr>" "brk ?w = 8" "started ?w = []" "cancelled ?w = []"
      "conns bare_world = [\<lparr>sockfd = 3, setsockopt_ok = True, resolve_ok = True, connect_ok = True, local_addr = None\<rparr>]" "linkState bare_world = demo_ls 9"
    by (simp_all add: bare_world_def demo_conn_world_def demo_world_def)
  have wf: "wf_world ?w []" by (simp add: wf_world_def uh_rep_empty bare_world_def demo_empty_def)
  have dr: "demo_rio\<lparr>rfd := 3\<rparr> = \<lparr>rfd = 3, cnt = 0, bufp = 0, buf = replicate RIO_BUFSZ 0\<rparr>" by (simp add: demo_rio_def)
  obtain s1 where wr: "rio_write (demo_rio\<lparr>rfd := 3\<rparr>) (enc_initial_join_packet (join_packet (demo_ls 9) (member_count ?w))) ?os' = Ret 26 s1" and
      s1: "errno s1 = E_NONE" "polls s1 = [None, None, None]" "reads s1 = reads ?os" "clocks s1 = [zero_ts]"
    using join_packet_length [OF demo_ls_wf(1), of 9 "member_count ?w"]
    by (subst (asm) rio_write_one) (auto simp: demo_join_os_def demo_os_def join_size_def)
  have st: "stream (demo_rio\<lparr>rfd := 3\<rparr>) s1 = enc_initial_join_packet (join_packet (demo_ls 5\<lparr>listenPort := htons 2000\<rparr>) 2) @ []"
    using demo_join_stream [of "demo_ls 5\<lparr>listenPort := htons 2000\<rparr>" 3] s1(3) by (simp add: stream_def)
  have an: "answering s1"
    using demo_join_answering(1) [of "demo_ls 5\<lparr>listenPort := htons 2000\<rparr>"] s1 by (simp add: answering_def demo_join_os_def demo_os_def)
  have ip: "IPaddr (demo_ls 9) \<noteq> -1" "tapMAC (demo_ls 5) = demo_mac 5" "listenPort (demo_ls 5) = 2000" by (simp_all add: demo_ls_def)
  have ro: "roster ?w [] = Map.empty" by (simp add: roster_def key_map_def fun_eq_iff)
  obtain w' q' where w': "adopt 7 3 ?w = Ret (Some 8) w'" "peers w' = (peers ?w)(8 \<mapsto> q')"
      "started w' = [(timeout_tid q', Timeout_handler, 8), (p_tid q', Eth_handler, 8)]" "cancelled w' = []"
    using adopt_joins [OF wf sim(1), of "[None, None]" "demo_rio\<lparr>rfd := 3\<rparr>" 3 "demo_ls 5" 26 s1 zero_ts "[]" 2 "[]" 7] wr s1(4) st an ip(2,3)
    by (auto simp: sim dr ro)
  have "connectbyname 7 bare_world = Ret (Some 8) w'" using w'(1) ip(1) by (simp add: connectbyname_def next_conn_def sim)
  then show ?thesis using w'(2-4) by (intro exI [of _ w'] exI [of _ q']) simp
qed

lemma bare_dial:
  "\<exists>b' (q :: Peer). sys_reachable new_addresses fl junk jn 7 (b', {}) \<and> cancelled (net b') = [] \<and> started (net b') = [(timeout_tid q, Timeout_handler, 8), (p_tid q, Eth_handler, 8)]"
proof -
  obtain w' and q' :: Peer where w': "connectbyname 7 bare_world = Ret (Some 8) w'" "peers w' 8 = Some q'"
      "started w' = [(timeout_tid q', Timeout_handler, 8), (p_tid q', Eth_handler, 8)]" "cancelled w' = []" using bare_connect by blast
  have "\<exists>b'. dial 7 0 bare_boot = Ret () b' \<and> net b' = w'"
    using w'(1) by (simp add: dial_def in_lls_def get_cell_def in_net_def bare_boot_def LL_DELETE_def free_cell_def)
  then obtain b' where b': "dial 7 0 bare_boot = Ret () b'" "net b' = w'" by blast
  have step: "sys_step fl junk jn 7 (bare_boot, {}) (b', {})" by (rule sys_step.dial [OF b'(1)])
  have "new_addresses (net bare_boot) (net b')"
    using w'(2,3) b'(2) by (simp add: new_addresses_def bare_boot_def bare_world_def HASH_FIND_def demo_empty_def)
  then have "sys_reachable new_addresses fl junk jn 7 (b', {})" by (intro sys_reachable.step [OF sys_reachable.init [OF bare_fresh] step]) simp
  then show ?thesis using b'(2) w'(3,4) by blast
qed

theorem membership_list_stays_well_formed_witness:
  "\<exists>b' xs. started (net b') \<noteq> [] \<and> sys_reachable new_addresses (\<lambda>_ _. (0, 0)) (\<lambda>n. replicate n 0) [] 7 (b', {}) \<and> wf_world (net b') xs"
proof -
  obtain b' where b': "sys_reachable new_addresses (\<lambda>_ _. (0, 0)) (\<lambda>n. replicate n 0) [] 7 (b', {})" "started (net b') \<noteq> []"
    using bare_dial [of "\<lambda>_ _. (0, 0)" "\<lambda>n. replicate n 0" "[]"] by (metis list.distinct(1))
  then show ?thesis using membership_list_stays_well_formed [OF b'(1) disjI1 [OF refl]] by blast
qed

theorem running_threads_serve_members_witness:
  "\<exists>b' q. sys_reachable new_addresses (\<lambda>_ _. (0, 0)) (\<lambda>n. replicate n 0) [] 7 (b', {}) \<and> peers (net b') 8 = Some q \<and>
    HASH_FIND (members (net b')) (tapMAC (p_ls q)) = Some (Some 8)"
proof -
  obtain b' and q :: Peer where b': "sys_reachable new_addresses (\<lambda>_ _. (0, 0)) (\<lambda>n. replicate n 0) [] 7 (b', {})" "cancelled (net b') = []"
      "started (net b') = [(timeout_tid q, Timeout_handler, 8), (p_tid q, Eth_handler, 8)]"
    using bare_dial [of "\<lambda>_ _. (0, 0)" "\<lambda>n. replicate n 0" "[]"] by blast
  then show ?thesis using running_threads_serve_members [OF b'(1), of "p_tid q" Eth_handler 8] by auto
qed

end
