(* ===== verification/Spec2Isabelle.thy ===== *)
theory Spec2Isabelle
  imports Broadcast Timers Tunnel Graph_Free Forwarding Utlist_Alt Uthash_More Uthash_Sort Uthash_Select Uthash_Check Uthash_Hashes System
begin

text \<open>
  A verification of the overlay network proxy of this repository (\<^verbatim>\<open>src/*.c\<close>, \<^verbatim>\<open>src/*.h\<close>).

  \<^bold>\<open>The program.\<close> A proxy joins Ethernet segments over TCP connections. \<^verbatim>\<open>main\<close> reads a
  configuration file, opens a tap device and a listening socket, connects to the peers named
  in the file, starts the tap thread, sets an alarm and then accepts connections. Both ends of a
  new connection exchange link-state packets and enter each other in the membership list, a
  \<^verbatim>\<open>uthash\<close> table from tap MAC addresses to \<^verbatim>\<open>Peer\<close> objects guarded by a readers-writers
  lock. Every peer has two threads: one reads packets from the connection and dispatches them
  by type, the other removes the peer when its link is not refreshed in time. The tap thread
  forwards the frames of the tap device to the members, a data packet received from a member is
  written to the tap device. The alarm handler sends the link states of all members and a
  bandwidth probe to every member, the handler of the termination signals sends leave packets.
  All reading and writing goes through the functions of \<^verbatim>\<open>rio.c\<close>. \<^verbatim>\<open>route.c\<close> holds a graph of
  the network, a heap and routing functions; the rest of the program does not call it yet.

  \<^bold>\<open>The theories\<close>, in the order of their imports:

  \<^item> \<open>Prelude\<close>: machine integers, and the type \<open>run\<close> of calls that return (\<open>Ret\<close>) or stop (\<open>Stop\<close>)
    with the reason: undefined behaviour, waiting for the kernel or for another thread,
    waiting for oneself, an endless loop, the end of the process or of the thread.
  \<^item> \<open>Wire\<close> (\<^verbatim>\<open>proxy.h\<close>): packet types and packed structures with their encoders and decoders. The
    locale \<open>layout\<close> states what a layout promises (size, round trip); every structure interprets it.
  \<^item> \<open>Rio\<close> (\<^verbatim>\<open>rio.c\<close>): \<open>rio_readinit\<close>, \<open>Wait\<close>, \<open>Lock\<close>, \<open>rio_read\<close>, \<open>rio_readnb\<close>, \<open>rio_write\<close>. Reading
    delivers the stream of the descriptor (the contract \<open>byte_reader\<close>), whatever pieces \<^verbatim>\<open>read\<close> returns; writing is complete or reports an
    error; both return when the kernel answers.
  \<^item> \<open>Segments\<close>, \<open>Uthash\<close>, \<open>Uthash_Rep\<close>, \<open>Uthash_Ops\<close> (\<^verbatim>\<open>uthash.h\<close>): the hash table at the level of its
    pointers, Jenkins hash and bucket expansion included. \<open>uh_rep\<close> is its invariant; the locale
    \<open>ptr_dict\<close> is its contract as a finite map, and \<open>uh\<close> its interpretation on the macros.
  \<^item> \<open>RWLock\<close> (\<^verbatim>\<open>proxy.c\<close>): the lock as four functions and as a step relation in which any number of
    threads interleave statement by statement. Mutual exclusion, no deadlock, preference of writers;
    the functions are runs of the relation.
  \<^item> \<open>Members\<close> (\<^verbatim>\<open>proxy.c\<close>): the state \<open>world\<close> of the proxy, \<open>add_member\<close>, \<open>remove_member\<close>, \<open>HASH_ITER\<close>.
    \<open>wf_world\<close> is the invariant, \<open>roster\<close> the abstract membership map. The locale \<open>membership\<close> is the
    contract of the list.
  \<^item> \<open>Join\<close> (\<^verbatim>\<open>proxy.c\<close>): \<open>connectbyname\<close>, \<open>connectbyaddr\<close>, the two sides of the join exchange. \<open>taking n\<close> says of the kernel that it takes
    the next \<open>n\<close> writes as a whole; theorems that a whole packet is sent assume it.
  \<^item> \<open>Packets\<close> (\<^verbatim>\<open>proxy.c\<close>): the fourteen packet handlers.
  \<^item> \<open>Delivery\<close>: loops that send to every member; the locale \<open>delivery\<close> states what such a loop body
    promises. \<open>Tap_Handler\<close>, \<open>Eth_Handler\<close>, \<open>Timers\<close>, \<open>Broadcast\<close> (\<^verbatim>\<open>handlers.c\<close>): the threads and signal
    handlers, each round of an endless loop one function. \<open>Tunnel\<close>: any number of rounds of the tap thread, and
    what they put on the connections; any number of rounds of the thread at the other end, and what it writes to its tap device.
  \<^item> \<open>Utlist\<close> (\<^verbatim>\<open>utlist.h\<close>, and the queue of \<^verbatim>\<open>route.c\<close>), \<open>Scan\<close> (\<^verbatim>\<open>get_port\<close>, \<^verbatim>\<open>getMAC\<close>), \<open>Startup\<close> and
    \<open>Startup_Run\<close> (\<^verbatim>\<open>main.c\<close>, \<^verbatim>\<open>open_listenfd\<close>, \<^verbatim>\<open>allocate_tunnel\<close>, \<^verbatim>\<open>Signal\<close>): linked lists, text, and the
    start of the proxy up to and including the accept loop.
  \<^item> \<open>Utlist_Sort\<close>, \<open>Utlist_DL\<close>, \<open>Utlist_More\<close>, \<open>Utlist_Alt\<close> (\<^verbatim>\<open>utlist.h\<close>): the rest of the list macros, doubly linked and circular
    lists included. The three merge sorts share one algorithm over the operations that differ; the locale \<open>sortable\<close> states what these
    promise, and the sort equals the stable reference sort of the library. The locale \<open>linked_list\<close> is the contract of a list;
    the macros of \<open>Utlist_Alt\<close>, for compilers without \<^verbatim>\<open>__typeof\<close>, are shown equivalent to those they replace.
  \<^item> \<open>Uthash_More\<close>, \<open>Uthash_Sort\<close>, \<open>Uthash_Select\<close>, \<open>Uthash_Check\<close>, \<open>Uthash_Hashes\<close> (\<^verbatim>\<open>uthash.h\<close>): replacement and clearing, \<^verbatim>\<open>HASH_SORT\<close> (shown to do what
    the sort of lists does), \<^verbatim>\<open>HASH_SELECT\<close>, addition and deletion in builds with the integrity check and the Bloom filter, shown to do what they do in builds without, and the hash functions a build may choose.
  \<^item> \<open>Heap\<close>, \<open>Graph\<close> (\<^verbatim>\<open>route.c\<close>): the binary heap, the graph of the network with \<open>evaluate_record\<close> as a
    refinement of a map of edges, and the routing functions as far as they are defined.
  \<^item> \<open>Graph_Free\<close>, \<open>Forwarding\<close> (\<^verbatim>\<open>route.c\<close>): \<open>graph_free\<close>, with loops that delete what they visit, and \<open>prepare_forwarding_table\<close>.
  \<^item> \<open>System\<close>: the threads of one proxy together, as a step relation in which any thread of \<^verbatim>\<open>handlers.c\<close>,
    the alarm, \<^verbatim>\<open>main\<close> or the kernel makes the next step. The relation has all connections, whatever address the other side gives. The invariant, that
    the membership list is well-formed and a running thread serves a listed peer, is proved of the states reached while no
    peer joins with the address of a member; this is an assumption on the peers (\<open>new_addresses\<close>), without which the program does not keep it
    (\<open>duplicate_address_empties_list\<close> in \<open>Members\<close>).
  \<^item> this theory: what two proxies do together. Any number of frames from the tap device of one arrive complete and in
    order at the tap device of the other, a leave packet removes its sender, a broadcast refreshes the sender's link.

  \<^bold>\<open>Conventions.\<close> The target is Linux with 32-bit \<^verbatim>\<open>int\<close>, \<^verbatim>\<open>long\<close>, \<^verbatim>\<open>size_t\<close> and \<^verbatim>\<open>time_t\<close>, little endian. Fixed-width
  integers are words of their width; signed arithmetic that overflows is undefined behaviour.
  Memory is a map from pointers to objects and is never handed out twice, so every access to a
  freed object stops with \<open>UB\<close>. The kernel is a parameter: the state holds the answers it will give, in order,
  and a call that meets no answer stops with \<open>Waiting\<close>; a theorem that a call returns assumes answers. Other parameters are
  the bytes that uninitialised memory holds (\<open>junk\<close>, \<open>raw\<close>), the files (\<open>files\<close>), and the floating-point
  arithmetic of the target on the bits of the numbers (\<open>fl\<close>). The endless loops are given as their single rounds
  and as the first \<open>n\<close> rounds (\<open>tap_handler n\<close>, \<open>eth_handler n\<close>, \<open>accept_loop n\<close>); a theorem about a round
  holds for every round. No other bound is chosen: loops that may not end are option-valued fixed points,
  and theorems about them show that they return. A round of one handler runs without interruption by the others,
  and a cancellation takes effect at the next \<^verbatim>\<open>pthread_testcancel\<close> or between rounds, where the thread waits;
  except in \<open>RWLock\<close>, where the interleaving is what is verified, and in the timeout thread, where the
  answers to a wait carry what other threads stored.

  \<^bold>\<open>Not modelled.\<close> Of \<^verbatim>\<open>route.c\<close>, the code behind the points where \<^verbatim>\<open>shortest_path\<close>, \<^verbatim>\<open>bfs\<close>, \<^verbatim>\<open>Dijkstra\<close> and
  \<^verbatim>\<open>prepare_forwarding_table\<close> are undefined in every execution. Of \<^verbatim>\<open>uthash.h\<close>, \<^verbatim>\<open>HASH_EMIT_KEY\<close>, which writes keys to a descriptor for tuning, the freeing of memory that no
  operation reads again, and the variants for other compilers and byte orders. Of \<^verbatim>\<open>utlist.h\<close>, the casts in the sorts for a compiler without \<^verbatim>\<open>__typeof\<close>.
  Messages to the terminal have no effect on the state and are left out. The field \<^verbatim>\<open>tap\<close> of \<^verbatim>\<open>Config\<close> is never used.
\<close>

section \<open>The tunnel\<close>

text \<open>
  From one tap device to the other. A broadcast frame is read from the tap device of one
  proxy; for a member that is still in its list after the round, what was sent on the
  connection is handed to the proxy at the other end, after which that proxy has written
  exactly the frame to its own tap device and is ready for the rest of its stream. Otherwise
  its tap device has failed and it has given the connection up, or its kernel does not answer.
\<close>

theorem tunnel_delivers_frame:
  assumes "wf_world w xs" and "lock w = rw_init" and "inj_on (fd_of w) (set xs)" and "wf_rio (rio_tap w)"
    and "rio_read (rio_tap w) (PROXY_HLEN + ETH_FRAME_LEN) (kern w) = Ret (int (length frame), frame, rp) s"
    and "length frame \<le> ETH_FRAME_LEN" and "take ETH_ALEN frame = BROADCAST_ADDR"
    and "tap_step me w = Ret () w'" and "p \<in> set xs" and "peers w' p \<noteq> None"
    and "serving v ys me' pp q" and "answering (kern v)" and "\<And>n. length (junk n) = n"
    and "stream (p_rio q) (kern v) = drop (length (sent (kern w) (fd_of w p))) (sent (kern w') (fd_of w p)) @ rest"
  shows "case eth_step fl junk me' pp hdr v of
      Ret _ v' \<Rightarrow> sent (kern v') = (sent (kern v))(rfd (rio_tap v) := sent (kern v) (rfd (rio_tap v)) @ frame) \<and>
        (\<exists>q'. serving v' ys me' pp q' \<and> stream (p_rio q') (kern v') = rest) \<and> roster v' ys = roster v ys
    | Stop h v' \<Rightarrow> h = Waiting \<or> h = Cancelled \<and> wf_world v' (remove1 pp ys) \<and> lock v' = rw_init"
proof -
  have "length (take ETH_ALEN frame) = ETH_ALEN" unfolding assms(7) by (simp add: BROADCAST_ADDR_def)
  then have len: "0 < length frame" "length frame < 65536" using assms(6) by (auto simp: size_defs)
  obtain zs where "\<forall>p\<in>set xs - set zs. peers w' p = None"
      "\<forall>p\<in>set zs. sent (kern w') (fd_of w p) = sent (kern w) (fd_of w p) @ data_packet frame"
    using tap_broadcast_run [OF assms(1-7), of me] by (auto simp: assms(8))
  then have "sent (kern w') (fd_of w p) = sent (kern w) (fd_of w p) @ data_packet frame" using assms(9,10) by auto
  then have "stream (p_rio q) (kern v) = data_packet frame @ rest" using assms(14) by simp
  from data_packet_run [OF assms(11,12) len this assms(13), of fl hdr] show ?thesis
    by (auto split: run.splits)
qed

text \<open>
  C1. From one tap device to the other, for any number of frames. When the tap thread of one proxy has run \<open>n\<close> rounds, it has read \<open>n\<close> frames
  from its tap device, without skipping a byte of what the device delivered. For a member that is still in its list, what was sent on the connection is handed to the
  proxy at the other end, whose kernel answers and takes what is written: after \<open>n\<close> rounds of the thread of the connection that proxy has written to its own tap device
  exactly these frames, each complete and in the same order, and is ready for the rest of its stream.
\<close>

theorem tunnel_delivers_frames:
  assumes "wf_world w xs" and "lock w = rw_init" and "inj_on (fd_of w) (set xs)" and "wf_rio (rio_tap w)"
    and "tap_handler n me w = Ret () w'" and "\<forall>f \<in> set (tap_frames n me w). take ETH_ALEN f = BROADCAST_ADDR"
    and "p \<in> set xs" and "peers w' p \<noteq> None"
    and "serving v ys me' pp q" and "answering (kern v)" and "taking n (kern v)" and "\<And>n. length (junk n) = n"
    and "stream (p_rio q) (kern v) = drop (length (sent (kern w) (fd_of w p))) (sent (kern w') (fd_of w p)) @ rest"
  shows "length (tap_frames n me w) = n \<and> stream (rio_tap w) (kern w) = concat (tap_frames n me w) @ stream (rio_tap w') (kern w') \<and>
    (\<exists>hdr' v' q'. eth_handler n fl junk me' pp hdr v = Ret hdr' v' \<and>
       sent (kern v') = (sent (kern v))(rfd (rio_tap v) := sent (kern v) (rfd (rio_tap v)) @ concat (tap_frames n me w)) \<and>
       serving v' ys me' pp q' \<and> stream (p_rio q') (kern v') = rest \<and> roster v' ys = roster v ys)"
proof -
  let ?fs = "tap_frames n me w"
  note snd = tap_handler_sends [OF assms(1-6)]
  have len: "length ?fs = n" and ok: "\<forall>f \<in> set ?fs. f \<noteq> [] \<and> length f \<le> ETH_FRAME_LEN" using snd by blast+
  have "sent (kern w') (fd_of w p) = sent (kern w) (fd_of w p) @ concat (map data_packet ?fs)" using snd assms(7,8) by (metis DiffI)
  then have st: "stream (p_rio q) (kern v) = concat (map data_packet ?fs) @ rest" using assms(13) by simp
  have "taking (length ?fs) (kern v)" using assms(11) len by simp
  from eth_handler_accepts [OF assms(9,10) this ok st assms(12), of fl hdr] len snd show ?thesis by auto
qed

section \<open>Leaving\<close>

lemma leave_packet_is_packet:
  assumes "wf_link_state ls"
  shows "enc_leave_packet (leave_packet_of ls t) = packet LEAVE (enc_leave (lp_lv (leave_packet_of ls t)))"
    and "wf_leave (lp_lv (leave_packet_of ls t))" and "length (enc_leave (lp_lv (leave_packet_of ls t))) = 20"
proof -
  show wf: "wf_leave (lp_lv (leave_packet_of ls t))" using assms by (simp add: leave_packet_of_def wf_leave_def wf_link_state_def)
  then show len: "length (enc_leave (lp_lv (leave_packet_of ls t))) = 20" using lv.enc_length by simp
  show "enc_leave_packet (leave_packet_of ls t) = packet LEAVE (enc_leave (lp_lv (leave_packet_of ls t)))"
    unfolding packet_def len by (simp add: enc_leave_packet_def leave_packet_of_def size_defs)
qed

text \<open>
  C9. The packet with which a proxy announces that it leaves, received over its own
  connection: the receiving proxy removes it from its list, closes the connection and frees
  the peer, the other members keep their entries, the lock is free, and the thread of the
  connection ends.
\<close>

theorem leave_announcement_removes_member:
  assumes "serving v ys me pp q" and "answering (kern v)" and "\<And>n. length (junk n) = n" and "wf_link_state ls"
    and "stream (p_rio q) (kern v) = enc_leave_packet (leave_packet_of ls t) @ rest" and "roster v ys (tapMAC ls) = Some pp"
  shows "\<exists>v'. eth_step fl junk me pp hdr v = Stop Cancelled v' \<and> wf_world v' (remove1 pp ys) \<and> lock v' = rw_init \<and>
    roster v' (remove1 pp ys) = (roster v ys)(tapMAC ls := None) \<and> peers v' = (peers v)(pp := None) \<and> sent (kern v') = sent (kern v)"
proof -
  let ?body = "enc_leave (lp_lv (leave_packet_of ls t))"
  note lp = leave_packet_is_packet [OF assms(4), of t]
  have len: "0 < length ?body" "length ?body < 65536" using lp(3) by simp_all
  obtain w1 q1 where sv: "serving w1 ys me pp q1" "roster w1 ys = roster v ys" "sent (kern w1) = sent (kern v)" "peers w1 = (peers v)(pp \<mapsto> q1)" and
      run: "eth_step fl junk me pp hdr v = bind_run (dispatch fl me pp LEAVE ?body (of_nat (length ?body)) w1) (\<lambda>r w. case r of
        None \<Rightarrow> give_up me pp w
      | Some r \<Rightarrow> if r < 0 then give_up me pp w
          else bind_run (pthread_testcancel me w) (\<lambda>_ w. Ret \<lparr>ph_type = LEAVE, ph_length = of_nat (length ?body)\<rparr> w))"
    by (rule eth_step_packet [OF assms(1,2) len assms(5) [unfolded lp(1)] assms(3), of fl hdr])
  have mac: "localMAC (lp_lv (leave_packet_of ls t)) = tapMAC ls" by (simp add: leave_packet_of_def)
  have s1: "wf_world w1 ys" "lock w1 = rw_init" "peers w1 pp = Some q1" "pp \<in> set ys" "p_tid q1 = me" using sv(1) by (simp_all add: serving_def)
  have key: "tapMAC (p_ls q1) = tapMAC ls" using roster_SomeD(3) [OF s1(1)] sv(2) assms(6) s1(3) by fastforce
  obtain v' where v': "remove_member me (Some pp) w1 = Ret () v'" "wf_world v' (remove1 pp ys)" "lock v' = rw_init"
      "peers v' = (peers w1)(pp := None)" "cancelled v' = cancelled w1 @ [timeout_tid q1, p_tid q1]" "sent (kern v') = sent (kern w1)"
      "roster v' (remove1 pp ys) = (roster w1 ys)(tapMAC (p_ls q1) := None)"
    using remove_member_result [OF s1(1-4), of me] by auto
  have "dispatch fl me pp LEAVE ?body (of_nat (length ?body)) w1 = Ret (Some 0) v'"
    using Leave_enc [OF s1(1,2) lp(2), of me "of_nat (length ?body)"] mac sv(2) assms(6) v'(1)
    by (simp add: dispatch_def packet_type_defs Let_def)
  moreover have "pthread_testcancel me v' = Stop Cancelled v'" using v'(5) s1(5) by (simp add: pthread_testcancel_def)
  ultimately show ?thesis using run v' sv key by simp
qed

section \<open>Keeping links alive\<close>

lemma refresh_other:
  assumes "\<And>r. r \<in> set recs \<Longrightarrow> R (tapMAC (lsr_proxy1 r)) \<noteq> Some p \<or> tapMAC (lsr_proxy1 r) = own"
  shows "fold (refresh own R) recs P p = P p"
  using assms by (induction recs arbitrary: P) (auto simp: refresh_def split: option.splits)

lemma refresh_same:
  assumes "recs \<noteq> []" and "\<And>r. r \<in> set recs \<Longrightarrow> tapMAC (lsr_proxy1 r) = k \<and> host_ts (lsr_ID r) = t" and "k \<noteq> own" and "R k = Some p"
  shows "fold (refresh own R) recs P p = map_option (\<lambda>q. q\<lparr>timestamp := t\<rparr>) (P p)"
  using assms(1,2)
proof (induction recs arbitrary: P)
  case (Cons r recs)
  then have r: "refresh own R r P p = map_option (\<lambda>q. q\<lparr>timestamp := t\<rparr>) (P p)" using assms(3,4) by (simp add: refresh_def)
  show ?case
  proof (cases "recs = []")
    case False
    then have "fold (refresh own R) recs (refresh own R r P) p = map_option (\<lambda>q. q\<lparr>timestamp := t\<rparr>) (refresh own R r P p)"
      using Cons by simp
    then show ?thesis using r by (simp add: option.map_comp comp_def)
  qed (use r in simp)
qed simp

lemma host_ts_net [simp]: "host_ts \<lparr>tv_sec = htonl (tv_sec t), tv_nsec = htonl (tv_nsec t)\<rparr> = (t :: timespec)"
  by (cases t) (simp add: host_ts_def)

lemma refresh_keeps: "P p = Some q \<Longrightarrow> \<exists>t. fold (refresh own R) recs P p = Some (q\<lparr>timestamp := t\<rparr>)"
proof (induction recs arbitrary: P q)
  case Nil
  then show ?case by (auto intro: exI [of _ "timestamp q"])
next
  case (Cons r recs)
  have "\<exists>t. refresh own R r P p = Some (q\<lparr>timestamp := t\<rparr>)"
    using Cons.prems by (auto simp: refresh_def intro: exI [of _ "timestamp q"] split: option.splits)
  then obtain t where "refresh own R r P p = Some (q\<lparr>timestamp := t\<rparr>)" by blast
  from Cons.IH [of "refresh own R r P", OF this] show ?case by simp
qed

text \<open>The packet of the broadcast at a receiver that knows the proxies it names.\<close>

lemma broadcast_packet_received:
  assumes "wf_peers w xs" and "distinct xs" and "xs \<noteq> []" and "ls_len (length xs) < 65536"
    and "serving v ys me pp q" and "answering (kern v)" and "unlocked v" and "\<And>n. length (junk n) = n"
    and "stream (p_rio q) (kern v) = broadcast_packet w xs @ rest"
    and "tapMAC (linkState w) \<noteq> tapMAC (linkState v)" and "roster v ys (tapMAC (linkState w)) = Some ps"
    and "\<And>p. p \<in> set xs \<Longrightarrow> tapMAC (ls_of w p) \<noteq> tapMAC (linkState w) \<and>
      (tapMAC (ls_of w p) = tapMAC (linkState v) \<or> roster v ys (tapMAC (ls_of w p)) \<noteq> None)"
  shows "\<exists>h v' q' qs. eth_step fl junk me pp hdr v = Ret h v' \<and> serving v' ys me pp q' \<and> stream (p_rio q') (kern v') = rest \<and>
    roster v' ys = roster v ys \<and> peers v' ps = Some qs \<and> timestamp qs = now w \<and> sent (kern v') = sent (kern v)"
proof -
  let ?N = "of_nat (length xs) :: u16" and ?src = "broadcast_source w xs" and ?recs = "broadcast_records w xs"
  let ?body = "ls_payload ?N ?src ?recs"
  have n: "length xs < 65536" using small_count [OF assms(4)] by simp
  have N: "unat ?N = length xs" using n by (simp add: unat_of_nat)
  have bl: "length ?body = ls_len (length xs)" by (rule broadcast_payload_length [OF assms(1,2)])
  then have len: "0 < length ?body" "length ?body < 65536" using assms(4) by (simp_all add: ls_len_def)
  obtain w1 q1 where sv: "serving w1 ys me pp q1" "q1 = q\<lparr>p_rio := p_rio q1\<rparr>" "roster w1 ys = roster v ys" "sent (kern w1) = sent (kern v)"
      "peers w1 = (peers v)(pp \<mapsto> q1)" "linkState w1 = linkState v" "stream (p_rio q1) (kern w1) = rest" and
      run: "eth_step fl junk me pp hdr v = bind_run (dispatch fl me pp LINK_STATE ?body (of_nat (length ?body)) w1) (\<lambda>r w. case r of
        None \<Rightarrow> give_up me pp w
      | Some r \<Rightarrow> if r < 0 then give_up me pp w
          else bind_run (pthread_testcancel me w) (\<lambda>_ w. Ret \<lparr>ph_type = LINK_STATE, ph_length = of_nat (length ?body)\<rparr> w))"
    by (rule eth_step_packet [OF assms(5,6) len assms(9) [unfolded broadcast_packet_def] assms(8), of fl hdr])
  have s1: "wf_world w1 ys" "lock w1 = rw_init" "me \<notin> set (cancelled w1)" using sv(1) by (simp_all add: serving_def)
  have "timeout_mutex q1 = timeout_mutex q" by (subst sv(2)) simp
  then have "unlocked w1" using assms(5,7) sv(5) by (auto simp: unlocked_def serving_def)
  have kn: "list_all (known (tapMAC (linkState w1)) (roster w1 ys)) ?recs"
  proof -
    have m: "tapMAC (ls_of w p) = tapMAC (linkState v) \<or> roster v ys (tapMAC (ls_of w p)) \<noteq> None" if "p \<in> set xs" for p
      using assms(12) [OF that] by blast
    have "known (tapMAC (linkState v)) (roster v ys) r" if "r \<in> set ?recs" for r
      using that m assms(11) unfolding broadcast_records_def row_records_def known_def ls_record_def by fastforce
    then show ?thesis by (simp add: list_all_iff sv(3,6))
  qed
  define P where "P = fold (refresh (tapMAC (linkState w1)) (roster w1 ys)) ?recs (peers w1)"
  have ls: "Link_State me ?body (of_nat (ls_len (unat ?N))) w1 = Ret 0 (w1\<lparr>peers := P\<rparr>)" "wf_world (w1\<lparr>peers := P\<rparr>) ys"
    using Link_State_known [OF s1(1,2) _ \<open>unlocked w1\<close> _ broadcast_records_wf [OF assms(1)] _ _ _ kn, of ?N ?src me]
      assms(1,4,10,11) N broadcast_records_length [OF assms(2), of w]
    by (simp_all add: P_def broadcast_source_def wf_peers_def sv(3,6))
  have "dispatch fl me pp LINK_STATE ?body (of_nat (length ?body)) w1 = Ret (Some 0) (w1\<lparr>peers := P\<rparr>)"
    using ls(1) bl N by (simp add: dispatch_def packet_type_defs Let_def)
  then have step: "eth_step fl junk me pp hdr v = Ret \<lparr>ph_type = LINK_STATE, ph_length = of_nat (length ?body)\<rparr> (w1\<lparr>peers := P\<rparr>)"
    using run s1(3) by (simp add: pthread_testcancel_def)
  obtain q0 where q0: "peers w1 ps = Some q0" using roster_SomeD(3) [OF s1(1)] sv(3) assms(11) by fastforce
  have only: "roster w1 ys k = Some ps \<Longrightarrow> k = tapMAC (linkState w)" for k
    using roster_SomeD(2) [OF s1(1)] sv(3) assms(11) by metis
  have "P ps = map_option (\<lambda>q. q\<lparr>timestamp := now w\<rparr>) (peers w1 ps)"
  proof -
    let ?out = "map (\<lambda>p. ls_record (now w) (linkState w) (ls_of w p)) xs" and ?rows = "concat (map (row_records w xs) xs)"
    let ?ref = "refresh (tapMAC (linkState w1)) (roster w1 ys)"
    have "fold ?ref ?rows (fold ?ref ?out (peers w1)) ps = fold ?ref ?out (peers w1) ps"
    proof (rule refresh_other)
      fix r
      assume "r \<in> set ?rows"
      then obtain p where "p \<in> set xs" "tapMAC (lsr_proxy1 r) = tapMAC (ls_of w p)" by (auto simp: row_records_def ls_record_def)
      then have "tapMAC (lsr_proxy1 r) \<noteq> tapMAC (linkState w)" using assms(12) by metis
      then show "roster w1 ys (tapMAC (lsr_proxy1 r)) \<noteq> Some ps \<or> tapMAC (lsr_proxy1 r) = tapMAC (linkState w1)" using only by blast
    qed
    moreover have "fold ?ref ?out (peers w1) ps = map_option (\<lambda>q. q\<lparr>timestamp := now w\<rparr>) (peers w1 ps)"
      by (rule refresh_same [where k = "tapMAC (linkState w)"]) (use assms(3,10,11) sv(3,6) in \<open>auto simp: ls_record_def\<close>)
    ultimately show ?thesis by (simp add: P_def broadcast_records_def)
  qed
  moreover obtain t where "P pp = Some (q1\<lparr>timestamp := t\<rparr>)" 
    using refresh_keeps [of "peers w1" pp q1] sv(5) unfolding P_def by (metis fun_upd_same)
  then have "serving (w1\<lparr>peers := P\<rparr>) ys me pp (q1\<lparr>timestamp := t\<rparr>)" using sv(1) ls(2) by (simp add: serving_def)
  moreover have "roster (w1\<lparr>peers := P\<rparr>) ys = roster v ys" using sv(3) by (simp add: roster_def)
  ultimately show ?thesis using step sv(4,7) q0 by (auto intro: exI [of _ "q1\<lparr>timestamp := t\<rparr>"])
qed

text \<open>
  C8. The periodic broadcast keeps a link alive. A proxy runs its broadcast at time \<open>t\<close>; what
  was thereby sent to a member that is still in its list is handed to that member, which
  knows the proxies that are named in it. The packet passes the length check; afterwards the
  timestamp the receiver keeps for the sender is \<open>t\<close>, its list is unchanged, the lock is free
  and its thread stands in front of the bandwidth probe that follows.
\<close>

theorem broadcast_refreshes_link:
  assumes "wf_world w xs" and "xs \<noteq> []" and "unlocked w" and "wf_peers w xs" and "ls_len (length xs) < 65536"
    and "inj_on (fd_of w) (set xs)" and "clocks (kern w) = t # ts"
    and "Link_State_Broadcast me' w = Ret () w'" and "p \<in> set xs" and "peers w' p \<noteq> None"
    and "serving v ys me pp q" and "answering (kern v)" and "unlocked v" and "\<And>n. length (junk n) = n"
    and "stream (p_rio q) (kern v) = drop (length (sent (kern w) (fd_of w p))) (sent (kern w') (fd_of w p)) @ rest"
    and "tapMAC (linkState w) \<noteq> tapMAC (linkState v)" and "roster v ys (tapMAC (linkState w)) = Some ps"
    and "\<And>p. p \<in> set xs \<Longrightarrow> tapMAC (ls_of w p) \<noteq> tapMAC (linkState w) \<and>
      (tapMAC (ls_of w p) = tapMAC (linkState v) \<or> roster v ys (tapMAC (ls_of w p)) \<noteq> None)"
  shows "\<exists>h v' q' qs t'. eth_step fl junk me pp hdr v = Ret h v' \<and> serving v' ys me pp q' \<and>
    stream (p_rio q') (kern v') = enc_probe_req (probe_packet t') @ rest \<and>
    roster v' ys = roster v ys \<and> peers v' ps = Some qs \<and> timestamp qs = t \<and> sent (kern v') = sent (kern v)"
proof -
  let ?w = "w\<lparr>now := t\<rparr>"
  obtain zs where "\<forall>p\<in>set xs - set zs. peers w' p = None" "\<forall>p\<in>set zs. \<exists>q t'. peers w p = Some q \<and> peers w' p = Some (q\<lparr>probe_ts := t'\<rparr>) \<and>
      sent (kern w') (fd_of w p) = sent (kern w) (fd_of w p) @ broadcast_packet ?w xs @ enc_probe_req (probe_packet t')"
    using broadcast_run [OF assms(1-7), of me'] unfolding assms(8) run.case by blast
  then obtain t' where "sent (kern w') (fd_of w p) = sent (kern w) (fd_of w p) @ broadcast_packet ?w xs @ enc_probe_req (probe_packet t')"
    using assms(9,10) by (metis DiffI)
  then have st: "stream (p_rio q) (kern v) = broadcast_packet ?w xs @ enc_probe_req (probe_packet t') @ rest" using assms(15) by simp
  have ls: "ls_of ?w p = ls_of w p" for p by (simp add: ls_of_def)
  have pe: "wf_peers ?w xs" using assms(4) by (simp add: wf_peers_def ls)
  from broadcast_packet_received [OF pe wf_worldD(3) [OF assms(1)] assms(2,5,11-14) st, of ps fl hdr] assms(16-18) show ?thesis
    by (simp add: ls) blast
qed

section \<open>Concrete runs\<close>

text \<open>A proxy with the address of peer 1 and one member, peer 0, whose frame is the broadcast frame of the demonstration.\<close>

definition sender_os :: os where
  "sender_os = demo_os\<lparr>reads := [Inr demo_bcast], writes := [Inr 64], fcntls := [None, None]\<rparr>"

definition sender_world :: world where
  "sender_world = (many_world 1)\<lparr>kern := sender_os, linkState := demo_ls 1\<rparr>"

lemma sender_world_simps:
  "wf_world sender_world [0]" "lock sender_world = rw_init" "wf_rio (rio_tap sender_world)" "peers sender_world 0 = Some (many_peer 0)"
  "kern sender_world = sender_os" "rio_tap sender_world = demo_rio" "linkState sender_world = demo_ls 1" "now sender_world = zero_ts"
proof -
  have "wf_world (many_world 1) [0]" using many_world_wf [of 1] by simp
  then show "wf_world sender_world [0]" by (simp add: sender_world_def wf_world_def)
qed (simp_all add: sender_world_def many_world_fields demo_world_def wf_rio_def demo_rio_def)

lemma demo_bcast_facts:
  "demo_bcast \<noteq> []" "length demo_bcast = 17" "take ETH_ALEN demo_bcast = BROADCAST_ADDR" "length (data_packet demo_bcast) = 21"
  by (simp_all add: demo_bcast_def BROADCAST_ADDR_def demo_mac_def size_defs data_packet_def enc_proxy_header_def codec_simps)

lemma sender_read:
  "\<exists>rp. rio_read demo_rio (PROXY_HLEN + ETH_FRAME_LEN) sender_os =
     Ret (int (length demo_bcast), demo_bcast, rp) (sender_os\<lparr>polls := [None, None, None], reads := []\<rparr>)"
  using demo_bcast_facts(1,2)
  by (simp add: rio_read_def sender_os_def demo_os_def demo_rio_def Wait_def RIO_BUFSZ_def size_defs Let_def)

lemma HASH_ITER_single:
  assumes "uh_rep (members w) [p]" and "body p w = Ret () w'"
  shows "HASH_ITER body w = Ret () w'"
proof -
  have "next_of (Some p) w = Some None" using assms(1) next_of_rep [of w "[]" p "[]"] by simp
  moreover have "head (members w) = Some p" using assms(1) by (auto simp: uh_rep_def)
  ultimately show ?thesis using assms(2) by (auto simp: HASH_ITER_def hash_iter_loop.simps next_of_def)
qed

text \<open>A round of the tap thread of that proxy when its kernel answers.\<close>

lemma sender_round:
  assumes "errno s \<noteq> EINTR" and "polls s = None # None # ps" and "reads s = Inr f # rs" and "fcntls s = None # None # fs" and "writes s = Inr 64 # ws"
    and "wf_rio rp" and "cnt rp \<le> 0" and "rfd rp = 3" and f: "f \<noteq> []" "length f \<le> 60" "take ETH_ALEN f = BROADCAST_ADDR"
  shows "\<exists>rp' s' s1. rio_read rp (PROXY_HLEN + ETH_FRAME_LEN) s = Ret (int (length f), f, rp') s1 \<and>
    tap_step 7 (sender_world\<lparr>kern := s, rio_tap := rp\<rparr>) = Ret () (sender_world\<lparr>kern := s', rio_tap := rp'\<rparr>) \<and> wf_rio rp' \<and> cnt rp' \<le> 0 \<and> rfd rp' = 3 \<and>
    errno s' \<noteq> EINTR \<and> polls s' = ps \<and> reads s' = rs \<and> fcntls s' = fs \<and> writes s' = ws \<and> sent s' = (sent s)(0 := sent s 0 @ data_packet f)"
proof -
  let ?pkt = "data_packet f" and ?s1 = "s\<lparr>polls := None # ps, reads := rs\<rparr>" and ?rp = "rp\<lparr>cnt := 0, bufp := 0, buf := f @ drop (length f) (buf rp)\<rparr>"
  have lf: "length f \<le> RIO_BUFSZ" "length f < PROXY_HLEN + ETH_FRAME_LEN" "length f \<le> ETH_FRAME_LEN" using f(2) by (simp_all add: RIO_BUFSZ_def size_defs)
  have rd: "rio_read rp (PROXY_HLEN + ETH_FRAME_LEN) s = Ret (int (length f), f, ?rp) ?s1"
    using assms(1-3,7) f(1) lf by (simp add: rio_read_def Wait_def Let_def)
  let ?v = "sender_world\<lparr>kern := s, rio_tap := rp\<rparr>"
  let ?w = "?v\<lparr>kern := ?s1, rio_tap := ?rp, lock := write_locked 7\<rparr>"
  have rep: "uh_rep (members sender_world) [0]" using sender_world_simps(1) by (simp add: wf_world_def)
  have "length (take ETH_ALEN f) = ETH_ALEN" unfolding f(3) by (simp add: BROADCAST_ADDR_def)
  then have "ETH_ALEN \<le> length f" by simp
  then have tk: "take ETH_ALEN (f @ pad) = BROADCAST_ADDR" for pad using f(3) by simp
  have pl: "length ?pkt \<le> 64" "?pkt \<noteq> []" using f(1,2) by (simp_all add: data_packet_def enc_proxy_header_def codec_simps)
  let ?s = "?s1\<lparr>fcntls := fs, polls := ps, writes := ws, sent := (sent ?s1)(0 := sent ?s1 0 @ ?pkt), fd_lock := (fd_lock ?s1)(0 := F_UNLCK)\<rparr>"
  have wr: "rio_write (p_rio (many_peer 0)) ?pkt ?s1 = Ret (int (length ?pkt)) ?s"
    using rio_write_one [of ?s1 fs ps 64 ws ?pkt "p_rio (many_peer 0)"] pl assms(1,4,5) by (simp add: many_peer_def)
  have "send_or_drop ?pkt 0 ?w = Ret () (?w\<lparr>kern := ?s\<rparr>)"
    using wr pl(2) sender_world_simps(4) by (simp add: send_or_drop_def peer_write_def get_peer_def in_kern_def)
  then have it: "HASH_ITER (send_or_drop ?pkt) ?w = Ret () (?w\<lparr>kern := ?s\<rparr>)" using rep by (intro HASH_ITER_single) simp_all
  have l0: "lock ?v = rw_init" and rd0: "rio_read (rio_tap ?v) (PROXY_HLEN + ETH_FRAME_LEN) (kern ?v) = Ret (int (length f), f, ?rp) ?s1"
    using sender_world_simps(2) rd by simp_all
  have "tap_step 7 ?v = Ret () (sender_world\<lparr>kern := ?s, rio_tap := ?rp\<rparr>)"
    unfolding tap_step_frame [OF l0 rd0 f(1) lf(3), of 7] tk using it sender_world_simps(2) by (simp add: in_lock_def)
  moreover have "wf_rio ?rp" using assms(6) lf(1) by (simp add: wf_rio_def)
  ultimately show ?thesis using rd assms(1,8) by (intro exI [of _ ?rp] exI [of _ ?s] exI [of _ ?s1]) simp
qed

lemma sender_step:
  "\<exists>w'. tap_step 7 sender_world = Ret () w' \<and> peers w' 0 \<noteq> None \<and> sent (kern w') = (\<lambda>_. [])(0 := data_packet demo_bcast)"
proof -
  have "sender_world\<lparr>kern := sender_os, rio_tap := demo_rio\<rparr> = sender_world"
    by (rule world.equality) (simp_all add: sender_world_simps(5,6))
  then show ?thesis
    using sender_round [of sender_os "[None, None]" demo_bcast "[]" "[]" "[]" demo_rio] demo_bcast_facts sender_world_simps(3,4,6)
    by (auto simp: sender_os_def demo_os_def demo_rio_def)
qed

theorem tunnel_delivers_frame_witness:
  "case eth_step (\<lambda>s n. (0, 0)) demo_junk 0 1 \<lparr>ph_type = 0, ph_length = 0\<rparr> (demo_eth_world (data_packet demo_bcast)) of
      Ret _ v' \<Rightarrow> sent (kern v') = (\<lambda>_. [])(3 := demo_bcast)
    | Stop h v' \<Rightarrow> h = Waiting \<or> h = Cancelled"
proof -
  obtain rp s where rd: "rio_read (rio_tap sender_world) (PROXY_HLEN + ETH_FRAME_LEN) (kern sender_world) =
      Ret (int (length demo_bcast), demo_bcast, rp) s"
    using sender_read sender_world_simps(5,6) by auto
  obtain w' where w': "tap_step 7 sender_world = Ret () w'" "peers w' 0 \<noteq> None" "sent (kern w') = (\<lambda>_. [])(0 := data_packet demo_bcast)"
    using sender_step by blast
  have fd: "fd_of sender_world 0 = 0" using sender_world_simps(4) by (simp add: fd_of_def many_peer_def)
  have "sent sender_os = (\<lambda>_. [])" by (simp add: sender_os_def demo_os_def)
  moreover have pk: "data_packet demo_bcast \<noteq> []" "length (data_packet demo_bcast) \<le> RIO_BUFSZ"
    using demo_bcast_facts(4) by (auto simp: RIO_BUFSZ_def size_defs)
  moreover note st = demo_eth_stream [OF pk]
  ultimately have "stream (p_rio (demo_peer 1)) (kern (demo_eth_world (data_packet demo_bcast))) =
      drop (length (sent (kern sender_world) (fd_of sender_world 0))) (sent (kern w') (fd_of sender_world 0)) @ []"
    using w'(3) fd by (simp add: sender_world_simps(5))
  from tunnel_delivers_frame [OF sender_world_simps(1,2) _ sender_world_simps(3) rd _ demo_bcast_facts(3) w'(1) _ w'(2) demo_serving st(2) _ this,
      of demo_junk "\<lambda>s n. (0, 0)" "\<lparr>ph_type = 0, ph_length = 0\<rparr>"]
  show ?thesis
    using demo_bcast_facts(2)
    by (auto simp: demo_junk_def size_defs split: run.splits) (auto simp: demo_eth_world_def demo_world_def demo_os_def demo_rio_def)
qed

text \<open>The same proxy with two frames to forward, and a receiver that takes both.\<close>

definition two_frames :: "bytes list" where
  "two_frames = [demo_bcast, demo_bcast @ [7]]"

definition two_world :: world where
  "two_world = sender_world\<lparr>kern := sender_os\<lparr>reads := map Inr two_frames, writes := [Inr 64, Inr 64], fcntls := replicate 4 None\<rparr>, rio_tap := demo_rio\<rparr>"

definition two_receiver :: world where
  "two_receiver = (demo_eth_world [])\<lparr>kern := demo_os\<lparr>reads := [Inr (concat (map data_packet two_frames))], fcntls := replicate 4 None,
     writes := [Inr ETH_FRAME_LEN, Inr ETH_FRAME_LEN]\<rparr>\<rparr>"

lemma two_rounds:
  "\<exists>w'. tap_handler 2 7 two_world = Ret () w' \<and> tap_frames 2 7 two_world = two_frames \<and> peers w' 0 \<noteq> None \<and>
     sent (kern w') 0 = concat (map data_packet two_frames)"
proof -
  let ?s = "kern two_world"
  have b2: "demo_bcast @ [7] \<noteq> []" "length (demo_bcast @ [7]) \<le> 60" "take ETH_ALEN (demo_bcast @ [7]) = BROADCAST_ADDR"
    using demo_bcast_facts(2,3) by (auto simp: size_defs)
  obtain rp s' s1 where r1: "rio_read demo_rio (PROXY_HLEN + ETH_FRAME_LEN) ?s = Ret (int (length demo_bcast), demo_bcast, rp) s1"
      "tap_step 7 two_world = Ret () (sender_world\<lparr>kern := s', rio_tap := rp\<rparr>)" "wf_rio rp" "cnt rp \<le> 0" "rfd rp = 3" "errno s' \<noteq> EINTR" "polls s' = [None, None]"
      "reads s' = [Inr (demo_bcast @ [7])]" "fcntls s' = [None, None]" "writes s' = [Inr 64]" "sent s' = (\<lambda>_. [])(0 := data_packet demo_bcast)"
    using sender_round [of ?s "[None, None]" demo_bcast "[Inr (demo_bcast @ [7])]" "[None, None]" "[Inr 64]" demo_rio] demo_bcast_facts(1-3)
    by (auto simp: two_world_def two_frames_def sender_os_def demo_os_def demo_rio_def wf_rio_def numeral_eq_Suc)
  obtain rp2 s2 s3 where r2: "rio_read rp (PROXY_HLEN + ETH_FRAME_LEN) s' = Ret (int (length (demo_bcast @ [7])), demo_bcast @ [7], rp2) s3"
      "tap_step 7 (sender_world\<lparr>kern := s', rio_tap := rp\<rparr>) = Ret () (sender_world\<lparr>kern := s2, rio_tap := rp2\<rparr>)" "sent s2 = (sent s')(0 := sent s' 0 @ data_packet (demo_bcast @ [7]))"
    using sender_round [OF r1(6-8) _ _ r1(3-5) b2, of "[]" "[]"] r1(9,10) by auto
  have "tap_handler 2 7 two_world = Ret () (sender_world\<lparr>kern := s2, rio_tap := rp2\<rparr>)" using r1(2) r2(2) by (simp add: numeral_2_eq_2)
  moreover have "tap_frames 2 7 two_world = two_frames" using r1(1,2) r2(1,2) by (simp add: numeral_2_eq_2 two_frames_def two_world_def)
  moreover have "sent s2 0 = concat (map data_packet two_frames)" using r2(3) r1(11) by (simp add: two_frames_def)
  ultimately show ?thesis using sender_world_simps(4) by auto
qed

theorem tunnel_delivers_frames_witness:
  "\<exists>hdr' v'. eth_handler 2 (\<lambda>s n. (0, 0)) demo_junk 0 1 \<lparr>ph_type = 0, ph_length = 0\<rparr> two_receiver = Ret hdr' v' \<and>
     sent (kern v') = (\<lambda>_. [])(3 := demo_bcast @ demo_bcast @ [7])"
proof -
  obtain w' where w': "tap_handler 2 7 two_world = Ret () w'" "tap_frames 2 7 two_world = two_frames" "peers w' 0 \<noteq> None"
      "sent (kern w') 0 = concat (map data_packet two_frames)" using two_rounds by blast
  have w: "wf_world two_world [0]" "lock two_world = rw_init" "wf_rio (rio_tap two_world)" "fd_of two_world 0 = 0" "sent (kern two_world) 0 = []"
    using sender_world_simps(1,2,4) by (auto simp: two_world_def wf_world_def wf_rio_def demo_rio_def fd_of_def many_peer_def sender_os_def demo_os_def)
  have bc: "\<forall>f \<in> set (tap_frames 2 7 two_world). take ETH_ALEN f = BROADCAST_ADDR" using demo_bcast_facts(2,3) by (auto simp: w'(2) two_frames_def size_defs)
  let ?bs = "concat (map data_packet two_frames)"
  have bs: "?bs \<noteq> []" "length ?bs \<le> RIO_BUFSZ" using demo_bcast_facts(2,4)
    by (auto simp: two_frames_def RIO_BUFSZ_def size_defs data_packet_def enc_proxy_header_def codec_simps)
  have v: "serving two_receiver [1, 2] 0 1 (demo_peer 1)" using demo_serving [of "[]"] by (auto simp: serving_def two_receiver_def wf_world_def)
  have k: "answering (kern two_receiver)" "taking 2 (kern two_receiver)"
    using bs(1) by (auto simp: two_receiver_def answering_def taking_def spare_def demo_os_def intro!: exI [of _ "[ETH_FRAME_LEN, ETH_FRAME_LEN]"])
  have st: "stream (p_rio (demo_peer 1)) (kern two_receiver) = drop (length (sent (kern two_world) (fd_of two_world 0))) (sent (kern w') (fd_of two_world 0)) @ []"
    using bs w'(4) w(4,5) by (simp add: stream_def two_receiver_def demo_peer_def demo_rio_def)
  from tunnel_delivers_frames [OF w(1,2) _ w(3) w'(1) bc _ w'(3) v k _ st, of demo_junk "\<lambda>s n. (0, 0)" "\<lparr>ph_type = 0, ph_length = 0\<rparr>"]
  show ?thesis by (auto simp: demo_junk_def w'(2) two_frames_def two_receiver_def demo_eth_world_def demo_world_def demo_os_def demo_rio_def)
qed

theorem leave_announcement_removes_member_witness:
  "\<exists>v'. eth_step (\<lambda>s n. (0, 0)) demo_junk 0 1 \<lparr>ph_type = 0, ph_length = 0\<rparr>
     (demo_eth_world (enc_leave_packet (leave_packet_of (demo_ls 1) zero_ts))) = Stop Cancelled v' \<and> wf_world v' [2]"
proof -
  let ?bs = "enc_leave_packet (leave_packet_of (demo_ls 1) zero_ts)"
  have "length ?bs = 24"
    using leave_packet_is_packet(1,3) [OF demo_ls_wf(1), of 1 zero_ts] by (simp add: packet_def enc_proxy_header_def codec_simps)
  then have bs: "?bs \<noteq> []" "length ?bs \<le> RIO_BUFSZ" by (auto simp: RIO_BUFSZ_def size_defs)
  note st = demo_eth_stream [OF bs]
  have "roster (demo_eth_world ?bs) [1, 2] (tapMAC (demo_ls 1)) = Some 1"
    using demo_roster(1) by (simp add: demo_eth_world_def roster_def demo_ls_def)
  from leave_announcement_removes_member [OF demo_serving st(2) _ _ st(1) this, of demo_junk "\<lambda>s n. (0, 0)" "\<lparr>ph_type = 0, ph_length = 0\<rparr>"]
  show ?thesis by (auto simp: demo_junk_def)
qed

lemma sender_peers: "wf_peers sender_world [0]" "ls_of sender_world 0 = demo_ls 0" "fd_of sender_world 0 = 0"
  by (simp_all add: wf_peers_def ls_of_def fd_of_def sender_world_simps many_peer_def demo_rio_def)

lemma single_packet_length: "wf_peers w [p] \<Longrightarrow> length (broadcast_packet w [p]) = 122"
  using broadcast_payload_length [of w "[p]"] by (simp add: broadcast_packet_def packet_def enc_proxy_header_def codec_simps ls_len_def)

text \<open>The broadcast of that proxy, one second after the epoch; the kernel takes both packets.\<close>

definition ticking_world :: world where
  "ticking_world = sender_world\<lparr>kern := sender_os\<lparr>clocks := [\<lparr>tv_sec = 1, tv_nsec = 0\<rparr>, zero_ts],
     writes := [Inr 200, Inr 200], fcntls := [None, None, None, None]\<rparr>\<rparr>"

definition tick :: timespec where "tick = \<lparr>tv_sec = 1, tv_nsec = 0\<rparr>"

lemma ticking_world_simps:
  "wf_world ticking_world [0]" "unlocked ticking_world" "wf_peers ticking_world [0]" "clocks (kern ticking_world) = [tick, zero_ts]"
  "fd_of ticking_world 0 = 0" "ls_of ticking_world 0 = demo_ls 0" "linkState ticking_world = demo_ls 1"
  "sent (kern ticking_world) = (\<lambda>_. [])" "peers ticking_world 0 = Some (many_peer 0)"
  using sender_world_simps(1) sender_peers
  by (auto simp: ticking_world_def tick_def wf_world_def unlocked_def wf_peers_def ls_of_def fd_of_def sender_world_def many_world_fields
      many_peer_def zero_peer_def sender_os_def demo_os_def split: if_splits)

lemma ticking_broadcast:
  defines "pkt \<equiv> broadcast_packet (ticking_world\<lparr>now := tick\<rparr>) [0]"
  shows "\<exists>w'. Link_State_Broadcast 7 ticking_world = Ret () w' \<and> peers w' 0 \<noteq> None \<and> sent (kern w') = (\<lambda>_. [])(0 := pkt @ enc_probe_req (probe_packet zero_ts))"
proof -
  let ?k = "(kern ticking_world)\<lparr>clocks := [zero_ts]\<rparr>" and ?pr = "enc_probe_req (probe_packet zero_ts)" and ?rio = "p_rio (many_peer 0)"
  let ?w1 = "ticking_world\<lparr>alarm := link_period (config ticking_world), kern := ?k, now := tick, block := pkt\<rparr>"
  have "wf_peers (ticking_world\<lparr>now := tick\<rparr>) [0]" using ticking_world_simps(3) by (simp add: wf_peers_def ls_of_def)
  then have len: "length pkt = 122" by (simp add: pkt_def single_packet_length)
  have plen: "length ?pr = 12" by (simp add: enc_probe_req_def probe_packet_def enc_proxy_header_def enc_timespec_def codec_simps)
  have ne: "pkt \<noteq> []" "?pr \<noteq> []" using len plen by auto
  have rep: "uh_rep (members ticking_world) [0]" using ticking_world_simps(1) by (simp add: wf_world_def)
  obtain s1 where s1: "rio_write ?rio pkt ?k = Ret 122 s1" "sent s1 = (\<lambda>_. [])(0 := pkt)" "errno s1 = E_NONE" "fcntls s1 = [None, None]"
      "polls s1 = [None, None, None]" "writes s1 = [Inr 200]" "clocks s1 = [zero_ts]"
    using rio_write_one [of ?k "[None, None]" "[None, None, None]" 200 "[Inr 200]" pkt ?rio] len ne(1)
    by (auto simp: ticking_world_def sender_os_def demo_os_def many_peer_def)
  have sd: "broadcast_send (length pkt) 0 ?w1 = Ret () (?w1\<lparr>kern := s1\<rparr>)"
    using s1(1) ticking_world_simps(9) by (simp add: broadcast_send_def load_def peek_def peer_write_def get_peer_def in_kern_def)
  let ?w2 = "?w1\<lparr>kern := s1\<rparr>" and ?q = "(many_peer 0)\<lparr>probe_ts := zero_ts\<rparr>"
  obtain s2 where s2: "rio_write (p_rio ?q) ?pr (s1\<lparr>clocks := []\<rparr>) = Ret 12 s2" "sent s2 = (\<lambda>_. [])(0 := pkt @ ?pr)"
    using rio_write_one [of "s1\<lparr>clocks := []\<rparr>" "[]" "[None, None]" 200 "[]" ?pr ?rio] s1(2-6) plen ne(2)
    by (auto simp: many_peer_def)
  have "probe_send 0 ?w2 = Ret () (?w2\<lparr>kern := s2, peers := (peers ticking_world)(0 \<mapsto> ?q)\<rparr>)"
    using s1(7) s2(1) ticking_world_simps(9)
    by (simp add: probe_send_def clock_gettime_def set_peer_def get_peer_def peer_write_def in_kern_def)
  then have pr: "HASH_ITER probe_send ?w2 = Ret () (?w2\<lparr>kern := s2, peers := (peers ticking_world)(0 \<mapsto> ?q)\<rparr>)"
    using rep by (intro HASH_ITER_single) simp_all
  have "HASH_ITER (broadcast_send (length pkt)) ?w1 = Ret () ?w2" using rep sd by (intro HASH_ITER_single) simp_all
  then show ?thesis
    using broadcast_to_loops [OF ticking_world_simps(1) _ ticking_world_simps(2,3) _ ticking_world_simps(4), of 7] pr s2(2)
    by (simp add: pkt_def ls_len_def)
qed

theorem broadcast_refreshes_link_witness:
  "\<exists>h v' qs. eth_step (\<lambda>s n. (0, 0)) demo_junk 0 1 \<lparr>ph_type = 0, ph_length = 0\<rparr>
     (demo_eth_world (broadcast_packet (ticking_world\<lparr>now := tick\<rparr>) [0] @ enc_probe_req (probe_packet zero_ts))\<lparr>linkState := demo_ls 0\<rparr>) = Ret h v' \<and>
     peers v' 1 = Some qs \<and> timestamp qs = tick"
proof -
  let ?bs = "broadcast_packet (ticking_world\<lparr>now := tick\<rparr>) [0] @ enc_probe_req (probe_packet zero_ts)"
  let ?v = "demo_eth_world ?bs\<lparr>linkState := demo_ls 0\<rparr>"
  obtain w' where w': "Link_State_Broadcast 7 ticking_world = Ret () w'" "peers w' 0 \<noteq> None" "sent (kern w') = (\<lambda>_. [])(0 := ?bs)"
    using ticking_broadcast by blast
  have "wf_peers (ticking_world\<lparr>now := tick\<rparr>) [0]" using ticking_world_simps(3) by (simp add: wf_peers_def ls_of_def)
  then have "length ?bs = 134"
    by (simp add: single_packet_length enc_probe_req_def probe_packet_def enc_proxy_header_def enc_timespec_def codec_simps)
  then have bs: "?bs \<noteq> []" "length ?bs \<le> RIO_BUFSZ" by (auto simp: RIO_BUFSZ_def size_defs simp del: append_is_Nil_conv)
  note st = demo_eth_stream [OF bs]
  have sv: "serving ?v [1, 2] 0 1 (demo_peer 1)" using demo_serving [of ?bs] unfolding serving_def wf_world_def by auto
  have ul: "unlocked ?v" using demo_records(4) by (simp add: unlocked_def demo_eth_world_def)
  have ro: "roster ?v [1, 2] (demo_mac 1) = Some 1" using demo_roster(1) by (simp add: demo_eth_world_def roster_def)
  have mac: "tapMAC (demo_ls i) = demo_mac i" "demo_mac 1 \<noteq> demo_mac 0" for i by (simp_all add: demo_ls_def demo_mac_def)
  have stm: "stream (p_rio (demo_peer 1)) (kern ?v) =
      drop (length (sent (kern ticking_world) (fd_of ticking_world 0))) (sent (kern w') (fd_of ticking_world 0)) @ []"
    using st(1) w'(3) ticking_world_simps(5,8) by simp
  show ?thesis
    using broadcast_refreshes_link [OF ticking_world_simps(1) _ ticking_world_simps(2,3) _ _ ticking_world_simps(4) w'(1) _ w'(2) sv _ ul _ stm,
        of demo_junk 1 "\<lambda>s n. (0, 0)" "\<lparr>ph_type = 0, ph_length = 0\<rparr>"] st(2) ro mac ticking_world_simps(6,7)
    by (simp add: demo_junk_def ls_len_def del: One_nat_def) metis
qed

end
